(* ===== verification/Prelude.thy ===== *)
theory Prelude
  imports Main "HOL-Library.Word"
begin

text \<open>
  Shared vocabulary of the development: the machine integers of the C programs, the C string
  functions they call (\<open>strlen\<close>, \<open>strchr\<close>, \<open>atoi\<close>, the \<open>%ld\<close> conversion), fixed-size
  character arrays with explicit out-of-bounds behaviour, and the counting lemmas that the
  multi-threaded components use to sum over their threads.
\<close>

named_theorems thread_simps \<open>weights and successor functions of program counters\<close>

named_theorems inv_defs \<open>definitions of state invariants\<close>

section \<open>Sums over threads\<close>

text \<open>
  \<open>tot w f n\<close> adds the weight \<open>w\<close> of the program counters \<open>f 0, ..., f (n - 1)\<close>. Moving one
  thread changes the sum by the difference of two weights.
\<close>

definition tot :: "('a \<Rightarrow> int) \<Rightarrow> (nat \<Rightarrow> 'a) \<Rightarrow> nat \<Rightarrow> int" where
  "tot w f n = (\<Sum>i<n. w (f i))"

lemma tot_upd [simp]:
  assumes "t < n"
  shows "tot w (f(t := x)) n = tot w f n - w (f t) + w x"
proof -
  have split: "tot w g n = w (g t) + (\<Sum>i\<in>{..<n} - {t}. w (g i))" for g
    unfolding tot_def using assms by (simp add: sum.remove)
  have "(\<Sum>i\<in>{..<n} - {t}. w ((f(t := x)) i)) = (\<Sum>i\<in>{..<n} - {t}. w (f i))"
    by (rule sum.cong) auto
  then show ?thesis
    using split [of f] split [of "f(t := x)"] by simp
qed

lemma tot_const [simp]: "tot w (\<lambda>_. c) n = int n * w c"
  by (simp add: tot_def)

lemma tot_nonneg: "(\<And>x. 0 \<le> w x) \<Longrightarrow> 0 \<le> tot w f n"
  by (simp add: tot_def sum_nonneg)

lemma tot_ge_one_thread: "(\<And>x. 0 \<le> w x) \<Longrightarrow> t < n \<Longrightarrow> w (f t) \<le> tot w f n"
  unfolding tot_def by (rule member_le_sum) auto

lemma tot_zero: "(\<And>t. t < n \<Longrightarrow> w (f t) = 0) \<Longrightarrow> tot w f n = 0"
  by (simp add: tot_def)

lemma tot_pos_ex: "0 < tot w f n \<Longrightarrow> \<exists>t<n. 0 < w (f t)"
  unfolding tot_def by (metis lessThan_iff not_le sum_nonpos)

lemma tot_two_threads:
  assumes "\<And>x. 0 \<le> w x" and "t < n" and "u < n" and "t \<noteq> u"
  shows "w (f t) + w (f u) \<le> tot w f n"
proof -
  have "w (f t) + w (f u) = (\<Sum>i\<in>{t, u}. w (f i))"
    using assms(4) by simp
  also have "\<dots> \<le> tot w f n"
    unfolding tot_def using assms by (intro sum_mono2) auto
  finally show ?thesis .
qed

section \<open>Machine integers\<close>

text \<open>
  \<open>int\<close> is 32 bits and \<open>long\<close> 64 bits on the systems the programs target. Signed values are
  mathematical integers; \<open>c_int\<close> and \<open>c_uint\<close> are the conversions to \<open>int\<close> and
  \<open>unsigned int\<close>, with the wrap-around written out.
\<close>

definition INT_MAX :: int where "INT_MAX = 2147483647"

definition c_int :: "int \<Rightarrow> int" where
  "c_int x = (x + 2147483648) mod 4294967296 - 2147483648"

definition c_uint :: "int \<Rightarrow> int" where
  "c_uint x = x mod 4294967296"

definition c_ushort :: "int \<Rightarrow> int" where
  "c_ushort x = x mod 65536"

lemma c_int_range: "- 2147483648 \<le> c_int x \<and> c_int x \<le> INT_MAX"
proof -
  have "0 \<le> (x + 2147483648) mod 4294967296" "(x + 2147483648) mod 4294967296 < 4294967296"
    by simp_all
  then show ?thesis by (simp add: c_int_def INT_MAX_def)
qed

lemma c_int_id: "- 2147483648 \<le> x \<Longrightarrow> x \<le> INT_MAX \<Longrightarrow> c_int x = x"
  by (simp add: c_int_def INT_MAX_def)

lemma c_uint_id: "0 \<le> x \<Longrightarrow> x < 4294967296 \<Longrightarrow> c_uint x = x"
  by (simp add: c_uint_def)

lemma c_ushort_range: "0 \<le> c_ushort x \<and> c_ushort x < 65536"
  by (simp add: c_ushort_def)

section \<open>C strings\<close>

text \<open>A C array of characters is a list; a C string is its prefix before the first NUL.\<close>

abbreviation NUL :: char where "NUL \<equiv> CHR 0x00"

abbreviation NL :: char where "NL \<equiv> CHR 0x0A"

definition cstr :: "char list \<Rightarrow> string" where
  "cstr buf = takeWhile (\<lambda>c. c \<noteq> NUL) buf"

definition strlen :: "char list \<Rightarrow> nat" where
  "strlen buf = length (cstr buf)"

text \<open>\<open>strchr(s, c)\<close>: the index of the first \<open>c\<close> in the string, if there is one.\<close>

fun strchr :: "string \<Rightarrow> char \<Rightarrow> nat option" where
  "strchr [] c = None"
| "strchr (x # xs) c = (if x = c then Some 0 else map_option Suc (strchr xs c))"

lemma strchr_None: "strchr s c = None \<longleftrightarrow> c \<notin> set s"
  by (induction s) auto

lemma strchr_Some:
  "strchr s c = Some k \<Longrightarrow> k < length s \<and> s ! k = c \<and> c \<notin> set (take k s)"
  by (induction s arbitrary: k) (auto split: if_splits)

lemma strchr_append: "c \<notin> set s \<Longrightarrow> strchr (s @ c # t) c = Some (length s)"
  by (induction s) auto

lemma cstr_NUL_free: "NUL \<notin> set (cstr buf)"
  unfolding cstr_def by (metis (mono_tags, lifting) set_takeWhileD)

lemma cstr_append_NUL [simp]: "NUL \<notin> set s \<Longrightarrow> cstr (s @ NUL # r) = s"
  unfolding cstr_def by (induction s) auto

lemma cstr_no_NUL [simp]: "NUL \<notin> set s \<Longrightarrow> cstr s = s"
  unfolding cstr_def by (induction s) auto

lemma strlen_le: "strlen buf \<le> length buf"
  by (simp add: strlen_def cstr_def length_takeWhile_le)

subsection \<open>Decimal numbers: atoi, atol and the %d and %ld conversions\<close>

definition is_digit :: "char \<Rightarrow> bool" where
  "is_digit c \<longleftrightarrow> 48 \<le> (of_char c :: nat) \<and> (of_char c :: nat) \<le> 57"

definition digit_val :: "char \<Rightarrow> int" where
  "digit_val c = int (of_char c :: nat) - 48"

definition is_space :: "char \<Rightarrow> bool" where
  "is_space c \<longleftrightarrow> c \<in> {CHR '' '', CHR 0x09, CHR 0x0A, CHR 0x0B, CHR 0x0C, CHR 0x0D}"

fun atol_digits :: "int \<Rightarrow> string \<Rightarrow> int" where
  "atol_digits acc [] = acc"
| "atol_digits acc (c # cs) = (if is_digit c then atol_digits (10 * acc + digit_val c) cs else acc)"

fun atol_sign :: "string \<Rightarrow> int" where
  "atol_sign (c # cs) =
     (if c = CHR ''-'' then - atol_digits 0 cs
      else if c = CHR ''+'' then atol_digits 0 cs
      else atol_digits 0 (c # cs))"
| "atol_sign [] = 0"

text \<open>
  \<open>atol\<close> skips white space, reads an optional sign and then digits up to the first other
  character; without digits it is 0. \<open>atoi\<close> converts the result to \<open>int\<close>.
\<close>

definition atol :: "string \<Rightarrow> int" where
  "atol s = atol_sign (dropWhile is_space s)"

definition atoi :: "string \<Rightarrow> int" where
  "atoi s = c_int (atol s)"

definition digit_char :: "nat \<Rightarrow> char" where
  "digit_char d = char_of (48 + d)"

fun show_nat :: "nat \<Rightarrow> string" where
  "show_nat n = (if n < 10 then [digit_char n] else show_nat (n div 10) @ [digit_char (n mod 10)])"

declare show_nat.simps [simp del]

definition show_int :: "int \<Rightarrow> string" where
  "show_int i = (if i < 0 then CHR ''-'' # show_nat (nat (- i)) else show_nat (nat i))"

lemma of_char_digit: "d < 10 \<Longrightarrow> of_char (digit_char d) = (48 + d :: nat)"
  by (simp add: digit_char_def of_char_of)

lemma is_digit_digit_char [simp]: "d < 10 \<Longrightarrow> is_digit (digit_char d)"
  by (simp add: is_digit_def of_char_digit)

lemma digit_val_digit_char [simp]: "d < 10 \<Longrightarrow> digit_val (digit_char d) = int d"
  by (simp add: digit_val_def of_char_digit)

lemma show_nat_digits: "\<forall>c \<in> set (show_nat n). is_digit c"
proof (induction n rule: show_nat.induct)
  case (1 n)
  then show ?case by (subst show_nat.simps) (auto simp: ball_Un)
qed

lemma show_nat_nonempty [simp]: "show_nat n \<noteq> []"
  by (subst show_nat.simps) simp

text \<open>Reading back what \<open>%ld\<close> prints, up to the first character that is no digit.\<close>

definition digit_stop :: "string \<Rightarrow> bool" where
  "digit_stop r \<longleftrightarrow> (case r of [] \<Rightarrow> True | c # _ \<Rightarrow> \<not> is_digit c)"

lemma atol_digits_stop: "digit_stop r \<Longrightarrow> atol_digits a r = a"
  by (cases r) (auto simp: digit_stop_def)

lemma atol_digits_append:
  "\<forall>c \<in> set ds. is_digit c \<Longrightarrow> atol_digits a (ds @ r) = atol_digits (atol_digits a ds) r"
  by (induction ds arbitrary: a) auto

lemma atol_digits_show_nat_acc: "atol_digits 0 (show_nat n) = int n"
proof (induction n rule: show_nat.induct)
  case (1 n)
  show ?case
  proof (cases "n < 10")
    case True
    then show ?thesis by (simp add: show_nat.simps [of n])
  next
    case False
    have "atol_digits 0 (show_nat n) = 10 * atol_digits 0 (show_nat (n div 10)) + int (n mod 10)"
      using False by (simp add: show_nat.simps [of n] atol_digits_append show_nat_digits)
    also have "\<dots> = 10 * int (n div 10) + int (n mod 10)"
      using "1.IH" False by simp
    also have "\<dots> = int (10 * (n div 10) + n mod 10)"
      by (simp only: of_nat_add of_nat_mult of_nat_numeral)
    finally show ?thesis by (simp only: mult_div_mod_eq)
  qed
qed

lemma atol_digits_show_nat: "digit_stop r \<Longrightarrow> atol_digits 0 (show_nat n @ r) = int n"
  by (simp add: atol_digits_append show_nat_digits atol_digits_stop atol_digits_show_nat_acc)

lemma show_nat_hd_digit: "\<exists>c cs. show_nat n = c # cs \<and> is_digit c"
  using show_nat_digits [of n] show_nat_nonempty [of n] by (cases "show_nat n") auto

lemma digit_not_special:
  assumes "is_digit c"
  shows "\<not> is_space c" and "c \<noteq> CHR ''-''" and "c \<noteq> CHR ''+''" and "c \<noteq> NUL"
  using assms by (auto simp: is_digit_def is_space_def)

lemma atol_show_int: "digit_stop r \<Longrightarrow> atol (show_int i @ r) = i"
proof (cases "i < 0")
  case True
  assume r: "digit_stop r"
  have "\<not> is_space (CHR ''-'')" by (simp add: is_space_def)
  with True r show ?thesis
    by (simp add: atol_def show_int_def atol_digits_show_nat)
next
  case False
  assume r: "digit_stop r"
  obtain c cs where c: "show_nat (nat i) = c # cs" and d: "is_digit c"
    using show_nat_hd_digit by blast
  have "atol (show_int i @ r) = atol_digits 0 (show_nat (nat i) @ r)"
    using False c digit_not_special [OF d] by (simp add: atol_def show_int_def)
  also have "\<dots> = int (nat i)" by (rule atol_digits_show_nat [OF r])
  finally show ?thesis using False by simp
qed

lemma show_int_chars: "c \<in> set (show_int i) \<Longrightarrow> is_digit c \<or> c = CHR ''-''"
  using show_nat_digits unfolding show_int_def by (auto split: if_splits)

lemma show_int_NUL_free [simp]: "NUL \<notin> set (show_int i)"
  using show_int_chars [of NUL i] by (auto simp: is_digit_def)

lemma show_int_no_blank: "CHR '' '' \<notin> set (show_int i)"
  using show_int_chars [of "CHR '' ''" i] by (auto simp: is_digit_def)

lemma show_int_nonempty [simp]: "show_int i \<noteq> []"
  by (simp add: show_int_def)

section \<open>Fixed-size arrays\<close>

text \<open>
  A write to \<open>buf[i]\<close> outside the array is undefined behaviour: \<open>None\<close>. \<open>buf_copy\<close> is what
  \<open>read\<close>, \<open>recv\<close> and \<open>memcpy\<close> do: the bytes overwrite the start of the array and the rest
  keeps its old contents.
\<close>

definition buf_put :: "'a list \<Rightarrow> int \<Rightarrow> 'a \<Rightarrow> 'a list option" where
  "buf_put buf i c = (if 0 \<le> i \<and> i < int (length buf) then Some (buf[nat i := c]) else None)"

definition buf_copy :: "'a list \<Rightarrow> 'a list \<Rightarrow> 'a list option" where
  "buf_copy buf bs = (if length bs \<le> length buf then Some (bs @ drop (length bs) buf) else None)"

lemma buf_put_length: "buf_put buf i c = Some b \<Longrightarrow> length b = length buf"
  by (auto simp: buf_put_def split: if_splits)

lemma buf_copy_length: "buf_copy buf bs = Some b \<Longrightarrow> length b = length buf"
  by (auto simp: buf_copy_def split: if_splits)

lemma buf_copy_take: "buf_copy buf bs = Some b \<Longrightarrow> take (length bs) b = bs"
  by (auto simp: buf_copy_def split: if_splits)

lemma buf_copy_put_cstr:
  assumes "buf_copy buf bs = Some b" and "buf_put b (int (length bs)) NUL = Some b'"
  shows "cstr b' = cstr bs"
proof -
  have b: "b = bs @ drop (length bs) buf" and "length bs < length b"
    using assms by (auto simp: buf_copy_def buf_put_def split: if_splits)
  then obtain x r where r: "drop (length bs) buf = x # r"
    by (cases "drop (length bs) buf") auto
  then have "b' = bs @ NUL # r"
    using assms(2) b by (auto simp: buf_put_def list_update_append split: if_splits)
  moreover have "cstr (bs @ NUL # r) = cstr bs"
    unfolding cstr_def by (induction bs) auto
  ultimately show ?thesis by simp
qed

end
