(* ===== verification/Transition.thy ===== *)
theory Transition
  imports Prelude
begin

text \<open>
  Interleaved execution. A concurrent program is a function \<open>step t s\<close> that gives the state
  after the next statement of thread \<open>t\<close>, or \<open>None\<close> when \<open>t\<close> cannot move in \<open>s\<close> because it is
  blocked or has ended. A schedule is a list of threads. The locales say once what an invariant,
  a decreasing rank and a progress argument give for every schedule; each program interprets
  them on its own step function.
\<close>

section \<open>Schedules and reachable states\<close>

primrec run :: "('t \<Rightarrow> 's \<Rightarrow> 's option) \<Rightarrow> 't list \<Rightarrow> 's \<Rightarrow> 's option" where
  "run step [] s = Some s"
| "run step (t # ts) s = (case step t s of None \<Rightarrow> None | Some s' \<Rightarrow> run step ts s')"

inductive reach :: "('t \<Rightarrow> 's \<Rightarrow> 's option) \<Rightarrow> 's \<Rightarrow> 's \<Rightarrow> bool"
  for step :: "'t \<Rightarrow> 's \<Rightarrow> 's option" and s0 :: 's where
  reach_start: "reach step s0 s0"
| reach_next: "reach step s0 s \<Longrightarrow> step t s = Some s' \<Longrightarrow> reach step s0 s'"

declare reach_start [simp, intro]

lemma run_append:
  "run step (xs @ ys) s = (case run step xs s of None \<Rightarrow> None | Some s' \<Rightarrow> run step ys s')"
  by (induction xs arbitrary: s) (auto split: option.splits)

lemma run_snoc:
  "run step (xs @ [t]) s = Some s' \<longleftrightarrow> (\<exists>u. run step xs s = Some u \<and> step t u = Some s')"
  by (auto simp: run_append split: option.splits)

lemma reach_iff_run: "reach step s0 s \<longleftrightarrow> (\<exists>ts. run step ts s0 = Some s)"
proof
  assume "reach step s0 s"
  then show "\<exists>ts. run step ts s0 = Some s"
  proof (induction rule: reach.induct)
    case reach_start
    have "run step [] s0 = Some s0" by simp
    then show ?case ..
  next
    case (reach_next s t s')
    then obtain ts where "run step ts s0 = Some s" by blast
    with reach_next have "run step (ts @ [t]) s0 = Some s'" by (simp add: run_snoc)
    then show ?case ..
  qed
next
  assume "\<exists>ts. run step ts s0 = Some s"
  then obtain ts where "run step ts s0 = Some s" ..
  then show "reach step s0 s"
  proof (induction ts arbitrary: s rule: rev_induct)
    case Nil
    then show ?case by simp
  next
    case (snoc t ts)
    then obtain u where u: "run step ts s0 = Some u" and t: "step t u = Some s"
      by (auto simp: run_snoc)
    show ?case by (rule reach_next [OF snoc.IH [OF u] t])
  qed
qed

lemma run_reach: "run step ts s0 = Some s \<Longrightarrow> reach step s0 s"
  unfolding reach_iff_run by (rule exI)

text \<open>
  A state is stuck when no action of \<open>acts\<close> can be taken. The set leaves out the actions in which
  a system call fails, so that a program that waits for ever counts as stuck although the call
  it waits in might return an error.
\<close>

definition stuck :: "'t set \<Rightarrow> ('t \<Rightarrow> 's \<Rightarrow> 's option) \<Rightarrow> 's \<Rightarrow> bool" where
  "stuck acts step s \<longleftrightarrow> (\<forall>t\<in>acts. step t s = None)"

text \<open>The system in which only the actions with property \<open>P\<close> happen, for instance those whose system calls succeed.\<close>

definition only :: "('t \<Rightarrow> bool) \<Rightarrow> ('t \<Rightarrow> 's \<Rightarrow> 's option) \<Rightarrow> 't \<Rightarrow> 's \<Rightarrow> 's option" where
  "only P step t s = (if P t then step t s else None)"

lemma run_only: "\<forall>t\<in>set ts. P t \<Longrightarrow> run (only P step) ts s = run step ts s"
  by (induction ts arbitrary: s) (auto simp: only_def split: option.splits)

lemma run_onlyD: "run (only P step) ts s = Some s' \<Longrightarrow> run step ts s = Some s'"
  by (induction ts arbitrary: s) (auto simp: only_def split: option.splits if_splits)

lemma stuck_only: "\<forall>t\<in>acts. P t \<Longrightarrow> stuck acts (only P step) s = stuck acts step s"
  by (simp add: stuck_def only_def)

section \<open>Invariants, ranks and progress\<close>

locale invariant_system =
  fixes step :: "'t \<Rightarrow> 's \<Rightarrow> 's option" and s0 :: 's and inv :: "'s \<Rightarrow> bool"
  assumes inv_start: "inv s0"
    and inv_step: "inv s \<Longrightarrow> step t s = Some s' \<Longrightarrow> inv s'"
begin

lemma reach_inv: "reach step s0 s \<Longrightarrow> inv s"
  by (induction rule: reach.induct) (auto intro: inv_start inv_step)

lemma run_inv: "run step ts s0 = Some s \<Longrightarrow> inv s"
  by (rule reach_inv) (rule run_reach)

end

text \<open>
  A rank that every step decreases bounds the length of every schedule, whatever the scheduler
  does; with progress, a schedule that cannot be extended has ended in a final state.
\<close>

locale terminating_system = invariant_system +
  fixes rank :: "'s \<Rightarrow> nat" and final :: "'s \<Rightarrow> bool" and acts :: "'t set"
  assumes rank_step: "inv s \<Longrightarrow> step t s = Some s' \<Longrightarrow> rank s' < rank s"
    and progress: "inv s \<Longrightarrow> \<not> final s \<Longrightarrow> \<exists>t\<in>acts. \<exists>s'. step t s = Some s'"
begin

lemma run_rank: "run step ts s0 = Some s \<Longrightarrow> length ts + rank s \<le> rank s0"
proof (induction ts arbitrary: s rule: rev_induct)
  case Nil
  then show ?case by simp
next
  case (snoc t ts)
  then obtain u where u: "run step ts s0 = Some u" "step t u = Some s"
    by (auto simp: run_snoc)
  with rank_step [OF run_inv [OF u(1)] u(2)] snoc.IH [OF u(1)] show ?case by simp
qed

lemma run_bounded: "run step ts s0 = Some s \<Longrightarrow> length ts \<le> rank s0"
  using run_rank by fastforce

lemma stuck_final: "run step ts s0 = Some s \<Longrightarrow> stuck acts step s \<Longrightarrow> final s"
  using progress run_inv unfolding stuck_def by fastforce

lemma run_completes:
  assumes "run step ts s0 = Some s"
  shows "\<exists>us s'. set us \<subseteq> acts \<and> run step (ts @ us) s0 = Some s' \<and> final s'"
  using assms
proof (induction "rank s" arbitrary: ts s rule: less_induct)
  case less
  show ?case
  proof (cases "final s")
    case True
    with less.prems show ?thesis by (metis append_Nil2 empty_subsetI list.set(1))
  next
    case False
    with progress run_inv [OF less.prems] obtain t s' where t: "t \<in> acts" "step t s = Some s'"
      by blast
    with less.prems have r: "run step (ts @ [t]) s0 = Some s'" by (simp add: run_snoc)
    from rank_step [OF run_inv [OF less.prems] t(2)] less.hyps [OF _ r] obtain us u
      where "set us \<subseteq> acts" "run step (ts @ t # us) s0 = Some u" "final u" by auto
    with t(1) have "set (t # us) \<subseteq> acts \<and> run step (ts @ (t # us)) s0 = Some u \<and> final u" by simp
    then show ?thesis by blast
  qed
qed

end

text \<open>
  A program with a busy-waiting loop has infinite schedules. What can be shown is that it never gets
  into a state from which it cannot end: as long as it has not ended, some action lowers the rank.
\<close>

locale completing_system = invariant_system +
  fixes rank :: "'s \<Rightarrow> nat" and final :: "'s \<Rightarrow> bool" and acts :: "'t set"
  assumes descent: "inv s \<Longrightarrow> \<not> final s \<Longrightarrow> \<exists>t\<in>acts. \<exists>s'. step t s = Some s' \<and> rank s' < rank s"
begin

lemma can_complete:
  assumes "run step ts s0 = Some s"
  shows "\<exists>us s'. set us \<subseteq> acts \<and> length us \<le> rank s \<and> run step (ts @ us) s0 = Some s' \<and> final s'"
  using assms
proof (induction "rank s" arbitrary: ts s rule: less_induct)
  case less
  show ?case
  proof (cases "final s")
    case True
    with less.prems show ?thesis by (intro exI [of _ "[]"] exI [of _ s]) simp
  next
    case False
    with descent run_inv [OF less.prems] obtain t s' where t: "t \<in> acts" "step t s = Some s'" "rank s' < rank s"
      by blast
    with less.prems have r: "run step (ts @ [t]) s0 = Some s'" by (simp add: run_snoc)
    from less.hyps [OF t(3) r] obtain us u
      where "set us \<subseteq> acts" "length us \<le> rank s'" "run step (ts @ t # us) s0 = Some u" "final u" by auto
    with t show ?thesis by (intro exI [of _ "t # us"] exI [of _ u]) auto
  qed
qed

end

text \<open>
  Some actions of the environment may put a thread back, such as the spurious wakeup of a waiting thread. Each has a
  cost: how much of the rank it may give back. A schedule is then bounded by the rank and the costs of its actions.
\<close>

locale funded_system = invariant_system +
  fixes rank :: "'s \<Rightarrow> nat" and final :: "'s \<Rightarrow> bool" and acts :: "'t set" and cost :: "'t \<Rightarrow> nat"
  assumes paid_step: "inv s \<Longrightarrow> step t s = Some s' \<Longrightarrow> rank s' < rank s + cost t"
    and free_acts: "t \<in> acts \<Longrightarrow> cost t = 0"
    and moves: "inv s \<Longrightarrow> \<not> final s \<Longrightarrow> \<exists>t\<in>acts. \<exists>s'. step t s = Some s'"
begin

lemma run_paid: "run step ts s0 = Some s \<Longrightarrow> length ts + rank s \<le> rank s0 + sum_list (map cost ts)"
proof (induction ts arbitrary: s rule: rev_induct)
  case (snoc t ts)
  then obtain u where u: "run step ts s0 = Some u" "step t u = Some s" by (auto simp: run_snoc)
  with paid_step [OF run_inv [OF u(1)] u(2)] snoc.IH [OF u(1)] show ?case by simp
qed simp

lemma stuck_ended: "run step ts s0 = Some s \<Longrightarrow> stuck acts step s \<Longrightarrow> final s"
  using moves run_inv unfolding stuck_def by fastforce

end

sublocale funded_system \<subseteq> completing_system step s0 inv rank final acts
proof
  fix s assume i: "inv s" and n: "\<not> final s"
  from moves [OF i n] obtain t s' where t: "t \<in> acts" "step t s = Some s'" by blast
  with paid_step [OF i t(2)] free_acts have "rank s' < rank s" by simp
  with t show "\<exists>t\<in>acts. \<exists>s'. step t s = Some s' \<and> rank s' < rank s" by blast
qed

section \<open>Simulation\<close>

text \<open>
  A functional refinement: every step of the concrete system is either invisible or a step of
  the abstract one, so every reachable concrete state abstracts to a reachable abstract one.
\<close>

locale refinement_system = invariant_system step s0 inv
  for step :: "'t \<Rightarrow> 's \<Rightarrow> 's option" and s0 :: 's and inv :: "'s \<Rightarrow> bool" +
  fixes astep :: "'u \<Rightarrow> 'a \<Rightarrow> 'a option" and a0 :: 'a and abs :: "'s \<Rightarrow> 'a"
  assumes abs_start: "abs s0 = a0"
    and abs_step: "inv s \<Longrightarrow> step t s = Some s' \<Longrightarrow>
          abs s' = abs s \<or> (\<exists>u. astep u (abs s) = Some (abs s'))"
begin

lemma reach_abs: "reach step s0 s \<Longrightarrow> reach astep a0 (abs s)"
proof (induction rule: reach.induct)
  case reach_start
  show ?case by (simp add: abs_start)
next
  case (reach_next s t s')
  from abs_step [OF reach_inv [OF reach_next.hyps(1)] reach_next.hyps(2)]
  show ?case using reach_next.IH by (metis reach.reach_next)
qed

lemma run_abs: "run step ts s0 = Some s \<Longrightarrow> \<exists>us. run astep us a0 = Some (abs s)"
  using reach_abs run_reach reach_iff_run by metis

end

end
