(* ===== verification/Posix_Sync.thy ===== *)
theory Posix_Sync
  imports Transition
begin

text \<open>
  What the programs use of POSIX synchronisation: counting semaphores and mutexes. A call that
  would block is \<open>None\<close>; the thread stays where it is and the call is tried again when the
  scheduler picks the thread the next time. A mutex records its holder.
\<close>

definition sem_wait :: "nat \<Rightarrow> nat option" where
  "sem_wait v = (if v = 0 then None else Some (v - 1))"

definition sem_post :: "nat \<Rightarrow> nat" where
  "sem_post v = Suc v"

definition mutex_lock :: "'t \<Rightarrow> 't option \<Rightarrow> 't option option" where
  "mutex_lock t m = (case m of None \<Rightarrow> Some (Some t) | Some _ \<Rightarrow> None)"

definition mutex_unlock :: "'t option \<Rightarrow> 't option" where
  "mutex_unlock m = None"

lemma sem_wait_Some [simp]: "sem_wait v = Some w \<longleftrightarrow> v = Suc w"
  by (cases v) (auto simp: sem_wait_def)

lemma sem_wait_None [simp]: "sem_wait v = None \<longleftrightarrow> v = 0"
  by (simp add: sem_wait_def)

lemma mutex_lock_Some [simp]: "mutex_lock t m = Some m' \<longleftrightarrow> m = None \<and> m' = Some t"
  by (auto simp: mutex_lock_def split: option.splits)

lemma mutex_lock_None [simp]: "mutex_lock t m = None \<longleftrightarrow> m \<noteq> None"
  by (auto simp: mutex_lock_def split: option.splits)

section \<open>Interfaces\<close>

text \<open>
  The contract of a counting semaphore: waiting takes one unit and blocks exactly when there is
  none, posting gives one back. Units are conserved, so a wait after a post never blocks.
\<close>

locale counting_semaphore =
  fixes wait :: "'v \<Rightarrow> 'v option" and post :: "'v \<Rightarrow> 'v" and units :: "'v \<Rightarrow> nat"
  assumes wait_blocks: "wait v = None \<longleftrightarrow> units v = 0"
    and wait_takes: "wait v = Some w \<Longrightarrow> units v = Suc (units w)"
    and post_gives: "units (post v) = Suc (units v)"
begin

lemma post_wait_not_blocked: "\<exists>w. wait (post v) = Some w \<and> units w = units v"
proof -
  have "wait (post v) \<noteq> None"
    using wait_blocks [of "post v"] post_gives [of v] by simp
  then obtain w where w: "wait (post v) = Some w" by blast
  with wait_takes [OF w] post_gives [of v] show ?thesis by simp
qed

end

interpretation nat_sem: counting_semaphore sem_wait sem_post "\<lambda>v. v"
  by unfold_locales (simp_all add: sem_post_def)

text \<open>
  The contract of a lock: taken only when free, owned by the taker, free after the release.
\<close>

locale exclusive_lock =
  fixes lock :: "'t \<Rightarrow> 'm \<Rightarrow> 'm option" and unlock :: "'m \<Rightarrow> 'm" and owner :: "'m \<Rightarrow> 't option"
  assumes lock_owner: "lock t m = Some m' \<Longrightarrow> owner m = None \<and> owner m' = Some t"
    and lock_free: "owner m = None \<Longrightarrow> lock t m \<noteq> None"
    and unlock_owner: "owner (unlock m) = None"
begin

lemma lock_excludes: "lock t m = Some m' \<Longrightarrow> lock u m' = None"
proof (rule ccontr)
  assume l: "lock t m = Some m'" and "lock u m' \<noteq> None"
  then obtain m'' where "lock u m' = Some m''" by blast
  with lock_owner [OF l] lock_owner [of u m' m''] show False by simp
qed

lemma unlock_then_lock: "lock u (unlock m) \<noteq> None"
  using lock_free unlock_owner by blast

end

interpretation holder_lock: exclusive_lock mutex_lock mutex_unlock "\<lambda>m. m"
  by unfold_locales (simp_all add: mutex_unlock_def)

end
