(* ===== verification/Bounded_Fifo.thy ===== *)
theory Bounded_Fifo
  imports Transition
begin

text \<open>
  The specification that the circular buffers implement: a first-in first-out queue of bounded
  length to which the integers 0, 1, 2, ... are put one after the other.
\<close>

datatype fifo_op = Put | Get

type_synonym fifo = "int \<times> int list"

fun fifo_step :: "nat \<Rightarrow> fifo_op \<Rightarrow> fifo \<Rightarrow> fifo option" where
  "fifo_step cap Put (n, q) = (if length q < cap then Some (n + 1, q @ [n]) else None)"
| "fifo_step cap Get (n, q) = (case q of [] \<Rightarrow> None | _ # q' \<Rightarrow> Some (n, q'))"

definition fifo_start :: fifo where
  "fifo_start = (0, [])"

definition fifo_inv :: "nat \<Rightarrow> fifo \<Rightarrow> bool" where
  "fifo_inv cap f \<longleftrightarrow> (case f of (n, q) \<Rightarrow>
     length q \<le> cap \<and> int (length q) \<le> n \<and> q = [n - int (length q)..n - 1])"

lemma upto_snoc: "i \<le> j + 1 \<Longrightarrow> [i..j] @ [j + 1] = [i..j + 1]"
  by (simp add: upto_rec2 [of i "j + 1"])

lemma upto_tl: "i \<le> j \<Longrightarrow> tl [i..j] = [i + 1..j]"
  by (simp add: upto_rec1 [of i j])

lemma upto_length_int: "i \<le> j + 1 \<Longrightarrow> int (length [i..j]) = j + 1 - i"
  by simp

lemma fifo_step_inv: "fifo_inv cap f \<Longrightarrow> fifo_step cap u f = Some f' \<Longrightarrow> fifo_inv cap f'"
proof (cases u)
  case Put
  assume i: "fifo_inv cap f" and s: "fifo_step cap u f = Some f'"
  obtain n q where f: "f = (n, q)" by (cases f)
  from i f have q: "q = [n - int (length q)..n - 1]" by (simp add: fifo_inv_def)
  have "q @ [n] = [n - int (length q)..n]"
    by (subst q) (use upto_snoc [of "n - int (length q)" "n - 1"] in simp)
  with Put i s f show ?thesis by (auto simp: fifo_inv_def split: if_splits)
next
  case Get
  assume i: "fifo_inv cap f" and s: "fifo_step cap u f = Some f'"
  obtain n q where f: "f = (n, q)" by (cases f)
  with Get s obtain x q' where q': "q = x # q'" and f': "f' = (n, q')"
    by (auto split: list.splits)
  from i f have q: "q = [n - int (length q)..n - 1]" by (simp add: fifo_inv_def)
  have "q' = tl q" by (simp add: q')
  also have "\<dots> = [n - int (length q) + 1..n - 1]"
    by (subst q, subst upto_tl) (use q' in auto)
  finally have "q' = [n - int (length q')..n - 1]" by (simp add: q')
  with i f f' q' show ?thesis by (simp add: fifo_inv_def)
qed

lemma fifo_start_inv: "fifo_inv cap fifo_start"
  by (simp add: fifo_start_def fifo_inv_def)

interpretation fifo_spec: invariant_system "fifo_step cap" fifo_start "fifo_inv cap" for cap
  by unfold_locales (rule fifo_start_inv, rule fifo_step_inv)

text \<open>
  What a client of the specification may rely on: the queue holds consecutive integers that end
  with the last one put, and it is never longer than its bound.
\<close>

lemma fifo_reach_contents:
  "reach (fifo_step cap) fifo_start (n, q) \<Longrightarrow>
     length q \<le> cap \<and> q = [n - int (length q)..n - 1]"
  using fifo_spec.reach_inv by (fastforce simp: fifo_inv_def)

section \<open>Slots of a circular buffer\<close>

text \<open>The four programs over a circular buffer of integers have \<open>NBUFF\<close> slots and store item \<open>i\<close> in \<open>buf[i % NBUFF]\<close>.\<close>

definition NBUFF :: nat where "NBUFF = 10"

definition slot :: "int \<Rightarrow> nat" where
  "slot i = nat (i mod int NBUFF)"

lemma slot_inj:
  assumes "0 \<le> j" and "j < k" and "k < j + int NBUFF"
  shows "slot j \<noteq> slot k"
proof
  assume "slot j = slot k"
  then have "j mod int NBUFF = k mod int NBUFF"
    by (simp add: slot_def NBUFF_def nat_eq_iff)
  then have "int NBUFF dvd k - j"
    by (metis mod_eq_dvd_iff)
  with assms show False
    by (auto dest: zdvd_imp_le)
qed

lemma slot_less [simp]: "slot k < NBUFF"
  by (simp add: slot_def NBUFF_def nat_less_iff)

end
