(* ===== verification/Sem_Prodcons.thy ===== *)
theory Sem_Prodcons
  imports Posix_Sync Bounded_Fifo
begin

text \<open>
  \<^verbatim>\<open>src/ipc/src/pxsem/sem_prodcons1.c\<close> and \<^verbatim>\<open>sem_prodcons2.c\<close>: one producer and one
  consumer over a circular buffer of \<open>NBUFF\<close> integers, with named semaphores in the first
  program and memory-based ones in the second. The state has the program counter of the main
  thread and of the two threads; each statement that touches shared data is one step.
  A step of the main thread carries whether the system call it makes succeeds.
\<close>

section \<open>State\<close>

datatype main_pc =
    M_args | M_mutex | M_nempty | M_nstored | M_create_producer | M_create_consumer
  | M_join_producer | M_join_consumer | M_rm_mutex | M_rm_nempty | M_rm_nstored | M_exit int

datatype producer_pc =
    P_none | P_for | P_wait_nempty | P_wait_mutex | P_store | P_post_mutex | P_post_nstored
  | P_inc | P_return

datatype consumer_pc =
    C_none | C_for | C_wait_nstored | C_wait_mutex | C_check | C_post_mutex | C_post_nempty
  | C_inc | C_return

text \<open>
  \<open>printed\<close> collects the lines the consumer prints, as the index and the value it found there;
  \<open>names\<close> is the system's name space of named semaphores, which only the first program uses.
\<close>

record shared =
  nitems :: int
  buf :: "int list"
  mutex :: nat
  nempty :: nat
  nstored :: nat
  names :: "string list"
  mpc :: main_pc
  ppc :: producer_pc
  p_i :: int
  cpc :: consumer_pc
  c_i :: int
  printed :: "(int \<times> int) list"

definition start :: "string list \<Rightarrow> shared" where
  "start ns = \<lparr>nitems = 0, buf = replicate NBUFF 0, mutex = 0, nempty = 0, nstored = 0,
     names = ns, mpc = M_args, ppc = P_none, p_i = 0, cpc = C_none, c_i = 0, printed = []\<rparr>"

fun exited :: "main_pc \<Rightarrow> bool" where
  "exited (M_exit _) = True"
| "exited _ = False"

definition die :: "shared \<Rightarrow> shared" where
  "die s = s\<lparr>mpc := M_exit 1\<rparr>"

section \<open>Threads\<close>

definition producer :: "shared \<Rightarrow> shared option" where
  "producer s = (case ppc s of
     P_for \<Rightarrow> Some (if p_i s < nitems s then s\<lparr>ppc := P_wait_nempty\<rparr> else s\<lparr>ppc := P_return\<rparr>)
   | P_wait_nempty \<Rightarrow> map_option (\<lambda>v. s\<lparr>nempty := v, ppc := P_wait_mutex\<rparr>) (sem_wait (nempty s))
   | P_wait_mutex \<Rightarrow> map_option (\<lambda>v. s\<lparr>mutex := v, ppc := P_store\<rparr>) (sem_wait (mutex s))
   | P_store \<Rightarrow> Some (s\<lparr>buf := (buf s)[slot (p_i s) := p_i s], ppc := P_post_mutex\<rparr>)
   | P_post_mutex \<Rightarrow> Some (s\<lparr>mutex := sem_post (mutex s), ppc := P_post_nstored\<rparr>)
   | P_post_nstored \<Rightarrow> Some (s\<lparr>nstored := sem_post (nstored s), ppc := P_inc\<rparr>)
   | P_inc \<Rightarrow> Some (s\<lparr>p_i := p_i s + 1, ppc := P_for\<rparr>)
   | P_none \<Rightarrow> None
   | P_return \<Rightarrow> None)"

definition consumer :: "shared \<Rightarrow> shared option" where
  "consumer s = (case cpc s of
     C_for \<Rightarrow> Some (if c_i s < nitems s then s\<lparr>cpc := C_wait_nstored\<rparr> else s\<lparr>cpc := C_return\<rparr>)
   | C_wait_nstored \<Rightarrow> map_option (\<lambda>v. s\<lparr>nstored := v, cpc := C_wait_mutex\<rparr>) (sem_wait (nstored s))
   | C_wait_mutex \<Rightarrow> map_option (\<lambda>v. s\<lparr>mutex := v, cpc := C_check\<rparr>) (sem_wait (mutex s))
   | C_check \<Rightarrow> Some (if buf s ! slot (c_i s) \<noteq> c_i s
        then s\<lparr>printed := printed s @ [(c_i s, buf s ! slot (c_i s))], cpc := C_post_mutex\<rparr>
        else s\<lparr>cpc := C_post_mutex\<rparr>)
   | C_post_mutex \<Rightarrow> Some (s\<lparr>mutex := sem_post (mutex s), cpc := C_post_nempty\<rparr>)
   | C_post_nempty \<Rightarrow> Some (s\<lparr>nempty := sem_post (nempty s), cpc := C_inc\<rparr>)
   | C_inc \<Rightarrow> Some (s\<lparr>c_i := c_i s + 1, cpc := C_for\<rparr>)
   | C_none \<Rightarrow> None
   | C_return \<Rightarrow> None)"

text \<open>
  The parts of \<open>main\<close> that the two programs share: creating the two threads and joining them.
  \<open>exit\<close> ends the process and with it both threads.
\<close>

definition main_threads :: "bool \<Rightarrow> shared \<Rightarrow> shared option" where
  "main_threads ok s = (case mpc s of
     M_create_producer \<Rightarrow> Some (if ok then s\<lparr>ppc := P_for, p_i := 0, mpc := M_create_consumer\<rparr> else die s)
   | M_create_consumer \<Rightarrow> Some (if ok then s\<lparr>cpc := C_for, c_i := 0, mpc := M_join_producer\<rparr> else die s)
   | M_join_producer \<Rightarrow> (if \<not> ok then Some (die s)
        else if ppc s = P_return then Some (s\<lparr>mpc := M_join_consumer\<rparr>) else None)
   | M_join_consumer \<Rightarrow> (if \<not> ok then Some (die s)
        else if cpc s = C_return then Some (s\<lparr>mpc := M_rm_mutex\<rparr>) else None)
   | _ \<Rightarrow> None)"

definition SEM_MUTEX :: string where "SEM_MUTEX = ''/prodcons1.mutex''"
definition SEM_NEMPTY :: string where "SEM_NEMPTY = ''/prodcons1.nempty''"
definition SEM_NSTORED :: string where "SEM_NSTORED = ''/prodcons1.nstored''"

text \<open>
  \<open>main\<close> of \<^verbatim>\<open>sem_prodcons1.c\<close>: \<open>sem_open\<close> with \<open>O_CREAT | O_EXCL\<close> fails when the name
  exists, \<open>sem_unlink\<close> when it does not.
\<close>

definition sem_open_excl :: "bool \<Rightarrow> string \<Rightarrow> shared \<Rightarrow> shared option" where
  "sem_open_excl ok n s = (if ok \<and> n \<notin> set (names s) then Some (s\<lparr>names := n # names s\<rparr>) else None)"

definition sem_unlink :: "bool \<Rightarrow> string \<Rightarrow> shared \<Rightarrow> shared option" where
  "sem_unlink ok n s = (if ok \<and> n \<in> set (names s) then Some (s\<lparr>names := removeAll n (names s)\<rparr>) else None)"

definition main1 :: "string list \<Rightarrow> bool \<Rightarrow> shared \<Rightarrow> shared option" where
  "main1 argv ok s = (case mpc s of
     M_args \<Rightarrow> Some (if length argv \<noteq> 2 then die s else s\<lparr>nitems := atoi (argv ! 1), mpc := M_mutex\<rparr>)
   | M_mutex \<Rightarrow> Some (case sem_open_excl ok SEM_MUTEX s of None \<Rightarrow> die s
        | Some s' \<Rightarrow> s'\<lparr>mutex := 1, mpc := M_nempty\<rparr>)
   | M_nempty \<Rightarrow> Some (case sem_open_excl ok SEM_NEMPTY s of None \<Rightarrow> die s
        | Some s' \<Rightarrow> s'\<lparr>nempty := NBUFF, mpc := M_nstored\<rparr>)
   | M_nstored \<Rightarrow> Some (case sem_open_excl ok SEM_NSTORED s of None \<Rightarrow> die s
        | Some s' \<Rightarrow> s'\<lparr>nstored := 0, mpc := M_create_producer\<rparr>)
   | M_rm_mutex \<Rightarrow> Some (case sem_unlink ok SEM_MUTEX s of None \<Rightarrow> die s
        | Some s' \<Rightarrow> s'\<lparr>mpc := M_rm_nempty\<rparr>)
   | M_rm_nempty \<Rightarrow> Some (case sem_unlink ok SEM_NEMPTY s of None \<Rightarrow> die s
        | Some s' \<Rightarrow> s'\<lparr>mpc := M_rm_nstored\<rparr>)
   | M_rm_nstored \<Rightarrow> Some (case sem_unlink ok SEM_NSTORED s of None \<Rightarrow> die s
        | Some s' \<Rightarrow> s'\<lparr>mpc := M_exit 0\<rparr>)
   | M_exit _ \<Rightarrow> None
   | _ \<Rightarrow> main_threads ok s)"

text \<open>\<open>main\<close> of \<^verbatim>\<open>sem_prodcons2.c\<close>: \<open>sem_init\<close> and \<open>sem_destroy\<close> on the fields of \<open>shared\<close>.\<close>

definition main2 :: "string list \<Rightarrow> bool \<Rightarrow> shared \<Rightarrow> shared option" where
  "main2 argv ok s = (case mpc s of
     M_args \<Rightarrow> Some (if length argv \<noteq> 2 then die s else s\<lparr>nitems := atoi (argv ! 1), mpc := M_mutex\<rparr>)
   | M_mutex \<Rightarrow> Some (if ok then s\<lparr>mutex := 1, mpc := M_nempty\<rparr> else die s)
   | M_nempty \<Rightarrow> Some (if ok then s\<lparr>nempty := NBUFF, mpc := M_nstored\<rparr> else die s)
   | M_nstored \<Rightarrow> Some (if ok then s\<lparr>nstored := 0, mpc := M_create_producer\<rparr> else die s)
   | M_rm_mutex \<Rightarrow> Some (if ok then s\<lparr>mpc := M_rm_nempty\<rparr> else die s)
   | M_rm_nempty \<Rightarrow> Some (if ok then s\<lparr>mpc := M_rm_nstored\<rparr> else die s)
   | M_rm_nstored \<Rightarrow> Some (if ok then s\<lparr>mpc := M_exit 0\<rparr> else die s)
   | M_exit _ \<Rightarrow> None
   | _ \<Rightarrow> main_threads ok s)"

text \<open>\<^verbatim>\<open>sem_prodcons2.c\<close> has the same thread bodies, on \<open>&shared.mutex\<close> instead of \<open>shared.mutex\<close>.\<close>

definition producer2 :: "shared \<Rightarrow> shared option" where
  "producer2 = producer"

definition consumer2 :: "shared \<Rightarrow> shared option" where
  "consumer2 = consumer"

datatype act = Main bool | Producer | Consumer

fun step1 :: "string list \<Rightarrow> act \<Rightarrow> shared \<Rightarrow> shared option" where
  "step1 argv (Main ok) s = main1 argv ok s"
| "step1 argv Producer s = (if exited (mpc s) then None else producer s)"
| "step1 argv Consumer s = (if exited (mpc s) then None else consumer s)"

fun step2 :: "string list \<Rightarrow> act \<Rightarrow> shared \<Rightarrow> shared option" where
  "step2 argv (Main ok) s = main2 argv ok s"
| "step2 argv Producer s = (if exited (mpc s) then None else producer2 s)"
| "step2 argv Consumer s = (if exited (mpc s) then None else consumer2 s)"

text \<open>The actions in which no call fails.\<close>

definition good :: "act set" where
  "good = - {Main False}"

section \<open>Invariant\<close>

text \<open>
  Weights of the program points: whether the thread holds the mutex, whether it holds a unit
  that it took from one of the two counting semaphores and has not given to the other one yet,
  and whether the item of the current iteration is in the buffer (producer) or its slot has been
  given back (consumer).
\<close>

fun p_mutex :: "producer_pc \<Rightarrow> int" where
  "p_mutex P_store = 1" | "p_mutex P_post_mutex = 1" | "p_mutex _ = 0"

fun c_mutex :: "consumer_pc \<Rightarrow> int" where
  "c_mutex C_check = 1" | "c_mutex C_post_mutex = 1" | "c_mutex _ = 0"

fun p_unit :: "producer_pc \<Rightarrow> int" where
  "p_unit P_wait_mutex = 1" | "p_unit P_store = 1" | "p_unit P_post_mutex = 1"
| "p_unit P_post_nstored = 1" | "p_unit _ = 0"

fun c_unit :: "consumer_pc \<Rightarrow> int" where
  "c_unit C_wait_mutex = 1" | "c_unit C_check = 1" | "c_unit C_post_mutex = 1"
| "c_unit C_post_nempty = 1" | "c_unit _ = 0"

fun p_filled :: "producer_pc \<Rightarrow> int" where
  "p_filled P_post_mutex = 1" | "p_filled P_post_nstored = 1" | "p_filled _ = 0"

fun p_stored :: "producer_pc \<Rightarrow> int" where
  "p_stored P_post_mutex = 1" | "p_stored P_post_nstored = 1" | "p_stored P_inc = 1"
| "p_stored _ = 0"

fun c_freed :: "consumer_pc \<Rightarrow> int" where
  "c_freed C_inc = 1" | "c_freed _ = 0"

definition produced :: "shared \<Rightarrow> int" where
  "produced s = p_i s + p_stored (ppc s)"

definition consumed :: "shared \<Rightarrow> int" where
  "consumed s = c_i s + c_freed (cpc s)"

definition units_inv :: "shared \<Rightarrow> bool" where
  "units_inv s \<longleftrightarrow>
     int (mutex s) + p_mutex (ppc s) + c_mutex (cpc s) = 1 \<and>
     int (nempty s) + p_unit (ppc s) + int (nstored s) + c_unit (cpc s) = int NBUFF \<and>
     produced s = consumed s + int (nstored s) + p_filled (ppc s) + c_unit (cpc s)"

text \<open>The loop counters, by program point.\<close>

fun p_range :: "int \<Rightarrow> producer_pc \<Rightarrow> int \<Rightarrow> bool" where
  "p_range n P_none i = (i = 0)"
| "p_range n P_for i = (0 \<le> i \<and> i \<le> max 0 n)"
| "p_range n P_return i = (i = max 0 n)"
| "p_range n _ i = (0 \<le> i \<and> i < n)"

fun c_range :: "int \<Rightarrow> consumer_pc \<Rightarrow> int \<Rightarrow> bool" where
  "c_range n C_none i = (i = 0)"
| "c_range n C_for i = (0 \<le> i \<and> i \<le> max 0 n)"
| "c_range n C_return i = (i = max 0 n)"
| "c_range n _ i = (0 \<le> i \<and> i < n)"

text \<open>Where a thread can be while \<open>main\<close> is at a given point.\<close>

definition in_setup :: "main_pc \<Rightarrow> bool" where
  "in_setup m \<longleftrightarrow> m \<in> {M_args, M_mutex, M_nempty, M_nstored}"

definition p_allowed :: "main_pc \<Rightarrow> producer_pc \<Rightarrow> bool" where
  "p_allowed m pc = (case m of M_create_consumer \<Rightarrow> pc \<noteq> P_none | M_join_producer \<Rightarrow> pc \<noteq> P_none
     | M_join_consumer \<Rightarrow> pc = P_return | M_rm_mutex \<Rightarrow> pc = P_return | M_rm_nempty \<Rightarrow> pc = P_return
     | M_rm_nstored \<Rightarrow> pc = P_return | M_exit c \<Rightarrow> c = 0 \<longrightarrow> pc = P_return | _ \<Rightarrow> pc = P_none)"

definition c_allowed :: "main_pc \<Rightarrow> consumer_pc \<Rightarrow> bool" where
  "c_allowed m pc = (case m of M_join_producer \<Rightarrow> pc \<noteq> C_none | M_join_consumer \<Rightarrow> pc \<noteq> C_none
     | M_rm_mutex \<Rightarrow> pc = C_return | M_rm_nempty \<Rightarrow> pc = C_return | M_rm_nstored \<Rightarrow> pc = C_return
     | M_exit c \<Rightarrow> c = 0 \<longrightarrow> pc = C_return | _ \<Rightarrow> pc = C_none)"

definition sems_ok :: "shared \<Rightarrow> bool" where
  "sems_ok s = (case mpc s of M_args \<Rightarrow> True | M_mutex \<Rightarrow> True | M_nempty \<Rightarrow> mutex s = 1
     | M_nstored \<Rightarrow> mutex s = 1 \<and> nempty s = NBUFF | M_exit c \<Rightarrow> c = 0 \<longrightarrow> units_inv s
     | _ \<Rightarrow> units_inv s)"

definition args_ok :: "string list \<Rightarrow> shared \<Rightarrow> bool" where
  "args_ok argv s = (case mpc s of M_args \<Rightarrow> True | M_exit c \<Rightarrow> c = 0 \<longrightarrow> length argv = 2 \<and> nitems s = atoi (argv ! 1)
     | _ \<Rightarrow> length argv = 2 \<and> nitems s = atoi (argv ! 1))"

definition items_ok :: "shared \<Rightarrow> bool" where
  "items_ok s \<longleftrightarrow> length (buf s) = NBUFF \<and>
     (\<forall>k. consumed s \<le> k \<and> k < produced s \<longrightarrow> buf s ! slot k = k)"

definition inv :: "string list \<Rightarrow> shared \<Rightarrow> bool" where
  "inv argv s \<longleftrightarrow> printed s = [] \<and> args_ok argv s \<and> p_allowed (mpc s) (ppc s) \<and>
     c_allowed (mpc s) (cpc s) \<and> p_range (nitems s) (ppc s) (p_i s) \<and>
     c_range (nitems s) (cpc s) (c_i s) \<and> items_ok s \<and> sems_ok s"

section \<open>Preservation\<close>

lemma c_weights_nonneg: "0 \<le> c_unit pc" "c_freed pc \<ge> 0" "c_unit pc \<le> 1"
  by (cases pc; simp)+

lemma c_range_nonneg: "c_range n pc i \<Longrightarrow> 0 \<le> i"
  by (cases pc) auto

lemma running_cases:
  assumes "p_allowed m pc" and "pc \<noteq> P_none" and "pc \<noteq> P_return" and "\<not> exited m"
  shows "m = M_create_consumer \<or> m = M_join_producer"
  using assms by (cases m) (auto simp: p_allowed_def)

lemma consuming_cases:
  assumes "c_allowed m pc" and "pc \<noteq> C_none" and "pc \<noteq> C_return" and "\<not> exited m"
  shows "m = M_join_producer \<or> m = M_join_consumer"
  using assms by (cases m) (auto simp: c_allowed_def)

lemmas frame_defs = args_ok_def p_allowed_def c_allowed_def sems_ok_def units_inv_def
  produced_def consumed_def sem_post_def

lemma items_store:
  assumes "items_ok s" and "units_inv s" and "ppc s = P_store" and "p_range (nitems s) P_store (p_i s)"
    and "c_range (nitems s) (cpc s) (c_i s)"
  shows "items_ok (s\<lparr>buf := (buf s)[slot (p_i s) := p_i s], ppc := P_post_mutex\<rparr>)"
proof -
  have len: "length (buf s) = NBUFF" using assms(1) by (simp add: items_ok_def)
  have *: "p_i s < consumed s + int NBUFF" "0 \<le> consumed s"
    using assms(2,3) c_range_nonneg [OF assms(5)] c_weights_nonneg [of "cpc s"]
    by (auto simp: units_inv_def produced_def consumed_def)
  have "(buf s)[slot (p_i s) := p_i s] ! slot k = k" if "consumed s \<le> k" and "k < p_i s + 1" for k
  proof (cases "k = p_i s")
    case True
    with len show ?thesis by simp
  next
    case False
    with that * have "slot k \<noteq> slot (p_i s)"
      by (intro slot_inj) auto
    with False that assms(1,3) show ?thesis by (simp add: items_ok_def produced_def)
  qed
  with len assms(3) show ?thesis by (simp add: items_ok_def produced_def consumed_def)
qed

lemma items_ok_mono:
  "items_ok s \<Longrightarrow> buf t = buf s \<Longrightarrow> produced t = produced s \<Longrightarrow> consumed s \<le> consumed t \<Longrightarrow>
     items_ok t"
  by (simp add: items_ok_def)

lemma producer_frame:
  "producer s = Some t \<Longrightarrow> ppc s \<noteq> P_store \<Longrightarrow>
     buf t = buf s \<and> produced t = produced s \<and> consumed t = consumed s"
  by (cases "ppc s") (auto simp: producer_def produced_def consumed_def split: if_splits)

lemma consumer_frame:
  "consumer s = Some t \<Longrightarrow> buf t = buf s \<and> produced t = produced s \<and> consumed s \<le> consumed t"
  by (cases "cpc s") (auto simp: consumer_def produced_def consumed_def split: if_splits)

lemma producer_inv:
  assumes "inv argv s" and "\<not> exited (mpc s)" and "producer s = Some t"
  shows "inv argv t"
proof -
  have pc: "ppc s \<noteq> P_none" "ppc s \<noteq> P_return"
    using assms(3) by (auto simp: producer_def)
  with running_cases assms(1,2) have m: "mpc s = M_create_consumer \<or> mpc s = M_join_producer"
    by (auto simp: inv_def)
  then have u: "units_inv s" using assms(1) by (auto simp: inv_def sems_ok_def)
  have "items_ok s" using assms(1) by (simp add: inv_def)
  have "items_ok t"
  proof (cases "ppc s = P_store")
    case True
    with items_store [of s] u assms(1,3) show ?thesis
      by (simp add: inv_def producer_def)
  next
    case False
    with producer_frame [OF assms(3)] \<open>items_ok s\<close> items_ok_mono show ?thesis by simp
  qed
  with pc m assms(1,3) show ?thesis
    by (cases "ppc s") (auto simp: inv_def producer_def frame_defs split: if_splits)
qed

lemma checked_item:
  assumes "inv argv s" and "units_inv s" and "cpc s = C_check"
  shows "buf s ! slot (c_i s) = c_i s"
proof -
  have "consumed s = c_i s" and "c_i s < produced s"
    using assms by (cases "ppc s"; simp add: units_inv_def consumed_def)+
  with assms(1) show ?thesis by (simp add: inv_def items_ok_def)
qed

lemma consumer_inv:
  assumes "inv argv s" and "\<not> exited (mpc s)" and "consumer s = Some t"
  shows "inv argv t"
proof -
  have pc: "cpc s \<noteq> C_none" "cpc s \<noteq> C_return"
    using assms(3) by (auto simp: consumer_def)
  with consuming_cases assms(1,2) have m: "mpc s = M_join_producer \<or> mpc s = M_join_consumer"
    by (auto simp: inv_def)
  then have u: "units_inv s" using assms(1) by (auto simp: inv_def sems_ok_def)
  have "items_ok s" using assms(1) by (simp add: inv_def)
  with consumer_frame [OF assms(3)] items_ok_mono have "items_ok t" by simp
  with pc m checked_item [OF assms(1) u] assms(1,3) show ?thesis
    by (cases "cpc s") (auto simp: inv_def consumer_def frame_defs split: if_splits)
qed

lemma main_only:
  assumes "inv argv s" and "nitems s' = nitems s" and "buf s' = buf s" and "ppc s' = ppc s"
    and "p_i s' = p_i s" and "cpc s' = cpc s" and "c_i s' = c_i s" and "printed s' = printed s"
    and "args_ok argv s'" and "p_allowed (mpc s') (ppc s)" and "c_allowed (mpc s') (cpc s)"
    and "sems_ok s'"
  shows "inv argv s'"
  using assms by (simp add: inv_def items_ok_def produced_def consumed_def)

lemma die_inv: "inv argv s \<Longrightarrow> inv argv (die s)"
  by (erule main_only) (simp_all add: die_def args_ok_def p_allowed_def c_allowed_def sems_ok_def)

lemma create_producer_inv:
  assumes "inv argv s" and "mpc s = M_create_producer"
  shows "inv argv (s\<lparr>ppc := P_for, p_i := 0, mpc := M_create_consumer\<rparr>)"
proof -
  have "ppc s = P_none" "p_i s = 0" using assms by (auto simp: inv_def p_allowed_def)
  with assms show ?thesis
    by (auto simp: inv_def items_ok_def args_ok_def p_allowed_def c_allowed_def sems_ok_def units_inv_def
        produced_def consumed_def)
qed

lemma create_consumer_inv:
  assumes "inv argv s" and "mpc s = M_create_consumer"
  shows "inv argv (s\<lparr>cpc := C_for, c_i := 0, mpc := M_join_producer\<rparr>)"
proof -
  have "cpc s = C_none" "c_i s = 0" using assms by (auto simp: inv_def c_allowed_def)
  with assms show ?thesis
    by (auto simp: inv_def items_ok_def args_ok_def p_allowed_def c_allowed_def sems_ok_def units_inv_def
        produced_def consumed_def)
qed

lemma setup_units:
  assumes "inv argv s" and "mpc s = M_nstored"
  shows "units_inv (s\<lparr>nstored := 0\<rparr>)"
  using assms by (auto simp: inv_def p_allowed_def c_allowed_def sems_ok_def units_inv_def
      produced_def consumed_def)

lemma units_inv_cong:
  "mutex t = mutex s \<Longrightarrow> nempty t = nempty s \<Longrightarrow> nstored t = nstored s \<Longrightarrow> ppc t = ppc s \<Longrightarrow>
     cpc t = cpc s \<Longrightarrow> p_i t = p_i s \<Longrightarrow> c_i t = c_i s \<Longrightarrow> units_inv t = units_inv s"
  by (simp add: units_inv_def produced_def consumed_def)

lemmas main_frame = args_ok_def p_allowed_def c_allowed_def sems_ok_def

lemma main_threads_inv:
  assumes "inv argv s" and "main_threads ok s = Some t"
  shows "inv argv t"
proof (cases "t = die s")
  case True
  with die_inv assms(1) show ?thesis by simp
next
  case False
  have a: "args_ok argv s" "p_allowed (mpc s) (ppc s)" "c_allowed (mpc s) (cpc s)" "sems_ok s"
    using assms(1) by (simp_all add: inv_def)
  consider (create1) "mpc s = M_create_producer" | (create2) "mpc s = M_create_consumer"
    | (join1) "mpc s = M_join_producer" "ppc s = P_return" "t = s\<lparr>mpc := M_join_consumer\<rparr>"
    | (join2) "mpc s = M_join_consumer" "cpc s = C_return" "t = s\<lparr>mpc := M_rm_mutex\<rparr>"
    using assms(2) False by (auto simp: main_threads_def split: main_pc.splits if_splits)
  then show ?thesis
  proof cases
    case create1
    with create_producer_inv [OF assms(1)] False assms(2) show ?thesis
      by (auto simp: main_threads_def split: if_splits)
  next
    case create2
    with create_consumer_inv [OF assms(1)] False assms(2) show ?thesis
      by (auto simp: main_threads_def split: if_splits)
  next
    case join1
    with a units_inv_cong [of t s] show ?thesis
      by (intro main_only [OF assms(1)]) (auto simp: main_frame)
  next
    case join2
    with a units_inv_cong [of t s] show ?thesis
      by (intro main_only [OF assms(1)]) (auto simp: main_frame)
  qed
qed

text \<open>The steps of the two \<open>main\<close> functions around the threads, up to the name space.\<close>

definition setup_move :: "shared \<Rightarrow> shared \<Rightarrow> bool" where
  "setup_move s t \<longleftrightarrow> nitems t = nitems s \<and> buf t = buf s \<and> ppc t = ppc s \<and> p_i t = p_i s \<and>
     cpc t = cpc s \<and> c_i t = c_i s \<and> printed t = printed s \<and>
     (mpc s = M_mutex \<and> mutex t = 1 \<and> mpc t = M_nempty \<or>
      mpc s = M_nempty \<and> mutex t = mutex s \<and> nempty t = NBUFF \<and> mpc t = M_nstored \<or>
      mpc s = M_nstored \<and> mutex t = mutex s \<and> nempty t = nempty s \<and> nstored t = 0 \<and>
        mpc t = M_create_producer \<or>
      mutex t = mutex s \<and> nempty t = nempty s \<and> nstored t = nstored s \<and>
        (mpc s, mpc t) \<in> {(M_rm_mutex, M_rm_nempty), (M_rm_nempty, M_rm_nstored), (M_rm_nstored, M_exit 0)})"

lemma setup_step_inv:
  assumes "inv argv s" and m: "setup_move s t"
  shows "inv argv t"
proof -
  have a: "args_ok argv s" "p_allowed (mpc s) (ppc s)" "c_allowed (mpc s) (cpc s)" "sems_ok s"
    using assms(1) by (simp_all add: inv_def)
  have f: "nitems t = nitems s" "buf t = buf s" "ppc t = ppc s" "p_i t = p_i s"
    "cpc t = cpc s" "c_i t = c_i s" "printed t = printed s"
    using m by (simp_all add: setup_move_def)
  show ?thesis
  proof (rule main_only [OF assms(1) f])
    show "args_ok argv t" using a(1) m by (auto simp: setup_move_def args_ok_def)
    show "p_allowed (mpc t) (ppc s)" using a(2) m by (auto simp: setup_move_def p_allowed_def)
    show "c_allowed (mpc t) (cpc s)" using a(3) m by (auto simp: setup_move_def c_allowed_def)
    show "sems_ok t"
      using a(4) m setup_units [OF assms(1)] units_inv_cong [of t s]
        units_inv_cong [of t "s\<lparr>nstored := 0\<rparr>"]
      by (auto simp: setup_move_def sems_ok_def)
  qed
qed

lemma args_step_inv:
  assumes "inv argv s" and "mpc s = M_args" and "length argv = 2"
  shows "inv argv (s\<lparr>nitems := atoi (argv ! 1), mpc := M_mutex\<rparr>)"
  using assms by (auto simp: inv_def main_frame items_ok_def produced_def consumed_def)

lemma main1_cases:
  assumes "main1 argv ok s = Some t"
  shows "t = die s \<or> main_threads ok s = Some t \<or> setup_move s t \<or>
    mpc s = M_args \<and> length argv = 2 \<and> t = s\<lparr>nitems := atoi (argv ! 1), mpc := M_mutex\<rparr>"
  using assms
  by (cases "mpc s")
    (auto simp: main1_def setup_move_def sem_open_excl_def sem_unlink_def split: if_splits)

lemma main2_cases:
  assumes "main2 argv ok s = Some t"
  shows "t = die s \<or> main_threads ok s = Some t \<or> setup_move s t \<or>
    mpc s = M_args \<and> length argv = 2 \<and> t = s\<lparr>nitems := atoi (argv ! 1), mpc := M_mutex\<rparr>"
  using assms by (cases "mpc s") (auto simp: main2_def setup_move_def split: if_splits)

lemma main1_inv: "inv argv s \<Longrightarrow> main1 argv ok s = Some t \<Longrightarrow> inv argv t"
  using main1_cases [of argv ok s t] die_inv [of argv s] main_threads_inv [of argv s ok t]
    setup_step_inv [of argv s t] args_step_inv [of argv s]
  by blast

lemma main2_inv: "inv argv s \<Longrightarrow> main2 argv ok s = Some t \<Longrightarrow> inv argv t"
  using main2_cases [of argv ok s t] die_inv [of argv s] main_threads_inv [of argv s ok t]
    setup_step_inv [of argv s t] args_step_inv [of argv s]
  by blast

lemma start_inv: "inv argv (start ns)"
  by (simp add: inv_def start_def items_ok_def frame_defs)

lemma step1_inv: "inv argv s \<Longrightarrow> step1 argv a s = Some t \<Longrightarrow> inv argv t"
  by (cases a) (auto intro: main1_inv producer_inv consumer_inv split: if_splits)

lemma step2_inv: "inv argv s \<Longrightarrow> step2 argv a s = Some t \<Longrightarrow> inv argv t"
  by (cases a) (auto simp: producer2_def consumer2_def intro: main2_inv producer_inv consumer_inv
      split: if_splits)

section \<open>Termination and progress\<close>

fun m_rank :: "main_pc \<Rightarrow> nat" where
  "m_rank M_args = 11" | "m_rank M_mutex = 10" | "m_rank M_nempty = 9" | "m_rank M_nstored = 8"
| "m_rank M_create_producer = 7" | "m_rank M_create_consumer = 6" | "m_rank M_join_producer = 5"
| "m_rank M_join_consumer = 4" | "m_rank M_rm_mutex = 3" | "m_rank M_rm_nempty = 2"
| "m_rank M_rm_nstored = 1" | "m_rank (M_exit _) = 0"

fun p_rank :: "producer_pc \<Rightarrow> nat" where
  "p_rank P_none = 8" | "p_rank P_for = 7" | "p_rank P_wait_nempty = 6" | "p_rank P_wait_mutex = 5"
| "p_rank P_store = 4" | "p_rank P_post_mutex = 3" | "p_rank P_post_nstored = 2"
| "p_rank P_inc = 1" | "p_rank P_return = 0"

fun c_rank :: "consumer_pc \<Rightarrow> nat" where
  "c_rank C_none = 8" | "c_rank C_for = 7" | "c_rank C_wait_nstored = 6" | "c_rank C_wait_mutex = 5"
| "c_rank C_check = 4" | "c_rank C_post_mutex = 3" | "c_rank C_post_nempty = 2"
| "c_rank C_inc = 1" | "c_rank C_return = 0"

text \<open>The number of items the command line asks for; a negative count asks for none.\<close>

definition wanted :: "string list \<Rightarrow> nat" where
  "wanted argv = nat (atoi (argv ! 1))"

definition rank :: "string list \<Rightarrow> shared \<Rightarrow> nat" where
  "rank argv s = m_rank (mpc s) + (8 * nat (int (wanted argv) - p_i s) + p_rank (ppc s))
     + (8 * nat (int (wanted argv) - c_i s) + c_rank (cpc s))"

lemma producer_rank:
  assumes "inv argv s" and "\<not> exited (mpc s)" and "producer s = Some t"
  shows "rank argv t < rank argv s"
proof -
  have pc: "ppc s \<noteq> P_none" "ppc s \<noteq> P_return"
    using assms(3) by (auto simp: producer_def)
  with running_cases assms(1,2) have m: "mpc s = M_create_consumer \<or> mpc s = M_join_producer"
    by (auto simp: inv_def)
  then have n: "nitems s = atoi (argv ! 1)" and "p_range (nitems s) (ppc s) (p_i s)"
    using assms(1) by (auto simp: inv_def args_ok_def)
  with pc assms(3) show ?thesis
    by (cases "ppc s") (auto simp: producer_def rank_def wanted_def split: if_splits)
qed

lemma consumer_rank:
  assumes "inv argv s" and "\<not> exited (mpc s)" and "consumer s = Some t"
  shows "rank argv t < rank argv s"
proof -
  have pc: "cpc s \<noteq> C_none" "cpc s \<noteq> C_return"
    using assms(3) by (auto simp: consumer_def)
  with consuming_cases assms(1,2) have m: "mpc s = M_join_producer \<or> mpc s = M_join_consumer"
    by (auto simp: inv_def)
  then have n: "nitems s = atoi (argv ! 1)" and "c_range (nitems s) (cpc s) (c_i s)"
    using assms(1) by (auto simp: inv_def args_ok_def)
  with pc assms(3) show ?thesis
    by (cases "cpc s") (auto simp: consumer_def rank_def wanted_def split: if_splits)
qed

lemma main_threads_rank:
  assumes "inv argv s" and "main_threads ok s = Some t"
  shows "rank argv t < rank argv s"
  using assms
  by (cases "mpc s")
    (auto simp: inv_def main_threads_def die_def rank_def p_allowed_def c_allowed_def split: if_splits)

lemma main1_rank: "inv argv s \<Longrightarrow> main1 argv ok s = Some t \<Longrightarrow> rank argv t < rank argv s"
  using main_threads_rank [of argv s ok t]
  by (cases "mpc s")
    (auto simp: main1_def die_def rank_def sem_open_excl_def sem_unlink_def split: if_splits)

lemma main2_rank: "inv argv s \<Longrightarrow> main2 argv ok s = Some t \<Longrightarrow> rank argv t < rank argv s"
  using main_threads_rank [of argv s ok t]
  by (cases "mpc s") (auto simp: main2_def die_def rank_def split: if_splits)

lemma consumer_moves:
  assumes "inv argv s" and "mpc s = M_join_producer \<or> mpc s = M_join_consumer" and "units_inv s"
    and "ppc s = P_wait_nempty \<and> nempty s = 0 \<or> ppc s = P_wait_mutex \<and> mutex s = 0 \<or>
         ppc s = P_return \<and> cpc s \<noteq> C_return"
  shows "\<exists>t. consumer s = Some t"
proof (cases "cpc s")
  case C_none
  with assms(1,2) show ?thesis by (auto simp: inv_def c_allowed_def)
next
  case C_wait_nstored
  then have "0 < nstored s"
    using assms by (auto simp: inv_def units_inv_def NBUFF_def produced_def consumed_def)
  with C_wait_nstored show ?thesis by (simp add: consumer_def sem_wait_def)
next
  case C_wait_mutex
  then have "0 < mutex s"
    using assms by (auto simp: units_inv_def)
  with C_wait_mutex show ?thesis by (simp add: consumer_def sem_wait_def)
next
  case C_return
  then show ?thesis
    using assms by (auto simp: inv_def units_inv_def NBUFF_def produced_def consumed_def)
qed (simp_all add: consumer_def)

lemma threads_move:
  assumes "inv argv s"
    and "mpc s = M_join_producer \<and> ppc s \<noteq> P_return \<or> mpc s = M_join_consumer \<and> cpc s \<noteq> C_return"
  shows "(\<exists>t. producer s = Some t) \<or> (\<exists>t. consumer s = Some t)"
proof (rule disjCI)
  assume "\<not> (\<exists>t. consumer s = Some t)"
  moreover have u: "units_inv s" using assms by (auto simp: inv_def sems_ok_def)
  ultimately have "\<not> (ppc s = P_wait_nempty \<and> nempty s = 0)" "\<not> (ppc s = P_wait_mutex \<and> mutex s = 0)"
    "\<not> (ppc s = P_return \<and> cpc s \<noteq> C_return)"
    using consumer_moves [OF assms(1)] assms(2) by blast+
  moreover have "ppc s \<noteq> P_none" and "mpc s = M_join_consumer \<longrightarrow> ppc s = P_return"
    using assms by (auto simp: inv_def p_allowed_def)
  ultimately show "\<exists>t. producer s = Some t"
    using assms(2) by (cases "ppc s") (auto simp: producer_def sem_wait_def)
qed

lemma main1_moves: "inv argv s \<Longrightarrow> \<not> exited (mpc s) \<Longrightarrow> \<exists>a\<in>good. \<exists>t. step1 argv a s = Some t"
proof -
  assume i: "inv argv s" and e: "\<not> exited (mpc s)"
  show ?thesis
  proof (cases "main1 argv True s")
    case None
    with e have "mpc s = M_join_producer \<and> ppc s \<noteq> P_return \<or> mpc s = M_join_consumer \<and> cpc s \<noteq> C_return"
      by (cases "mpc s") (auto simp: main1_def main_threads_def split: if_splits)
    from threads_move [OF i this] e obtain a t where "a \<noteq> Main False" "step1 argv a s = Some t"
      by (metis step1.simps(2,3) act.distinct(1,3))
    then show ?thesis by (auto simp: good_def)
  next
    case (Some t)
    then have "step1 argv (Main True) s = Some t" by simp
    moreover have "Main True \<in> good" by (simp add: good_def)
    ultimately show ?thesis by blast
  qed
qed

lemma main2_moves: "inv argv s \<Longrightarrow> \<not> exited (mpc s) \<Longrightarrow> \<exists>a\<in>good. \<exists>t. step2 argv a s = Some t"
proof -
  assume i: "inv argv s" and e: "\<not> exited (mpc s)"
  show ?thesis
  proof (cases "main2 argv True s")
    case None
    with e have "mpc s = M_join_producer \<and> ppc s \<noteq> P_return \<or> mpc s = M_join_consumer \<and> cpc s \<noteq> C_return"
      by (cases "mpc s") (auto simp: main2_def main_threads_def split: if_splits)
    from threads_move [OF i this] e obtain a t where "a \<noteq> Main False" "step2 argv a s = Some t"
      by (metis step2.simps(2,3) producer2_def consumer2_def act.distinct(1,3))
    then show ?thesis by (auto simp: good_def)
  next
    case (Some t)
    then have "step2 argv (Main True) s = Some t" by simp
    moreover have "Main True \<in> good" by (simp add: good_def)
    ultimately show ?thesis by blast
  qed
qed

lemma step1_rank: "inv argv s \<Longrightarrow> step1 argv a s = Some t \<Longrightarrow> rank argv t < rank argv s"
  by (cases a) (auto intro: main1_rank producer_rank consumer_rank split: if_splits)

lemma step2_rank: "inv argv s \<Longrightarrow> step2 argv a s = Some t \<Longrightarrow> rank argv t < rank argv s"
  by (cases a) (auto simp: producer2_def consumer2_def intro: main2_rank producer_rank consumer_rank
      split: if_splits)

interpretation prodcons1: terminating_system "step1 argv" "start ns" "inv argv" "rank argv"
  "\<lambda>s. exited (mpc s)" good for argv ns
  by unfold_locales (rule start_inv, erule (1) step1_inv, erule (1) step1_rank, erule (1) main1_moves)

interpretation prodcons2: terminating_system "step2 argv" "start ns" "inv argv" "rank argv"
  "\<lambda>s. exited (mpc s)" good for argv ns
  by unfold_locales (rule start_inv, erule (1) step2_inv, erule (1) step2_rank, erule (1) main2_moves)

section \<open>Refinement of the bounded queue\<close>

definition queue :: "shared \<Rightarrow> int list" where
  "queue s = map (\<lambda>k. buf s ! slot k) [consumed s..produced s - 1]"

definition abs_queue :: "shared \<Rightarrow> fifo" where
  "abs_queue s = (produced s, queue s)"

lemma queue_upto: "items_ok s \<Longrightarrow> queue s = [consumed s..produced s - 1]"
  unfolding queue_def by (rule map_idI) (auto simp: items_ok_def)

lemma abs_producer:
  assumes "inv argv s" and "\<not> exited (mpc s)" and "producer s = Some t"
  shows "abs_queue t = abs_queue s \<or> fifo_step NBUFF Put (abs_queue s) = Some (abs_queue t)"
proof (cases "ppc s = P_store")
  case False
  from producer_frame [OF assms(3) False] show ?thesis
    by (auto simp: abs_queue_def queue_def)
next
  case True
  have t: "t = s\<lparr>buf := (buf s)[slot (p_i s) := p_i s], ppc := P_post_mutex\<rparr>"
    using assms(3) True by (simp add: producer_def)
  have u: "units_inv s"
    using assms(1,2) running_cases [of "mpc s" "ppc s"] True by (auto simp: inv_def sems_ok_def)
  have q: "queue s = [consumed s..p_i s - 1]" "queue t = [consumed s..p_i s]"
    using assms(1) producer_inv [OF assms] True t
    by (simp_all add: inv_def queue_upto produced_def consumed_def)
  have b: "consumed s \<le> p_i s" "p_i s < consumed s + int NBUFF"
    using u True c_weights_nonneg [of "cpc s"] by (auto simp: units_inv_def produced_def)
  have "queue s @ [p_i s] = queue t"
    using upto_snoc [of "consumed s" "p_i s - 1"] b q by simp
  moreover have "length (queue s) < NBUFF" using q b by simp
  ultimately show ?thesis
    using True t by (simp add: abs_queue_def produced_def)
qed

lemma abs_consumer:
  assumes "inv argv s" and "\<not> exited (mpc s)" and "consumer s = Some t"
  shows "abs_queue t = abs_queue s \<or> fifo_step NBUFF Get (abs_queue s) = Some (abs_queue t)"
proof (cases "cpc s = C_post_nempty")
  case False
  with assms(3) have "consumed t = consumed s"
    by (cases "cpc s") (auto simp: consumer_def consumed_def split: if_splits)
  with consumer_frame [OF assms(3)] show ?thesis by (simp add: abs_queue_def queue_def)
next
  case True
  have t: "t = s\<lparr>nempty := sem_post (nempty s), cpc := C_inc\<rparr>"
    using assms(3) True by (simp add: consumer_def)
  have u: "units_inv s"
    using assms(1,2) consuming_cases [of "mpc s" "cpc s"] True by (auto simp: inv_def sems_ok_def)
  have q: "queue s = [c_i s..produced s - 1]" "queue t = [c_i s + 1..produced s - 1]"
    using assms(1) consumer_inv [OF assms] True t
    by (simp_all add: inv_def queue_upto produced_def consumed_def)
  have "c_i s \<le> produced s - 1"
    using u True by (cases "ppc s") (auto simp: units_inv_def consumed_def)
  then have "queue s = c_i s # queue t"
    using q by (simp add: upto_rec1)
  then show ?thesis using t by (simp add: abs_queue_def produced_def)
qed

lemma abs_main:
  assumes "inv argv s" and "step2 argv (Main ok) s = Some t"
  shows "abs_queue t = abs_queue s"
proof -
  have "buf t = buf s \<and> produced t = produced s \<and> consumed t = consumed s"
    using assms
    by (cases "mpc s")
      (auto simp: main2_def main_threads_def die_def inv_def p_allowed_def c_allowed_def
        produced_def consumed_def split: if_splits)
  then show ?thesis by (simp add: abs_queue_def queue_def)
qed

lemma abs_step2:
  assumes "inv argv s" and "step2 argv a s = Some t"
  shows "abs_queue t = abs_queue s \<or> (\<exists>u. fifo_step NBUFF u (abs_queue s) = Some (abs_queue t))"
proof (cases a)
  case (Main ok)
  with abs_main assms show ?thesis by blast
next
  case Producer
  with abs_producer [OF assms(1), of t] assms(2) show ?thesis
    by (auto simp: producer2_def split: if_splits)
next
  case Consumer
  with abs_consumer [OF assms(1), of t] assms(2) show ?thesis
    by (auto simp: consumer2_def split: if_splits)
qed

lemma abs_queue_start: "abs_queue (start ns) = fifo_start"
  by (simp add: abs_queue_def queue_def produced_def consumed_def start_def fifo_start_def)

interpretation prodcons2_fifo: refinement_system "step2 argv" "start ns" "inv argv"
  "fifo_step NBUFF" fifo_start abs_queue for argv ns
  by unfold_locales (rule abs_queue_start, erule (1) abs_step2)

section \<open>The name space of sem\_prodcons1\<close>

definition fresh :: "string list \<Rightarrow> bool" where
  "fresh ns \<longleftrightarrow> SEM_MUTEX \<notin> set ns \<and> SEM_NEMPTY \<notin> set ns \<and> SEM_NSTORED \<notin> set ns"

fun names_at :: "string list \<Rightarrow> main_pc \<Rightarrow> string list \<Rightarrow> bool" where
  "names_at ns M_args N = (N = ns)"
| "names_at ns M_mutex N = (N = ns)"
| "names_at ns M_nempty N = (SEM_MUTEX \<notin> set ns \<and> N = SEM_MUTEX # ns)"
| "names_at ns M_nstored N =
     (SEM_MUTEX \<notin> set ns \<and> SEM_NEMPTY \<notin> set ns \<and> N = [SEM_NEMPTY, SEM_MUTEX] @ ns)"
| "names_at ns M_rm_nempty N = (fresh ns \<and> N = [SEM_NSTORED, SEM_NEMPTY] @ ns)"
| "names_at ns M_rm_nstored N = (fresh ns \<and> N = SEM_NSTORED # ns)"
| "names_at ns (M_exit e) N = (e = 0 \<longrightarrow> N = ns)"
| "names_at ns _ N = (fresh ns \<and> N = [SEM_NSTORED, SEM_NEMPTY, SEM_MUTEX] @ ns)"

definition names_inv :: "string list \<Rightarrow> shared \<Rightarrow> bool" where
  "names_inv ns s = names_at ns (mpc s) (names s)"

lemma names_distinct [simp]:
  "SEM_MUTEX \<noteq> SEM_NEMPTY" "SEM_MUTEX \<noteq> SEM_NSTORED" "SEM_NEMPTY \<noteq> SEM_NSTORED"
  "SEM_NEMPTY \<noteq> SEM_MUTEX" "SEM_NSTORED \<noteq> SEM_MUTEX" "SEM_NSTORED \<noteq> SEM_NEMPTY"
  by (simp_all add: SEM_MUTEX_def SEM_NEMPTY_def SEM_NSTORED_def)

lemma names_thread:
  "producer s = Some t \<or> consumer s = Some t \<Longrightarrow> names t = names s \<and> mpc t = mpc s"
  by (cases "ppc s"; cases "cpc s") (auto simp: producer_def consumer_def split: if_splits)

lemma names_main:
  assumes "names_inv ns s" and "main1 argv ok s = Some t"
  shows "names_inv ns t"
  using assms
  by (cases "mpc s")
    (auto simp: names_inv_def main1_def main_threads_def die_def fresh_def
      sem_open_excl_def sem_unlink_def split: if_splits)

lemma names_inv_cong: "names t = names s \<Longrightarrow> mpc t = mpc s \<Longrightarrow> names_inv ns t = names_inv ns s"
  by (simp add: names_inv_def)

lemma names_step1: "names_inv ns s \<Longrightarrow> step1 argv a s = Some t \<Longrightarrow> names_inv ns t"
  using names_thread [of s t] names_main [of ns s argv _ t] names_inv_cong [of t s ns]
  by (cases a) (auto split: if_splits)

lemma names_start: "names_inv ns (start ns)"
  by (simp add: names_inv_def start_def)

interpretation prodcons1_names: invariant_system "step1 argv" "start ns" "names_inv ns" for argv ns
  by unfold_locales (rule names_start, erule (1) names_step1)

text \<open>Without a failing call the process never leaves through \<open>exit(1)\<close>.\<close>

lemma no_failure_step2:
  assumes "step2 argv a s = Some t" and "a \<noteq> Main False" and "length argv = 2"
    and "mpc s \<noteq> M_exit 1"
  shows "mpc t \<noteq> M_exit 1"
proof (cases a)
  case (Main ok)
  with assms show ?thesis
    by (cases "mpc s") (auto simp: main2_def main_threads_def split: if_splits)
next
  case Producer
  with assms names_thread [of s t] show ?thesis by (auto simp: producer2_def split: if_splits)
next
  case Consumer
  with assms names_thread [of s t] show ?thesis by (auto simp: consumer2_def split: if_splits)
qed

lemma no_failure_run2:
  assumes "length argv = 2" and "Main False \<notin> set ts" and "run (step2 argv) ts s = Some t"
    and "mpc s \<noteq> M_exit 1"
  shows "mpc t \<noteq> M_exit 1"
  using assms(2-4)
proof (induction ts arbitrary: s)
  case (Cons a ts)
  then obtain u where "step2 argv a s = Some u" and "run (step2 argv) ts u = Some t"
    by (auto split: option.splits)
  with Cons no_failure_step2 [of argv a s u] assms(1) show ?case by auto
qed simp

lemma exit_codes2:
  assumes "run (step2 argv) ts (start ns) = Some s" and "mpc s = M_exit c"
  shows "c = 0 \<or> c = 1"
proof -
  have "\<forall>c. mpc s = M_exit c \<longrightarrow> c = 0 \<or> c = 1"
    using assms(1)
  proof (induction ts arbitrary: s rule: rev_induct)
    case Nil
    then show ?case by (auto simp: start_def)
  next
    case (snoc a ts)
    then obtain u where "run (step2 argv) ts (start ns) = Some u" and "step2 argv a u = Some s"
      by (auto simp: run_snoc)
    with snoc.IH [of u] names_thread [of u s] show ?case
      by (cases a; cases "mpc u")
        (auto simp: main2_def main_threads_def die_def producer2_def consumer2_def split: if_splits)
  qed
  with assms(2) show ?thesis by blast
qed

section \<open>Properties\<close>

text \<open>
  C1. sem\_prodcons1, for every schedule of its threads and every pattern of failing calls: the
  consumer never finds a wrong value in the buffer (it prints nothing), the loop counters stay
  within the number of items asked for, and when no thread can move any more the process has
  exited; with status 0 it has consumed every item and the name space of semaphores is what it
  was before.
\<close>

theorem prodcons1_correct:
  assumes "run (step1 argv) sched (start ns) = Some s"
  shows "printed s = [] \<and>
    (stuck good (step1 argv) s \<longrightarrow> (\<exists>c. mpc s = M_exit c \<and>
       (c = 0 \<longrightarrow> c_i s = int (wanted argv) \<and> names s = ns)))"
proof -
  have i: "inv argv s" by (rule prodcons1.run_inv [OF assms])
  have n: "names_inv ns s" by (rule prodcons1_names.run_inv [OF assms])
  have "\<exists>c. mpc s = M_exit c \<and> (c = 0 \<longrightarrow> c_i s = int (wanted argv) \<and> names s = ns)"
    if "stuck good (step1 argv) s"
  proof -
    from prodcons1.stuck_final [OF assms that] obtain c where c: "mpc s = M_exit c"
      by (cases "mpc s") auto
    moreover have "c_i s = int (wanted argv) \<and> names s = ns" if "c = 0"
      using that c i n by (auto simp: inv_def c_allowed_def args_ok_def wanted_def names_inv_def)
    ultimately show ?thesis by blast
  qed
  with i show ?thesis by (auto simp: inv_def)
qed

text \<open>A whole run of either program for one item, every call succeeding.\<close>

definition solo_schedule :: "act list" where
  "solo_schedule = replicate 6 (Main True) @ replicate 8 Producer @ replicate 8 Consumer
     @ replicate 5 (Main True)"

definition ends_well :: "shared option \<Rightarrow> bool" where
  "ends_well r = (case r of None \<Rightarrow> False | Some s \<Rightarrow> mpc s = M_exit 0)"

lemma ends_wellE:
  assumes "ends_well r"
  obtains s where "r = Some s" and "mpc s = M_exit 0"
  using assms by (cases r) (auto simp: ends_well_def)

lemma exited_stuck1: "exited (mpc s) \<Longrightarrow> stuck good (step1 argv) s"
  unfolding stuck_def
proof
  fix a assume "exited (mpc s)"
  then show "step1 argv a s = None"
    by (cases a; cases "mpc s") (simp_all add: main1_def)
qed

lemma exited_stuck2: "exited (mpc s) \<Longrightarrow> stuck good (step2 argv) s"
  unfolding stuck_def
proof
  fix a assume "exited (mpc s)"
  then show "step2 argv a s = None"
    by (cases a; cases "mpc s") (simp_all add: main2_def)
qed

lemma solo1: "ends_well (run (step1 [''prodcons1'', ''1'']) solo_schedule (start [''/other'']))"
  by code_simp

lemma solo2: "ends_well (run (step2 [''prodcons2'', ''1'']) solo_schedule (start []))"
  by code_simp

theorem prodcons1_correct_witness:
  "\<exists>s. run (step1 [''prodcons1'', ''1'']) solo_schedule (start [''/other'']) = Some s \<and>
     stuck good (step1 [''prodcons1'', ''1'']) s \<and> printed s = [] \<and> c_i s = 1 \<and> names s = [''/other'']"
proof -
  from solo1 obtain s where
    s: "run (step1 [''prodcons1'', ''1'']) solo_schedule (start [''/other'']) = Some s"
      "mpc s = M_exit 0"
    by (rule ends_wellE)
  have "wanted [''prodcons1'', ''1''] = 1" by code_simp
  with s prodcons1_correct [OF s(1)] exited_stuck1 [of s "[''prodcons1'', ''1'']"] show ?thesis
    by auto
qed

text \<open>
  C29. sem\_prodcons2 terminates under every scheduler, fair or not: no schedule has more than
  27 + 16 n steps for n items, and a schedule that cannot go on has ended the process; when no
  call failed and the usage was right, the exit status is 0 and all n items were consumed.
\<close>

theorem prodcons2_terminates:
  assumes "run (step2 argv) sched (start ns) = Some s"
  shows "length sched \<le> 27 + 16 * wanted argv \<and>
    (stuck good (step2 argv) s \<longrightarrow> exited (mpc s) \<and>
       (length argv = 2 \<and> Main False \<notin> set sched \<longrightarrow>
          mpc s = M_exit 0 \<and> c_i s = int (wanted argv) \<and> p_i s = int (wanted argv)))"
proof -
  have "rank argv (start ns) = 27 + 16 * wanted argv"
    by (simp add: rank_def start_def)
  with prodcons2.run_bounded [OF assms] have len: "length sched \<le> 27 + 16 * wanted argv" by simp
  have i: "inv argv s" by (rule prodcons2.run_inv [OF assms])
  have "mpc s = M_exit 0 \<and> c_i s = int (wanted argv) \<and> p_i s = int (wanted argv)"
    if "exited (mpc s)" "length argv = 2" "Main False \<notin> set sched"
  proof -
    from that(1) obtain c where c: "mpc s = M_exit c" by (cases "mpc s") auto
    have "mpc s \<noteq> M_exit 1"
      by (rule no_failure_run2 [OF that(2,3) assms]) (simp add: start_def)
    with exit_codes2 [OF assms c] c have "mpc s = M_exit 0" by auto
    with i show ?thesis
      by (auto simp: inv_def p_allowed_def c_allowed_def args_ok_def wanted_def)
  qed
  with len prodcons2.stuck_final [OF assms] show ?thesis by blast
qed

theorem prodcons2_terminates_witness:
  "\<exists>s. run (step2 [''prodcons2'', ''1'']) solo_schedule (start []) = Some s \<and>
     length solo_schedule \<le> 43 \<and> mpc s = M_exit 0 \<and> c_i s = 1 \<and> p_i s = 1"
proof -
  from solo2 obtain s where
    s: "run (step2 [''prodcons2'', ''1'']) solo_schedule (start []) = Some s" "mpc s = M_exit 0"
    by (rule ends_wellE)
  have w: "wanted [''prodcons2'', ''1''] = 1" by code_simp
  have nf: "Main False \<notin> set solo_schedule" by (simp add: solo_schedule_def)
  have st: "stuck good (step2 [''prodcons2'', ''1'']) s" by (rule exited_stuck2) (simp add: s(2))
  from prodcons2_terminates [OF s(1)] w st nf have "length solo_schedule \<le> 43 \<and> c_i s = 1 \<and> p_i s = 1"
    by simp
  with s show ?thesis by blast
qed

text \<open>
  C11. sem\_prodcons2 implements the bounded queue: after every schedule, the contents of the
  circular buffer between the consumer's and the producer's position, read slot by slot, are the
  queue of a run of the specification, which is consecutive integers and at most \<open>NBUFF\<close> long.
\<close>

theorem prodcons2_refines_fifo:
  assumes "run (step2 argv) sched (start ns) = Some s"
  shows "(\<exists>ops. run (fifo_step NBUFF) ops fifo_start = Some (produced s, queue s)) \<and>
    length (queue s) \<le> NBUFF \<and> queue s = [consumed s..produced s - 1]"
proof -
  from prodcons2_fifo.run_abs [OF assms] obtain ops
    where ops: "run (fifo_step NBUFF) ops fifo_start = Some (produced s, queue s)"
    by (auto simp: abs_queue_def)
  moreover from fifo_reach_contents [OF run_reach [OF ops]] have "length (queue s) \<le> NBUFF" ..
  moreover have "items_ok s" using prodcons2.run_inv [OF assms] by (simp add: inv_def)
  ultimately show ?thesis using queue_upto by blast
qed

theorem prodcons2_refines_fifo_witness:
  "\<exists>s. run (step2 [''prodcons2'', ''3'']) (replicate 6 (Main True) @ replicate 14 Producer) (start [])
     = Some s \<and> queue s = [0, 1] \<and>
   (\<exists>ops. run (fifo_step NBUFF) ops fifo_start = Some (produced s, queue s))"
proof -
  have "case run (step2 [''prodcons2'', ''3'']) (replicate 6 (Main True) @ replicate 14 Producer) (start [])
      of None \<Rightarrow> False | Some s \<Rightarrow> queue s = [0, 1]"
    by code_simp
  then obtain s where s: "run (step2 [''prodcons2'', ''3''])
      (replicate 6 (Main True) @ replicate 14 Producer) (start []) = Some s" and "queue s = [0, 1]"
    by (auto split: option.splits)
  with prodcons2_refines_fifo [OF s] show ?thesis by blast
qed

end
