(* ===== verification/Sem_Prodcons3.thy ===== *)
theory Sem_Prodcons3
  imports Posix_Sync Bounded_Fifo
begin

text \<open>
  \<^verbatim>\<open>src/ipc/src/pxsem/sem_prodcons3.c\<close>: several producers and one consumer over the circular
  buffer. The producers share the position \<open>nput\<close> and the value \<open>nputval\<close>; each counts the
  items it stored in its own \<open>count[i]\<close>.
\<close>

section \<open>Model\<close>

definition MAXNTHREADS :: int where "MAXNTHREADS = 100"

datatype main_pc =
    M_args | M_mutex | M_nempty | M_nstored | M_create nat | M_create_consumer
  | M_join nat | M_join_consumer | M_rm_mutex | M_rm_nempty | M_rm_nstored | M_exit int

datatype producer_pc =
    P_none | P_wait_nempty | P_wait_mutex | P_test | P_full_post_nempty | P_full_post_mutex
  | P_store | P_inc_nput | P_inc_nputval | P_post_mutex | P_post_nstored | P_count | P_return

datatype consumer_pc =
    C_none | C_for | C_wait_nstored | C_wait_mutex | C_check | C_post_mutex | C_post_nempty
  | C_inc | C_return

datatype line = Count nat int | Mismatch int int

record shared =
  nitems :: int
  nproducers :: int
  buf :: "int list"
  nput :: int
  nputval :: int
  mutex :: nat
  nempty :: nat
  nstored :: nat
  count :: "nat \<Rightarrow> int"
  mpc :: main_pc
  ppc :: "nat \<Rightarrow> producer_pc"
  cpc :: consumer_pc
  c_i :: int
  printed :: "line list"

text \<open>\<open>garbage\<close> is what the uninitialised array \<open>count\<close> of \<open>main\<close> holds.\<close>

definition start :: "(nat \<Rightarrow> int) \<Rightarrow> shared" where
  "start garbage = \<lparr>nitems = 0, nproducers = 0, buf = replicate NBUFF 0, nput = 0, nputval = 0, mutex = 0,
     nempty = 0, nstored = 0, count = garbage, mpc = M_args, ppc = (\<lambda>_. P_none), cpc = C_none,
     c_i = 0, printed = []\<rparr>"

fun exited :: "main_pc \<Rightarrow> bool" where
  "exited (M_exit _) = True"
| "exited _ = False"

definition die :: "shared \<Rightarrow> shared" where
  "die s = s\<lparr>mpc := M_exit 1\<rparr>"

definition producer :: "nat \<Rightarrow> shared \<Rightarrow> shared option" where
  "producer t s = (let goto = (\<lambda>pc u. u\<lparr>ppc := (ppc u)(t := pc)\<rparr>) in case ppc s t of
     P_wait_nempty \<Rightarrow> map_option (\<lambda>v. goto P_wait_mutex (s\<lparr>nempty := v\<rparr>)) (sem_wait (nempty s))
   | P_wait_mutex \<Rightarrow> map_option (\<lambda>v. goto P_test (s\<lparr>mutex := v\<rparr>)) (sem_wait (mutex s))
   | P_test \<Rightarrow> Some (if nput s \<ge> nitems s then goto P_full_post_nempty s else goto P_store s)
   | P_full_post_nempty \<Rightarrow> Some (goto P_full_post_mutex (s\<lparr>nempty := sem_post (nempty s)\<rparr>))
   | P_full_post_mutex \<Rightarrow> Some (goto P_return (s\<lparr>mutex := sem_post (mutex s)\<rparr>))
   | P_store \<Rightarrow> Some (goto P_inc_nput (s\<lparr>buf := (buf s)[slot (nput s) := nputval s]\<rparr>))
   | P_inc_nput \<Rightarrow> Some (goto P_inc_nputval (s\<lparr>nput := nput s + 1\<rparr>))
   | P_inc_nputval \<Rightarrow> Some (goto P_post_mutex (s\<lparr>nputval := nputval s + 1\<rparr>))
   | P_post_mutex \<Rightarrow> Some (goto P_post_nstored (s\<lparr>mutex := sem_post (mutex s)\<rparr>))
   | P_post_nstored \<Rightarrow> Some (goto P_count (s\<lparr>nstored := sem_post (nstored s)\<rparr>))
   | P_count \<Rightarrow> Some (goto P_wait_nempty (s\<lparr>count := (count s)(t := count s t + 1)\<rparr>))
   | P_none \<Rightarrow> None
   | P_return \<Rightarrow> None)"

definition consumer :: "shared \<Rightarrow> shared option" where
  "consumer s = (case cpc s of
     C_for \<Rightarrow> Some (if c_i s < nitems s then s\<lparr>cpc := C_wait_nstored\<rparr> else s\<lparr>cpc := C_return\<rparr>)
   | C_wait_nstored \<Rightarrow> map_option (\<lambda>v. s\<lparr>nstored := v, cpc := C_wait_mutex\<rparr>) (sem_wait (nstored s))
   | C_wait_mutex \<Rightarrow> map_option (\<lambda>v. s\<lparr>mutex := v, cpc := C_check\<rparr>) (sem_wait (mutex s))
   | C_check \<Rightarrow> Some (if buf s ! slot (c_i s) \<noteq> c_i s
        then s\<lparr>printed := printed s @ [Mismatch (c_i s) (buf s ! slot (c_i s))], cpc := C_post_mutex\<rparr>
        else s\<lparr>cpc := C_post_mutex\<rparr>)
   | C_post_mutex \<Rightarrow> Some (s\<lparr>mutex := sem_post (mutex s), cpc := C_post_nempty\<rparr>)
   | C_post_nempty \<Rightarrow> Some (s\<lparr>nempty := sem_post (nempty s), cpc := C_inc\<rparr>)
   | C_inc \<Rightarrow> Some (s\<lparr>c_i := c_i s + 1, cpc := C_for\<rparr>)
   | C_none \<Rightarrow> None
   | C_return \<Rightarrow> None)"

text \<open>
  \<open>main\<close>, one call per step; \<open>ok\<close> says whether the call succeeds. \<open>M_create i\<close> and \<open>M_join i\<close>
  are the two loops over the producers at counter \<open>i\<close>.
\<close>

definition main :: "string list \<Rightarrow> bool \<Rightarrow> shared \<Rightarrow> shared option" where
  "main argv ok s = (case mpc s of
     M_args \<Rightarrow> Some (if length argv \<noteq> 3 then die s
        else s\<lparr>nitems := atoi (argv ! 1), nproducers := min (atoi (argv ! 2)) MAXNTHREADS, mpc := M_mutex\<rparr>)
   | M_mutex \<Rightarrow> Some (if ok then s\<lparr>mutex := 1, mpc := M_nempty\<rparr> else die s)
   | M_nempty \<Rightarrow> Some (if ok then s\<lparr>nempty := NBUFF, mpc := M_nstored\<rparr> else die s)
   | M_nstored \<Rightarrow> Some (if ok then s\<lparr>nstored := 0, mpc := M_create 0\<rparr> else die s)
   | M_create i \<Rightarrow> Some (if int i < nproducers s
        then (if ok then s\<lparr>count := (count s)(i := 0), ppc := (ppc s)(i := P_wait_nempty), mpc := M_create (Suc i)\<rparr>
              else die s)
        else s\<lparr>mpc := M_create_consumer\<rparr>)
   | M_create_consumer \<Rightarrow> Some (if ok then s\<lparr>cpc := C_for, c_i := 0, mpc := M_join 0\<rparr> else die s)
   | M_join i \<Rightarrow> (if int i < nproducers s
        then (if \<not> ok then Some (die s)
              else if ppc s i = P_return
              then Some (s\<lparr>printed := printed s @ [Count i (count s i)], mpc := M_join (Suc i)\<rparr>) else None)
        else Some (s\<lparr>mpc := M_join_consumer\<rparr>))
   | M_join_consumer \<Rightarrow> (if \<not> ok then Some (die s)
        else if cpc s = C_return then Some (s\<lparr>mpc := M_rm_mutex\<rparr>) else None)
   | M_rm_mutex \<Rightarrow> Some (if ok then s\<lparr>mpc := M_rm_nempty\<rparr> else die s)
   | M_rm_nempty \<Rightarrow> Some (if ok then s\<lparr>mpc := M_rm_nstored\<rparr> else die s)
   | M_rm_nstored \<Rightarrow> Some (if ok then s\<lparr>mpc := M_exit 0\<rparr> else die s)
   | M_exit _ \<Rightarrow> None)"

datatype act = Main bool | Producer nat | Consumer

fun step :: "string list \<Rightarrow> act \<Rightarrow> shared \<Rightarrow> shared option" where
  "step argv (Main ok) s = main argv ok s"
| "step argv (Producer t) s = (if exited (mpc s) then None else producer t s)"
| "step argv Consumer s = (if exited (mpc s) then None else consumer s)"

text \<open>The actions in which no call fails.\<close>

definition good :: "act set" where
  "good = - {Main False}"

section \<open>Invariant\<close>

definition wanted :: "string list \<Rightarrow> int" where
  "wanted argv = max 0 (atoi (argv ! 1))"

definition threads :: "string list \<Rightarrow> nat" where
  "threads argv = nat (min (atoi (argv ! 2)) MAXNTHREADS)"

fun p_mutex :: "producer_pc \<Rightarrow> int" where
  "p_mutex P_test = 1" | "p_mutex P_full_post_nempty = 1" | "p_mutex P_full_post_mutex = 1"
| "p_mutex P_store = 1" | "p_mutex P_inc_nput = 1" | "p_mutex P_inc_nputval = 1"
| "p_mutex P_post_mutex = 1" | "p_mutex _ = 0"

fun p_unit :: "producer_pc \<Rightarrow> int" where
  "p_unit P_none = 0" | "p_unit P_wait_nempty = 0" | "p_unit P_full_post_mutex = 0"
| "p_unit P_count = 0" | "p_unit P_return = 0" | "p_unit _ = 1"

fun p_filled :: "producer_pc \<Rightarrow> int" where
  "p_filled P_inc_nputval = 1" | "p_filled P_post_mutex = 1" | "p_filled P_post_nstored = 1"
| "p_filled _ = 0"

fun p_uncounted :: "producer_pc \<Rightarrow> int" where
  "p_uncounted P_inc_nputval = 1" | "p_uncounted P_post_mutex = 1" | "p_uncounted P_post_nstored = 1"
| "p_uncounted P_count = 1" | "p_uncounted _ = 0"

fun p_lag :: "producer_pc \<Rightarrow> int" where
  "p_lag P_inc_nputval = 1" | "p_lag _ = 0"

fun c_mutex :: "consumer_pc \<Rightarrow> int" where
  "c_mutex C_check = 1" | "c_mutex C_post_mutex = 1" | "c_mutex _ = 0"

fun c_unit :: "consumer_pc \<Rightarrow> int" where
  "c_unit C_wait_mutex = 1" | "c_unit C_check = 1" | "c_unit C_post_mutex = 1"
| "c_unit C_post_nempty = 1" | "c_unit _ = 0"

fun c_freed :: "consumer_pc \<Rightarrow> int" where
  "c_freed C_inc = 1" | "c_freed _ = 0"

definition consumed :: "shared \<Rightarrow> int" where
  "consumed s = c_i s + c_freed (cpc s)"

definition units_inv :: "nat \<Rightarrow> shared \<Rightarrow> bool" where
  "units_inv P s \<longleftrightarrow>
     int (mutex s) + tot p_mutex (ppc s) P + c_mutex (cpc s) = 1 \<and>
     int (nempty s) + tot p_unit (ppc s) P + int (nstored s) + c_unit (cpc s) = int NBUFF \<and>
     nput s = consumed s + int (nstored s) + tot p_filled (ppc s) P + c_unit (cpc s)"

definition live_count :: "shared \<Rightarrow> nat \<Rightarrow> int" where
  "live_count s t = (if ppc s t = P_none then 0 else count s t)"

definition counts_inv :: "nat \<Rightarrow> shared \<Rightarrow> bool" where
  "counts_inv P s \<longleftrightarrow>
     nputval s + tot p_lag (ppc s) P = nput s \<and>
     tot (\<lambda>c. c) (live_count s) P + tot p_uncounted (ppc s) P = nput s"

fun p_ok :: "int \<Rightarrow> int \<Rightarrow> int list \<Rightarrow> producer_pc \<Rightarrow> bool" where
  "p_ok n k b P_store = (k < n)"
| "p_ok n k b P_inc_nput = (k < n \<and> b ! slot k = k)"
| "p_ok n k b P_full_post_nempty = (n \<le> k)"
| "p_ok n k b P_full_post_mutex = (n \<le> k)"
| "p_ok n k b P_return = (n \<le> k)"
| "p_ok n k b _ = True"

fun c_range :: "int \<Rightarrow> consumer_pc \<Rightarrow> int \<Rightarrow> bool" where
  "c_range n C_none i = (i = 0)"
| "c_range n C_for i = (0 \<le> i \<and> i \<le> max 0 n)"
| "c_range n C_return i = (i = max 0 n)"
| "c_range n _ i = (0 \<le> i \<and> i < n)"

definition items_ok :: "shared \<Rightarrow> bool" where
  "items_ok s \<longleftrightarrow> length (buf s) = NBUFF \<and> 0 \<le> nput s \<and> nput s \<le> max 0 (nitems s) \<and>
     (\<forall>k. consumed s \<le> k \<and> k < nput s \<longrightarrow> buf s ! slot k = k)"

definition prods_ok :: "nat \<Rightarrow> shared \<Rightarrow> bool" where
  "prods_ok P s \<longleftrightarrow> (\<forall>t<P. p_ok (nitems s) (nput s) (buf s) (ppc s t)) \<and> (\<forall>t\<ge>P. ppc s t = P_none)"

text \<open>How far \<open>main\<close> is: threads below \<open>created\<close> exist, threads below \<open>joined\<close> have returned.\<close>

fun created :: "nat \<Rightarrow> main_pc \<Rightarrow> nat" where
  "created P M_args = 0" | "created P M_mutex = 0" | "created P M_nempty = 0"
| "created P M_nstored = 0" | "created P (M_create i) = i" | "created P _ = P"

fun joined :: "nat \<Rightarrow> main_pc \<Rightarrow> nat" where
  "joined P (M_join i) = i" | "joined P M_join_consumer = P" | "joined P M_rm_mutex = P"
| "joined P M_rm_nempty = P" | "joined P M_rm_nstored = P" | "joined P (M_exit c) = (if c = 0 then P else 0)"
| "joined P _ = 0"

definition main_ok :: "nat \<Rightarrow> shared \<Rightarrow> bool" where
  "main_ok P s \<longleftrightarrow> created P (mpc s) \<le> P \<and> joined P (mpc s) \<le> P \<and>
     (\<not> exited (mpc s) \<longrightarrow> (\<forall>t<P. ppc s t = P_none \<longleftrightarrow> created P (mpc s) \<le> t)) \<and>
     (\<forall>t<joined P (mpc s). ppc s t = P_return)"

definition c_allowed :: "main_pc \<Rightarrow> consumer_pc \<Rightarrow> bool" where
  "c_allowed m pc = (case m of M_join i \<Rightarrow> pc \<noteq> C_none | M_join_consumer \<Rightarrow> pc \<noteq> C_none
     | M_rm_mutex \<Rightarrow> pc = C_return | M_rm_nempty \<Rightarrow> pc = C_return | M_rm_nstored \<Rightarrow> pc = C_return
     | M_exit c \<Rightarrow> c = 0 \<longrightarrow> pc = C_return | _ \<Rightarrow> pc = C_none)"

definition sems_ok :: "nat \<Rightarrow> shared \<Rightarrow> bool" where
  "sems_ok P s = (case mpc s of M_args \<Rightarrow> True | M_mutex \<Rightarrow> True | M_nempty \<Rightarrow> mutex s = 1
     | M_nstored \<Rightarrow> mutex s = 1 \<and> nempty s = NBUFF | M_exit c \<Rightarrow> c = 0 \<longrightarrow> units_inv P s
     | _ \<Rightarrow> units_inv P s)"

definition args_ok :: "string list \<Rightarrow> shared \<Rightarrow> bool" where
  "args_ok argv s = (case mpc s of M_args \<Rightarrow> nitems s = 0 \<and> nput s = 0 \<and> (\<forall>t. ppc s t = P_none)
     | M_exit c \<Rightarrow> c = 0 \<longrightarrow> length argv = 3 \<and> nitems s = atoi (argv ! 1)
     | _ \<Rightarrow> length argv = 3 \<and> nitems s = atoi (argv ! 1) \<and>
            nproducers s = min (atoi (argv ! 2)) MAXNTHREADS)"

definition lines_ok :: "nat \<Rightarrow> shared \<Rightarrow> bool" where
  "lines_ok P s \<longleftrightarrow> (\<exists>k. printed s = map (\<lambda>i. Count i (count s i)) [0..<k] \<and>
     (\<not> exited (mpc s) \<longrightarrow> k = joined P (mpc s)) \<and> (mpc s = M_exit 0 \<longrightarrow> k = P) \<and>
     (\<forall>t<k. ppc s t = P_return))"

definition inv :: "string list \<Rightarrow> shared \<Rightarrow> bool" where
  "inv argv s \<longleftrightarrow> args_ok argv s \<and> main_ok (threads argv) s \<and> c_allowed (mpc s) (cpc s) \<and>
     c_range (nitems s) (cpc s) (c_i s) \<and> prods_ok (threads argv) s \<and> counts_inv (threads argv) s \<and>
     items_ok s \<and> sems_ok (threads argv) s \<and> lines_ok (threads argv) s"

section \<open>Preservation\<close>

lemma live_count_cong: "ppc s' = ppc s \<Longrightarrow> count s' = count s \<Longrightarrow> live_count s' = live_count s"
  by (simp add: live_count_def fun_eq_iff)

lemma live_count_frame [simp]:
  "live_count (s\<lparr>mpc := m\<rparr>) = live_count s" "live_count (s\<lparr>printed := p\<rparr>) = live_count s"
  "live_count (s\<lparr>mutex := a\<rparr>) = live_count s" "live_count (s\<lparr>nempty := b\<rparr>) = live_count s"
  "live_count (s\<lparr>nstored := c\<rparr>) = live_count s" "live_count (s\<lparr>nitems := n\<rparr>) = live_count s"
  "live_count (s\<lparr>nproducers := n\<rparr>) = live_count s" "live_count (s\<lparr>cpc := pc\<rparr>) = live_count s"
  "live_count (s\<lparr>c_i := n\<rparr>) = live_count s"
  by (simp_all add: live_count_def fun_eq_iff)

lemma p_weights_nonneg: "0 \<le> p_mutex pc" "0 \<le> p_unit pc" "0 \<le> p_filled pc" "0 \<le> p_uncounted pc"
  by (cases pc; simp)+

lemma p_filled_le_unit: "p_filled pc \<le> p_unit pc"
  by (cases pc) auto

lemma c_weights: "0 \<le> c_mutex pc" "0 \<le> c_unit pc" "0 \<le> c_freed pc" "c_mutex pc \<le> c_unit pc"
  by (cases pc; simp)+

lemma c_range3_nonneg: "c_range n pc i \<Longrightarrow> 0 \<le> i"
  by (cases pc) auto

lemma tot_mono: "(\<And>x. v x \<le> w x) \<Longrightarrow> tot v f n \<le> tot w f n"
  unfolding tot_def by (rule sum_mono) auto

text \<open>Only one thread is in its critical section.\<close>

lemma excl_producers:
  assumes "units_inv P s" and "t < P" and "u < P" and "t \<noteq> u" and "p_mutex (ppc s t) = 1"
  shows "p_mutex (ppc s u) = 0" and "c_mutex (cpc s) = 0"
proof -
  have "p_mutex (ppc s t) + p_mutex (ppc s u) \<le> tot p_mutex (ppc s) P"
    by (rule tot_two_threads) (simp_all add: p_weights_nonneg assms)
  then show "p_mutex (ppc s u) = 0" and "c_mutex (cpc s) = 0"
    using assms(1,5) p_weights_nonneg(1) [of "ppc s u"] c_weights(1) [of "cpc s"]
    by (auto simp: units_inv_def)
qed

text \<open>The room a producer has when it stores: the slot at \<open>nput\<close> holds no item still wanted.\<close>

lemma room:
  assumes "units_inv P s" and "t < P" and "ppc s t = P_store \<or> ppc s t = P_inc_nput"
    and "c_range (nitems s) (cpc s) (c_i s)"
  shows "nput s < consumed s + int NBUFF" and "0 \<le> consumed s"
proof -
  have "tot p_filled ((ppc s)(t := P_none)) P \<le> tot p_unit ((ppc s)(t := P_none)) P"
    by (rule tot_mono) (rule p_filled_le_unit)
  then have "tot p_filled (ppc s) P + 1 \<le> tot p_unit (ppc s) P"
    using assms(2,3) by auto
  then show "nput s < consumed s + int NBUFF"
    using assms(1) by (simp add: units_inv_def)
  show "0 \<le> consumed s"
    using c_range3_nonneg [OF assms(4)] c_weights(3) [of "cpc s"] by (simp add: consumed_def)
qed

lemma p_ok_keep:
  "p_ok n k b pc \<Longrightarrow> p_mutex pc = 0 \<Longrightarrow> k \<le> k' \<Longrightarrow> p_ok n k' b' pc"
  by (cases pc) auto

text \<open>The thread that moves brings its own condition; the others keep theirs.\<close>

lemma prods_ok_move:
  assumes "prods_ok P s" and "t < P" and "ppc t' = (ppc s)(t := pc)" and "nitems t' = nitems s"
    and "p_ok (nitems s) (nput t') (buf t') pc"
    and "nput t' = nput s \<and> buf t' = buf s \<or>
         units_inv P s \<and> p_mutex (ppc s t) = 1 \<and> nput s \<le> nput t'"
  shows "prods_ok P t'"
proof -
  have "p_ok (nitems s) (nput t') (buf t') (ppc s u)" if "u < P" "u \<noteq> t" for u
    using assms(6)
  proof
    assume "nput t' = nput s \<and> buf t' = buf s"
    with assms(1) that show ?thesis by (simp add: prods_ok_def)
  next
    assume "units_inv P s \<and> p_mutex (ppc s t) = 1 \<and> nput s \<le> nput t'"
    with excl_producers(1) [of P s t u] assms(1,2) that show ?thesis
      by (auto simp: prods_ok_def intro: p_ok_keep [of "nitems s" "nput s" "buf s"])
  qed
  with assms show ?thesis by (auto simp: prods_ok_def)
qed

lemma producer_prods_ok:
  assumes "prods_ok P s" and "units_inv P s" and "length (buf s) = NBUFF" and "t < P"
    and "counts_inv P s" and "producer t s = Some s'"
  shows "prods_ok P s'"
proof -
  have lag: "nputval s = nput s" if "ppc s t = P_store"
  proof -
    have "tot p_lag (ppc s) P = 0"
    proof (rule tot_zero)
      fix u assume "u < P"
      with excl_producers(1) [OF assms(2,4), of u] that show "p_lag (ppc s u) = 0"
        by (cases "u = t"; cases "ppc s u") auto
    qed
    with assms(5) show ?thesis by (simp add: counts_inv_def)
  qed
  have ok: "p_ok (nitems s) (nput s) (buf s) (ppc s t)"
    using assms(1,4) by (simp add: prods_ok_def)
  from assms(6) have frame: "ppc s' = (ppc s)(t := ppc s' t)" "nitems s' = nitems s"
    by (cases "ppc s t"; force simp: producer_def Let_def split: if_splits)+
  from assms(3,6) ok lag have new: "p_ok (nitems s) (nput s') (buf s') (ppc s' t)"
    by (cases "ppc s t") (auto simp: producer_def Let_def split: if_splits)
  from assms(6) have "nput s' = nput s \<and> buf s' = buf s \<or> p_mutex (ppc s t) = 1 \<and> nput s \<le> nput s'"
    by (cases "ppc s t") (auto simp: producer_def Let_def split: if_splits)
  with prods_ok_move [OF assms(1,4) frame new] assms(2) show ?thesis by blast
qed

lemma producer_items:
  assumes "items_ok s" and "prods_ok P s" and "units_inv P s" and "counts_inv P s" and "t < P"
    and "c_range (nitems s) (cpc s) (c_i s)" and "producer t s = Some s'"
  shows "items_ok s'"
proof -
  have ok: "p_ok (nitems s) (nput s) (buf s) (ppc s t)"
    using assms(2,5) by (simp add: prods_ok_def)
  show ?thesis
  proof (cases "ppc s t")
    case P_store
    have s': "buf s' = (buf s)[slot (nput s) := nputval s]" "nput s' = nput s" "nitems s' = nitems s"
        "consumed s' = consumed s"
      using P_store assms(7) by (auto simp: producer_def consumed_def)
    have "buf s' ! slot k = k" if "consumed s \<le> k" "k < nput s" for k
    proof -
      have "slot k \<noteq> slot (nput s)"
        using that room [OF assms(3,5) _ assms(6)] P_store by (intro slot_inj) auto
      with that assms(1) s' show ?thesis by (simp add: items_ok_def)
    qed
    with s' assms(1) show ?thesis by (simp add: items_ok_def)
  next
    case P_inc_nput
    with assms(7) have s': "buf s' = buf s" "nput s' = nput s + 1" "nitems s' = nitems s"
        "consumed s' = consumed s"
      by (auto simp: producer_def consumed_def)
    from P_inc_nput ok have "nput s < nitems s" "buf s ! slot (nput s) = nput s" by auto
    moreover have "buf s ! slot k = k" if "consumed s \<le> k" "k < nput s + 1" for k
      using that assms(1) calculation(2) by (cases "k = nput s") (auto simp: items_ok_def)
    ultimately show ?thesis using s' assms(1) by (simp add: items_ok_def)
  qed (use assms(1,7) in \<open>auto simp: producer_def items_ok_def consumed_def Let_def split: if_splits\<close>)
qed

lemma producer_units:
  assumes "units_inv P s" and "t < P" and "producer t s = Some s'"
  shows "units_inv P s'"
  using assms
  by (cases "ppc s t")
    (auto simp: producer_def units_inv_def consumed_def sem_post_def Let_def split: if_splits)

lemma producer_counts:
  assumes "counts_inv P s" and "t < P" and "producer t s = Some s'"
  shows "counts_inv P s'"
proof -
  obtain pc c where s': "ppc s' = (ppc s)(t := pc)" "count s' = (count s)(t := c)" "pc \<noteq> P_none"
      and "ppc s t \<noteq> P_none"
    using assms(3) by (cases "ppc s t") (force simp: producer_def Let_def split: if_splits)+
  then have "live_count s' = (live_count s)(t := count s' t)" "live_count s t = count s t"
    by (auto simp: live_count_def fun_eq_iff)
  then have "tot (\<lambda>c. c) (live_count s') P = tot (\<lambda>c. c) (live_count s) P - count s t + count s' t"
    using assms(2) by simp
  with assms show ?thesis
    by (cases "ppc s t") (auto simp: producer_def counts_inv_def Let_def split: if_splits)
qed

lemma producer3_frame:
  assumes "producer t s = Some s'"
  shows "mpc s' = mpc s" and "cpc s' = cpc s" and "c_i s' = c_i s" and "nitems s' = nitems s"
    and "nproducers s' = nproducers s" and "printed s' = printed s"
    and "ppc s' = (ppc s)(t := ppc s' t)" and "ppc s t \<noteq> P_none" and "ppc s t \<noteq> P_return"
    and "ppc s' t \<noteq> P_none" and "u \<noteq> t \<Longrightarrow> count s' u = count s u"
  using assms by (cases "ppc s t"; force simp: producer_def Let_def split: if_splits)+

lemma running_units:
  assumes "inv argv s" and "t < threads argv" and "ppc s t \<noteq> P_none" and "\<not> exited (mpc s)"
  shows "units_inv (threads argv) s"
proof -
  have "0 < created (threads argv) (mpc s)"
    using assms by (auto simp: inv_def main_ok_def intro: gr0I)
  then show ?thesis using assms(1,4) by (cases "mpc s") (auto simp: inv_def sems_ok_def)
qed

lemma producer_lines:
  assumes "lines_ok P s" and "producer t s = Some s'"
  shows "lines_ok P s'"
proof -
  note f = producer3_frame [OF assms(2)]
  from assms(1) obtain k where k: "printed s = map (\<lambda>i. Count i (count s i)) [0..<k]"
      "\<not> exited (mpc s) \<longrightarrow> k = joined P (mpc s)" "mpc s = M_exit 0 \<longrightarrow> k = P"
      "\<forall>u<k. ppc s u = P_return"
    by (auto simp: lines_ok_def)
  with f(9) have "\<not> t < k" by auto
  then have "printed s' = map (\<lambda>i. Count i (count s' i)) [0..<k]"
    using k(1) f(6,11) by (auto intro!: map_cong)
  moreover have "\<forall>u<k. ppc s' u = P_return"
    using k(4) f(7) \<open>\<not> t < k\<close> by (metis fun_upd_apply)
  ultimately show ?thesis using k(2,3) f(1) by (auto simp: lines_ok_def)
qed

lemma producer_main_ok:
  assumes "main_ok P s" and "producer t s = Some s'"
  shows "main_ok P s'"
proof -
  note f = producer3_frame [OF assms(2)]
  have t: "\<not> t < joined P (mpc s)" using assms(1) f(9) by (auto simp: main_ok_def)
  obtain pc where pc: "ppc s' = (ppc s)(t := pc)" "pc \<noteq> P_none"
    using f(7,10) by blast
  with assms(1) f(1,8) t show ?thesis by (auto simp: main_ok_def)
qed

lemma producer3_inv:
  assumes "inv argv s" and "\<not> exited (mpc s)" and "producer t s = Some s'"
  shows "inv argv s'"
proof -
  note f = producer3_frame [OF assms(3)]
  have i: "prods_ok (threads argv) s" "counts_inv (threads argv) s" "items_ok s"
      "c_range (nitems s) (cpc s) (c_i s)" "c_allowed (mpc s) (cpc s)" "args_ok argv s"
      "main_ok (threads argv) s" "lines_ok (threads argv) s"
    using assms(1) by (simp_all add: inv_def)
  have t: "t < threads argv" using i(1) f(8) unfolding prods_ok_def by (meson not_le)
  have u: "units_inv (threads argv) s" by (rule running_units [OF assms(1) t f(8) assms(2)])
  have len: "length (buf s) = NBUFF" using i(3) by (simp add: items_ok_def)
  have "mpc s \<noteq> M_args" using i(6) f(8) by (auto simp: args_ok_def)
  then have "args_ok argv s'" using i(6) f(1,4,5) assms(2) by (cases "mpc s") (auto simp: args_ok_def)
  moreover have "sems_ok (threads argv) s'"
    using producer_units [OF u t assms(3)] assms(1) running_units [OF assms(1) t f(8) assms(2)]
      i(7) f(1,8) t by (cases "mpc s") (auto simp: sems_ok_def main_ok_def)
  ultimately show ?thesis
    using producer_prods_ok [OF i(1) u len t i(2) assms(3)] producer_counts [OF i(2) t assms(3)]
      producer_items [OF i(3,1) u i(2) t i(4) assms(3)] producer_lines [OF i(8) assms(3)]
      producer_main_ok [OF i(7) assms(3)] i(4,5) f(1-4)
    by (simp add: inv_def)
qed

lemma consumer3_frame:
  assumes "consumer s = Some s'"
  shows "mpc s' = mpc s" and "ppc s' = ppc s" and "nput s' = nput s" and "nputval s' = nputval s"
    and "nitems s' = nitems s" and "nproducers s' = nproducers s" and "buf s' = buf s"
    and "count s' = count s" and "cpc s \<noteq> C_none" and "cpc s \<noteq> C_return" and "cpc s' \<noteq> C_none"
    and "consumed s \<le> consumed s'"
  using assms by (cases "cpc s"; force simp: consumer_def consumed_def split: if_splits)+

lemma consuming3_cases:
  assumes "inv argv s" and "\<not> exited (mpc s)" and "cpc s \<noteq> C_none" and "cpc s \<noteq> C_return"
  shows "(\<exists>i. mpc s = M_join i) \<or> mpc s = M_join_consumer"
  using assms by (cases "mpc s") (auto simp: inv_def c_allowed_def)

lemma checked_item3:
  assumes "units_inv P s" and "items_ok s" and "cpc s = C_check"
  shows "buf s ! slot (c_i s) = c_i s"
proof -
  have "consumed s = c_i s" using assms(3) by (simp add: consumed_def)
  moreover have "c_i s < nput s"
    using assms calculation tot_nonneg [of p_filled "ppc s" P, OF p_weights_nonneg(3)]
    by (simp add: units_inv_def)
  ultimately show ?thesis using assms(2) by (simp add: items_ok_def)
qed

lemma consumer3_inv:
  assumes "inv argv s" and "\<not> exited (mpc s)" and "consumer s = Some s'"
  shows "inv argv s'"
proof -
  note f = consumer3_frame [OF assms(3)]
  have m: "(\<exists>i. mpc s = M_join i) \<or> mpc s = M_join_consumer"
    by (rule consuming3_cases [OF assms(1,2) f(9,10)])
  then have u: "units_inv (threads argv) s" using assms(1) by (auto simp: inv_def sems_ok_def)
  have it: "items_ok s" using assms(1) by (simp add: inv_def)
  have pr: "printed s' = printed s"
    using assms(3) checked_item3 [OF u it] by (cases "cpc s") (auto simp: consumer_def)
  have "items_ok s'" using it f(3,5,7,12) by (auto simp: items_ok_def)
  moreover have "units_inv (threads argv) s'"
    using u assms(3)
    by (cases "cpc s") (auto simp: consumer_def units_inv_def consumed_def sem_post_def split: if_splits)
  then have "sems_ok (threads argv) s'" using m f(1) by (auto simp: sems_ok_def)
  moreover have "c_range (nitems s') (cpc s') (c_i s')"
    using assms(1,3) f(9,10) by (cases "cpc s") (auto simp: inv_def consumer_def split: if_splits)
  moreover have "c_allowed (mpc s') (cpc s')" using m f(1,11) by (auto simp: c_allowed_def)
  moreover have "args_ok argv s'" using assms(1) m f(1,5,6) by (auto simp: inv_def args_ok_def)
  moreover have "lines_ok (threads argv) s'"
    using assms(1) pr f(1,2,8) by (simp add: inv_def lines_ok_def)
  moreover have "main_ok (threads argv) s' \<and> prods_ok (threads argv) s' \<and> counts_inv (threads argv) s'"
    using assms(1) f live_count_cong [OF f(2,8)] by (simp add: inv_def main_ok_def prods_ok_def counts_inv_def)
  ultimately show ?thesis by (simp add: inv_def)
qed

lemma die3_inv: "inv argv s \<Longrightarrow> inv argv (die s)"
proof -
  assume i: "inv argv s"
  then have "lines_ok (threads argv) (die s)"
    by (auto simp: inv_def lines_ok_def die_def)
  with i show ?thesis
    by (simp add: inv_def die_def args_ok_def main_ok_def c_allowed_def prods_ok_def counts_inv_def
      items_ok_def sems_ok_def consumed_def)
qed

lemma loop_bound:
  assumes "args_ok argv s" and "mpc s = M_create i \<or> mpc s = M_join i"
  shows "int i < nproducers s \<longleftrightarrow> i < threads argv"
  using assms by (auto simp: args_ok_def threads_def)

text \<open>A step of \<open>main\<close> that changes nothing but its own position and the semaphores.\<close>

lemma main3_only:
  assumes "inv argv s" and "nitems s' = nitems s" and "buf s' = buf s" and "nput s' = nput s"
    and "nputval s' = nputval s" and "count s' = count s" and "ppc s' = ppc s" and "cpc s' = cpc s"
    and "c_i s' = c_i s" and "printed s' = printed s"
    and "args_ok argv s'" and "c_allowed (mpc s') (cpc s)" and "sems_ok (threads argv) s'"
    and "created (threads argv) (mpc s') = created (threads argv) (mpc s)"
    and "joined (threads argv) (mpc s') = joined (threads argv) (mpc s)" and "\<not> exited (mpc s)"
  shows "inv argv s'"
proof -
  have "lines_ok (threads argv) s'"
    using assms by (cases "mpc s'") (auto simp: inv_def lines_ok_def)
  moreover have "counts_inv (threads argv) s'"
    using assms live_count_cong [of s' s] by (simp add: inv_def counts_inv_def)
  ultimately show ?thesis
    using assms by (simp add: inv_def main_ok_def prods_ok_def items_ok_def consumed_def)
qed

lemma main_create:
  assumes "inv argv s" and "mpc s = M_create i" and "i < threads argv"
    and s': "s' = s\<lparr>count := (count s)(i := 0), ppc := (ppc s)(i := P_wait_nempty), mpc := M_create (Suc i)\<rparr>"
  shows "inv argv s'"
proof -
  have none: "ppc s i = P_none" using assms(1-3) by (auto simp: inv_def main_ok_def)
  have "live_count s' = live_count s"
    using none by (auto simp: live_count_def s' fun_eq_iff)
  then have "counts_inv (threads argv) s'"
    using assms(1,3) none by (simp add: inv_def counts_inv_def s')
  moreover have "sems_ok (threads argv) s'"
    using assms(1-3) none by (simp add: inv_def sems_ok_def units_inv_def consumed_def s')
  moreover have "main_ok (threads argv) s'"
    using assms(1-3) by (auto simp: inv_def main_ok_def s')
  moreover have "prods_ok (threads argv) s'"
    using assms(1-3) by (auto simp: inv_def prods_ok_def s')
  moreover have "args_ok argv s' \<and> items_ok s' \<and> lines_ok (threads argv) s' \<and>
      c_allowed (mpc s') (cpc s') \<and> c_range (nitems s') (cpc s') (c_i s')"
    using assms(1,2) by (auto simp: inv_def args_ok_def items_ok_def lines_ok_def c_allowed_def
        consumed_def s')
  ultimately show ?thesis by (simp add: inv_def)
qed

lemma main_join:
  assumes "inv argv s" and "mpc s = M_join i" and "i < threads argv" and "ppc s i = P_return"
    and s': "s' = s\<lparr>printed := printed s @ [Count i (count s i)], mpc := M_join (Suc i)\<rparr>"
  shows "inv argv s'"
proof -
  have "lines_ok (threads argv) s'"
    using assms(1-4) by (auto simp: inv_def lines_ok_def s' less_Suc_eq)
  moreover have "main_ok (threads argv) s'"
    using assms(1-4) by (auto simp: inv_def main_ok_def s' less_Suc_eq)
  moreover have "sems_ok (threads argv) s' \<and> args_ok argv s' \<and> items_ok s' \<and> prods_ok (threads argv) s' \<and>
      counts_inv (threads argv) s' \<and> c_allowed (mpc s') (cpc s') \<and> c_range (nitems s') (cpc s') (c_i s')"
    using assms(1,2) by (auto simp: inv_def args_ok_def items_ok_def c_allowed_def sems_ok_def
        units_inv_def prods_ok_def counts_inv_def consumed_def s')
  ultimately show ?thesis by (simp add: inv_def)
qed

lemma main_args:
  assumes "inv argv s" and "mpc s = M_args" and "length argv = 3"
    and s': "s' = s\<lparr>nitems := atoi (argv ! 1), nproducers := min (atoi (argv ! 2)) MAXNTHREADS, mpc := M_mutex\<rparr>"
  shows "inv argv s'"
  using assms(1-3)
  by (auto simp: inv_def args_ok_def main_ok_def c_allowed_def prods_ok_def counts_inv_def
      items_ok_def sems_ok_def lines_ok_def consumed_def s')

lemma main_create_consumer:
  assumes "inv argv s" and "mpc s = M_create_consumer"
    and s': "s' = s\<lparr>cpc := C_for, c_i := 0, mpc := M_join 0\<rparr>"
  shows "inv argv s'"
proof -
  have c: "cpc s = C_none" "c_i s = 0" using assms(1,2) by (auto simp: inv_def c_allowed_def)
  have "units_inv (threads argv) s" using assms(1,2) by (simp add: inv_def sems_ok_def)
  with c have "sems_ok (threads argv) s'" by (simp add: sems_ok_def units_inv_def consumed_def s')
  moreover have "args_ok argv s' \<and> main_ok (threads argv) s' \<and> prods_ok (threads argv) s' \<and>
      counts_inv (threads argv) s' \<and> lines_ok (threads argv) s'"
    using assms(1,2) by (auto simp: inv_def args_ok_def main_ok_def prods_ok_def counts_inv_def
        lines_ok_def s')
  moreover have "items_ok s' \<and> c_allowed (mpc s') (cpc s') \<and> c_range (nitems s') (cpc s') (c_i s')"
    using assms(1) c by (auto simp: inv_def items_ok_def consumed_def c_allowed_def s')
  ultimately show ?thesis by (simp add: inv_def)
qed

lemma main_inv:
  assumes "inv argv s" and "main argv ok s = Some s'"
  shows "inv argv s'"
proof (cases "s' = die s")
  case True
  with die3_inv assms(1) show ?thesis by simp
next
  case False
  have a: "args_ok argv s" "c_allowed (mpc s) (cpc s)" "sems_ok (threads argv) s"
      "main_ok (threads argv) s" "prods_ok (threads argv) s" "counts_inv (threads argv) s"
      "items_ok s" "c_range (nitems s) (cpc s) (c_i s)"
    using assms(1) by (simp_all add: inv_def)
  show ?thesis
  proof (cases "mpc s")
    case M_args
    with main_args [OF assms(1)] False assms(2) show ?thesis
      by (auto simp: main_def split: if_splits)
  next
    case (M_create i)
    show ?thesis
    proof (cases "i < threads argv")
      case True
      with M_create main_create [OF assms(1) M_create True] loop_bound [OF a(1)] False assms(2)
      show ?thesis by (auto simp: main_def split: if_splits)
    next
      case F: False
      with M_create a(4) have "i = threads argv" by (simp add: main_ok_def)
      with M_create F False loop_bound [OF a(1)] assms a show ?thesis
        by (intro main3_only [OF assms(1)])
          (auto simp: main_def args_ok_def c_allowed_def sems_ok_def units_inv_def consumed_def)
    qed
  next
    case M_create_consumer
    with main_create_consumer [OF assms(1)] False assms(2) show ?thesis
      by (auto simp: main_def split: if_splits)
  next
    case (M_join i)
    show ?thesis
    proof (cases "i < threads argv")
      case True
      with M_join main_join [OF assms(1) M_join True] loop_bound [OF a(1)] False assms(2)
      show ?thesis by (auto simp: main_def split: if_splits)
    next
      case F: False
      with M_join a(4) have "i = threads argv" by (simp add: main_ok_def)
      with M_join F False loop_bound [OF a(1)] assms a show ?thesis
        by (intro main3_only [OF assms(1)])
          (auto simp: main_def args_ok_def c_allowed_def sems_ok_def units_inv_def consumed_def)
    qed
  next
    case M_mutex
    with False assms a show ?thesis
      by (intro main3_only [OF assms(1)])
        (auto simp: main_def args_ok_def c_allowed_def sems_ok_def split: if_splits)
  next
    case M_nempty
    with False assms a show ?thesis
      by (intro main3_only [OF assms(1)])
        (auto simp: main_def args_ok_def c_allowed_def sems_ok_def split: if_splits)
  next
    case M_nstored
    with a(4) have z: "ppc s t = P_none" if "t < threads argv" for t
      using that by (auto simp: main_ok_def)
    then have "tot w (ppc s) (threads argv) = 0" if "w P_none = 0" for w
      using that by (intro tot_zero) simp
    moreover have "tot (\<lambda>c. c) (live_count s) (threads argv) = 0"
      using z by (intro tot_zero) (simp add: live_count_def)
    ultimately have "units_inv (threads argv) (s\<lparr>nstored := 0, mpc := M_create 0\<rparr>)"
      using M_nstored a(2,3,6,8) by (simp add: units_inv_def sems_ok_def counts_inv_def c_allowed_def consumed_def)
    with M_nstored False assms a show ?thesis
      by (intro main3_only [OF assms(1)])
        (auto simp: main_def args_ok_def c_allowed_def sems_ok_def split: if_splits)
  qed (use False assms a in \<open>auto intro!: main3_only [OF assms(1)]
      simp: main_def args_ok_def c_allowed_def sems_ok_def units_inv_def consumed_def split: if_splits\<close>)
qed

lemma start3_inv: "inv argv (start g)"
proof -
  have "tot (\<lambda>c. c) (live_count (start g)) (threads argv) = 0"
    by (rule tot_zero) (simp add: live_count_def start_def)
  then show ?thesis
    by (simp add: inv_def args_ok_def main_ok_def c_allowed_def prods_ok_def counts_inv_def items_ok_def
        sems_ok_def lines_ok_def consumed_def) (simp add: start_def)
qed

lemma step_inv: "inv argv s \<Longrightarrow> step argv a s = Some s' \<Longrightarrow> inv argv s'"
  by (cases a) (auto intro: main_inv producer3_inv consumer3_inv split: if_splits)

section \<open>Termination and progress\<close>

fun m_rank :: "int \<Rightarrow> main_pc \<Rightarrow> int" where
  "m_rank P M_args = 2 * P + 12" | "m_rank P M_mutex = 2 * P + 11" | "m_rank P M_nempty = 2 * P + 10"
| "m_rank P M_nstored = 2 * P + 9" | "m_rank P (M_create i) = 2 * P + 8 - int i"
| "m_rank P M_create_consumer = P + 7" | "m_rank P (M_join i) = P + 6 - int i"
| "m_rank P M_join_consumer = 5" | "m_rank P M_rm_mutex = 4" | "m_rank P M_rm_nempty = 3"
| "m_rank P M_rm_nstored = 2" | "m_rank P (M_exit _) = 0"

fun p_rank :: "producer_pc \<Rightarrow> int" where
  "p_rank P_none = 7" | "p_rank P_wait_nempty = 6" | "p_rank P_wait_mutex = 5" | "p_rank P_test = 4"
| "p_rank P_full_post_nempty = 2" | "p_rank P_full_post_mutex = 1" | "p_rank P_store = 3"
| "p_rank P_inc_nput = 2" | "p_rank P_inc_nputval = 11" | "p_rank P_post_mutex = 10"
| "p_rank P_post_nstored = 9" | "p_rank P_count = 8" | "p_rank P_return = 0"

fun c_rank :: "consumer_pc \<Rightarrow> int" where
  "c_rank C_none = 8" | "c_rank C_for = 7" | "c_rank C_wait_nstored = 6" | "c_rank C_wait_mutex = 5"
| "c_rank C_check = 4" | "c_rank C_post_mutex = 3" | "c_rank C_post_nempty = 2"
| "c_rank C_inc = 1" | "c_rank C_return = 0"

definition irank :: "string list \<Rightarrow> shared \<Rightarrow> int" where
  "irank argv s = m_rank (int (threads argv)) (mpc s) + 20 * (wanted argv - nput s)
     + tot p_rank (ppc s) (threads argv) + 8 * (wanted argv - c_i s) + c_rank (cpc s)"

definition bounded :: "string list \<Rightarrow> shared \<Rightarrow> bool" where
  "bounded argv s \<longleftrightarrow> nput s \<le> wanted argv \<and> 0 \<le> c_i s \<and> c_i s \<le> wanted argv \<and>
     (cpc s = C_inc \<longrightarrow> c_i s < wanted argv) \<and> created (threads argv) (mpc s) \<le> threads argv \<and>
     joined (threads argv) (mpc s) \<le> threads argv"

lemma c_range_bounds: "c_range n pc i \<Longrightarrow> i \<le> max 0 n \<and> (pc = C_inc \<longrightarrow> i < max 0 n)"
  by (cases pc) auto

text \<open>The bounds hold in every state, also after an early \<open>exit\<close>.\<close>

definition nitems_ok :: "string list \<Rightarrow> shared \<Rightarrow> bool" where
  "nitems_ok argv s \<longleftrightarrow> max 0 (nitems s) \<le> wanted argv"

lemma nitems_ok_step: "nitems_ok argv s \<Longrightarrow> step argv a s = Some s' \<Longrightarrow> nitems_ok argv s'"
proof (cases a)
  case (Main ok)
  assume "nitems_ok argv s" and "step argv a s = Some s'"
  with Main show ?thesis
    by (cases "mpc s") (auto simp: nitems_ok_def wanted_def main_def die_def split: if_splits)
next
  case (Producer t)
  assume "nitems_ok argv s" and "step argv a s = Some s'"
  with Producer producer3_frame(4) [of t s s'] show ?thesis by (auto simp: nitems_ok_def split: if_splits)
next
  case Consumer
  assume "nitems_ok argv s" and "step argv a s = Some s'"
  with Consumer consumer3_frame(5) [of s s'] show ?thesis by (auto simp: nitems_ok_def split: if_splits)
qed

definition full_inv :: "string list \<Rightarrow> shared \<Rightarrow> bool" where
  "full_inv argv s \<longleftrightarrow> inv argv s \<and> nitems_ok argv s"

lemma full_bounded: "full_inv argv s \<Longrightarrow> bounded argv s"
  using c_range_bounds [of "nitems s" "cpc s" "c_i s"] c_range3_nonneg [of "nitems s" "cpc s" "c_i s"]
  by (auto simp: full_inv_def bounded_def inv_def items_ok_def main_ok_def nitems_ok_def)

lemma irank_nonneg: "bounded argv s \<Longrightarrow> 0 \<le> irank argv s"
proof -
  assume b: "bounded argv s"
  have "0 \<le> tot p_rank (ppc s) (threads argv)"
    by (rule tot_nonneg) (rename_tac x, case_tac x; simp)
  moreover have "0 \<le> m_rank (int (threads argv)) (mpc s)"
    using b by (cases "mpc s") (auto simp: bounded_def)
  moreover have "0 \<le> c_rank (cpc s)" by (cases "cpc s") auto
  ultimately show ?thesis using b by (simp add: irank_def bounded_def)
qed

lemma producer_irank:
  assumes "t < threads argv" and "producer t s = Some s'"
  shows "irank argv s' < irank argv s"
  using assms
  by (cases "ppc s t") (auto simp: producer_def irank_def Let_def split: if_splits)

lemma consumer_irank:
  assumes "bounded argv s" and "consumer s = Some s'"
  shows "irank argv s' < irank argv s"
  using assms
  by (cases "cpc s") (auto simp: consumer_def irank_def split: if_splits)

lemma main_irank:
  assumes "inv argv s" and "bounded argv s" and "main argv ok s = Some s'"
  shows "irank argv s' < irank argv s"
proof -
  have a: "args_ok argv s" "c_allowed (mpc s) (cpc s)" "main_ok (threads argv) s"
      "c_range (nitems s) (cpc s) (c_i s)"
    using assms(1) by (simp_all add: inv_def)
  show ?thesis
  proof (cases "mpc s")
    case (M_create i)
    with a(3) assms(2) loop_bound [OF a(1)] assms(3) show ?thesis
      by (auto simp: main_def die_def irank_def main_ok_def bounded_def split: if_splits)
  next
    case (M_join i)
    with a(3) assms(2) loop_bound [OF a(1)] assms(3) show ?thesis
      by (auto simp: main_def die_def irank_def main_ok_def bounded_def split: if_splits)
  next
    case M_create_consumer
    with a(2,4) assms(3) show ?thesis
      by (auto simp: main_def die_def irank_def c_allowed_def split: if_splits)
  qed (use assms(3) in \<open>auto simp: main_def die_def irank_def split: if_splits\<close>)
qed

lemma step_irank:
  assumes "full_inv argv s" and "step argv a s = Some s'"
  shows "irank argv s' < irank argv s"
proof -
  have i: "inv argv s" and b: "bounded argv s"
    using assms(1) full_bounded by (auto simp: full_inv_def)
  show ?thesis
  proof (cases a)
    case (Producer t)
    with assms(2) have p: "producer t s = Some s'" by (auto split: if_splits)
    have "prods_ok (threads argv) s" using i by (simp add: inv_def)
    with producer3_frame(8) [OF p] have "t < threads argv" unfolding prods_ok_def by (meson not_le)
    from producer_irank [OF this p] show ?thesis .
  qed (use assms(2) main_irank [OF i b] consumer_irank [OF b] in \<open>auto split: if_splits\<close>)
qed

text \<open>With at least one producer, some thread can always move until the process exits.\<close>

lemma producer_blocked:
  "producer t s = None \<longleftrightarrow> ppc s t \<in> {P_none, P_return} \<or> ppc s t = P_wait_nempty \<and> nempty s = 0 \<or>
     ppc s t = P_wait_mutex \<and> mutex s = 0"
  by (cases "ppc s t") (auto simp: producer_def Let_def)

lemma consumer_blocked:
  "consumer s = None \<longleftrightarrow> cpc s \<in> {C_none, C_return} \<or> cpc s = C_wait_nstored \<and> nstored s = 0 \<or>
     cpc s = C_wait_mutex \<and> mutex s = 0"
  by (cases "cpc s") (auto simp: consumer_def)

lemma all_blocked:
  assumes "inv argv s" and "mpc s = M_join i \<or> mpc s = M_join_consumer" and "0 < threads argv"
    and "\<forall>t. producer t s = None" and "consumer s = None"
  shows "(\<forall>t<threads argv. ppc s t = P_return) \<and> cpc s = C_return"
proof -
  let ?P = "threads argv"
  have u: "units_inv ?P s" using assms(1,2) by (auto simp: inv_def sems_ok_def)
  have none: "ppc s t \<noteq> P_none" if "t < ?P" for t
    using assms(1,2) that by (auto simp: inv_def main_ok_def)
  have cnone: "cpc s \<noteq> C_none" using assms(1,2) by (auto simp: inv_def c_allowed_def)
  have "tot p_mutex (ppc s) ?P = 0"
  proof (rule tot_zero)
    fix t
    from assms(4) producer_blocked [of t s] show "p_mutex (ppc s t) = 0" by auto
  qed
  moreover have "c_mutex (cpc s) = 0" using assms(5) consumer_blocked by fastforce
  ultimately have mx: "mutex s = 1" using u by (simp add: units_inv_def)
  have p: "ppc s t = P_return \<or> ppc s t = P_wait_nempty \<and> nempty s = 0" if "t < ?P" for t
    using assms(4) producer_blocked none [OF that] mx by auto
  have c: "cpc s = C_return \<or> cpc s = C_wait_nstored \<and> nstored s = 0"
    using assms(5) consumer_blocked cnone mx by auto
  have "tot p_unit (ppc s) ?P = 0" "tot p_filled (ppc s) ?P = 0"
    using p by (intro tot_zero; fastforce)+
  with u c have e: "int (nempty s) + int (nstored s) = int NBUFF" "nput s = consumed s + int (nstored s)"
    by (auto simp: units_inv_def)
  have cr: "c_range (nitems s) (cpc s) (c_i s)" "items_ok s" using assms(1) by (simp_all add: inv_def)
  have ret: "ppc s t = P_return" if "t < ?P" for t
  proof (rule ccontr)
    assume "ppc s t \<noteq> P_return"
    with p [OF that] have "nstored s = NBUFF" using e by simp
    with c cr e show False by (auto simp: items_ok_def consumed_def NBUFF_def)
  qed
  moreover have "cpc s = C_return"
  proof (rule ccontr)
    assume "cpc s \<noteq> C_return"
    with c cr e have "nput s < nitems s" by (auto simp: consumed_def)
    moreover have "p_ok (nitems s) (nput s) (buf s) P_return"
      using assms(1,3) ret by (metis inv_def prods_ok_def)
    ultimately show False by simp
  qed
  ultimately show ?thesis by blast
qed

lemma step_progress:
  assumes "inv argv s" and "\<not> exited (mpc s)" and "0 < threads argv"
  shows "\<exists>a\<in>good. \<exists>s'. step argv a s = Some s'"
proof (rule ccontr)
  assume "\<not> (\<exists>a\<in>good. \<exists>s'. step argv a s = Some s')"
  then have none: "step argv a s = None" if "a \<noteq> Main False" for a using that by (auto simp: good_def)
  have p: "\<forall>t. producer t s = None" and c: "consumer s = None" and m: "main argv True s = None"
    using none [of "Producer _"] none [of Consumer] none [of "Main True"] assms(2) by auto
  have lb: "int i < nproducers s \<longleftrightarrow> i < threads argv" if "mpc s = M_join i" for i
    using loop_bound [of argv s i] that assms(1) by (simp add: inv_def)
  from m have "(\<exists>i. mpc s = M_join i \<and> i < threads argv \<and> ppc s i \<noteq> P_return) \<or>
      mpc s = M_join_consumer \<and> cpc s \<noteq> C_return"
    using assms(2) lb by (cases "mpc s") (auto simp: main_def split: if_splits)
  with all_blocked [OF assms(1) _ assms(3) p c] show False by blast
qed

definition rank :: "string list \<Rightarrow> shared \<Rightarrow> nat" where
  "rank argv s = nat (irank argv s)"

interpretation prodcons3: terminating_system "step argv" "start g" "full_inv argv" "rank argv"
  "\<lambda>s. exited (mpc s) \<or> threads argv = 0" good for argv g
proof unfold_locales
  show "full_inv argv (start g)"
    using start3_inv by (simp add: full_inv_def nitems_ok_def wanted_def start_def)
next
  fix s a s' assume i: "full_inv argv s" and s: "step argv a s = Some s'"
  show i': "full_inv argv s'"
    using i s step_inv nitems_ok_step by (auto simp: full_inv_def)
  show "rank argv s' < rank argv s"
    using step_irank [OF i s] irank_nonneg [OF full_bounded [OF i']] by (simp add: rank_def)
next
  fix s assume "full_inv argv s" and "\<not> (exited (mpc s) \<or> threads argv = 0)"
  with step_progress show "\<exists>a\<in>good. \<exists>s'. step argv a s = Some s'" by (auto simp: full_inv_def)
qed

section \<open>Properties\<close>

lemma all_counted:
  assumes "inv argv s" and "mpc s = M_exit 0"
  shows "tot (\<lambda>c. c) (count s) (threads argv) = wanted argv" and "c_i s = wanted argv"
proof -
  let ?P = "threads argv"
  have ret: "\<forall>t<?P. ppc s t = P_return" and c: "cpc s = C_return" and u: "units_inv ?P s"
    and n: "nitems s = atoi (argv ! 1)"
    using assms by (auto simp: inv_def main_ok_def c_allowed_def sems_ok_def args_ok_def)
  then show ci: "c_i s = wanted argv"
    using assms(1) by (simp add: inv_def wanted_def)
  have z: "tot p_uncounted (ppc s) ?P = 0" "tot p_filled (ppc s) ?P = 0"
    using ret by (auto intro: tot_zero)
  have "tot (\<lambda>c. c) (live_count s) ?P = tot (\<lambda>c. c) (count s) ?P"
    unfolding tot_def by (rule sum.cong) (use ret in \<open>auto simp: live_count_def\<close>)
  moreover have "nput s = wanted argv"
    using u z c ci n assms(1) by (auto simp: units_inv_def inv_def items_ok_def wanted_def consumed_def)
  ultimately show "tot (\<lambda>c. c) (count s) ?P = wanted argv"
    using assms(1) z by (simp add: inv_def counts_inv_def)
qed

text \<open>
  C12. sem\_prodcons3, for every schedule of its threads, every pattern of failing calls and any
  initial contents of \<open>count\<close>: the consumer never reports a wrong value; the only lines printed
  are the counts of the joined producers; and at exit status 0 every producer's count has been
  printed and the counts add up to the number of items, all of which were consumed.
\<close>

theorem prodcons3_counts:
  assumes "run (step argv) sched (start g) = Some s"
  shows "(\<forall>i v. Mismatch i v \<notin> set (printed s)) \<and>
    (mpc s = M_exit 0 \<longrightarrow>
       printed s = map (\<lambda>i. Count i (count s i)) [0..<threads argv] \<and>
       (\<Sum>i<threads argv. count s i) = wanted argv \<and> c_i s = wanted argv)"
proof -
  have i: "inv argv s" using prodcons3.run_inv [OF assms] by (simp add: full_inv_def)
  then obtain k where k: "printed s = map (\<lambda>i. Count i (count s i)) [0..<k]"
    "mpc s = M_exit 0 \<longrightarrow> k = threads argv"
    by (auto simp: inv_def lines_ok_def)
  have "(\<Sum>i<threads argv. count s i) = wanted argv \<and> c_i s = wanted argv" if "mpc s = M_exit 0"
    using all_counted [OF i that] by (simp add: tot_def)
  with k show ?thesis by auto
qed

definition one_producer :: "act list" where
  "one_producer = replicate 7 (Main True) @ replicate 14 (Producer 0) @ replicate 8 Consumer
     @ replicate 6 (Main True)"

lemma one_producer_ends:
  obtains s where "run (step [''prodcons3'', ''1'', ''1'']) one_producer (start (\<lambda>_. 7)) = Some s" "mpc s = M_exit 0"
proof -
  have "case run (step [''prodcons3'', ''1'', ''1'']) one_producer (start (\<lambda>_. 7))
      of None \<Rightarrow> False | Some s \<Rightarrow> mpc s = M_exit 0"
    by code_simp
  then show ?thesis using that by (auto split: option.splits)
qed

theorem prodcons3_counts_witness:
  "\<exists>s. run (step [''prodcons3'', ''1'', ''1'']) one_producer (start (\<lambda>_. 7)) = Some s \<and>
     mpc s = M_exit 0 \<and> printed s = [Count 0 (count s 0)] \<and> count s 0 = 1"
proof -
  obtain s where s: "run (step [''prodcons3'', ''1'', ''1'']) one_producer (start (\<lambda>_. 7)) = Some s"
    "mpc s = M_exit 0"
    by (rule one_producer_ends)
  have "threads [''prodcons3'', ''1'', ''1''] = 1" "wanted [''prodcons3'', ''1'', ''1''] = 1"
    by code_simp+
  with s prodcons3_counts [OF s(1)] show ?thesis by auto
qed

text \<open>
  C30. sem\_prodcons3 terminates under every scheduler when there is at least one producer: the
  length of a schedule is bounded by the items and the producers, and a schedule that cannot be
  extended has ended the process.
\<close>

theorem prodcons3_terminates:
  assumes "run (step argv) sched (start g) = Some s"
  shows "int (length sched) \<le> 20 + 28 * wanted argv + 9 * int (threads argv) \<and>
    (stuck good (step argv) s \<and> 0 < threads argv \<longrightarrow> exited (mpc s))"
proof -
  have "irank argv (start g) \<le> 20 + 28 * wanted argv + 9 * int (threads argv)"
    by (simp add: irank_def start_def)
  moreover have "0 \<le> irank argv (start g)"
    by (simp add: irank_def start_def wanted_def)
  ultimately have "int (rank argv (start g)) \<le> 20 + 28 * wanted argv + 9 * int (threads argv)"
    by (simp add: rank_def)
  with prodcons3.run_bounded [OF assms] prodcons3.stuck_final [OF assms] show ?thesis
    by auto
qed

lemma exited_stuck: "exited (mpc s) \<Longrightarrow> stuck good (step argv) s"
  unfolding stuck_def
proof
  fix a assume "exited (mpc s)"
  then show "step argv a s = None"
    by (cases a; cases "mpc s") (simp_all add: main_def)
qed

theorem prodcons3_terminates_witness:
  "\<exists>s. run (step [''prodcons3'', ''1'', ''1'']) one_producer (start (\<lambda>_. 7)) = Some s \<and>
     stuck good (step [''prodcons3'', ''1'', ''1'']) s \<and> exited (mpc s) \<and> length one_producer \<le> 57"
proof -
  obtain s where s: "run (step [''prodcons3'', ''1'', ''1'']) one_producer (start (\<lambda>_. 7)) = Some s"
    "mpc s = M_exit 0"
    by (rule one_producer_ends)
  have "threads [''prodcons3'', ''1'', ''1''] = 1" "wanted [''prodcons3'', ''1'', ''1''] = 1"
    by code_simp+
  with prodcons3_terminates [OF s(1)] exited_stuck [of s] s show ?thesis by auto
qed

definition no_producer_run :: "act list" where
  "no_producer_run = replicate 7 (Main True) @ [Consumer]"

text \<open>
  Without producers and with items to consume, sem\_prodcons3 started as
  \<open>prodcons3 <n> 0\<close> reaches a state in which no thread can move and the process has not
  exited: the consumer waits for ever.
\<close>

theorem prodcons3_no_producers_hang:
  "\<exists>s. run (step [''prodcons3'', ''1'', ''0'']) no_producer_run (start g) = Some s \<and>
     \<not> exited (mpc s) \<and> stuck good (step [''prodcons3'', ''1'', ''0'']) s"
proof -
  have a: "atoi ''1'' = 1" "atoi ''0'' = 0" by code_simp+
  have "case run (step [''prodcons3'', ''1'', ''0'']) no_producer_run (start g) of None \<Rightarrow> False
    | Some s \<Rightarrow> mpc s = M_join_consumer \<and> cpc s = C_wait_nstored \<and> nstored s = 0 \<and> (\<forall>t. ppc s t = P_none)"
    by (simp add: no_producer_run_def eval_nat_numeral main_def consumer_def start_def a MAXNTHREADS_def)
  then obtain s where s: "run (step [''prodcons3'', ''1'', ''0'']) no_producer_run (start g) = Some s"
    and m: "mpc s = M_join_consumer" "cpc s = C_wait_nstored" "nstored s = 0" "\<forall>t. ppc s t = P_none"
    by (auto split: option.splits)
  have "step [''prodcons3'', ''1'', ''0''] a s = None" if "a \<in> good" for a
    using that m by (cases a) (auto simp: good_def main_def producer_def consumer_def)
  with s m show ?thesis by (auto simp: stuck_def)
qed

end
