(* ===== verification/Sem_Prodcons4.thy ===== *)
theory Sem_Prodcons4
  imports Posix_Sync Bounded_Fifo
begin

text \<open>
  \<^verbatim>\<open>src/ipc/src/pxsem/sem_prodcons4.c\<close>: several producers and several consumers over the circular
  buffer. The producers share \<open>nput\<close> and \<open>nputval\<close>, the consumers \<open>nget\<close> and \<open>ngetval\<close>. A producer that
  finds all items stored posts \<open>nstored\<close> once more, and so does a consumer that finds all items taken:
  these extra units let the consumers that still wait end.
\<close>

section \<open>Model\<close>

definition MAXNTHREADS :: int where "MAXNTHREADS = 100"

datatype main_pc =
    M_args | M_mutex | M_nempty | M_nstored | M_create nat | M_create_consumer nat
  | M_join nat | M_join_consumer nat | M_rm_mutex | M_rm_nempty | M_rm_nstored | M_exit int

datatype producer_pc =
    P_none | P_wait_nempty | P_wait_mutex | P_test | P_end_post_nstored | P_end_post_mutex | P_end_post_nempty
  | P_store | P_inc_nput | P_inc_nputval | P_post_mutex | P_post_nstored | P_count | P_return

datatype consumer_pc =
    C_none | C_wait_nstored | C_wait_mutex | C_test | C_end_post_nstored | C_end_post_mutex
  | C_check | C_inc_nget | C_inc_ngetval | C_post_mutex | C_post_nempty | C_count | C_return

datatype line = Usage | Error string | ProducerCount nat int | ConsumerCount nat int | Mismatch nat int

record shared =
  nitems :: int
  nproducers :: int
  nconsumers :: int
  buf :: "int list"
  nput :: int
  nputval :: int
  nget :: int
  ngetval :: int
  mutex :: nat
  nempty :: nat
  nstored :: nat
  prodcount :: "nat \<Rightarrow> int"
  conscount :: "nat \<Rightarrow> int"
  mpc :: main_pc
  ppc :: "nat \<Rightarrow> producer_pc"
  cpc :: "nat \<Rightarrow> consumer_pc"
  printed :: "line list"

text \<open>\<open>g\<close> and \<open>h\<close> are what the uninitialised arrays of \<open>main\<close> hold.\<close>

definition start :: "(nat \<Rightarrow> int) \<Rightarrow> (nat \<Rightarrow> int) \<Rightarrow> shared" where
  "start g h = \<lparr>nitems = 0, nproducers = 0, nconsumers = 0, buf = replicate NBUFF 0, nput = 0, nputval = 0,
     nget = 0, ngetval = 0, mutex = 0, nempty = 0, nstored = 0, prodcount = g, conscount = h, mpc = M_args,
     ppc = (\<lambda>_. P_none), cpc = (\<lambda>_. C_none), printed = []\<rparr>"

fun exited :: "main_pc \<Rightarrow> bool" where
  "exited (M_exit _) = True"
| "exited _ = False"

definition die :: "line \<Rightarrow> shared \<Rightarrow> shared" where
  "die l s = s\<lparr>printed := printed s @ [l], mpc := M_exit 1\<rparr>"

definition producer :: "nat \<Rightarrow> shared \<Rightarrow> shared option" where
  "producer t s = (let goto = (\<lambda>pc u. u\<lparr>ppc := (ppc u)(t := pc)\<rparr>) in case ppc s t of
     P_wait_nempty \<Rightarrow> map_option (\<lambda>v. goto P_wait_mutex (s\<lparr>nempty := v\<rparr>)) (sem_wait (nempty s))
   | P_wait_mutex \<Rightarrow> map_option (\<lambda>v. goto P_test (s\<lparr>mutex := v\<rparr>)) (sem_wait (mutex s))
   | P_test \<Rightarrow> Some (if nput s \<ge> nitems s then goto P_end_post_nstored s else goto P_store s)
   | P_end_post_nstored \<Rightarrow> Some (goto P_end_post_mutex (s\<lparr>nstored := sem_post (nstored s)\<rparr>))
   | P_end_post_mutex \<Rightarrow> Some (goto P_end_post_nempty (s\<lparr>mutex := sem_post (mutex s)\<rparr>))
   | P_end_post_nempty \<Rightarrow> Some (goto P_return (s\<lparr>nempty := sem_post (nempty s)\<rparr>))
   | P_store \<Rightarrow> Some (goto P_inc_nput (s\<lparr>buf := (buf s)[slot (nput s) := nputval s]\<rparr>))
   | P_inc_nput \<Rightarrow> Some (goto P_inc_nputval (s\<lparr>nput := nput s + 1\<rparr>))
   | P_inc_nputval \<Rightarrow> Some (goto P_post_mutex (s\<lparr>nputval := nputval s + 1\<rparr>))
   | P_post_mutex \<Rightarrow> Some (goto P_post_nstored (s\<lparr>mutex := sem_post (mutex s)\<rparr>))
   | P_post_nstored \<Rightarrow> Some (goto P_count (s\<lparr>nstored := sem_post (nstored s)\<rparr>))
   | P_count \<Rightarrow> Some (goto P_wait_nempty (s\<lparr>prodcount := (prodcount s)(t := prodcount s t + 1)\<rparr>))
   | P_none \<Rightarrow> None
   | P_return \<Rightarrow> None)"

definition consumer :: "nat \<Rightarrow> shared \<Rightarrow> shared option" where
  "consumer t s = (let goto = (\<lambda>pc u. u\<lparr>cpc := (cpc u)(t := pc)\<rparr>); i = slot (nget s) in case cpc s t of
     C_wait_nstored \<Rightarrow> map_option (\<lambda>v. goto C_wait_mutex (s\<lparr>nstored := v\<rparr>)) (sem_wait (nstored s))
   | C_wait_mutex \<Rightarrow> map_option (\<lambda>v. goto C_test (s\<lparr>mutex := v\<rparr>)) (sem_wait (mutex s))
   | C_test \<Rightarrow> Some (if nget s \<ge> nitems s then goto C_end_post_nstored s else goto C_check s)
   | C_end_post_nstored \<Rightarrow> Some (goto C_end_post_mutex (s\<lparr>nstored := sem_post (nstored s)\<rparr>))
   | C_end_post_mutex \<Rightarrow> Some (goto C_return (s\<lparr>mutex := sem_post (mutex s)\<rparr>))
   | C_check \<Rightarrow> Some (goto C_inc_nget (if buf s ! i \<noteq> ngetval s then s\<lparr>printed := printed s @ [Mismatch i (buf s ! i)]\<rparr> else s))
   | C_inc_nget \<Rightarrow> Some (goto C_inc_ngetval (s\<lparr>nget := nget s + 1\<rparr>))
   | C_inc_ngetval \<Rightarrow> Some (goto C_post_mutex (s\<lparr>ngetval := ngetval s + 1\<rparr>))
   | C_post_mutex \<Rightarrow> Some (goto C_post_nempty (s\<lparr>mutex := sem_post (mutex s)\<rparr>))
   | C_post_nempty \<Rightarrow> Some (goto C_count (s\<lparr>nempty := sem_post (nempty s)\<rparr>))
   | C_count \<Rightarrow> Some (goto C_wait_nstored (s\<lparr>conscount := (conscount s)(t := conscount s t + 1)\<rparr>))
   | C_none \<Rightarrow> None
   | C_return \<Rightarrow> None)"

text \<open>
  \<open>main\<close>, one call per step; \<open>ok\<close> says whether the call succeeds. The argument of \<open>M_create\<close>,
  \<open>M_create_consumer\<close>, \<open>M_join\<close> and \<open>M_join_consumer\<close> is the counter of the loop.
\<close>

definition main :: "string list \<Rightarrow> bool \<Rightarrow> shared \<Rightarrow> shared option" where
  "main argv ok s = (case mpc s of
     M_args \<Rightarrow> Some (if length argv \<noteq> 4 then die Usage s
        else s\<lparr>nitems := atoi (argv ! 1), nproducers := min (atoi (argv ! 2)) MAXNTHREADS,
               nconsumers := min (atoi (argv ! 3)) MAXNTHREADS, mpc := M_mutex\<rparr>)
   | M_mutex \<Rightarrow> Some (if ok then s\<lparr>mutex := 1, mpc := M_nempty\<rparr> else die (Error ''sem_init error'') s)
   | M_nempty \<Rightarrow> Some (if ok then s\<lparr>nempty := NBUFF, mpc := M_nstored\<rparr> else die (Error ''sem_init error'') s)
   | M_nstored \<Rightarrow> Some (if ok then s\<lparr>nstored := 0, mpc := M_create 0\<rparr> else die (Error ''sem_init error'') s)
   | M_create i \<Rightarrow> Some (if int i < nproducers s
        then (if ok then s\<lparr>prodcount := (prodcount s)(i := 0), ppc := (ppc s)(i := P_wait_nempty), mpc := M_create (Suc i)\<rparr>
              else die (Error ''pthread_create error'') s)
        else s\<lparr>mpc := M_create_consumer 0\<rparr>)
   | M_create_consumer i \<Rightarrow> Some (if int i < nconsumers s
        then (if ok then s\<lparr>conscount := (conscount s)(i := 0), cpc := (cpc s)(i := C_wait_nstored), mpc := M_create_consumer (Suc i)\<rparr>
              else die (Error ''pthread_create error'') s)
        else s\<lparr>mpc := M_join 0\<rparr>)
   | M_join i \<Rightarrow> (if int i < nproducers s
        then (if \<not> ok then Some (die (Error ''pthread_join error'') s)
              else if ppc s i = P_return
              then Some (s\<lparr>printed := printed s @ [ProducerCount i (prodcount s i)], mpc := M_join (Suc i)\<rparr>) else None)
        else Some (s\<lparr>mpc := M_join_consumer 0\<rparr>))
   | M_join_consumer i \<Rightarrow> (if int i < nconsumers s
        then (if \<not> ok then Some (die (Error ''pthread_join error'') s)
              else if cpc s i = C_return
              then Some (s\<lparr>printed := printed s @ [ConsumerCount i (conscount s i)], mpc := M_join_consumer (Suc i)\<rparr>) else None)
        else Some (s\<lparr>mpc := M_rm_mutex\<rparr>))
   | M_rm_mutex \<Rightarrow> Some (if ok then s\<lparr>mpc := M_rm_nempty\<rparr> else die (Error ''sem_destroy error'') s)
   | M_rm_nempty \<Rightarrow> Some (if ok then s\<lparr>mpc := M_rm_nstored\<rparr> else die (Error ''sem_destroy error'') s)
   | M_rm_nstored \<Rightarrow> Some (if ok then s\<lparr>mpc := M_exit 0\<rparr> else die (Error ''sem_destroy error'') s)
   | M_exit _ \<Rightarrow> None)"

datatype act = Main bool | Producer nat | Consumer nat

fun step :: "string list \<Rightarrow> act \<Rightarrow> shared \<Rightarrow> shared option" where
  "step argv (Main ok) s = main argv ok s"
| "step argv (Producer t) s = (if exited (mpc s) then None else producer t s)"
| "step argv (Consumer t) s = (if exited (mpc s) then None else consumer t s)"

definition good :: "act set" where
  "good = - {Main False}"

section \<open>Invariant\<close>

definition wanted :: "string list \<Rightarrow> int" where
  "wanted argv = max 0 (atoi (argv ! 1))"

definition threads :: "string list \<Rightarrow> nat \<Rightarrow> nat" where
  "threads argv k = nat (min (atoi (argv ! k)) MAXNTHREADS)"

fun p_mutex :: "producer_pc \<Rightarrow> int" where
  "p_mutex P_test = 1" | "p_mutex P_end_post_nstored = 1" | "p_mutex P_end_post_mutex = 1"
| "p_mutex P_store = 1" | "p_mutex P_inc_nput = 1" | "p_mutex P_inc_nputval = 1"
| "p_mutex P_post_mutex = 1" | "p_mutex _ = 0"

text \<open>A producer that has taken an empty slot and neither counted it in \<open>nput\<close> nor given it back.\<close>

fun p_unit :: "producer_pc \<Rightarrow> int" where
  "p_unit P_wait_mutex = 1" | "p_unit P_test = 1" | "p_unit P_end_post_nstored = 1" | "p_unit P_end_post_mutex = 1"
| "p_unit P_end_post_nempty = 1" | "p_unit P_store = 1" | "p_unit P_inc_nput = 1" | "p_unit _ = 0"

fun p_filled :: "producer_pc \<Rightarrow> int" where
  "p_filled P_inc_nputval = 1" | "p_filled P_post_mutex = 1" | "p_filled P_post_nstored = 1" | "p_filled _ = 0"

text \<open>A producer that has posted the extra unit.\<close>

fun p_extra :: "producer_pc \<Rightarrow> int" where
  "p_extra P_end_post_mutex = 1" | "p_extra P_end_post_nempty = 1" | "p_extra P_return = 1" | "p_extra _ = 0"

fun p_uncounted :: "producer_pc \<Rightarrow> int" where
  "p_uncounted P_inc_nputval = 1" | "p_uncounted P_post_mutex = 1" | "p_uncounted P_post_nstored = 1"
| "p_uncounted P_count = 1" | "p_uncounted _ = 0"

fun p_lag :: "producer_pc \<Rightarrow> int" where
  "p_lag P_inc_nputval = 1" | "p_lag _ = 0"

fun c_mutex :: "consumer_pc \<Rightarrow> int" where
  "c_mutex C_test = 1" | "c_mutex C_end_post_nstored = 1" | "c_mutex C_end_post_mutex = 1" | "c_mutex C_check = 1"
| "c_mutex C_inc_nget = 1" | "c_mutex C_inc_ngetval = 1" | "c_mutex C_post_mutex = 1" | "c_mutex _ = 0"

fun c_token :: "consumer_pc \<Rightarrow> int" where
  "c_token C_wait_mutex = 1" | "c_token C_test = 1" | "c_token C_end_post_nstored = 1" | "c_token C_check = 1"
| "c_token C_inc_nget = 1" | "c_token _ = 0"

fun c_owe :: "consumer_pc \<Rightarrow> int" where
  "c_owe C_inc_ngetval = 1" | "c_owe C_post_mutex = 1" | "c_owe C_post_nempty = 1" | "c_owe _ = 0"

fun c_uncounted :: "consumer_pc \<Rightarrow> int" where
  "c_uncounted C_inc_ngetval = 1" | "c_uncounted C_post_mutex = 1" | "c_uncounted C_post_nempty = 1"
| "c_uncounted C_count = 1" | "c_uncounted _ = 0"

fun c_lag :: "consumer_pc \<Rightarrow> int" where
  "c_lag C_inc_ngetval = 1" | "c_lag _ = 0"

definition units_inv :: "nat \<Rightarrow> nat \<Rightarrow> shared \<Rightarrow> bool" where
  "units_inv P C s \<longleftrightarrow>
     int (mutex s) + tot p_mutex (ppc s) P + tot c_mutex (cpc s) C = 1 \<and>
     int (nempty s) + tot p_unit (ppc s) P + (nput s - nget s) + tot c_owe (cpc s) C = int NBUFF \<and>
     int (nstored s) + tot c_token (cpc s) C + tot p_filled (ppc s) P = nput s - nget s + tot p_extra (ppc s) P"

definition vals_inv :: "nat \<Rightarrow> nat \<Rightarrow> shared \<Rightarrow> bool" where
  "vals_inv P C s \<longleftrightarrow> nputval s + tot p_lag (ppc s) P = nput s \<and> ngetval s + tot c_lag (cpc s) C = nget s"

definition live_p :: "shared \<Rightarrow> nat \<Rightarrow> int" where
  "live_p s t = (if ppc s t = P_none then 0 else prodcount s t)"

definition live_c :: "shared \<Rightarrow> nat \<Rightarrow> int" where
  "live_c s t = (if cpc s t = C_none then 0 else conscount s t)"

definition counts_inv :: "nat \<Rightarrow> nat \<Rightarrow> shared \<Rightarrow> bool" where
  "counts_inv P C s \<longleftrightarrow> tot (\<lambda>c. c) (live_p s) P + tot p_uncounted (ppc s) P = nput s \<and>
     tot (\<lambda>c. c) (live_c s) C + tot c_uncounted (cpc s) C = nget s"

fun p_ok :: "int \<Rightarrow> int \<Rightarrow> int list \<Rightarrow> producer_pc \<Rightarrow> bool" where
  "p_ok n k b P_store = (k < n)"
| "p_ok n k b P_inc_nput = (k < n \<and> b ! slot k = k)"
| "p_ok n k b P_end_post_nstored = (n \<le> k)"
| "p_ok n k b P_end_post_mutex = (n \<le> k)"
| "p_ok n k b P_end_post_nempty = (n \<le> k)"
| "p_ok n k b P_return = (n \<le> k)"
| "p_ok n k b _ = True"

fun c_ok :: "int \<Rightarrow> int \<Rightarrow> consumer_pc \<Rightarrow> bool" where
  "c_ok n k C_check = (k < n)"
| "c_ok n k C_inc_nget = (k < n)"
| "c_ok n k C_end_post_nstored = (n \<le> k)"
| "c_ok n k C_end_post_mutex = (n \<le> k)"
| "c_ok n k C_return = (n \<le> k)"
| "c_ok n k _ = True"

definition items_ok :: "shared \<Rightarrow> bool" where
  "items_ok s \<longleftrightarrow> length (buf s) = NBUFF \<and> 0 \<le> nget s \<and> nget s \<le> nput s \<and> nput s \<le> max 0 (nitems s) \<and>
     (\<forall>k. nget s \<le> k \<and> k < nput s \<longrightarrow> buf s ! slot k = k)"

definition prods_ok :: "nat \<Rightarrow> shared \<Rightarrow> bool" where
  "prods_ok P s \<longleftrightarrow> (\<forall>t<P. p_ok (nitems s) (nput s) (buf s) (ppc s t)) \<and> (\<forall>t\<ge>P. ppc s t = P_none)"

definition cons_ok :: "nat \<Rightarrow> shared \<Rightarrow> bool" where
  "cons_ok C s \<longleftrightarrow> (\<forall>t<C. c_ok (nitems s) (nget s) (cpc s t)) \<and> (\<forall>t\<ge>C. cpc s t = C_none)"

text \<open>How far \<open>main\<close> is: threads below \<open>_created\<close> exist, threads below \<open>_joined\<close> have returned.\<close>

fun p_created :: "nat \<Rightarrow> main_pc \<Rightarrow> nat" where
  "p_created P M_args = 0" | "p_created P M_mutex = 0" | "p_created P M_nempty = 0"
| "p_created P M_nstored = 0" | "p_created P (M_create i) = i" | "p_created P _ = P"

fun c_created :: "nat \<Rightarrow> main_pc \<Rightarrow> nat" where
  "c_created C M_args = 0" | "c_created C M_mutex = 0" | "c_created C M_nempty = 0"
| "c_created C M_nstored = 0" | "c_created C (M_create i) = 0" | "c_created C (M_create_consumer i) = i" | "c_created C _ = C"

fun p_joined :: "nat \<Rightarrow> main_pc \<Rightarrow> nat" where
  "p_joined P (M_join i) = i" | "p_joined P (M_join_consumer _) = P" | "p_joined P M_rm_mutex = P"
| "p_joined P M_rm_nempty = P" | "p_joined P M_rm_nstored = P" | "p_joined P (M_exit c) = (if c = 0 then P else 0)"
| "p_joined P _ = 0"

fun c_joined :: "nat \<Rightarrow> main_pc \<Rightarrow> nat" where
  "c_joined C (M_join_consumer i) = i" | "c_joined C M_rm_mutex = C"
| "c_joined C M_rm_nempty = C" | "c_joined C M_rm_nstored = C" | "c_joined C (M_exit c) = (if c = 0 then C else 0)"
| "c_joined C _ = 0"

definition main_ok :: "nat \<Rightarrow> nat \<Rightarrow> shared \<Rightarrow> bool" where
  "main_ok P C s \<longleftrightarrow> p_created P (mpc s) \<le> P \<and> p_joined P (mpc s) \<le> P \<and> c_created C (mpc s) \<le> C \<and> c_joined C (mpc s) \<le> C \<and>
     (\<not> exited (mpc s) \<longrightarrow> (\<forall>t<P. ppc s t = P_none \<longleftrightarrow> p_created P (mpc s) \<le> t)) \<and>
     (\<not> exited (mpc s) \<longrightarrow> (\<forall>t<C. cpc s t = C_none \<longleftrightarrow> c_created C (mpc s) \<le> t)) \<and>
     (\<forall>t<p_joined P (mpc s). ppc s t = P_return) \<and> (\<forall>t<c_joined C (mpc s). cpc s t = C_return)"

definition sems_ok :: "nat \<Rightarrow> nat \<Rightarrow> shared \<Rightarrow> bool" where
  "sems_ok P C s = (case mpc s of M_args \<Rightarrow> True | M_mutex \<Rightarrow> True | M_nempty \<Rightarrow> mutex s = 1
     | M_nstored \<Rightarrow> mutex s = 1 \<and> nempty s = NBUFF | M_exit c \<Rightarrow> c = 0 \<longrightarrow> units_inv P C s
     | _ \<Rightarrow> units_inv P C s)"

definition args_ok :: "string list \<Rightarrow> shared \<Rightarrow> bool" where
  "args_ok argv s \<longleftrightarrow> max 0 (nitems s) \<le> wanted argv \<and>
     (case mpc s of M_args \<Rightarrow> nitems s = 0 \<and> (\<forall>t. ppc s t = P_none \<and> cpc s t = C_none)
      | M_exit c \<Rightarrow> c = 0 \<longrightarrow> nitems s = atoi (argv ! 1)
      | _ \<Rightarrow> nitems s = atoi (argv ! 1) \<and> nproducers s = min (atoi (argv ! 2)) MAXNTHREADS \<and>
            nconsumers s = min (atoi (argv ! 3)) MAXNTHREADS)"

definition reports :: "shared \<Rightarrow> nat \<Rightarrow> nat \<Rightarrow> line list" where
  "reports s i j = map (\<lambda>k. ProducerCount k (prodcount s k)) [0..<i] @ map (\<lambda>k. ConsumerCount k (conscount s k)) [0..<j]"

definition lines_ok :: "nat \<Rightarrow> nat \<Rightarrow> shared \<Rightarrow> bool" where
  "lines_ok P C s \<longleftrightarrow> (\<forall>i v. Mismatch i v \<notin> set (printed s)) \<and>
     (\<not> exited (mpc s) \<or> mpc s = M_exit 0 \<longrightarrow> printed s = reports s (p_joined P (mpc s)) (c_joined C (mpc s)))"

definition inv :: "string list \<Rightarrow> shared \<Rightarrow> bool" where
  "inv argv s \<longleftrightarrow> (let P = threads argv 2; C = threads argv 3 in
     args_ok argv s \<and> main_ok P C s \<and> prods_ok P s \<and> cons_ok C s \<and> vals_inv P C s \<and> counts_inv P C s \<and>
     items_ok s \<and> sems_ok P C s \<and> lines_ok P C s)"

lemma pc4_invD:
  assumes "inv argv s"
  shows "args_ok argv s" "main_ok (threads argv 2) (threads argv 3) s" "prods_ok (threads argv 2) s" "cons_ok (threads argv 3) s"
    "vals_inv (threads argv 2) (threads argv 3) s" "counts_inv (threads argv 2) (threads argv 3) s" "items_ok s"
    "sems_ok (threads argv 2) (threads argv 3) s" "lines_ok (threads argv 2) (threads argv 3) s"
  using assms by (simp_all add: inv_def Let_def)

lemma pc4_invI:
  assumes "args_ok argv s" "main_ok (threads argv 2) (threads argv 3) s" "prods_ok (threads argv 2) s" "cons_ok (threads argv 3) s"
    "vals_inv (threads argv 2) (threads argv 3) s" "counts_inv (threads argv 2) (threads argv 3) s" "items_ok s"
    "sems_ok (threads argv 2) (threads argv 3) s" "lines_ok (threads argv 2) (threads argv 3) s"
  shows "inv argv s"
  using assms by (simp add: inv_def Let_def)

section \<open>What a thread keeps\<close>

lemma pc4_p_weights: "0 \<le> p_mutex pc" "0 \<le> p_unit pc" "0 \<le> p_filled pc" "0 \<le> p_extra pc" "0 \<le> p_uncounted pc"
  by (cases pc; simp)+

lemma pc4_c_weights: "0 \<le> c_mutex pc" "0 \<le> c_token pc" "0 \<le> c_owe pc" "0 \<le> c_uncounted pc"
  by (cases pc; simp)+

lemma pc4_tot_nonneg:
  "0 \<le> tot p_mutex f n" "0 \<le> tot p_unit f n" "0 \<le> tot p_filled f n" "0 \<le> tot p_extra f n"
  "0 \<le> tot c_mutex h n" "0 \<le> tot c_token h n" "0 \<le> tot c_owe h n"
  by (intro tot_nonneg pc4_p_weights pc4_c_weights)+

lemma pc4_producer_frame:
  assumes "producer t s = Some s'"
  shows "mpc s' = mpc s" "cpc s' = cpc s" "nget s' = nget s" "ngetval s' = ngetval s" "nitems s' = nitems s"
    "nproducers s' = nproducers s" "nconsumers s' = nconsumers s" "conscount s' = conscount s" "printed s' = printed s"
    "ppc s' = (ppc s)(t := ppc s' t)" "ppc s t \<noteq> P_none" "ppc s t \<noteq> P_return" "ppc s' t \<noteq> P_none"
    "u \<noteq> t \<Longrightarrow> prodcount s' u = prodcount s u"
  using assms by (cases "ppc s t"; force simp: producer_def Let_def split: if_splits)+

lemma pc4_consumer_frame:
  assumes "consumer t s = Some s'"
  shows "mpc s' = mpc s" "ppc s' = ppc s" "nput s' = nput s" "nputval s' = nputval s" "nitems s' = nitems s"
    "nproducers s' = nproducers s" "nconsumers s' = nconsumers s" "prodcount s' = prodcount s" "buf s' = buf s"
    "cpc s' = (cpc s)(t := cpc s' t)" "cpc s t \<noteq> C_none" "cpc s t \<noteq> C_return" "cpc s' t \<noteq> C_none"
    "u \<noteq> t \<Longrightarrow> conscount s' u = conscount s u" "nget s \<le> nget s'"
  using assms by (cases "cpc s t"; force simp: consumer_def Let_def split: if_splits)+

text \<open>Only one thread is in its critical section.\<close>

lemma pc4_excl_producer:
  assumes u: "units_inv P C s" and t: "t < P" "p_mutex (ppc s t) = 1"
  shows "v < P \<Longrightarrow> v \<noteq> t \<Longrightarrow> p_mutex (ppc s v) = 0" and "c < C \<Longrightarrow> c_mutex (cpc s c) = 0"
proof -
  have m: "tot p_mutex (ppc s) P + tot c_mutex (cpc s) C \<le> 1" using u by (simp add: units_inv_def)
  show "p_mutex (ppc s v) = 0" if "v < P" "v \<noteq> t"
    using tot_two_threads [of p_mutex t P v "ppc s", OF pc4_p_weights(1)] t that m pc4_p_weights(1) [of "ppc s v"] pc4_tot_nonneg(5) [of "cpc s" C] by auto
  show "c_mutex (cpc s c) = 0" if "c < C"
    using tot_ge_one_thread [of p_mutex t P "ppc s", OF pc4_p_weights(1)] tot_ge_one_thread [of c_mutex c C "cpc s", OF pc4_c_weights(1)] t that m pc4_c_weights(1) [of "cpc s c"] by auto
qed

lemma pc4_excl_consumer:
  assumes u: "units_inv P C s" and t: "t < C" "c_mutex (cpc s t) = 1"
  shows "v < C \<Longrightarrow> v \<noteq> t \<Longrightarrow> c_mutex (cpc s v) = 0" and "p < P \<Longrightarrow> p_mutex (ppc s p) = 0"
proof -
  have m: "tot p_mutex (ppc s) P + tot c_mutex (cpc s) C \<le> 1" using u by (simp add: units_inv_def)
  show "c_mutex (cpc s v) = 0" if "v < C" "v \<noteq> t"
    using tot_two_threads [of c_mutex t C v "cpc s", OF pc4_c_weights(1)] t that m pc4_c_weights(1) [of "cpc s v"] pc4_tot_nonneg(1) [of "ppc s" P] by auto
  show "p_mutex (ppc s p) = 0" if "p < P"
    using tot_ge_one_thread [of c_mutex t C "cpc s", OF pc4_c_weights(1)] tot_ge_one_thread [of p_mutex p P "ppc s", OF pc4_p_weights(1)] t that m pc4_p_weights(1) [of "ppc s p"] by auto
qed

text \<open>The values lag behind the positions only while the thread that changes them is between its two increments.\<close>

lemma pc4_nputval:
  assumes "units_inv P C s" "vals_inv P C s" "t < P" "ppc s t = P_store"
  shows "nputval s = nput s"
proof -
  have "tot p_lag (ppc s) P = 0"
  proof (rule tot_zero)
    fix v assume "v < P"
    with pc4_excl_producer(1) [OF assms(1,3), of v] assms(4) show "p_lag (ppc s v) = 0"
      by (cases "v = t"; cases "ppc s v") auto
  qed
  with assms(2) show ?thesis by (simp add: vals_inv_def)
qed

lemma pc4_ngetval:
  assumes "units_inv P C s" "vals_inv P C s" "t < C" "cpc s t = C_check"
  shows "ngetval s = nget s"
proof -
  have "tot c_lag (cpc s) C = 0"
  proof (rule tot_zero)
    fix v assume "v < C"
    with pc4_excl_consumer(1) [OF assms(1,3), of v] assms(4) show "c_lag (cpc s v) = 0"
      by (cases "v = t"; cases "cpc s v") auto
  qed
  with assms(2) show ?thesis by (simp add: vals_inv_def)
qed

text \<open>
  A consumer that goes on has an item: either its unit stands for one, or an extra unit has been posted
  and then all items have been stored.
\<close>

lemma pc4_item_there:
  assumes u: "units_inv P C s" and p: "prods_ok P s" and c: "cons_ok C s" and t: "t < C" "cpc s t \<in> {C_check, C_inc_nget}"
  shows "nget s < nput s"
proof (cases "tot p_extra (ppc s) P = 0")
  case True
  have "1 \<le> tot c_token (cpc s) C" using tot_ge_one_thread [of c_token t C "cpc s", OF pc4_c_weights(2)] t by auto
  then show ?thesis using u True pc4_tot_nonneg(3) [of "ppc s" P] by (simp add: units_inv_def)
next
  case False
  then have "0 < tot p_extra (ppc s) P" using pc4_tot_nonneg(4) [of "ppc s" P] by linarith
  then obtain v where v: "v < P" "0 < p_extra (ppc s v)" using tot_pos_ex by blast
  then have "nitems s \<le> nput s" using p by (cases "ppc s v") (auto simp: prods_ok_def)
  moreover have "nget s < nitems s" using c t by (auto simp: cons_ok_def)
  ultimately show ?thesis by simp
qed

lemma pc4_room:
  assumes u: "units_inv P C s" and t: "t < P" "ppc s t = P_store"
  shows "nput s < nget s + int NBUFF"
proof -
  have "1 \<le> tot p_unit (ppc s) P" using tot_ge_one_thread [of p_unit t P "ppc s", OF pc4_p_weights(2)] t by auto
  with u pc4_tot_nonneg(7) [of "cpc s" C] show ?thesis by (simp add: units_inv_def)
qed

lemma pc4_producer_units:
  assumes "units_inv P C s" "t < P" "producer t s = Some s'"
  shows "units_inv P C s'"
  using assms by (cases "ppc s t") (auto simp: producer_def units_inv_def sem_post_def Let_def split: if_splits)

lemma pc4_consumer_units:
  assumes "units_inv P C s" "t < C" "consumer t s = Some s'"
  shows "units_inv P C s'"
  using assms by (cases "cpc s t") (auto simp: consumer_def units_inv_def sem_post_def Let_def split: if_splits)

lemma pc4_vals:
  "vals_inv P C s \<Longrightarrow> t < P \<Longrightarrow> producer t s = Some s' \<Longrightarrow> vals_inv P C s'"
  "vals_inv P C s \<Longrightarrow> t < C \<Longrightarrow> consumer t s = Some s' \<Longrightarrow> vals_inv P C s'"
  by (cases "ppc s t"; auto simp: producer_def vals_inv_def Let_def split: if_splits)
    (cases "cpc s t"; auto simp: consumer_def vals_inv_def Let_def split: if_splits)

lemma pc4_producer_counts:
  assumes c: "counts_inv P C s" and t: "t < P" and p: "producer t s = Some s'"
  shows "counts_inv P C s'"
proof -
  note f = pc4_producer_frame [OF p]
  have "live_p s' = (live_p s)(t := prodcount s' t)" "live_p s t = prodcount s t"
    using f(11,13,14) by (auto simp: live_p_def fun_eq_iff) (metis f(10) fun_upd_apply)+
  then have "tot (\<lambda>c. c) (live_p s') P = tot (\<lambda>c. c) (live_p s) P - prodcount s t + prodcount s' t" using t by simp
  moreover have "live_c s' = live_c s" using f(2,8) by (simp add: live_c_def fun_eq_iff)
  ultimately show ?thesis
    using c t p by (cases "ppc s t") (auto simp: producer_def counts_inv_def Let_def split: if_splits)
qed

lemma pc4_consumer_counts:
  assumes c: "counts_inv P C s" and t: "t < C" and p: "consumer t s = Some s'"
  shows "counts_inv P C s'"
proof -
  note f = pc4_consumer_frame [OF p]
  have "live_c s' = (live_c s)(t := conscount s' t)" "live_c s t = conscount s t"
    using f(11,13,14) by (auto simp: live_c_def fun_eq_iff) (metis f(10) fun_upd_apply)+
  then have "tot (\<lambda>c. c) (live_c s') C = tot (\<lambda>c. c) (live_c s) C - conscount s t + conscount s' t" using t by simp
  moreover have "live_p s' = live_p s" using f(2,8) by (simp add: live_p_def fun_eq_iff)
  ultimately show ?thesis
    using c t p by (cases "cpc s t") (auto simp: consumer_def counts_inv_def Let_def split: if_splits)
qed

lemma pc4_p_ok_keep: "p_ok n k b pc \<Longrightarrow> p_mutex pc = 0 \<Longrightarrow> k \<le> k' \<Longrightarrow> p_ok n k' b' pc"
  by (cases pc) auto

lemma pc4_c_ok_keep: "c_ok n k pc \<Longrightarrow> c_mutex pc = 0 \<Longrightarrow> k \<le> k' \<Longrightarrow> c_ok n k' pc"
  by (cases pc) auto

text \<open>The thread that moves brings its own condition; the others keep theirs.\<close>

lemma pc4_producer_prods:
  assumes o: "prods_ok P s" and u: "units_inv P C s" and v: "vals_inv P C s" and l: "length (buf s) = NBUFF"
    and t: "t < P" and p: "producer t s = Some s'"
  shows "prods_ok P s'"
proof -
  note f = pc4_producer_frame [OF p]
  have ok: "p_ok (nitems s) (nput s) (buf s) (ppc s t)" using o t by (simp add: prods_ok_def)
  have new: "p_ok (nitems s) (nput s') (buf s') (ppc s' t)"
    using p ok l pc4_nputval [OF u v t] by (cases "ppc s t") (auto simp: producer_def Let_def split: if_splits)
  have cases: "nput s' = nput s \<and> buf s' = buf s \<or> p_mutex (ppc s t) = 1 \<and> nput s \<le> nput s'"
    using p by (cases "ppc s t") (auto simp: producer_def Let_def split: if_splits)
  have "p_ok (nitems s) (nput s') (buf s') (ppc s w)" if "w < P" "w \<noteq> t" for w
    using cases pc4_excl_producer(1) [OF u t, of w] that o
    by (auto simp: prods_ok_def intro: pc4_p_ok_keep [of "nitems s" "nput s" "buf s"])
  then show ?thesis using new o f(5,10) t unfolding prods_ok_def by (metis fun_upd_apply linorder_not_less)
qed

lemma pc4_consumer_cons:
  assumes o: "cons_ok C s" and u: "units_inv P C s" and t: "t < C" and p: "consumer t s = Some s'"
  shows "cons_ok C s'"
proof -
  note f = pc4_consumer_frame [OF p]
  have ok: "c_ok (nitems s) (nget s) (cpc s t)" using o t by (simp add: cons_ok_def)
  have new: "c_ok (nitems s) (nget s') (cpc s' t)"
    using p ok by (cases "cpc s t") (auto simp: consumer_def Let_def split: if_splits)
  have cases: "nget s' = nget s \<or> c_mutex (cpc s t) = 1 \<and> nget s \<le> nget s'"
    using p by (cases "cpc s t") (auto simp: consumer_def Let_def split: if_splits)
  have "c_ok (nitems s) (nget s') (cpc s w)" if "w < C" "w \<noteq> t" for w
    using cases pc4_excl_consumer(1) [OF u t, of w] that o
    by (auto simp: cons_ok_def intro: pc4_c_ok_keep [of "nitems s" "nget s"])
  then show ?thesis using new o f(5,10) t unfolding cons_ok_def by (metis fun_upd_apply linorder_not_less)
qed

lemma pc4_producer_items:
  assumes i: "items_ok s" and o: "prods_ok P s" and u: "units_inv P C s" and t: "t < P" and p: "producer t s = Some s'"
  shows "items_ok s'"
proof -
  have ok: "p_ok (nitems s) (nput s) (buf s) (ppc s t)" using o t by (simp add: prods_ok_def)
  show ?thesis
  proof (cases "ppc s t")
    case P_store
    then have s': "buf s' = (buf s)[slot (nput s) := nputval s]" "nput s' = nput s" "nitems s' = nitems s" "nget s' = nget s"
      using p by (auto simp: producer_def)
    have "buf s' ! slot k = k" if "nget s \<le> k" "k < nput s" for k
    proof -
      have "0 \<le> k" using that i by (simp add: items_ok_def)
      then have "slot k \<noteq> slot (nput s)" using that pc4_room [OF u t P_store] by (intro slot_inj) auto
      with that i s' show ?thesis by (simp add: items_ok_def)
    qed
    with s' i show ?thesis by (simp add: items_ok_def)
  next
    case P_inc_nput
    with p have s': "buf s' = buf s" "nput s' = nput s + 1" "nitems s' = nitems s" "nget s' = nget s" by (auto simp: producer_def)
    from P_inc_nput ok have "nput s < nitems s" "buf s ! slot (nput s) = nput s" by auto
    moreover have "buf s ! slot k = k" if "nget s \<le> k" "k < nput s + 1" for k
      using that i calculation(2) by (cases "k = nput s") (auto simp: items_ok_def)
    ultimately show ?thesis using s' i by (simp add: items_ok_def)
  qed (use i p in \<open>auto simp: producer_def items_ok_def Let_def split: if_splits\<close>)
qed

lemma pc4_consumer_items:
  assumes i: "items_ok s" and g: "cpc s t = C_inc_nget \<Longrightarrow> nget s < nput s" and p: "consumer t s = Some s'"
  shows "items_ok s'"
  using i g p by (cases "cpc s t") (auto simp: consumer_def items_ok_def Let_def split: if_splits)

lemma pc4_consumer_printed:
  assumes "items_ok s" "units_inv P C s" "vals_inv P C s" "prods_ok P s" "cons_ok C s" "t < C" "consumer t s = Some s'"
  shows "printed s' = printed s"
proof (cases "cpc s t = C_check")
  case True
  have "buf s ! slot (nget s) = ngetval s"
    using pc4_ngetval [OF assms(2,3,6) True] pc4_item_there [OF assms(2,4,5,6)] True assms(1) by (simp add: items_ok_def)
  then show ?thesis using True assms(7) by (auto simp: consumer_def Let_def)
qed (use assms(7) in \<open>cases "cpc s t"; force simp: consumer_def Let_def split: if_splits\<close>)

lemma pc4_reports_cong:
  "(\<And>k. k < i \<Longrightarrow> prodcount s' k = prodcount s k) \<Longrightarrow> (\<And>k. k < j \<Longrightarrow> conscount s' k = conscount s k) \<Longrightarrow> reports s' i j = reports s i j"
  by (simp add: reports_def)

lemma pc4_running:
  assumes "inv argv s" "\<not> exited (mpc s)"
    and "t < threads argv 2 \<and> ppc s t \<noteq> P_none \<or> t < threads argv 3 \<and> cpc s t \<noteq> C_none"
  shows "mpc s \<notin> {M_args, M_mutex, M_nempty, M_nstored}" "units_inv (threads argv 2) (threads argv 3) s"
proof -
  have "0 < p_created (threads argv 2) (mpc s) \<or> 0 < c_created (threads argv 3) (mpc s)"
    using assms(2,3) pc4_invD(2) [OF assms(1)] by (auto simp: main_ok_def intro: gr0I)
  then show m: "mpc s \<notin> {M_args, M_mutex, M_nempty, M_nstored}" by auto
  then show "units_inv (threads argv 2) (threads argv 3) s"
    using pc4_invD(8) [OF assms(1)] assms(2) by (cases "mpc s") (auto simp: sems_ok_def)
qed

text \<open>The parts of the invariant about \<open>main\<close> do not depend on where a running thread is.\<close>

lemma pc4_main_part:
  assumes i: "inv argv s" and m: "mpc s' = mpc s" "\<not> exited (mpc s)" "mpc s \<notin> {M_args, M_mutex, M_nempty, M_nstored}"
    and n: "nitems s' = nitems s" "nproducers s' = nproducers s" "nconsumers s' = nconsumers s"
    and u: "units_inv (threads argv 2) (threads argv 3) s'"
  shows "args_ok argv s'" "sems_ok (threads argv 2) (threads argv 3) s'"
  using pc4_invD(1) [OF i] m n u by (cases "mpc s"; simp add: args_ok_def sems_ok_def)+

lemma pc4_producer_inv:
  assumes i: "inv argv s" and e: "\<not> exited (mpc s)" and p: "producer t s = Some s'"
  shows "inv argv s'"
proof -
  let ?P = "threads argv 2" and ?C = "threads argv 3"
  note f = pc4_producer_frame [OF p] and d = pc4_invD [OF i]
  have t: "t < ?P" using d(3) f(11) unfolding prods_ok_def by (meson not_le)
  have m: "mpc s \<notin> {M_args, M_mutex, M_nempty, M_nstored}" and u: "units_inv ?P ?C s"
    using pc4_running [OF i e, of t] t f(11) by auto
  have u': "units_inv ?P ?C s'" by (rule pc4_producer_units [OF u t p])
  have nj: "\<not> t < p_joined ?P (mpc s)" using d(2) f(12) by (auto simp: main_ok_def)
  have "printed s' = reports s' (p_joined ?P (mpc s)) (c_joined ?C (mpc s))"
    using d(9) e f(8,9,14) nj pc4_reports_cong [of "p_joined ?P (mpc s)" s' s "c_joined ?C (mpc s)"] by (auto simp: lines_ok_def)
  then have "lines_ok ?P ?C s'" using d(9) f(1,9) by (simp add: lines_ok_def)
  moreover obtain pc where pc: "ppc s' = (ppc s)(t := pc)" "pc \<noteq> P_none" using f(10,13) by blast
  then have "main_ok ?P ?C s'" using d(2) f(1,2,11) nj by (auto simp: main_ok_def)
  moreover have "length (buf s) = NBUFF" using d(7) by (simp add: items_ok_def)
  then have "prods_ok ?P s'" by (rule pc4_producer_prods [OF d(3) u d(5) _ t p])
  moreover have "cons_ok ?C s'" using d(4) f(2,3,5) by (simp add: cons_ok_def)
  ultimately show ?thesis
    using pc4_main_part [OF i f(1) e m f(5,6,7) u'] pc4_vals(1) [OF d(5) t p] pc4_producer_counts [OF d(6) t p]
      pc4_producer_items [OF d(7,3) u t p] by (intro pc4_invI)
qed

lemma pc4_consumer_inv:
  assumes i: "inv argv s" and e: "\<not> exited (mpc s)" and p: "consumer t s = Some s'"
  shows "inv argv s'"
proof -
  let ?P = "threads argv 2" and ?C = "threads argv 3"
  note f = pc4_consumer_frame [OF p] and d = pc4_invD [OF i]
  have t: "t < ?C" using d(4) f(11) unfolding cons_ok_def by (meson not_le)
  have m: "mpc s \<notin> {M_args, M_mutex, M_nempty, M_nstored}" and u: "units_inv ?P ?C s"
    using pc4_running [OF i e, of t] t f(11) by auto
  have u': "units_inv ?P ?C s'" by (rule pc4_consumer_units [OF u t p])
  have nj: "\<not> t < c_joined ?C (mpc s)" using d(2) f(12) by (auto simp: main_ok_def)
  have pr: "printed s' = printed s" by (rule pc4_consumer_printed [OF d(7) u d(5,3,4) t p])
  have "printed s' = reports s' (p_joined ?P (mpc s)) (c_joined ?C (mpc s))"
    using d(9) e f(8,14) pr nj pc4_reports_cong [of "p_joined ?P (mpc s)" s' s "c_joined ?C (mpc s)"] by (auto simp: lines_ok_def)
  then have "lines_ok ?P ?C s'" using d(9) f(1) pr by (simp add: lines_ok_def)
  moreover obtain pc where pc: "cpc s' = (cpc s)(t := pc)" "pc \<noteq> C_none" using f(10,13) by blast
  then have "main_ok ?P ?C s'" using d(2) f(1,2,11) nj by (auto simp: main_ok_def)
  moreover have "cons_ok ?C s'" by (rule pc4_consumer_cons [OF d(4) u t p])
  moreover have "prods_ok ?P s'" using d(3) f(2,3,5,9) by (simp add: prods_ok_def)
  moreover have "items_ok s'" using pc4_consumer_items [OF d(7) _ p] pc4_item_there [OF u d(3,4) t] by blast
  ultimately show ?thesis
    using pc4_main_part [OF i f(1) e m f(5,6,7) u'] pc4_vals(2) [OF d(5) t p] pc4_consumer_counts [OF d(6) t p]
    by (intro pc4_invI)
qed

section \<open>What \<open>main\<close> keeps\<close>

lemma pc4_die_inv:
  assumes i: "inv argv s" and l: "\<And>i v. Mismatch i v \<noteq> l"
  shows "inv argv (die l s)"
proof -
  note d = pc4_invD [OF i]
  have "live_p (die l s) = live_p s" "live_c (die l s) = live_c s" by (simp_all add: live_p_def live_c_def die_def fun_eq_iff)
  then show ?thesis using d l
    by (intro pc4_invI) (simp_all add: die_def args_ok_def main_ok_def prods_ok_def cons_ok_def vals_inv_def counts_inv_def items_ok_def
      sems_ok_def lines_ok_def)
qed

lemma pc4_loop_bound:
  assumes "args_ok argv s" "mpc s \<notin> {M_args}" "\<not> exited (mpc s)"
  shows "int i < nproducers s \<longleftrightarrow> i < threads argv 2" "int i < nconsumers s \<longleftrightarrow> i < threads argv 3"
  using assms by (cases "mpc s"; auto simp: args_ok_def threads_def)+

text \<open>A step of \<open>main\<close> that changes nothing but its own position and the semaphores.\<close>

lemma pc4_main_only:
  assumes i: "inv argv s" and e: "\<not> exited (mpc s)"
    and same: "nitems s' = nitems s" "buf s' = buf s" "nput s' = nput s" "nputval s' = nputval s" "nget s' = nget s" "ngetval s' = ngetval s"
      "prodcount s' = prodcount s" "conscount s' = conscount s" "ppc s' = ppc s" "cpc s' = cpc s" "printed s' = printed s"
    and new: "args_ok argv s'" "sems_ok (threads argv 2) (threads argv 3) s'"
    and pos: "p_created (threads argv 2) (mpc s') = p_created (threads argv 2) (mpc s)"
      "p_joined (threads argv 2) (mpc s') = p_joined (threads argv 2) (mpc s)"
      "c_created (threads argv 3) (mpc s') = c_created (threads argv 3) (mpc s)"
      "c_joined (threads argv 3) (mpc s') = c_joined (threads argv 3) (mpc s)"
  shows "inv argv s'"
proof -
  note d = pc4_invD [OF i]
  have "live_p s' = live_p s" "live_c s' = live_c s" using same by (simp_all add: live_p_def live_c_def fun_eq_iff)
  then have "vals_inv (threads argv 2) (threads argv 3) s'" "counts_inv (threads argv 2) (threads argv 3) s'"
    using d(5,6) same by (simp_all add: vals_inv_def counts_inv_def)
  moreover have "items_ok s'" "prods_ok (threads argv 2) s'" "cons_ok (threads argv 3) s'"
    using d(3,4,7) same by (simp_all add: items_ok_def prods_ok_def cons_ok_def)
  moreover have "lines_ok (threads argv 2) (threads argv 3) s'"
  proof -
    have "reports s' = reports s" using same by (simp add: reports_def fun_eq_iff)
    moreover have "\<forall>i v. Mismatch i v \<notin> set (printed s)"
      "printed s = reports s (p_joined (threads argv 2) (mpc s)) (c_joined (threads argv 3) (mpc s))" using d(9) e unfolding lines_ok_def by blast+
    ultimately show ?thesis using same(11) pos(2,4) unfolding lines_ok_def by metis
  qed
  moreover have "main_ok (threads argv 2) (threads argv 3) s'" using d(2) same pos e by (simp add: main_ok_def)
  ultimately show ?thesis using new by (intro pc4_invI)
qed

lemma pc4_args:
  assumes i: "inv argv s" and m: "mpc s = M_args"
  shows "inv argv (s\<lparr>nitems := atoi (argv ! 1), nproducers := min (atoi (argv ! 2)) MAXNTHREADS,
     nconsumers := min (atoi (argv ! 3)) MAXNTHREADS, mpc := M_mutex\<rparr>)"
proof -
  note d = pc4_invD [OF i]
  have z: "ppc s t = P_none" "cpc s t = C_none" for t using d(1) m by (simp_all add: args_ok_def)
  have n: "nput s = 0" "nget s = 0" using d(1,7) m by (auto simp: args_ok_def items_ok_def)
  show ?thesis
    using d z n m
    by (intro pc4_invI) (simp_all add: args_ok_def wanted_def main_ok_def prods_ok_def cons_ok_def vals_inv_def counts_inv_def
      live_p_def [abs_def] live_c_def [abs_def] items_ok_def sems_ok_def lines_ok_def reports_def)
qed

lemma pc4_create:
  assumes i: "inv argv s" and m: "mpc s = M_create k" and k: "k < threads argv 2"
    and s': "s' = s\<lparr>prodcount := (prodcount s)(k := 0), ppc := (ppc s)(k := P_wait_nempty), mpc := M_create (Suc k)\<rparr>"
  shows "inv argv s'"
proof -
  let ?P = "threads argv 2" and ?C = "threads argv 3"
  note d = pc4_invD [OF i]
  have none: "ppc s k = P_none" using d(2) m k by (auto simp: main_ok_def)
  have "live_p s' = live_p s" "live_c s' = live_c s" using none by (auto simp: live_p_def live_c_def s' fun_eq_iff)
  then have "counts_inv ?P ?C s'" "vals_inv ?P ?C s'" "sems_ok ?P ?C s'"
    using d(5,6,8) none k m by (simp_all add: counts_inv_def vals_inv_def sems_ok_def units_inv_def s')
  moreover have "main_ok ?P ?C s'" "prods_ok ?P s'" "cons_ok ?C s'" using d(2,3,4) m k by (auto simp: main_ok_def prods_ok_def cons_ok_def s')
  moreover have "args_ok argv s'" "items_ok s'" "lines_ok ?P ?C s'"
    using d(1,7,9) m by (auto simp: args_ok_def items_ok_def lines_ok_def reports_def s')
  ultimately show ?thesis by (intro pc4_invI)
qed

lemma pc4_create_consumer:
  assumes i: "inv argv s" and m: "mpc s = M_create_consumer k" and k: "k < threads argv 3"
    and s': "s' = s\<lparr>conscount := (conscount s)(k := 0), cpc := (cpc s)(k := C_wait_nstored), mpc := M_create_consumer (Suc k)\<rparr>"
  shows "inv argv s'"
proof -
  let ?P = "threads argv 2" and ?C = "threads argv 3"
  note d = pc4_invD [OF i]
  have none: "cpc s k = C_none" using d(2) m k by (auto simp: main_ok_def)
  have "live_p s' = live_p s" "live_c s' = live_c s" using none by (auto simp: live_p_def live_c_def s' fun_eq_iff)
  then have "counts_inv ?P ?C s'" "vals_inv ?P ?C s'" "sems_ok ?P ?C s'"
    using d(5,6,8) none k m by (simp_all add: counts_inv_def vals_inv_def sems_ok_def units_inv_def s')
  moreover have "main_ok ?P ?C s'" "prods_ok ?P s'" "cons_ok ?C s'" using d(2,3,4) m k by (auto simp: main_ok_def prods_ok_def cons_ok_def s')
  moreover have "args_ok argv s'" "items_ok s'" "lines_ok ?P ?C s'"
    using d(1,7,9) m by (auto simp: args_ok_def items_ok_def lines_ok_def reports_def s')
  ultimately show ?thesis by (intro pc4_invI)
qed

text \<open>Joining a thread prints its count.\<close>

lemma pc4_join:
  assumes i: "inv argv s" and s': "s' = s\<lparr>printed := printed s @ [l], mpc := m'\<rparr>"
    and join: "mpc s = M_join k \<and> m' = M_join (Suc k) \<and> k < threads argv 2 \<and> ppc s k = P_return \<and> l = ProducerCount k (prodcount s k) \<or>
      mpc s = M_join_consumer k \<and> m' = M_join_consumer (Suc k) \<and> k < threads argv 3 \<and> cpc s k = C_return \<and> l = ConsumerCount k (conscount s k)"
  shows "inv argv s'"
proof -
  let ?P = "threads argv 2" and ?C = "threads argv 3"
  note d = pc4_invD [OF i]
  have "live_p s' = live_p s" "live_c s' = live_c s" by (auto simp: live_p_def live_c_def s' fun_eq_iff)
  then have "counts_inv ?P ?C s'" "vals_inv ?P ?C s'" "sems_ok ?P ?C s'"
    using d(5,6,8) join by (auto simp: counts_inv_def vals_inv_def sems_ok_def units_inv_def s')
  moreover have "main_ok ?P ?C s'" using d(2) join by (auto simp: main_ok_def s' less_Suc_eq)
  moreover have "prods_ok ?P s'" "cons_ok ?C s'" "items_ok s'" using d(3,4,7) by (simp_all add: prods_ok_def cons_ok_def items_ok_def s')
  moreover have "args_ok argv s'" "lines_ok ?P ?C s'"
    using d(1,9) join by (auto simp: args_ok_def lines_ok_def reports_def s')
  ultimately show ?thesis by (intro pc4_invI)
qed

lemma pc4_units_start:
  assumes i: "inv argv s" and m: "mpc s = M_nstored"
  shows "units_inv (threads argv 2) (threads argv 3) (s\<lparr>nstored := 0, mpc := M_create 0\<rparr>)"
proof -
  note d = pc4_invD [OF i]
  have z: "ppc s t = P_none" if "t < threads argv 2" for t using d(2) m that by (auto simp: main_ok_def)
  have y: "cpc s t = C_none" if "t < threads argv 3" for t using d(2) m that by (auto simp: main_ok_def)
  have "tot w (ppc s) (threads argv 2) = 0" if "w P_none = 0" for w using z that by (intro tot_zero) simp
  moreover have "tot w (cpc s) (threads argv 3) = 0" if "w C_none = 0" for w using y that by (intro tot_zero) simp
  moreover have "tot (\<lambda>c. c) (live_p s) (threads argv 2) = 0" using z by (intro tot_zero) (simp add: live_p_def)
  moreover have "tot (\<lambda>c. c) (live_c s) (threads argv 3) = 0" using y by (intro tot_zero) (simp add: live_c_def)
  ultimately show ?thesis using d(6,8) m by (simp add: units_inv_def sems_ok_def counts_inv_def)
qed

lemma pc4_main_inv:
  assumes i: "inv argv s" and j: "main argv ok s = Some s'"
  shows "inv argv s'"
proof -
  let ?P = "threads argv 2" and ?C = "threads argv 3"
  note d = pc4_invD [OF i]
  consider (dead) "s' = die Usage s \<or> (\<exists>e. s' = die (Error e) s)" | (live) "s' \<noteq> die Usage s" "\<forall>e. s' \<noteq> die (Error e) s" by metis
  then show ?thesis
  proof cases
    case dead then show ?thesis using pc4_die_inv [OF i] by auto
  next
    case live
    show ?thesis
    proof (cases "mpc s")
      case M_args then show ?thesis using pc4_args [OF i M_args] j live by (auto simp: main_def split: if_splits)
    next
      case (M_create k)
      note b = pc4_loop_bound(1) [OF d(1), of k, unfolded M_create, simplified]
      show ?thesis
      proof (cases "k < ?P")
        case True
        then show ?thesis using pc4_create [OF i M_create True] b j live M_create by (auto simp: main_def split: if_splits)
      next
        case False
        then have "k = ?P" "s' = s\<lparr>mpc := M_create_consumer 0\<rparr>" using d(2) M_create b j by (auto simp: main_ok_def main_def)
        then show ?thesis using M_create d(1,8) by (intro pc4_main_only [OF i]) (simp_all add: args_ok_def sems_ok_def units_inv_def)
      qed
    next
      case (M_create_consumer k)
      note b = pc4_loop_bound(2) [OF d(1), of k, unfolded M_create_consumer, simplified]
      show ?thesis
      proof (cases "k < ?C")
        case True
        then show ?thesis using pc4_create_consumer [OF i M_create_consumer True] b j live M_create_consumer by (auto simp: main_def split: if_splits)
      next
        case False
        then have "k = ?C" "s' = s\<lparr>mpc := M_join 0\<rparr>" using d(2) M_create_consumer b j by (auto simp: main_ok_def main_def)
        then show ?thesis using M_create_consumer d(1,8) by (intro pc4_main_only [OF i]) (simp_all add: args_ok_def sems_ok_def units_inv_def)
      qed
    next
      case (M_join k)
      note b = pc4_loop_bound(1) [OF d(1), of k, unfolded M_join, simplified]
      show ?thesis
      proof (cases "k < ?P")
        case True
        then have "ppc s k = P_return \<and> s' = s\<lparr>printed := printed s @ [ProducerCount k (prodcount s k)], mpc := M_join (Suc k)\<rparr>"
          using b j live M_join by (auto simp: main_def split: if_splits)
        then show ?thesis using pc4_join [OF i] M_join True by blast
      next
        case False
        then have "k = ?P" "s' = s\<lparr>mpc := M_join_consumer 0\<rparr>" using d(2) M_join b j by (auto simp: main_ok_def main_def)
        then show ?thesis using M_join d(1,8) by (intro pc4_main_only [OF i]) (simp_all add: args_ok_def sems_ok_def units_inv_def)
      qed
    next
      case (M_join_consumer k)
      note b = pc4_loop_bound(2) [OF d(1), of k, unfolded M_join_consumer, simplified]
      show ?thesis
      proof (cases "k < ?C")
        case True
        then have "cpc s k = C_return \<and> s' = s\<lparr>printed := printed s @ [ConsumerCount k (conscount s k)], mpc := M_join_consumer (Suc k)\<rparr>"
          using b j live M_join_consumer by (auto simp: main_def split: if_splits)
        then show ?thesis using pc4_join [OF i] M_join_consumer True by blast
      next
        case False
        then have "k = ?C" "s' = s\<lparr>mpc := M_rm_mutex\<rparr>" using d(2) M_join_consumer b j by (auto simp: main_ok_def main_def)
        then show ?thesis using M_join_consumer d(1,8) by (intro pc4_main_only [OF i]) (simp_all add: args_ok_def sems_ok_def units_inv_def)
      qed
    next
      case M_nstored
      then have "s' = s\<lparr>nstored := 0, mpc := M_create 0\<rparr>" using j live by (auto simp: main_def split: if_splits)
      then show ?thesis using M_nstored d(1) pc4_units_start [OF i M_nstored]
        by (intro pc4_main_only [OF i]) (simp_all add: args_ok_def sems_ok_def)
    qed (use j live d(1,8) in \<open>auto intro!: pc4_main_only [OF i] simp: main_def args_ok_def sems_ok_def units_inv_def split: if_splits\<close>)
  qed
qed

lemma pc4_start_inv: "inv argv (start g h)"
proof -
  have "tot (\<lambda>c. c) (live_p (start g h)) P = 0" "tot (\<lambda>c. c) (live_c (start g h)) P = 0" for P
    by (rule tot_zero, simp add: live_p_def live_c_def start_def)+
  then show ?thesis
    by (intro pc4_invI) (simp_all add: args_ok_def main_ok_def prods_ok_def cons_ok_def vals_inv_def counts_inv_def items_ok_def
      sems_ok_def lines_ok_def reports_def wanted_def, simp_all add: start_def)
qed

lemma pc4_step_inv: "inv argv s \<Longrightarrow> step argv a s = Some s' \<Longrightarrow> inv argv s'"
  by (cases a) (auto intro: pc4_main_inv pc4_producer_inv pc4_consumer_inv split: if_splits)

section \<open>Termination and progress\<close>

fun m_rank :: "int \<Rightarrow> int \<Rightarrow> main_pc \<Rightarrow> int" where
  "m_rank P C M_args = 2 * P + 2 * C + 12" | "m_rank P C M_mutex = 2 * P + 2 * C + 11" | "m_rank P C M_nempty = 2 * P + 2 * C + 10"
| "m_rank P C M_nstored = 2 * P + 2 * C + 9" | "m_rank P C (M_create i) = 2 * P + 2 * C + 8 - int i"
| "m_rank P C (M_create_consumer i) = P + 2 * C + 7 - int i" | "m_rank P C (M_join i) = P + C + 6 - int i"
| "m_rank P C (M_join_consumer i) = C + 5 - int i" | "m_rank P C M_rm_mutex = 4" | "m_rank P C M_rm_nempty = 3"
| "m_rank P C M_rm_nstored = 2" | "m_rank P C (M_exit _) = 0"

fun p_rank :: "producer_pc \<Rightarrow> int" where
  "p_rank P_none = 9" | "p_rank P_wait_nempty = 8" | "p_rank P_wait_mutex = 7" | "p_rank P_test = 6"
| "p_rank P_end_post_nstored = 3" | "p_rank P_end_post_mutex = 2" | "p_rank P_end_post_nempty = 1" | "p_rank P_return = 0"
| "p_rank P_store = 5" | "p_rank P_inc_nput = 4" | "p_rank P_inc_nputval = 12" | "p_rank P_post_mutex = 11"
| "p_rank P_post_nstored = 10" | "p_rank P_count = 9"

fun c_rank :: "consumer_pc \<Rightarrow> int" where
  "c_rank C_none = 8" | "c_rank C_wait_nstored = 7" | "c_rank C_wait_mutex = 6" | "c_rank C_test = 5"
| "c_rank C_end_post_nstored = 2" | "c_rank C_end_post_mutex = 1" | "c_rank C_return = 0"
| "c_rank C_check = 4" | "c_rank C_inc_nget = 3" | "c_rank C_inc_ngetval = 11" | "c_rank C_post_mutex = 10"
| "c_rank C_post_nempty = 9" | "c_rank C_count = 8"

definition irank :: "string list \<Rightarrow> shared \<Rightarrow> int" where
  "irank argv s = m_rank (int (threads argv 2)) (int (threads argv 3)) (mpc s) + 9 * (wanted argv - nput s) + tot p_rank (ppc s) (threads argv 2)
     + 9 * (wanted argv - nget s) + tot c_rank (cpc s) (threads argv 3)"

lemma pc4_irank_nonneg:
  assumes "inv argv s" shows "0 \<le> irank argv s"
proof -
  note d = pc4_invD [OF assms]
  have "0 \<le> p_rank pc" for pc by (cases pc) simp_all
  moreover have "0 \<le> c_rank pc" for pc by (cases pc) simp_all
  ultimately have "0 \<le> tot p_rank (ppc s) (threads argv 2)" "0 \<le> tot c_rank (cpc s) (threads argv 3)" by (auto intro: tot_nonneg)
  moreover have "0 \<le> m_rank (int (threads argv 2)) (int (threads argv 3)) (mpc s)" using d(2) by (cases "mpc s") (auto simp: main_ok_def)
  moreover have "nput s \<le> wanted argv" "nget s \<le> wanted argv" using d(1,7) by (auto simp: args_ok_def items_ok_def)
  ultimately show ?thesis by (simp add: irank_def)
qed

lemma pc4_thread_rank:
  "t < threads argv 2 \<Longrightarrow> producer t s = Some s' \<Longrightarrow> irank argv s' < irank argv s"
  "t < threads argv 3 \<Longrightarrow> consumer t s = Some s' \<Longrightarrow> irank argv s' < irank argv s"
  by (cases "ppc s t"; auto simp: producer_def irank_def Let_def split: if_splits)
    (cases "cpc s t"; auto simp: consumer_def irank_def Let_def split: if_splits)

lemma pc4_main_rank:
  assumes i: "inv argv s" and j: "main argv ok s = Some s'"
  shows "irank argv s' < irank argv s"
proof -
  note d = pc4_invD [OF i]
  show ?thesis
  proof (cases "mpc s")
    case (M_create k)
    with d(2) pc4_loop_bound(1) [OF d(1), of k] j show ?thesis
      by (auto simp: main_def die_def irank_def main_ok_def split: if_splits)
  next
    case (M_create_consumer k)
    with d(2) pc4_loop_bound(2) [OF d(1), of k] j show ?thesis
      by (auto simp: main_def die_def irank_def main_ok_def split: if_splits)
  next
    case (M_join k)
    with d(2) pc4_loop_bound(1) [OF d(1), of k] j show ?thesis
      by (auto simp: main_def die_def irank_def main_ok_def split: if_splits)
  next
    case (M_join_consumer k)
    with d(2) pc4_loop_bound(2) [OF d(1), of k] j show ?thesis
      by (auto simp: main_def die_def irank_def main_ok_def split: if_splits)
  qed (use j in \<open>auto simp: main_def die_def irank_def split: if_splits\<close>)
qed

lemma pc4_step_rank:
  assumes i: "inv argv s" and j: "step argv a s = Some s'"
  shows "irank argv s' < irank argv s"
proof (cases a)
  case (Main ok)
  then show ?thesis using pc4_main_rank [OF i] j by simp
next
  case (Producer t)
  then have p: "producer t s = Some s'" using j by (simp split: if_splits)
  then have "t < threads argv 2" using pc4_producer_frame(11) [OF p] pc4_invD(3) [OF i] unfolding prods_ok_def by (meson not_le)
  then show ?thesis by (rule pc4_thread_rank(1) [OF _ p])
next
  case (Consumer t)
  then have p: "consumer t s = Some s'" using j by (simp split: if_splits)
  then have "t < threads argv 3" using pc4_consumer_frame(11) [OF p] pc4_invD(4) [OF i] unfolding cons_ok_def by (meson not_le)
  then show ?thesis by (rule pc4_thread_rank(2) [OF _ p])
qed

lemma pc4_blocked:
  "producer t s = None \<longleftrightarrow> ppc s t \<in> {P_none, P_return} \<or> ppc s t = P_wait_nempty \<and> nempty s = 0 \<or> ppc s t = P_wait_mutex \<and> mutex s = 0"
  "consumer t s = None \<longleftrightarrow> cpc s t \<in> {C_none, C_return} \<or> cpc s t = C_wait_nstored \<and> nstored s = 0 \<or> cpc s t = C_wait_mutex \<and> mutex s = 0"
  by (cases "ppc s t"; auto simp: producer_def Let_def) (cases "cpc s t"; auto simp: consumer_def Let_def)

text \<open>When no thread can move and both kinds of threads exist, all have returned.\<close>

lemma pc4_all_blocked:
  assumes u: "units_inv P C s" and i: "items_ok s" and po: "prods_ok P s" and co: "cons_ok C s" and "0 < P" "0 < C"
    and p: "\<And>t. producer t s = None" "\<And>t. t < P \<Longrightarrow> ppc s t \<noteq> P_none"
    and c: "\<And>t. consumer t s = None" "\<And>t. t < C \<Longrightarrow> cpc s t \<noteq> C_none"
  shows "(\<forall>t<P. ppc s t = P_return) \<and> (\<forall>t<C. cpc s t = C_return)"
proof -
  have "p_mutex (ppc s t) = 0" "p_filled (ppc s t) = 0" "c_mutex (cpc s t) = 0" "c_owe (cpc s t) = 0" for t
    using p(1)[unfolded pc4_blocked, of t] c(1)[unfolded pc4_blocked, of t] by auto
  then have z: "tot p_mutex (ppc s) P = 0" "tot p_filled (ppc s) P = 0" "tot c_mutex (cpc s) C = 0" "tot c_owe (cpc s) C = 0"
    by (simp_all add: tot_zero)
  then have m: "mutex s = 1" using u by (simp add: units_inv_def)
  have pp: "ppc s t = P_return \<or> ppc s t = P_wait_nempty \<and> nempty s = 0" if "t < P" for t
    using p(1)[unfolded pc4_blocked, of t] p(2) [OF that] m by auto
  have cc: "cpc s t = C_return \<or> cpc s t = C_wait_nstored \<and> nstored s = 0" if "t < C" for t
    using c(1)[unfolded pc4_blocked, of t] c(2) [OF that] m by auto
  have "p_unit (ppc s t) = 0" if "t < P" for t using pp [OF that] by auto
  moreover have "c_token (cpc s t) = 0" if "t < C" for t using cc [OF that] by auto
  ultimately have y: "tot p_unit (ppc s) P = 0" "tot c_token (cpc s) C = 0" by (simp_all add: tot_zero)
  have e: "int (nempty s) + (nput s - nget s) = int NBUFF" "int (nstored s) = nput s - nget s + tot p_extra (ppc s) P"
    using u y z by (simp_all add: units_inv_def)
  have ge: "0 \<le> nput s - nget s" "0 \<le> tot p_extra (ppc s) P" using i pc4_tot_nonneg(4) [of "ppc s" P] by (simp_all add: items_ok_def)
  have cr: "cpc s t = C_return" if t: "t < C" for t
  proof (rule ccontr)
    assume "cpc s t \<noteq> C_return"
    then have n: "nput s = nget s" "tot p_extra (ppc s) P = 0" using cc [OF t] e(2) ge by auto
    have "ppc s 0 \<noteq> P_return" using tot_ge_one_thread [of p_extra 0 P "ppc s", OF pc4_p_weights(4)] n(2) \<open>0 < P\<close> by auto
    then show False using pp [OF \<open>0 < P\<close>] e(1) n(1) by (simp add: NBUFF_def)
  qed
  moreover have "ppc s t = P_return" if t: "t < P" for t
  proof (rule ccontr)
    assume "ppc s t \<noteq> P_return"
    then have "nput s - nget s = int NBUFF" using pp [OF t] e(1) by simp
    moreover have "nitems s \<le> nget s" using co cr \<open>0 < C\<close> by (auto simp: cons_ok_def)
    ultimately show False using i by (auto simp: items_ok_def NBUFF_def)
  qed
  ultimately show ?thesis by blast
qed

lemma pc4_progress:
  assumes i: "inv argv s" and e: "\<not> exited (mpc s)" and P: "0 < threads argv 2" and C: "0 < threads argv 3"
  shows "\<exists>a\<in>good. \<exists>s'. step argv a s = Some s'"
proof (rule ccontr)
  note d = pc4_invD [OF i]
  assume "\<not> ?thesis"
  then have none: "step argv a s = None" if "a \<noteq> Main False" for a using that by (auto simp: good_def)
  have p: "producer t s = None" and c: "consumer t s = None" and m: "main argv True s = None" for t
    using none [of "Producer t"] none [of "Consumer t"] none [of "Main True"] e by auto
  have w: "(\<exists>k. mpc s = M_join k \<and> k < threads argv 2 \<and> ppc s k \<noteq> P_return) \<or>
      (\<exists>k. mpc s = M_join_consumer k \<and> k < threads argv 3 \<and> cpc s k \<noteq> C_return)"
    using m e pc4_loop_bound [OF d(1)] by (cases "mpc s") (auto simp: main_def split: if_splits)
  then have u: "units_inv (threads argv 2) (threads argv 3) s" using d(8) by (auto simp: sems_ok_def)
  have n: "t < threads argv 2 \<Longrightarrow> ppc s t \<noteq> P_none" "t < threads argv 3 \<Longrightarrow> cpc s t \<noteq> C_none" for t
    using d(2) w by (auto simp: main_ok_def)
  show False using pc4_all_blocked [OF u d(7,3,4) P C p n(1) c n(2)] w by blast
qed

definition rank :: "string list \<Rightarrow> shared \<Rightarrow> nat" where
  "rank argv s = nat (irank argv s)"

interpretation prodcons4: terminating_system "step argv" "start g h" "inv argv" "rank argv"
  "\<lambda>s. exited (mpc s) \<or> threads argv 2 = 0 \<or> threads argv 3 = 0" good for argv g h
proof unfold_locales
  show "inv argv (start g h)" by (rule pc4_start_inv)
next
  fix s a s' assume i: "inv argv s" and s: "step argv a s = Some s'"
  show i': "inv argv s'" by (rule pc4_step_inv [OF i s])
  show "rank argv s' < rank argv s"
    using pc4_step_rank [OF i s] pc4_irank_nonneg [OF i'] by (simp add: rank_def)
next
  fix s assume "inv argv s" and "\<not> (exited (mpc s) \<or> threads argv 2 = 0 \<or> threads argv 3 = 0)"
  with pc4_progress show "\<exists>a\<in>good. \<exists>s'. step argv a s = Some s'" by auto
qed

section \<open>Properties\<close>

lemma pc4_all_counted:
  assumes i: "inv argv s" and m: "mpc s = M_exit 0" and P: "0 < threads argv 2" and C: "0 < threads argv 3"
  shows "(\<Sum>k<threads argv 2. prodcount s k) = wanted argv \<and> (\<Sum>k<threads argv 3. conscount s k) = wanted argv"
proof -
  let ?P = "threads argv 2" and ?C = "threads argv 3"
  note d = pc4_invD [OF i]
  have p: "\<forall>t<?P. ppc s t = P_return" and c: "\<forall>t<?C. cpc s t = C_return" and n: "nitems s = atoi (argv ! 1)"
    using d(1,2) m by (auto simp: main_ok_def args_ok_def)
  have "nitems s \<le> nput s" "nitems s \<le> nget s" using d(3,4) p c P C by (auto simp: prods_ok_def cons_ok_def)
  then have e: "nput s = wanted argv" "nget s = wanted argv" using d(7) n by (auto simp: items_ok_def wanted_def)
  have "tot p_uncounted (ppc s) ?P = 0" "tot c_uncounted (cpc s) ?C = 0" using p c by (auto intro: tot_zero)
  moreover have "tot (\<lambda>c. c) (live_p s) ?P = (\<Sum>k<?P. prodcount s k)" "tot (\<lambda>c. c) (live_c s) ?C = (\<Sum>k<?C. conscount s k)"
    unfolding tot_def by (rule sum.cong; use p c in \<open>simp add: live_p_def live_c_def\<close>)+
  ultimately show ?thesis using d(6) e by (simp add: counts_inv_def)
qed

text \<open>
  C5. sem\_prodcons4 with at least one producer and one consumer, for every schedule, every pattern of
  failing calls and any initial contents of the two arrays: no consumer ever reports a wrong value; every
  schedule is bounded by the items and the threads; a schedule that cannot be extended without a failing call
  has ended the process, so the units posted at the end let all consumers return; and at exit status 0 the
  program has printed the count of every producer and then of every consumer, and each group adds up to the
  number of items.
\<close>

theorem prodcons4_correct:
  assumes "run (step argv) sched (start g h) = Some s" and "0 < threads argv 2" and "0 < threads argv 3"
  shows "(\<forall>i v. Mismatch i v \<notin> set (printed s)) \<and>
    int (length sched) \<le> 18 * wanted argv + 11 * int (threads argv 2) + 10 * int (threads argv 3) + 12 \<and>
    (stuck good (step argv) s \<longrightarrow> exited (mpc s)) \<and>
    (mpc s = M_exit 0 \<longrightarrow> printed s = reports s (threads argv 2) (threads argv 3) \<and>
       (\<Sum>k<threads argv 2. prodcount s k) = wanted argv \<and> (\<Sum>k<threads argv 3. conscount s k) = wanted argv)"
proof -
  have i: "inv argv s" by (rule prodcons4.run_inv [OF assms(1)])
  have "irank argv (start g h) = 18 * wanted argv + 11 * int (threads argv 2) + 10 * int (threads argv 3) + 12"
    by (simp add: irank_def start_def)
  then have "int (rank argv (start g h)) = 18 * wanted argv + 11 * int (threads argv 2) + 10 * int (threads argv 3) + 12"
    using pc4_irank_nonneg [OF pc4_start_inv, of argv g h] by (simp add: rank_def)
  moreover have "\<forall>i v. Mismatch i v \<notin> set (printed s)" "mpc s = M_exit 0 \<longrightarrow> printed s = reports s (threads argv 2) (threads argv 3)"
    using pc4_invD(9) [OF i] by (simp_all add: lines_ok_def)
  ultimately show ?thesis
    using prodcons4.run_bounded [OF assms(1)] prodcons4.stuck_final [OF assms(1)] pc4_all_counted [OF i _ assms(2,3)] assms(2,3) by auto
qed

text \<open>One item, one producer and two consumers: consumer 0 ends with the extra unit and posts it again for consumer 1.\<close>

definition extra_argv :: "string list" where "extra_argv = [''prodcons4'', ''1'', ''1'', ''2'']"

definition extra_run :: "act list" where
  "extra_run = replicate 9 (Main True) @ replicate 15 (Producer 0) @ replicate 8 (Consumer 1) @ replicate 5 (Consumer 0)
     @ replicate 6 (Consumer 1) @ replicate 8 (Main True)"

theorem prodcons4_correct_witness:
  "\<exists>s. run (step extra_argv) extra_run (start (\<lambda>_. 7) (\<lambda>_. 8)) = Some s \<and> mpc s = M_exit 0 \<and>
     printed s = [ProducerCount 0 (prodcount s 0), ConsumerCount 0 (conscount s 0), ConsumerCount 1 (conscount s 1)] \<and>
     prodcount s 0 = 1 \<and> conscount s 0 + conscount s 1 = 1"
proof -
  have "atoi ''1'' = 1" "atoi ''2'' = 2" by code_simp+
  then have "map_option mpc (run (step extra_argv) extra_run (start (\<lambda>_. 7) (\<lambda>_. 8))) = Some (M_exit 0)"
    by (simp add: extra_run_def extra_argv_def eval_nat_numeral start_def main_def producer_def consumer_def MAXNTHREADS_def
      sem_wait_def sem_post_def NBUFF_def slot_def del: sem_wait_Some sem_wait_None)
  then obtain s where s: "run (step extra_argv) extra_run (start (\<lambda>_. 7) (\<lambda>_. 8)) = Some s" "mpc s = M_exit 0" by auto
  have e: "threads extra_argv 2 = 1" "threads extra_argv 3 = 2" "wanted extra_argv = 1" by code_simp+
  from prodcons4_correct [OF s(1)] s(2)
  have "printed s = reports s 1 2 \<and> (\<Sum>k<1. prodcount s k) = 1 \<and> (\<Sum>k<2. conscount s k) = 1" by (simp add: e)
  then show ?thesis using s by (simp add: reports_def numeral_2_eq_2)
qed

text \<open>Without producers the consumers wait for ever.\<close>

lemma prodcons4_no_producers_hang:
  "\<exists>s. run (step [''prodcons4'', ''1'', ''0'', ''1'']) (replicate 8 (Main True)) (start g h) = Some s \<and>
     \<not> exited (mpc s) \<and> stuck good (step [''prodcons4'', ''1'', ''0'', ''1'']) s"
proof -
  let ?argv = "[''prodcons4'', ''1'', ''0'', ''1'']"
  have a: "atoi ''1'' = 1" "atoi ''0'' = 0" by code_simp+
  have "case run (step ?argv) (replicate 8 (Main True)) (start g h) of None \<Rightarrow> False
    | Some s \<Rightarrow> mpc s = M_join_consumer 0 \<and> nconsumers s = 1 \<and> cpc s = (\<lambda>_. C_none)(0 := C_wait_nstored) \<and> nstored s = 0 \<and> ppc s = (\<lambda>_. P_none)"
    by (simp add: eval_nat_numeral main_def start_def a MAXNTHREADS_def)
  then obtain s where s: "run (step ?argv) (replicate 8 (Main True)) (start g h) = Some s"
    and m: "mpc s = M_join_consumer 0" "nconsumers s = 1" "cpc s = (\<lambda>_. C_none)(0 := C_wait_nstored)" "nstored s = 0" "ppc s = (\<lambda>_. P_none)"
    by (auto split: option.splits)
  have "step ?argv a s = None" if "a \<in> good" for a
    using that m by (cases a) (auto simp: good_def main_def producer_def consumer_def)
  with s m show ?thesis by (auto simp: stuck_def)
qed

end
