(* ===== verification/Cond_Prodcons.thy ===== *)
theory Cond_Prodcons
  imports Posix_Sync
begin

text \<open>
  \<^verbatim>\<open>src/ipc/src/mutex/mutex_prodcons3.c\<close>: several producers fill an array under the mutex \<open>put.mutex\<close>; the number
  of items ready is kept under a second mutex, \<open>nready.mutex\<close>, and the consumer sleeps on a condition variable
  while it is 0. A producer signals the condition only when it finds the number at 0.
\<close>

section \<open>Model\<close>

definition MAXNITEMS :: int where "MAXNITEMS = 1000000"
definition MAXNTHREADS :: int where "MAXNTHREADS = 100"

datatype main_pc = M_args | M_create nat | M_create_consumer | M_join nat | M_join_consumer | M_exit int | M_undef

datatype producer_pc =
    P_none | P_lock | P_test | P_full_unlock | P_store | P_inc_nput | P_inc_nval | P_unlock
  | P_lock_ready | P_test_ready | P_signal | P_inc_nready | P_unlock_ready | P_count | P_return

text \<open>
  \<open>C_wait\<close> is the call of \<open>pthread_cond_wait\<close>, which gives the mutex up and sleeps in one step; a consumer that has been
  woken takes the mutex again at \<open>C_relock\<close> and goes back to the test of the loop.
\<close>

datatype consumer_pc =
    C_none | C_for | C_lock | C_while | C_wait | C_sleep | C_relock | C_dec | C_unlock | C_check | C_inc | C_return

datatype who = Prod nat | Cons

datatype line = Usage | Count nat int | Mismatch int int

record shared =
  nitems :: int
  nthreads :: int
  buf :: "nat \<Rightarrow> int"
  put_mutex :: "nat option"
  nput :: int
  nval :: int
  ready_mutex :: "who option"
  nready :: int
  count :: "nat \<Rightarrow> int"
  mpc :: main_pc
  ppc :: "nat \<Rightarrow> producer_pc"
  cpc :: consumer_pc
  c_i :: int
  printed :: "line list"

definition start :: "(nat \<Rightarrow> int) \<Rightarrow> shared" where
  "start garbage = \<lparr>nitems = 0, nthreads = 0, buf = (\<lambda>_. 0), put_mutex = None, nput = 0, nval = 0, ready_mutex = None,
     nready = 0, count = garbage, mpc = M_args, ppc = (\<lambda>_. P_none), cpc = C_none, c_i = 0, printed = []\<rparr>"

fun exited :: "main_pc \<Rightarrow> bool" where
  "exited (M_exit _) = True"
| "exited M_undef = True"
| "exited _ = False"

text \<open>\<open>pthread_cond_signal\<close> wakes the one thread that may sleep on the condition, if it does; otherwise it has no effect.\<close>

definition cond_signal :: "shared \<Rightarrow> shared" where
  "cond_signal s = (if cpc s = C_sleep then s\<lparr>cpc := C_relock\<rparr> else s)"

text \<open>A store outside the array is undefined.\<close>

definition producer :: "nat \<Rightarrow> shared \<Rightarrow> shared option" where
  "producer t s = (let goto = (\<lambda>pc u. u\<lparr>ppc := (ppc u)(t := pc)\<rparr>) in case ppc s t of
     P_lock \<Rightarrow> map_option (\<lambda>m. goto P_test (s\<lparr>put_mutex := m\<rparr>)) (mutex_lock t (put_mutex s))
   | P_test \<Rightarrow> Some (if nput s \<ge> nitems s then goto P_full_unlock s else goto P_store s)
   | P_full_unlock \<Rightarrow> Some (goto P_return (s\<lparr>put_mutex := mutex_unlock (put_mutex s)\<rparr>))
   | P_store \<Rightarrow> Some (if 0 \<le> nput s \<and> nput s < MAXNITEMS
        then goto P_inc_nput (s\<lparr>buf := (buf s)(nat (nput s) := nput s)\<rparr>) else s\<lparr>mpc := M_undef\<rparr>)
   | P_inc_nput \<Rightarrow> Some (goto P_inc_nval (s\<lparr>nput := nput s + 1\<rparr>))
   | P_inc_nval \<Rightarrow> Some (goto P_unlock (s\<lparr>nval := nval s + 1\<rparr>))
   | P_unlock \<Rightarrow> Some (goto P_lock_ready (s\<lparr>put_mutex := mutex_unlock (put_mutex s)\<rparr>))
   | P_lock_ready \<Rightarrow> map_option (\<lambda>m. goto P_test_ready (s\<lparr>ready_mutex := m\<rparr>)) (mutex_lock (Prod t) (ready_mutex s))
   | P_test_ready \<Rightarrow> Some (if nready s = 0 then goto P_signal s else goto P_inc_nready s)
   | P_signal \<Rightarrow> Some (goto P_inc_nready (cond_signal s))
   | P_inc_nready \<Rightarrow> Some (goto P_unlock_ready (s\<lparr>nready := nready s + 1\<rparr>))
   | P_unlock_ready \<Rightarrow> Some (goto P_count (s\<lparr>ready_mutex := mutex_unlock (ready_mutex s)\<rparr>))
   | P_count \<Rightarrow> Some (goto P_lock (s\<lparr>count := (count s)(t := count s t + 1)\<rparr>))
   | P_none \<Rightarrow> None
   | P_return \<Rightarrow> None)"

definition consumer :: "shared \<Rightarrow> shared option" where
  "consumer s = (case cpc s of
     C_for \<Rightarrow> Some (if c_i s < nitems s then s\<lparr>cpc := C_lock\<rparr> else s\<lparr>cpc := C_return\<rparr>)
   | C_lock \<Rightarrow> map_option (\<lambda>m. s\<lparr>ready_mutex := m, cpc := C_while\<rparr>) (mutex_lock Cons (ready_mutex s))
   | C_while \<Rightarrow> Some (if nready s = 0 then s\<lparr>cpc := C_wait\<rparr> else s\<lparr>cpc := C_dec\<rparr>)
   | C_wait \<Rightarrow> Some (s\<lparr>ready_mutex := mutex_unlock (ready_mutex s), cpc := C_sleep\<rparr>)
   | C_sleep \<Rightarrow> None
   | C_relock \<Rightarrow> map_option (\<lambda>m. s\<lparr>ready_mutex := m, cpc := C_while\<rparr>) (mutex_lock Cons (ready_mutex s))
   | C_dec \<Rightarrow> Some (s\<lparr>nready := nready s - 1, cpc := C_unlock\<rparr>)
   | C_unlock \<Rightarrow> Some (s\<lparr>ready_mutex := mutex_unlock (ready_mutex s), cpc := C_check\<rparr>)
   | C_check \<Rightarrow> Some (if buf s (nat (c_i s)) \<noteq> c_i s
        then s\<lparr>printed := printed s @ [Mismatch (c_i s) (buf s (nat (c_i s)))], cpc := C_inc\<rparr> else s\<lparr>cpc := C_inc\<rparr>)
   | C_inc \<Rightarrow> Some (s\<lparr>c_i := c_i s + 1, cpc := C_for\<rparr>)
   | C_none \<Rightarrow> None
   | C_return \<Rightarrow> None)"

text \<open>
  \<open>main\<close>; \<open>ok\<close> says whether \<open>pthread_create\<close> succeeds, which the code does not check. Joining a thread that was not
  created is undefined.
\<close>

definition main :: "string list \<Rightarrow> bool \<Rightarrow> shared \<Rightarrow> shared option" where
  "main argv ok s = (case mpc s of
     M_args \<Rightarrow> Some (if length argv \<noteq> 3 then s\<lparr>printed := [Usage], mpc := M_exit 1\<rparr>
        else s\<lparr>nitems := min (atoi (argv ! 1)) MAXNITEMS, nthreads := min (atoi (argv ! 2)) MAXNTHREADS, mpc := M_create 0\<rparr>)
   | M_create i \<Rightarrow> Some (if int i < nthreads s
        then s\<lparr>count := (count s)(i := 0), ppc := (if ok then (ppc s)(i := P_lock) else ppc s), mpc := M_create (Suc i)\<rparr>
        else s\<lparr>mpc := M_create_consumer\<rparr>)
   | M_create_consumer \<Rightarrow> Some (if ok then s\<lparr>cpc := C_for, c_i := 0, mpc := M_join 0\<rparr> else s\<lparr>mpc := M_join 0\<rparr>)
   | M_join i \<Rightarrow> (if int i < nthreads s
        then (case ppc s i of
            P_return \<Rightarrow> Some (s\<lparr>printed := printed s @ [Count i (count s i)], mpc := M_join (Suc i)\<rparr>)
          | P_none \<Rightarrow> Some (s\<lparr>mpc := M_undef\<rparr>)
          | _ \<Rightarrow> None)
        else Some (s\<lparr>mpc := M_join_consumer\<rparr>))
   | M_join_consumer \<Rightarrow> (case cpc s of C_return \<Rightarrow> Some (s\<lparr>mpc := M_exit 0\<rparr>)
        | C_none \<Rightarrow> Some (s\<lparr>mpc := M_undef\<rparr>) | _ \<Rightarrow> None)
   | _ \<Rightarrow> None)"

text \<open>\<open>Spurious\<close>: the sleeping consumer wakes up although nobody signalled, which POSIX allows.\<close>

datatype act = Main bool | Producer nat | Consumer | Spurious

fun step :: "string list \<Rightarrow> act \<Rightarrow> shared \<Rightarrow> shared option" where
  "step argv (Main ok) s = main argv ok s"
| "step argv (Producer t) s = (if exited (mpc s) then None else producer t s)"
| "step argv Consumer s = (if exited (mpc s) then None else consumer s)"
| "step argv Spurious s = (if exited (mpc s) \<or> cpc s \<noteq> C_sleep then None else Some (s\<lparr>cpc := C_relock\<rparr>))"

definition good :: "act set" where
  "good = - {Main False, Spurious}"

section \<open>Invariant\<close>

definition wanted :: "string list \<Rightarrow> int" where
  "wanted argv = max 0 (min (atoi (argv ! 1)) MAXNITEMS)"

definition threads :: "string list \<Rightarrow> nat" where
  "threads argv = nat (min (atoi (argv ! 2)) MAXNTHREADS)"

fun p_put :: "producer_pc \<Rightarrow> bool" where
  "p_put P_test = True" | "p_put P_full_unlock = True" | "p_put P_store = True" | "p_put P_inc_nput = True"
| "p_put P_inc_nval = True" | "p_put P_unlock = True" | "p_put _ = False"

fun p_ready :: "producer_pc \<Rightarrow> bool" where
  "p_ready P_test_ready = True" | "p_ready P_signal = True" | "p_ready P_inc_nready = True" | "p_ready P_unlock_ready = True"
| "p_ready _ = False"

fun c_ready :: "consumer_pc \<Rightarrow> bool" where
  "c_ready C_while = True" | "c_ready C_wait = True" | "c_ready C_dec = True" | "c_ready C_unlock = True"
| "c_ready _ = False"

text \<open>A producer that has stored an item and not yet counted it as ready.\<close>

fun p_pending :: "producer_pc \<Rightarrow> int" where
  "p_pending P_inc_nval = 1" | "p_pending P_unlock = 1" | "p_pending P_lock_ready = 1" | "p_pending P_test_ready = 1"
| "p_pending P_signal = 1" | "p_pending P_inc_nready = 1" | "p_pending _ = 0"

fun p_uncounted :: "producer_pc \<Rightarrow> int" where
  "p_uncounted P_inc_nval = 1" | "p_uncounted P_unlock = 1" | "p_uncounted P_lock_ready = 1" | "p_uncounted P_test_ready = 1"
| "p_uncounted P_signal = 1" | "p_uncounted P_inc_nready = 1" | "p_uncounted P_unlock_ready = 1" | "p_uncounted P_count = 1"
| "p_uncounted _ = 0"

fun c_taken :: "consumer_pc \<Rightarrow> int" where
  "c_taken C_unlock = 1" | "c_taken C_check = 1" | "c_taken C_inc = 1" | "c_taken _ = 0"

fun p_ok :: "int \<Rightarrow> int \<Rightarrow> (nat \<Rightarrow> int) \<Rightarrow> producer_pc \<Rightarrow> bool" where
  "p_ok n k b P_store = (k < n)"
| "p_ok n k b P_inc_nput = (k < n \<and> b (nat k) = k)"
| "p_ok n k b P_full_unlock = (n \<le> k)"
| "p_ok n k b P_return = (n \<le> k)"
| "p_ok n k b _ = True"

fun c_range :: "int \<Rightarrow> consumer_pc \<Rightarrow> int \<Rightarrow> bool" where
  "c_range n C_none i = (i = 0)"
| "c_range n C_for i = (0 \<le> i \<and> i \<le> max 0 n)"
| "c_range n C_return i = (i = max 0 n)"
| "c_range n _ i = (0 \<le> i \<and> i < n)"

definition live_count :: "shared \<Rightarrow> nat \<Rightarrow> int" where
  "live_count s t = (if ppc s t = P_none then 0 else count s t)"

definition lock_ok :: "shared \<Rightarrow> bool" where
  "lock_ok s \<longleftrightarrow> (\<forall>t. put_mutex s = Some t \<longleftrightarrow> p_put (ppc s t)) \<and> (\<forall>t. ready_mutex s = Some (Prod t) \<longleftrightarrow> p_ready (ppc s t)) \<and>
     (ready_mutex s = Some Cons \<longleftrightarrow> c_ready (cpc s))"

definition fill_ok :: "nat \<Rightarrow> shared \<Rightarrow> bool" where
  "fill_ok T s \<longleftrightarrow> 0 \<le> nput s \<and> nput s \<le> max 0 (nitems s) \<and> nitems s \<le> MAXNITEMS \<and>
     (\<forall>j < nat (nput s). buf s j = int j) \<and> (\<forall>t. p_ok (nitems s) (nput s) (buf s) (ppc s t)) \<and> (\<forall>t \<ge> T. ppc s t = P_none)"

text \<open>
  The number ready; and no wakeup is lost: while the consumer sleeps the number is 0 and no producer is about to
  raise it without having signalled.
\<close>

definition ready_ok :: "nat \<Rightarrow> shared \<Rightarrow> bool" where
  "ready_ok T s \<longleftrightarrow> nready s + c_i s + c_taken (cpc s) + tot p_pending (ppc s) T = nput s \<and> 0 \<le> nready s \<and>
     (cpc s = C_wait \<longrightarrow> nready s = 0) \<and> (cpc s = C_dec \<longrightarrow> 0 < nready s) \<and>
     (cpc s = C_sleep \<longrightarrow> nready s = 0 \<and> (\<forall>t. ppc s t \<noteq> P_inc_nready))"

definition counts_ok :: "nat \<Rightarrow> shared \<Rightarrow> bool" where
  "counts_ok T s \<longleftrightarrow> tot (\<lambda>c. c) (live_count s) T + tot p_uncounted (ppc s) T = nput s"

fun created :: "nat \<Rightarrow> main_pc \<Rightarrow> nat" where
  "created T M_args = 0" | "created T (M_create i) = i" | "created T _ = T"

fun joined :: "nat \<Rightarrow> main_pc \<Rightarrow> nat" where
  "joined T (M_join i) = i" | "joined T M_join_consumer = T" | "joined T (M_exit c) = (if c = 0 then T else 0)" | "joined T _ = 0"

definition c_allowed :: "main_pc \<Rightarrow> consumer_pc \<Rightarrow> bool" where
  "c_allowed m pc = (case m of M_args \<Rightarrow> pc = C_none | M_create i \<Rightarrow> pc = C_none | M_create_consumer \<Rightarrow> pc = C_none
     | M_exit c \<Rightarrow> c = 0 \<longrightarrow> pc = C_return | _ \<Rightarrow> True)"

definition main_ok :: "nat \<Rightarrow> shared \<Rightarrow> bool" where
  "main_ok T s \<longleftrightarrow> created T (mpc s) \<le> T \<and> joined T (mpc s) \<le> T \<and>
     (\<forall>t \<ge> created T (mpc s). ppc s t = P_none) \<and> (\<forall>t < joined T (mpc s). ppc s t = P_return) \<and> c_allowed (mpc s) (cpc s)"

definition args_ok :: "string list \<Rightarrow> shared \<Rightarrow> bool" where
  "args_ok argv s \<longleftrightarrow> max 0 (nitems s) \<le> wanted argv \<and> (case mpc s of M_args \<Rightarrow> nitems s = 0
     | M_exit c \<Rightarrow> c = 0 \<longrightarrow> nitems s = min (atoi (argv ! 1)) MAXNITEMS
     | _ \<Rightarrow> nitems s = min (atoi (argv ! 1)) MAXNITEMS \<and> nthreads s = min (atoi (argv ! 2)) MAXNTHREADS)"

definition reports :: "shared \<Rightarrow> nat \<Rightarrow> line list" where
  "reports s n = map (\<lambda>k. Count k (count s k)) [0..<n]"

definition lines_ok :: "nat \<Rightarrow> shared \<Rightarrow> bool" where
  "lines_ok T s \<longleftrightarrow> (\<forall>i v. Mismatch i v \<notin> set (printed s)) \<and>
     (\<not> exited (mpc s) \<or> mpc s = M_exit 0 \<longrightarrow> printed s = reports s (joined T (mpc s)))"

definition inv :: "string list \<Rightarrow> shared \<Rightarrow> bool" where
  "inv argv s \<longleftrightarrow> lock_ok s \<and> fill_ok (threads argv) s \<and> ready_ok (threads argv) s \<and> counts_ok (threads argv) s \<and>
     c_range (nitems s) (cpc s) (c_i s) \<and> main_ok (threads argv) s \<and> args_ok argv s \<and> lines_ok (threads argv) s"

section \<open>What the producers keep\<close>

lemma cv_producerE:
  assumes "producer t s = Some s'"
  obtains (lock) "ppc s t = P_lock" "put_mutex s = None" "s' = s\<lparr>put_mutex := Some t, ppc := (ppc s)(t := P_test)\<rparr>"
  | (full) "ppc s t = P_test" "nitems s \<le> nput s" "s' = s\<lparr>ppc := (ppc s)(t := P_full_unlock)\<rparr>"
  | (room) "ppc s t = P_test" "nput s < nitems s" "s' = s\<lparr>ppc := (ppc s)(t := P_store)\<rparr>"
  | (done') "ppc s t = P_full_unlock" "s' = s\<lparr>put_mutex := None, ppc := (ppc s)(t := P_return)\<rparr>"
  | (store) "ppc s t = P_store" "0 \<le> nput s" "nput s < MAXNITEMS"
      "s' = s\<lparr>buf := (buf s)(nat (nput s) := nput s), ppc := (ppc s)(t := P_inc_nput)\<rparr>"
  | (outside) "ppc s t = P_store" "\<not> (0 \<le> nput s \<and> nput s < MAXNITEMS)" "s' = s\<lparr>mpc := M_undef\<rparr>"
  | (nput) "ppc s t = P_inc_nput" "s' = s\<lparr>nput := nput s + 1, ppc := (ppc s)(t := P_inc_nval)\<rparr>"
  | (nval) "ppc s t = P_inc_nval" "s' = s\<lparr>nval := nval s + 1, ppc := (ppc s)(t := P_unlock)\<rparr>"
  | (unlock) "ppc s t = P_unlock" "s' = s\<lparr>put_mutex := None, ppc := (ppc s)(t := P_lock_ready)\<rparr>"
  | (lock_ready) "ppc s t = P_lock_ready" "ready_mutex s = None" "s' = s\<lparr>ready_mutex := Some (Prod t), ppc := (ppc s)(t := P_test_ready)\<rparr>"
  | (zero) "ppc s t = P_test_ready" "nready s = 0" "s' = s\<lparr>ppc := (ppc s)(t := P_signal)\<rparr>"
  | (some) "ppc s t = P_test_ready" "nready s \<noteq> 0" "s' = s\<lparr>ppc := (ppc s)(t := P_inc_nready)\<rparr>"
  | (wake) "ppc s t = P_signal" "cpc s = C_sleep" "s' = s\<lparr>cpc := C_relock, ppc := (ppc s)(t := P_inc_nready)\<rparr>"
  | (awake) "ppc s t = P_signal" "cpc s \<noteq> C_sleep" "s' = s\<lparr>ppc := (ppc s)(t := P_inc_nready)\<rparr>"
  | (nready) "ppc s t = P_inc_nready" "s' = s\<lparr>nready := nready s + 1, ppc := (ppc s)(t := P_unlock_ready)\<rparr>"
  | (unlock_ready) "ppc s t = P_unlock_ready" "s' = s\<lparr>ready_mutex := None, ppc := (ppc s)(t := P_count)\<rparr>"
  | (count) "ppc s t = P_count" "s' = s\<lparr>count := (count s)(t := count s t + 1), ppc := (ppc s)(t := P_lock)\<rparr>"
proof (cases "ppc s t")
  case P_lock then show ?thesis using lock assms by (auto simp: producer_def)
next
  case P_test
  then have "s' = (if nput s \<ge> nitems s then s\<lparr>ppc := (ppc s)(t := P_full_unlock)\<rparr> else s\<lparr>ppc := (ppc s)(t := P_store)\<rparr>)"
    using assms by (auto simp: producer_def)
  then show ?thesis using full [OF P_test] room [OF P_test] by (cases "nitems s \<le> nput s") (simp_all only: if_True if_False not_le)
next
  case P_full_unlock then show ?thesis using done' assms by (auto simp: producer_def mutex_unlock_def)
next
  case P_store then show ?thesis using store outside assms by (cases "0 \<le> nput s \<and> nput s < MAXNITEMS") (auto simp: producer_def)
next
  case P_inc_nput then show ?thesis using nput assms by (auto simp: producer_def)
next
  case P_inc_nval then show ?thesis using nval assms by (auto simp: producer_def)
next
  case P_unlock then show ?thesis using unlock assms by (auto simp: producer_def mutex_unlock_def)
next
  case P_lock_ready then show ?thesis using lock_ready assms by (auto simp: producer_def)
next
  case P_test_ready
  then have "s' = (if nready s = 0 then s\<lparr>ppc := (ppc s)(t := P_signal)\<rparr> else s\<lparr>ppc := (ppc s)(t := P_inc_nready)\<rparr>)"
    using assms by (auto simp: producer_def)
  then show ?thesis using zero [OF P_test_ready] some [OF P_test_ready] by (cases "nready s = 0") (simp_all only: if_True if_False not_False_eq_True)
next
  case P_signal
  then have "s' = (if cpc s = C_sleep then s\<lparr>cpc := C_relock, ppc := (ppc s)(t := P_inc_nready)\<rparr> else s\<lparr>ppc := (ppc s)(t := P_inc_nready)\<rparr>)"
    using assms by (auto simp: producer_def cond_signal_def)
  then show ?thesis using wake [OF P_signal] awake [OF P_signal] by (cases "cpc s = C_sleep") (simp_all only: if_True if_False not_False_eq_True)
next
  case P_inc_nready then show ?thesis using nready assms by (auto simp: producer_def)
next
  case P_unlock_ready then show ?thesis using unlock_ready assms by (auto simp: producer_def mutex_unlock_def)
next
  case P_count then show ?thesis using count assms by (auto simp: producer_def)
next
  case P_none then show ?thesis using assms by (simp add: producer_def)
next
  case P_return then show ?thesis using assms by (simp add: producer_def)
qed

lemma cv_consumerE:
  assumes "consumer s = Some s'"
  obtains (enter) "cpc s = C_for" "c_i s < nitems s" "s' = s\<lparr>cpc := C_lock\<rparr>"
  | (leave) "cpc s = C_for" "nitems s \<le> c_i s" "s' = s\<lparr>cpc := C_return\<rparr>"
  | (lock) "cpc s \<in> {C_lock, C_relock}" "ready_mutex s = None" "s' = s\<lparr>ready_mutex := Some Cons, cpc := C_while\<rparr>"
  | (zero) "cpc s = C_while" "nready s = 0" "s' = s\<lparr>cpc := C_wait\<rparr>"
  | (some) "cpc s = C_while" "nready s \<noteq> 0" "s' = s\<lparr>cpc := C_dec\<rparr>"
  | (sleep) "cpc s = C_wait" "s' = s\<lparr>ready_mutex := None, cpc := C_sleep\<rparr>"
  | (dec) "cpc s = C_dec" "s' = s\<lparr>nready := nready s - 1, cpc := C_unlock\<rparr>"
  | (unlock) "cpc s = C_unlock" "s' = s\<lparr>ready_mutex := None, cpc := C_check\<rparr>"
  | (right) "cpc s = C_check" "buf s (nat (c_i s)) = c_i s" "s' = s\<lparr>cpc := C_inc\<rparr>"
  | (wrong) "cpc s = C_check" "buf s (nat (c_i s)) \<noteq> c_i s" "printed s' = printed s @ [Mismatch (c_i s) (buf s (nat (c_i s)))]"
  | (inc) "cpc s = C_inc" "s' = s\<lparr>c_i := c_i s + 1, cpc := C_for\<rparr>"
proof (cases "cpc s")
  case C_for then show ?thesis using enter leave assms by (cases "c_i s < nitems s") (auto simp: consumer_def)
next
  case C_lock then show ?thesis using lock assms by (auto simp: consumer_def)
next
  case C_relock then show ?thesis using lock assms by (auto simp: consumer_def)
next
  case C_while then show ?thesis using zero some assms by (cases "nready s = 0") (auto simp: consumer_def)
next
  case C_wait then show ?thesis using sleep assms by (auto simp: consumer_def mutex_unlock_def)
next
  case C_dec then show ?thesis using dec assms by (auto simp: consumer_def)
next
  case C_unlock then show ?thesis using unlock assms by (auto simp: consumer_def mutex_unlock_def)
next
  case C_check then show ?thesis using right wrong assms by (cases "buf s (nat (c_i s)) = c_i s") (auto simp: consumer_def)
next
  case C_inc then show ?thesis using inc assms by (auto simp: consumer_def)
next
  case C_none then show ?thesis using assms by (simp add: consumer_def)
next
  case C_sleep then show ?thesis using assms by (simp add: consumer_def)
next
  case C_return then show ?thesis using assms by (simp add: consumer_def)
qed

lemma cv_producer_frame:
  assumes "producer t s = Some s'"
  shows "c_i s' = c_i s" "nitems s' = nitems s" "nthreads s' = nthreads s" "printed s' = printed s" "ppc s' = (ppc s)(t := ppc s' t)"
    "ppc s t \<noteq> P_none" "ppc s t \<noteq> P_return" "ppc s' t \<noteq> P_none" "u \<noteq> t \<Longrightarrow> count s' u = count s u" "nput s \<le> nput s'"
    "cpc s' = cpc s \<or> cpc s = C_sleep \<and> cpc s' = C_relock"
  using assms by (elim cv_producerE; simp add: fun_eq_iff)+

lemma cv_excl_put: "lock_ok s \<Longrightarrow> p_put (ppc s t) \<Longrightarrow> p_put (ppc s u) \<Longrightarrow> u = t"
  unfolding lock_ok_def by (metis option.inject)

lemma cv_excl_ready:
  assumes "lock_ok s" "p_ready (ppc s t)"
  shows "p_ready (ppc s u) \<Longrightarrow> u = t" and "\<not> c_ready (cpc s)"
  using assms unfolding lock_ok_def by (metis option.inject who.inject, metis option.inject who.distinct(1))

lemma cv_holders:
  assumes "lock_ok s"
  shows "p_put (ppc s t) \<Longrightarrow> put_mutex s = Some t" "p_ready (ppc s t) \<Longrightarrow> ready_mutex s = Some (Prod t)"
    "c_ready (cpc s) \<Longrightarrow> ready_mutex s = Some Cons"
  using assms by (simp_all add: lock_ok_def)

lemma cv_producer_lock:
  assumes l: "lock_ok s" and p: "producer t s = Some s'"
  shows "lock_ok s'"
proof -
  note h = cv_holders(1,2) [OF l, of t]
  from p show ?thesis
    by (cases rule: cv_producerE) (use h l in \<open>auto simp: lock_ok_def\<close>)
qed

lemma cv_p_ok_mono: "p_ok n k b pc \<Longrightarrow> \<not> p_put pc \<Longrightarrow> k \<le> k' \<Longrightarrow> p_ok n k' b' pc"
  by (cases pc) auto

lemma cv_producer_fill:
  assumes f: "fill_ok T s" and l: "lock_ok s" and p: "producer t s = Some s'"
  shows "fill_ok T s' \<and> mpc s' = mpc s"
proof -
  have ok: "p_ok (nitems s) (nput s) (buf s) (ppc s u)" for u using f by (simp add: fill_ok_def)
  have T: "t < T" using f cv_producer_frame(6) [OF p] unfolding fill_ok_def by (meson not_le)
  have others: "p_ok (nitems s) k b (ppc s u)" if "u \<noteq> t" "nput s \<le> k" "p_put (ppc s t)" for u k b
    using cv_excl_put [OF l that(3), of u] that cv_p_ok_mono [OF ok] by blast
  from p show ?thesis
  proof (cases rule: cv_producerE)
    case store
    have "p_ok (nitems s) (nput s) ((buf s)(nat (nput s) := nput s)) (ppc s u)" if "u \<noteq> t" for u
      using others [OF that order_refl] store by simp
    then show ?thesis using store f T ok [of t] by (simp add: fill_ok_def)
  next
    case nput
    then have "nput s < nitems s" "buf s (nat (nput s)) = nput s" using ok [of t] by simp_all
    moreover have "p_ok (nitems s) (nput s + 1) (buf s) (ppc s u)" if "u \<noteq> t" for u
      using others [OF that, of "nput s + 1"] nput by simp
    moreover have "nat (nput s + 1) = Suc (nat (nput s))" using f unfolding fill_ok_def by linarith
    ultimately show ?thesis using nput f T unfolding fill_ok_def by (simp add: less_Suc_eq all_conj_distrib)
  next
    case outside
    then show ?thesis using f ok [of t] unfolding fill_ok_def by simp
  qed (use f T ok [of t] in \<open>simp_all add: fill_ok_def\<close>)
qed

lemma cv_producer_ready:
  assumes r: "ready_ok T s" and l: "lock_ok s" and f: "fill_ok T s" and p: "producer t s = Some s'"
  shows "ready_ok T s'"
proof -
  have T: "t < T" using f cv_producer_frame(6) [OF p] unfolding fill_ok_def by (meson not_le)
  have nc: "p_ready (ppc s t) \<Longrightarrow> \<not> c_ready (cpc s)" using cv_excl_ready(2) [OF l] by blast
  from p show ?thesis
    by (cases rule: cv_producerE) (use r T nc in \<open>auto simp: ready_ok_def\<close>)
qed

lemma cv_producer_counts:
  assumes c: "counts_ok T s" and T: "t < T" and p: "producer t s = Some s'"
  shows "counts_ok T s'"
proof -
  note f = cv_producer_frame [OF p]
  have "live_count s' = (live_count s)(t := count s' t)" "live_count s t = count s t"
    using f(6,8,9) by (auto simp: live_count_def fun_eq_iff) (metis f(5) fun_upd_apply)+
  then have "tot (\<lambda>c. c) (live_count s') T = tot (\<lambda>c. c) (live_count s) T - count s t + count s' t" using T by simp
  moreover have "tot p_uncounted (ppc s') T = tot p_uncounted (ppc s) T - p_uncounted (ppc s t) + p_uncounted (ppc s' t)"
    using f(5) tot_upd [OF T] by metis
  moreover from p have "count s' t + p_uncounted (ppc s' t) - nput s' = count s t + p_uncounted (ppc s t) - nput s"
    by (cases rule: cv_producerE) simp_all
  ultimately show ?thesis using c by (simp add: counts_ok_def)
qed

lemma cv_reports_cong: "(\<And>k. k < n \<Longrightarrow> count s' k = count s k) \<Longrightarrow> reports s' n = reports s n"
  by (simp add: reports_def)

lemma cv_invD:
  assumes "inv argv s"
  shows "lock_ok s" "fill_ok (threads argv) s" "ready_ok (threads argv) s" "counts_ok (threads argv) s"
    "c_range (nitems s) (cpc s) (c_i s)" "main_ok (threads argv) s" "args_ok argv s" "lines_ok (threads argv) s"
  using assms by (simp_all add: inv_def)

lemma cv_invI:
  assumes "lock_ok s" "fill_ok (threads argv) s" "ready_ok (threads argv) s" "counts_ok (threads argv) s"
    "c_range (nitems s) (cpc s) (c_i s)" "main_ok (threads argv) s" "args_ok argv s" "lines_ok (threads argv) s"
  shows "inv argv s"
  using assms by (simp add: inv_def)

lemma cv_producer_inv:
  assumes i: "inv argv s" and e: "\<not> exited (mpc s)" and p: "producer t s = Some s'"
  shows "inv argv s'"
proof -
  let ?T = "threads argv"
  note f = cv_producer_frame [OF p] and d = cv_invD [OF i]
  have m: "mpc s' = mpc s" and fill: "fill_ok ?T s'" using cv_producer_fill [OF d(2,1) p] by simp_all
  have T: "t < ?T" using d(2) f(6) unfolding fill_ok_def by (meson not_le)
  have cr: "t < created ?T (mpc s)" using d(6) f(6) unfolding main_ok_def by (meson not_le)
  have nj: "\<not> t < joined ?T (mpc s)" using d(6) f(7) by (auto simp: main_ok_def)
  have "c_range (nitems s') (cpc s') (c_i s')" using d(5) f(1,2,11) by auto
  moreover have "c_allowed (mpc s) (cpc s')" using d(6) e f(11) by (auto simp: main_ok_def c_allowed_def split: main_pc.splits)
  moreover obtain pc where "ppc s' = (ppc s)(t := pc)" using f(5) by blast
  then have "main_ok ?T s'" using d(6) cr nj m calculation(2) by (auto simp: main_ok_def)
  moreover have "args_ok argv s'" using d(7) unfolding args_ok_def f(2,3) m .
  moreover have "reports s' (joined ?T (mpc s)) = reports s (joined ?T (mpc s))" using nj f(9) by (intro cv_reports_cong) auto
  then have "lines_ok ?T s'" using d(8) f(4) m e by (auto simp: lines_ok_def)
  ultimately show ?thesis
    using fill cv_producer_lock [OF d(1) p] cv_producer_ready [OF d(3,1,2) p] cv_producer_counts [OF d(4) T p] by (intro cv_invI)
qed

section \<open>What the consumer keeps\<close>

lemma cv_item:
  assumes "inv argv s" "cpc s = C_check" shows "buf s (nat (c_i s)) = c_i s"
proof -
  note d = cv_invD [OF assms(1)]
  have "0 \<le> tot p_pending (ppc s) (threads argv)" by (rule tot_nonneg) (rename_tac pc, case_tac pc; simp)
  then have "0 \<le> c_i s" "c_i s < nput s" using d(3,5) assms(2) by (auto simp: ready_ok_def)
  then show ?thesis using d(2) unfolding fill_ok_def by (metis int_nat_eq nat_less_eq_zless)
qed

lemma cv_consumer_parts:
  assumes i: "inv argv s" and c: "consumer s = Some s'"
  shows "lock_ok s'" "ready_ok (threads argv) s'" "c_range (nitems s') (cpc s') (c_i s')"
proof -
  note d = cv_invD [OF i] and it = cv_item [OF i] and h = cv_holders(3) [OF cv_invD(1) [OF i]]
  have q: "put_mutex s = Some u \<longleftrightarrow> p_put (ppc s u)" "ready_mutex s = Some (Prod u) \<longleftrightarrow> p_ready (ppc s u)" for u using d(1) by (simp_all add: lock_ok_def)
  have np: "c_ready (cpc s) \<Longrightarrow> ppc s u \<noteq> P_inc_nready" for u
    using h q(2) [of u] by auto
  from c show "lock_ok s'"
    by (cases rule: cv_consumerE) (use d(1) h it in \<open>auto simp: lock_ok_def\<close>)
  from c show "ready_ok (threads argv) s'"
    by (cases rule: cv_consumerE) (use d(3) np it in \<open>auto simp: ready_ok_def\<close>)
  from c show "c_range (nitems s') (cpc s') (c_i s')"
    by (cases rule: cv_consumerE) (use d(5) it in auto)
qed

lemma cv_consumer_frame:
  assumes i: "inv argv s" and c: "consumer s = Some s'"
  shows "mpc s' = mpc s" "ppc s' = ppc s" "nput s' = nput s" "nitems s' = nitems s" "nthreads s' = nthreads s" "buf s' = buf s"
    "count s' = count s" "printed s' = printed s" "cpc s \<noteq> C_none" "cpc s' \<noteq> C_none"
proof -
  from c have "mpc s' = mpc s \<and> ppc s' = ppc s \<and> nput s' = nput s \<and> nitems s' = nitems s \<and> nthreads s' = nthreads s \<and> buf s' = buf s \<and>
    count s' = count s \<and> printed s' = printed s \<and> cpc s \<noteq> C_none \<and> cpc s' \<noteq> C_none"
    by (cases rule: cv_consumerE) (use cv_item [OF i] in auto)
  then show "mpc s' = mpc s" "ppc s' = ppc s" "nput s' = nput s" "nitems s' = nitems s" "nthreads s' = nthreads s" "buf s' = buf s"
    "count s' = count s" "printed s' = printed s" "cpc s \<noteq> C_none" "cpc s' \<noteq> C_none" by simp_all
qed

text \<open>What holds whatever the consumer does.\<close>

lemma cv_consumer_moves:
  assumes i: "inv argv s" and e: "\<not> exited (mpc s)" and cn: "cpc s \<noteq> C_none"
    and f: "mpc s' = mpc s" "ppc s' = ppc s" "nput s' = nput s" "nitems s' = nitems s" "nthreads s' = nthreads s" "buf s' = buf s"
      "count s' = count s" "printed s' = printed s"
    and new: "lock_ok s'" "ready_ok (threads argv) s'" "c_range (nitems s') (cpc s') (c_i s')"
  shows "inv argv s'"
proof -
  note d = cv_invD [OF i]
  have l: "live_count s' = live_count s" using f by (simp add: live_count_def fun_eq_iff)
  have "c_allowed (mpc s) (cpc s')" using d(6) e cn by (auto simp: main_ok_def c_allowed_def split: main_pc.splits)
  then have "main_ok (threads argv) s'" using d(6) f by (simp add: main_ok_def)
  moreover have "fill_ok (threads argv) s'" "counts_ok (threads argv) s'" using d(2,4) f l by (simp_all add: fill_ok_def counts_ok_def)
  moreover have "args_ok argv s'" using d(7) unfolding args_ok_def f .
  moreover have "reports s' = reports s" using f by (simp add: reports_def fun_eq_iff)
  then have "lines_ok (threads argv) s'" using d(8) f unfolding lines_ok_def by metis
  ultimately show ?thesis using new by (intro cv_invI)
qed

lemma cv_consumer_inv: "inv argv s \<Longrightarrow> \<not> exited (mpc s) \<Longrightarrow> consumer s = Some s' \<Longrightarrow> inv argv s'"
  by (rule cv_consumer_moves [OF _ _ cv_consumer_frame(9)]) (assumption | erule (1) cv_consumer_frame cv_consumer_parts)+

lemma cv_spurious_inv:
  assumes i: "inv argv s" and e: "\<not> exited (mpc s)" and c: "cpc s = C_sleep"
  shows "inv argv (s\<lparr>cpc := C_relock\<rparr>)"
  by (rule cv_consumer_moves [OF i e])
    (use cv_invD(1,3,5) [OF i] c in \<open>auto simp: lock_ok_def ready_ok_def\<close>)

section \<open>What \<open>main\<close> keeps\<close>

text \<open>A step of \<open>main\<close> to \<open>m\<close> that changes nothing else.\<close>

lemma cv_goto_inv:
  assumes i: "inv argv s" and a: "args_ok argv (s\<lparr>mpc := m\<rparr>)" and n: "main_ok (threads argv) (s\<lparr>mpc := m\<rparr>)"
    and l: "lines_ok (threads argv) (s\<lparr>mpc := m\<rparr>)"
  shows "inv argv (s\<lparr>mpc := m\<rparr>)"
proof -
  have "live_count (s\<lparr>mpc := m\<rparr>) = live_count s" by (simp add: live_count_def fun_eq_iff)
  then show ?thesis using cv_invD [OF i] a n l
    by (intro cv_invI) (simp_all add: lock_ok_def fill_ok_def ready_ok_def counts_ok_def)
qed

lemma cv_threads: "args_ok argv s \<Longrightarrow> \<not> exited (mpc s) \<Longrightarrow> mpc s \<noteq> M_args \<Longrightarrow> int k < nthreads s \<longleftrightarrow> k < threads argv"
  by (cases "mpc s") (auto simp: args_ok_def threads_def)

lemma cv_args_inv:
  assumes i: "inv argv s" and m: "mpc s = M_args" and j: "main argv ok s = Some s'"
  shows "inv argv s'"
proof -
  note d = cv_invD [OF i]
  have z: "ppc s t = P_none" "cpc s = C_none" "c_i s = 0" "nput s = 0" "printed s = []" for t
    using d(2,5,6,7,8) m by (auto simp: main_ok_def c_allowed_def fill_ok_def args_ok_def lines_ok_def reports_def)
  have l: "live_count s' = live_count s" using j m by (auto simp: main_def live_count_def fun_eq_iff split: if_splits)
  have w: "0 \<le> wanted argv" "max 0 (min (atoi (argv ! 1)) MAXNITEMS) \<le> wanted argv" by (simp_all add: wanted_def)
  consider "length argv \<noteq> 3" "s' = s\<lparr>printed := [Usage], mpc := M_exit 1\<rparr>"
    | "length argv = 3" "s' = s\<lparr>nitems := min (atoi (argv ! 1)) MAXNITEMS, nthreads := min (atoi (argv ! 2)) MAXNTHREADS, mpc := M_create 0\<rparr>"
    using j m by (cases "length argv = 3") (auto simp: main_def)
  then show ?thesis
  proof cases
    case 1
    then show ?thesis using d z l m
      by (intro cv_invI) (simp_all add: lock_ok_def fill_ok_def ready_ok_def counts_ok_def main_ok_def c_allowed_def args_ok_def lines_ok_def)
  next
    case 2
    then show ?thesis using d z l m w
      by (intro cv_invI) (simp_all add: lock_ok_def fill_ok_def ready_ok_def counts_ok_def main_ok_def c_allowed_def args_ok_def lines_ok_def reports_def)
  qed
qed

lemma cv_create_inv:
  assumes i: "inv argv s" and m: "mpc s = M_create k" and k: "k < threads argv"
    and s': "s' = s\<lparr>count := (count s)(k := 0), ppc := (if ok then (ppc s)(k := P_lock) else ppc s), mpc := M_create (Suc k)\<rparr>"
  shows "inv argv s'"
proof -
  note d = cv_invD [OF i]
  have none: "ppc s k = P_none" using d(6) m by (auto simp: main_ok_def)
  have "live_count s' = live_count s" using none by (auto simp: s' live_count_def fun_eq_iff)
  then have "counts_ok (threads argv) s'" using d(4) none k by (simp add: counts_ok_def s')
  moreover have "lock_ok s'" using d(1) none by (auto simp: lock_ok_def s')
  moreover have "fill_ok (threads argv) s'" using d(2) k by (simp add: fill_ok_def s')
  moreover have "ready_ok (threads argv) s'" using d(3) none k by (simp add: ready_ok_def s')
  moreover have "main_ok (threads argv) s'" using d(6) m k by (auto simp: main_ok_def c_allowed_def s')
  moreover have "args_ok argv s'" "lines_ok (threads argv) s'" "c_range (nitems s') (cpc s') (c_i s')"
    using d(5,7,8) m by (simp_all add: args_ok_def lines_ok_def reports_def s')
  ultimately show ?thesis by (intro cv_invI)
qed

lemma cv_create_consumer_inv:
  assumes i: "inv argv s" and m: "mpc s = M_create_consumer" and s': "s' = s\<lparr>cpc := C_for, c_i := 0, mpc := M_join 0\<rparr>"
  shows "inv argv s'"
proof -
  note d = cv_invD [OF i]
  have z: "cpc s = C_none" "c_i s = 0" using d(5,6) m by (auto simp: main_ok_def c_allowed_def)
  have "live_count s' = live_count s" by (simp add: live_count_def s' fun_eq_iff)
  then show ?thesis using d z m
    by (intro cv_invI) (simp_all add: s' lock_ok_def fill_ok_def ready_ok_def counts_ok_def main_ok_def c_allowed_def args_ok_def lines_ok_def reports_def)
qed

lemma cv_join_inv:
  assumes i: "inv argv s" and m: "mpc s = M_join k" and k: "k < threads argv" and r: "ppc s k = P_return"
    and s': "s' = s\<lparr>printed := printed s @ [Count k (count s k)], mpc := M_join (Suc k)\<rparr>"
  shows "inv argv s'"
proof -
  note d = cv_invD [OF i]
  have "live_count s' = live_count s" by (simp add: live_count_def s' fun_eq_iff)
  then have "counts_ok (threads argv) s'" using d(4) by (simp add: counts_ok_def s')
  moreover have "main_ok (threads argv) s'" using d(6) m k r by (auto simp: main_ok_def c_allowed_def s' less_Suc_eq)
  moreover have "lines_ok (threads argv) s'" using d(8) m by (auto simp: lines_ok_def reports_def s')
  moreover have "lock_ok s'" "fill_ok (threads argv) s'" "ready_ok (threads argv) s'" "args_ok argv s'" "c_range (nitems s') (cpc s') (c_i s')"
    using d(1,2,3,5,7) m by (simp_all add: lock_ok_def fill_ok_def ready_ok_def args_ok_def s')
  ultimately show ?thesis by (intro cv_invI)
qed

lemma cv_main_join:
  "mpc s = M_join k \<Longrightarrow> main argv ok s = (if int k < nthreads s
     then if ppc s k = P_return then Some (s\<lparr>printed := printed s @ [Count k (count s k)], mpc := M_join (Suc k)\<rparr>)
          else if ppc s k = P_none then Some (s\<lparr>mpc := M_undef\<rparr>) else None
     else Some (s\<lparr>mpc := M_join_consumer\<rparr>))"
  "mpc s = M_join_consumer \<Longrightarrow> main argv ok s = (if cpc s = C_return then Some (s\<lparr>mpc := M_exit 0\<rparr>)
     else if cpc s = C_none then Some (s\<lparr>mpc := M_undef\<rparr>) else None)"
  by (cases "ppc s k"; simp add: main_def) (cases "cpc s"; simp add: main_def)

lemma cv_lines_goto:
  "lines_ok T s \<Longrightarrow> \<not> exited (mpc s) \<Longrightarrow> joined T m = joined T (mpc s) \<or> m = M_undef \<Longrightarrow> lines_ok T (s\<lparr>mpc := m\<rparr>)"
  by (auto simp: lines_ok_def reports_def)

lemma cv_main_inv:
  assumes i: "inv argv s" and j: "main argv ok s = Some s'"
  shows "inv argv s'"
proof -
  note d = cv_invD [OF i]
  show ?thesis
  proof (cases "mpc s")
    case M_args then show ?thesis using cv_args_inv [OF i _ j] by blast
  next
    case (M_create k)
    have b: "int k < nthreads s \<longleftrightarrow> k < threads argv" using cv_threads [OF d(7)] M_create by simp
    show ?thesis
    proof (cases "k < threads argv")
      case True then show ?thesis using cv_create_inv [OF i M_create True] b j M_create by (auto simp: main_def)
    next
      case False
      then have "k = threads argv" "s' = s\<lparr>mpc := M_create_consumer\<rparr>" using d(6) b j M_create by (auto simp: main_ok_def main_def)
      then show ?thesis using d M_create cv_lines_goto [OF d(8)]
        by (auto intro!: cv_goto_inv [OF i] simp: args_ok_def main_ok_def c_allowed_def)
    qed
  next
    case M_create_consumer
    then consider "s' = s\<lparr>cpc := C_for, c_i := 0, mpc := M_join 0\<rparr>" | "s' = s\<lparr>mpc := M_join 0\<rparr>" using j by (auto simp: main_def split: if_splits)
    then show ?thesis
    proof cases
      case 1 then show ?thesis using cv_create_consumer_inv [OF i M_create_consumer] by blast
    next
      case 2
      then show ?thesis using d M_create_consumer cv_lines_goto [OF d(8)]
        by (auto intro!: cv_goto_inv [OF i] simp: args_ok_def main_ok_def c_allowed_def)
    qed
  next
    case (M_join k)
    have b: "int k < nthreads s \<longleftrightarrow> k < threads argv" using cv_threads [OF d(7)] M_join by simp
    note goto = cv_goto_inv [OF i, of M_undef] cv_goto_inv [OF i, of M_join_consumer]
    show ?thesis
    proof (cases "k < threads argv")
      case True
      show ?thesis
      proof (cases "ppc s k = P_return")
        case ret: True
        then show ?thesis using cv_join_inv [OF i M_join True ret] j True b M_join by (simp add: cv_main_join)
      next
        case False
        then have "s' = s\<lparr>mpc := M_undef\<rparr>" using j True b M_join by (simp add: cv_main_join split: if_splits)
        then show ?thesis using d(6,7) M_join cv_lines_goto [OF d(8)] by (auto intro!: goto simp: args_ok_def main_ok_def c_allowed_def)
      qed
    next
      case False
      then have "k = threads argv" "s' = s\<lparr>mpc := M_join_consumer\<rparr>" using j b M_join d(6) by (simp_all add: cv_main_join main_ok_def)
      then show ?thesis using d(6,7) M_join cv_lines_goto [OF d(8)] by (auto intro!: goto simp: args_ok_def main_ok_def c_allowed_def)
    qed
  next
    case M_join_consumer
    then consider "cpc s = C_return" "s' = s\<lparr>mpc := M_exit 0\<rparr>" | "s' = s\<lparr>mpc := M_undef\<rparr>"
      using j by (auto simp: cv_main_join split: if_splits)
    then show ?thesis
      by cases (use d M_join_consumer cv_lines_goto [OF d(8)] in \<open>auto intro!: cv_goto_inv [OF i] simp: args_ok_def main_ok_def c_allowed_def\<close>)
  qed (use j in \<open>simp_all add: main_def\<close>)
qed

lemma cv_start_inv: "inv argv (start g)"
  by (intro cv_invI) (simp_all add: start_def lock_ok_def fill_ok_def ready_ok_def counts_ok_def main_ok_def c_allowed_def args_ok_def
    lines_ok_def reports_def wanted_def MAXNITEMS_def live_count_def [abs_def])

lemma cv_step_inv: "inv argv s \<Longrightarrow> step argv a s = Some s' \<Longrightarrow> inv argv s'"
  by (cases a) (auto intro: cv_main_inv cv_producer_inv cv_consumer_inv cv_spurious_inv split: if_splits)

section \<open>Termination and progress\<close>

fun m_rank :: "int \<Rightarrow> main_pc \<Rightarrow> int" where
  "m_rank T M_args = 2 * T + 6" | "m_rank T (M_create i) = 2 * T + 5 - int i" | "m_rank T M_create_consumer = T + 4"
| "m_rank T (M_join i) = T + 3 - int i" | "m_rank T M_join_consumer = 2" | "m_rank T _ = 0"

fun p_rank :: "producer_pc \<Rightarrow> int" where
  "p_rank P_none = 8" | "p_rank P_lock = 7" | "p_rank P_test = 6" | "p_rank P_full_unlock = 1" | "p_rank P_store = 5"
| "p_rank P_inc_nput = 4" | "p_rank P_inc_nval = 18" | "p_rank P_unlock = 17" | "p_rank P_lock_ready = 16"
| "p_rank P_test_ready = 15" | "p_rank P_signal = 14" | "p_rank P_inc_nready = 10" | "p_rank P_unlock_ready = 9"
| "p_rank P_count = 8" | "p_rank P_return = 0"

fun c_rank :: "consumer_pc \<Rightarrow> int" where
  "c_rank C_none = 10" | "c_rank C_for = 9" | "c_rank C_lock = 8" | "c_rank C_while = 7" | "c_rank C_wait = 6" | "c_rank C_sleep = 5"
| "c_rank C_relock = 8" | "c_rank C_dec = 4" | "c_rank C_unlock = 3" | "c_rank C_check = 2" | "c_rank C_inc = 1" | "c_rank C_return = 0"

definition irank :: "string list \<Rightarrow> shared \<Rightarrow> int" where
  "irank argv s = m_rank (int (threads argv)) (mpc s) + 15 * (wanted argv - nput s) + tot p_rank (ppc s) (threads argv)
     + 9 * (wanted argv - c_i s) + c_rank (cpc s)"

lemma cv_irank_nonneg:
  assumes "inv argv s" shows "0 \<le> irank argv s"
proof -
  note d = cv_invD [OF assms]
  have "0 \<le> p_rank pc" for pc by (cases pc) simp_all
  then have "0 \<le> tot p_rank (ppc s) (threads argv)" by (rule tot_nonneg)
  moreover have "0 \<le> c_rank (cpc s)" by (cases "cpc s") simp_all
  moreover have "0 \<le> m_rank (int (threads argv)) (mpc s)" using d(6) by (cases "mpc s") (auto simp: main_ok_def)
  moreover have "nput s \<le> wanted argv" using d(2,7) by (auto simp: fill_ok_def args_ok_def)
  moreover have "c_i s \<le> max 0 (nitems s)" using d(5) by (cases "cpc s") auto
  then have "c_i s \<le> wanted argv" using d(7) by (auto simp: args_ok_def)
  ultimately show ?thesis by (simp add: irank_def)
qed

lemma cv_producer_rank:
  assumes i: "inv argv s" and p: "producer t s = Some s'"
  shows "irank argv s' < irank argv s"
proof -
  note d = cv_invD [OF i]
  have T: "t < threads argv" using d(2) cv_producer_frame(6) [OF p] unfolding fill_ok_def by (meson not_le)
  have "mpc s' = mpc s" using cv_producer_fill [OF d(2,1) p] by simp
  moreover from p have "15 * nput s - 15 * nput s' + p_rank (ppc s' t) + c_rank (cpc s') < p_rank (ppc s t) + c_rank (cpc s)"
  proof (cases rule: cv_producerE)
    case outside
    then have "nput s < nitems s" using d(2) unfolding fill_ok_def by (metis p_ok.simps(1))
    then show ?thesis using outside d(2) by (simp add: fill_ok_def)
  qed simp_all
  moreover have "tot p_rank (ppc s') (threads argv) = tot p_rank (ppc s) (threads argv) - p_rank (ppc s t) + p_rank (ppc s' t)"
    using cv_producer_frame(5) [OF p] tot_upd [OF T] by metis
  ultimately show ?thesis using cv_producer_frame(1) [OF p] by (simp add: irank_def)
qed

lemma cv_consumer_rank:
  assumes i: "inv argv s" and c: "consumer s = Some s'"
  shows "irank argv s' < irank argv s"
proof -
  note f = cv_consumer_frame [OF i c]
  from c have "9 * c_i s - 9 * c_i s' + c_rank (cpc s') < c_rank (cpc s)"
    by (cases rule: cv_consumerE) (use cv_item [OF i] in auto)
  then show ?thesis using f by (simp add: irank_def)
qed

lemma cv_main_rank:
  assumes i: "inv argv s" and j: "main argv ok s = Some s'"
  shows "irank argv s' < irank argv s"
proof -
  note d = cv_invD [OF i]
  have le: "created (threads argv) (mpc s) \<le> threads argv" "joined (threads argv) (mpc s) \<le> threads argv" using d(6) by (auto simp: main_ok_def)
  show ?thesis
  proof (cases "mpc s")
    case (M_create k)
    then have b: "int k < nthreads s \<longleftrightarrow> k < threads argv" "ppc s k = P_none" using cv_threads [OF d(7)] d(6) by (auto simp: main_ok_def)
    then show ?thesis using M_create j le by (auto simp: main_def irank_def)
  next
    case (M_join k)
    then show ?thesis using j le cv_threads [OF d(7), of k] by (auto simp: main_def irank_def split: if_splits producer_pc.splits)
  next
    case M_create_consumer
    then have "cpc s = C_none" "c_i s = 0" using d(5,6) by (auto simp: main_ok_def c_allowed_def)
    then show ?thesis using M_create_consumer j by (auto simp: main_def irank_def split: if_splits)
  next
    case M_join_consumer
    then show ?thesis using j by (auto simp: main_def irank_def split: consumer_pc.splits)
  qed (use j in \<open>auto simp: main_def irank_def\<close>)
qed

definition rank :: "string list \<Rightarrow> shared \<Rightarrow> nat" where "rank argv s = nat (irank argv s)"

fun cost :: "act \<Rightarrow> nat" where
  "cost Spurious = 4"
| "cost _ = 0"

lemma cv_rank_step:
  assumes i: "inv argv s" and j: "step argv a s = Some s'"
  shows "rank argv s' < rank argv s + cost a"
proof (cases "a = Spurious")
  case True
  then have s': "s' = s\<lparr>cpc := C_relock\<rparr>" "cpc s = C_sleep" using j by (auto split: if_splits)
  then have "irank argv s' = irank argv s + 3" by (simp add: irank_def)
  then show ?thesis using True cv_irank_nonneg [OF i] by (simp add: rank_def)
next
  case False
  then have "irank argv s' < irank argv s"
    using j cv_main_rank [OF i] cv_producer_rank [OF i] cv_consumer_rank [OF i] by (cases a) (auto split: if_splits)
  then show ?thesis using cv_irank_nonneg [OF cv_step_inv [OF i j]] by (simp add: rank_def)
qed

lemma cv_producer_moves:
  assumes "producer t s = None"
  shows "ppc s t \<in> {P_none, P_return} \<or> ppc s t = P_lock \<and> put_mutex s \<noteq> None \<or> ppc s t = P_lock_ready \<and> ready_mutex s \<noteq> None"
  using assms by (cases "ppc s t") (auto simp: producer_def)

text \<open>Whoever holds a mutex can move, so a mutex that is held for ever is impossible.\<close>

lemma cv_locks_free:
  assumes l: "lock_ok s" and p: "\<And>t. producer t s = None" and c: "consumer s = None"
  shows "put_mutex s = None" "ready_mutex s = None"
proof -
  have nr: "\<not> p_ready (ppc s t)" for t using cv_producer_moves [OF p, of t] by auto
  have "\<not> c_ready (cpc s)" using c by (cases "cpc s") (auto simp: consumer_def)
  then show r: "ready_mutex s = None" using l nr unfolding lock_ok_def by (metis option.exhaust who.exhaust)
  have "\<not> p_put (ppc s t)" for t using cv_producer_moves [OF p, of t] by auto
  then show "put_mutex s = None" using l unfolding lock_ok_def by (metis option.exhaust)
qed

lemma cv_moves:
  assumes i: "inv argv s" and e: "\<not> (exited (mpc s) \<or> threads argv = 0)"
  shows "\<exists>a\<in>good. \<exists>s'. step argv a s = Some s'"
proof (rule ccontr)
  note d = cv_invD [OF i]
  assume "\<not> ?thesis"
  then have none: "step argv a s = None" if "a \<in> good" for a using that by auto
  have p: "producer t s = None" and c: "consumer s = None" and m: "main argv True s = None" for t
    using none [of "Producer t"] none [of Consumer] none [of "Main True"] e by (auto simp: good_def)
  note free = cv_locks_free [OF d(1) p c]
  have ret: "ppc s t = P_none \<or> ppc s t = P_return" for t using cv_producer_moves [OF p, of t] free by auto
  have "mpc s = M_join_consumer"
  proof (cases "mpc s")
    case (M_join k)
    then show ?thesis using m ret [of k] by (auto simp: cv_main_join split: if_splits)
  qed (use m e in \<open>auto simp: main_def\<close>)
  moreover then have "cpc s \<noteq> C_none" "cpc s \<noteq> C_return" using m by (auto simp: cv_main_join)
  ultimately have sl: "cpc s = C_sleep" and all: "\<forall>t < threads argv. ppc s t = P_return"
    using c free d(6) by (cases "cpc s"; auto simp: consumer_def main_ok_def)+
  have "tot p_pending (ppc s) (threads argv) = 0" using all by (intro tot_zero) simp
  then have "c_i s = nput s" using d(3) sl by (simp add: ready_ok_def)
  moreover have "nitems s \<le> nput s" using d(2) all e unfolding fill_ok_def by (metis not_gr_zero p_ok.simps(4))
  moreover have "c_i s < nitems s" using d(5) sl by simp
  ultimately show False by simp
qed

interpretation mutex_prodcons3: funded_system "step argv" "start g" "inv argv" "rank argv"
  "\<lambda>s. exited (mpc s) \<or> threads argv = 0" good cost for argv g
proof unfold_locales
  show "t \<in> good \<Longrightarrow> cost t = 0" for t by (cases t) (auto simp: good_def)
qed (rule cv_start_inv cv_step_inv cv_rank_step cv_moves; assumption)+

section \<open>Properties\<close>

lemma cv_all_counted:
  assumes i: "inv argv s" and m: "mpc s = M_exit 0" and T: "0 < threads argv"
  shows "(\<Sum>k<threads argv. count s k) = wanted argv"
proof -
  note d = cv_invD [OF i]
  have p: "\<forall>t < threads argv. ppc s t = P_return" and n: "nitems s = min (atoi (argv ! 1)) MAXNITEMS"
    using d(6,7) m by (auto simp: main_ok_def args_ok_def)
  have "nitems s \<le> nput s" using d(2) p T unfolding fill_ok_def by (metis p_ok.simps(4))
  then have "nput s = wanted argv" using d(2) n by (auto simp: fill_ok_def wanted_def)
  moreover have "tot p_uncounted (ppc s) (threads argv) = 0" using p by (intro tot_zero) simp
  moreover have "tot (\<lambda>c. c) (live_count s) (threads argv) = (\<Sum>k<threads argv. count s k)"
    unfolding tot_def by (rule sum.cong; use p in \<open>simp add: live_count_def\<close>)
  ultimately show ?thesis using d(4) by (simp add: counts_ok_def)
qed

text \<open>
  C4. mutex\_prodcons3 with at least one producer, for every schedule, whichever \<open>pthread_create\<close> fails and
  with any number of spurious wakeups: the consumer never reports a wrong value; the length of a schedule is bounded by the
  items, the threads and the number of spurious wakeups in it; no wakeup is lost, that is, a state in which no thread can
  move without a spurious wakeup is one in which the process has ended, and from every state it can be reached; and at exit
  status 0 the printed counts add up to the number of items.
\<close>

theorem mutex_prodcons3_correct:
  assumes "run (step argv) sched (start g) = Some s" and "0 < threads argv"
  shows "(\<forall>i v. Mismatch i v \<notin> set (printed s)) \<and>
    int (length sched) \<le> 24 * wanted argv + 10 * int (threads argv) + 16 + 4 * int (count_list sched Spurious) \<and>
    (stuck good (step argv) s \<longrightarrow> exited (mpc s)) \<and>
    (\<exists>more s'. set more \<subseteq> good \<and> run (step argv) (sched @ more) (start g) = Some s' \<and> exited (mpc s')) \<and>
    (mpc s = M_exit 0 \<longrightarrow> printed s = map (\<lambda>k. Count k (count s k)) [0..<threads argv] \<and> (\<Sum>k<threads argv. count s k) = wanted argv)"
proof -
  have i: "inv argv s" by (rule mutex_prodcons3.run_inv [OF assms(1)])
  have "irank argv (start g) = 24 * wanted argv + 10 * int (threads argv) + 16" by (simp add: irank_def start_def)
  then have r: "int (rank argv (start g)) = 24 * wanted argv + 10 * int (threads argv) + 16"
    using cv_irank_nonneg [OF cv_start_inv, of argv g] by (simp add: rank_def)
  have "cost a = 4 * (if a = Spurious then 1 else 0)" for a by (cases a) simp_all
  then have "sum_list (map cost ts) = 4 * count_list ts Spurious" for ts by (induction ts) auto
  then have "int (sum_list (map cost sched)) = 4 * int (count_list sched Spurious)" by simp
  then have "int (length sched) \<le> 24 * wanted argv + 10 * int (threads argv) + 16 + 4 * int (count_list sched Spurious)"
    using mutex_prodcons3.run_paid [OF assms(1)] r by linarith
  moreover have "\<forall>i v. Mismatch i v \<notin> set (printed s)" "mpc s = M_exit 0 \<longrightarrow> printed s = map (\<lambda>k. Count k (count s k)) [0..<threads argv]"
    using cv_invD(8) [OF i] by (simp_all add: lines_ok_def reports_def)
  moreover have "\<exists>more s'. set more \<subseteq> good \<and> run (step argv) (sched @ more) (start g) = Some s' \<and> exited (mpc s')"
    using mutex_prodcons3.can_complete [OF assms(1)] assms(2) by auto
  ultimately show ?thesis
    using mutex_prodcons3.stuck_ended [OF assms(1)] cv_all_counted [OF i _ assms(2)] assms(2) by auto
qed

text \<open>The consumer sleeps before the first item, is woken in vain once, sleeps again and is then signalled.\<close>

definition woken_argv :: "string list" where "woken_argv = [''prodcons3'', ''1'', ''1'']"

definition woken_run :: "act list" where
  "woken_run = replicate 4 (Main True) @ replicate 4 Consumer @ [Spurious] @ replicate 3 Consumer @ replicate 15 (Producer 0)
     @ replicate 7 Consumer @ replicate 3 (Main True)"

theorem mutex_prodcons3_correct_witness:
  "\<exists>s. run (step woken_argv) woken_run (start (\<lambda>_. 7)) = Some s \<and>
     mpc s = M_exit 0 \<and> printed s = [Count 0 (count s 0)] \<and> count s 0 = 1"
proof -
  have "atoi ''1'' = 1" by code_simp
  then have "map_option mpc (run (step woken_argv) woken_run (start (\<lambda>_. 7))) = Some (M_exit 0)"
    by (simp add: woken_run_def woken_argv_def eval_nat_numeral start_def main_def producer_def consumer_def MAXNTHREADS_def MAXNITEMS_def
      mutex_lock_def mutex_unlock_def cond_signal_def del: mutex_lock_Some mutex_lock_None)
  then obtain s where s: "run (step woken_argv) woken_run (start (\<lambda>_. 7)) = Some s" "mpc s = M_exit 0" by auto
  have e: "threads woken_argv = 1" "wanted woken_argv = 1" by code_simp+
  from mutex_prodcons3_correct [OF s(1)] s(2) have "printed s = map (\<lambda>k. Count k (count s k)) [0..<1] \<and> (\<Sum>k<1. count s k) = 1" by (simp add: e)
  then show ?thesis using s by simp
qed

end
