(* ===== verification/Multi_Buffer.thy ===== *)
theory Multi_Buffer
  imports Posix_Sync "HOL-Library.Sublist"
begin

text \<open>
  Copying a file with two threads and eight buffers, \<^verbatim>\<open>src/ipc/src/pxsem/sem_multibuffer.c\<close>. The producer
  reads into the buffers, the consumer writes them to the standard output. A buffer is the bytes that its
  count says. \<open>input\<close> has the answers that \<open>read\<close> is going to give, \<open>None\<close> a failure; when they are used up, \<open>read\<close>
  reports the end of the file. \<open>reads\<close> is what \<open>read\<close> delivered so far, \<open>writes\<close> the chunks that \<open>write\<close> was asked
  to write and \<open>taken\<close> what it took of each: the program does not look at its result, so a short or a failed
  \<open>write\<close> loses the rest of the chunk.
\<close>

section \<open>Model\<close>

definition NBUFF :: nat where "NBUFF = 8"
definition BUFFSIZE :: nat where "BUFFSIZE = 1024"

datatype main_pc = M_args | M_open | M_init nat | M_create_producer | M_create_consumer | M_join_producer | M_join_consumer
  | M_destroy nat | M_exit int

datatype producer_pc = P_none | P_wait_nempty | P_wait_mutex | P_post_mutex | P_read | P_inc | P_post | P_post_eof | P_return

datatype consumer_pc = C_none | C_wait_nstored | C_wait_mutex | C_post_mutex | C_test | C_write | C_inc | C_post | C_return

record shared =
  buff :: "nat \<Rightarrow> string"
  mutex :: nat
  nempty :: nat
  nstored :: nat
  input :: "string option list"
  reads :: "string list"
  writes :: "string list"
  taken :: "string list"
  p_i :: nat
  c_i :: nat
  mpc :: main_pc
  ppc :: producer_pc
  cpc :: consumer_pc

definition start :: "string option list \<Rightarrow> shared" where
  "start xs = \<lparr>buff = (\<lambda>_. []), mutex = 0, nempty = 0, nstored = 0, input = xs, reads = [], writes = [], taken = [], p_i = 0, c_i = 0,
     mpc = M_args, ppc = P_none, cpc = C_none\<rparr>"

text \<open>\<open>if(++i >= NBUFF) i = 0\<close>.\<close>

definition advance :: "nat \<Rightarrow> nat" where
  "advance i = (if i + 1 \<ge> NBUFF then 0 else i + 1)"

definition read_chunk :: "shared \<Rightarrow> shared" where
  "read_chunk s = (case input s of
     [] \<Rightarrow> s\<lparr>buff := (buff s)(p_i s := []), reads := reads s @ [[]], ppc := P_post_eof\<rparr>
   | None # _ \<Rightarrow> s\<lparr>mpc := M_exit 1\<rparr>
   | Some bs # xs \<Rightarrow> let chunk = take BUFFSIZE bs in
       s\<lparr>buff := (buff s)(p_i s := chunk), reads := reads s @ [chunk], input := xs, ppc := (if chunk = [] then P_post_eof else P_inc)\<rparr>)"

definition producer :: "shared \<Rightarrow> shared option" where
  "producer s = (case ppc s of
     P_wait_nempty \<Rightarrow> map_option (\<lambda>v. s\<lparr>nempty := v, ppc := P_wait_mutex\<rparr>) (sem_wait (nempty s))
   | P_wait_mutex \<Rightarrow> map_option (\<lambda>v. s\<lparr>mutex := v, ppc := P_post_mutex\<rparr>) (sem_wait (mutex s))
   | P_post_mutex \<Rightarrow> Some (s\<lparr>mutex := sem_post (mutex s), ppc := P_read\<rparr>)
   | P_read \<Rightarrow> Some (read_chunk s)
   | P_inc \<Rightarrow> Some (s\<lparr>p_i := advance (p_i s), ppc := P_post\<rparr>)
   | P_post \<Rightarrow> Some (s\<lparr>nstored := sem_post (nstored s), ppc := P_wait_nempty\<rparr>)
   | P_post_eof \<Rightarrow> Some (s\<lparr>nstored := sem_post (nstored s), ppc := P_return\<rparr>)
   | P_none \<Rightarrow> None
   | P_return \<Rightarrow> None)"

text \<open>\<open>n\<close> is how many bytes a \<open>write\<close> in this step takes, if it is asked for as many; none when it fails.\<close>

definition consumer :: "nat \<Rightarrow> shared \<Rightarrow> shared option" where
  "consumer n s = (case cpc s of
     C_wait_nstored \<Rightarrow> map_option (\<lambda>v. s\<lparr>nstored := v, cpc := C_wait_mutex\<rparr>) (sem_wait (nstored s))
   | C_wait_mutex \<Rightarrow> map_option (\<lambda>v. s\<lparr>mutex := v, cpc := C_post_mutex\<rparr>) (sem_wait (mutex s))
   | C_post_mutex \<Rightarrow> Some (s\<lparr>mutex := sem_post (mutex s), cpc := C_test\<rparr>)
   | C_test \<Rightarrow> Some (if buff s (c_i s) = [] then s\<lparr>cpc := C_return\<rparr> else s\<lparr>cpc := C_write\<rparr>)
   | C_write \<Rightarrow> Some (s\<lparr>writes := writes s @ [buff s (c_i s)], taken := taken s @ [take n (buff s (c_i s))], cpc := C_inc\<rparr>)
   | C_inc \<Rightarrow> Some (s\<lparr>c_i := advance (c_i s), cpc := C_post\<rparr>)
   | C_post \<Rightarrow> Some (s\<lparr>nempty := sem_post (nempty s), cpc := C_wait_nstored\<rparr>)
   | C_none \<Rightarrow> None
   | C_return \<Rightarrow> None)"

text \<open>\<open>sem_init\<close> of the three semaphores in order.\<close>

definition sem_init :: "nat \<Rightarrow> shared \<Rightarrow> shared" where
  "sem_init j s = (if j = 0 then s\<lparr>mutex := 1\<rparr> else if j = 1 then s\<lparr>nempty := NBUFF\<rparr> else s\<lparr>nstored := 0\<rparr>)"

definition die :: "shared \<Rightarrow> shared" where
  "die s = s\<lparr>mpc := M_exit 1\<rparr>"

text \<open>\<open>ok\<close> is whether the call of this step succeeds; leaving \<open>main\<close> ends the threads.\<close>

definition main :: "string list \<Rightarrow> bool \<Rightarrow> shared \<Rightarrow> shared option" where
  "main argv ok s = (case mpc s of
     M_args \<Rightarrow> Some (if length argv \<noteq> 2 then die s else s\<lparr>mpc := M_open\<rparr>)
   | M_open \<Rightarrow> Some (if ok then s\<lparr>mpc := M_init 0\<rparr> else die s)
   | M_init j \<Rightarrow> Some (if ok then (sem_init j s)\<lparr>mpc := (if j < 2 then M_init (j + 1) else M_create_producer)\<rparr> else die s)
   | M_create_producer \<Rightarrow> Some (if ok then s\<lparr>ppc := P_wait_nempty, mpc := M_create_consumer\<rparr> else die s)
   | M_create_consumer \<Rightarrow> Some (if ok then s\<lparr>cpc := C_wait_nstored, mpc := M_join_producer\<rparr> else die s)
   | M_join_producer \<Rightarrow> if \<not> ok then Some (die s) else if ppc s = P_return then Some (s\<lparr>mpc := M_join_consumer\<rparr>) else None
   | M_join_consumer \<Rightarrow> if \<not> ok then Some (die s) else if cpc s = C_return then Some (s\<lparr>mpc := M_destroy 0\<rparr>) else None
   | M_destroy j \<Rightarrow> Some (if ok then s\<lparr>mpc := (if j < 2 then M_destroy (j + 1) else M_exit 0)\<rparr> else die s)
   | M_exit c \<Rightarrow> None)"

datatype act = Main bool | Producer | Consumer nat

text \<open>The actions in which no call fails and \<open>write\<close> takes all it is given.\<close>

definition good :: "act set" where
  "good = {Main True, Producer, Consumer BUFFSIZE}"

fun exited :: "main_pc \<Rightarrow> bool" where
  "exited (M_exit _) = True"
| "exited _ = False"

fun step :: "string list \<Rightarrow> act \<Rightarrow> shared \<Rightarrow> shared option" where
  "step argv (Main ok) s = main argv ok s"
| "step argv Producer s = (if exited (mpc s) then None else producer s)"
| "step argv (Consumer n) s = (if exited (mpc s) then None else consumer n s)"

section \<open>Invariant\<close>

text \<open>Whether a thread holds the mutex, has passed a wait or owes a post.\<close>

definition p_mutex :: "producer_pc \<Rightarrow> nat" where "p_mutex pc = (if pc = P_post_mutex then 1 else 0)"
definition c_mutex :: "consumer_pc \<Rightarrow> nat" where "c_mutex pc = (if pc = C_post_mutex then 1 else 0)"
definition p_slot :: "producer_pc \<Rightarrow> nat" where "p_slot pc = (if pc \<in> {P_wait_mutex, P_post_mutex, P_read} then 1 else 0)"
definition p_owes :: "producer_pc \<Rightarrow> nat" where "p_owes pc = (if pc \<in> {P_inc, P_post, P_post_eof} then 1 else 0)"
definition c_item :: "consumer_pc \<Rightarrow> nat" where "c_item pc = (if pc \<in> {C_wait_mutex, C_post_mutex, C_test, C_write, C_return} then 1 else 0)"
definition c_owes :: "consumer_pc \<Rightarrow> nat" where "c_owes pc = (if pc \<in> {C_inc, C_post} then 1 else 0)"

text \<open>The main program up to which the semaphores are not ready.\<close>

fun initialised :: "main_pc \<Rightarrow> bool" where
  "initialised (M_create_producer) = True"
| "initialised (M_create_consumer) = True"
| "initialised (M_join_producer) = True"
| "initialised (M_join_consumer) = True"
| "initialised (M_destroy _) = True"
| "initialised _ = False"

definition sems_ok :: "shared \<Rightarrow> bool" where
  "sems_ok s \<longleftrightarrow> mutex s + p_mutex (ppc s) + c_mutex (cpc s) = 1 \<and>
     nempty s + p_slot (ppc s) + length (reads s) + c_owes (cpc s) = NBUFF + length (writes s) \<and>
     nstored s + p_owes (ppc s) + c_item (cpc s) + length (writes s) = length (reads s)"

definition index_ok :: "shared \<Rightarrow> bool" where
  "index_ok s \<longleftrightarrow> (p_i s = (if ppc s \<in> {P_inc, P_post_eof, P_return} then length (reads s) - 1 else length (reads s)) mod NBUFF) \<and>
     (c_i s = (if cpc s = C_inc then length (writes s) - 1 else length (writes s)) mod NBUFF)"

definition data_ok :: "shared \<Rightarrow> bool" where
  "data_ok s \<longleftrightarrow> (\<forall>k. length (writes s) \<le> k \<and> k < length (reads s) \<longrightarrow> buff s (k mod NBUFF) = reads s ! k) \<and>
     writes s = take (length (writes s)) (reads s)"

text \<open>The end of the file is the last thing read, and the consumer stops there.\<close>

definition eof_ok :: "shared \<Rightarrow> bool" where
  "eof_ok s \<longleftrightarrow> (\<forall>k < length (reads s). reads s ! k = [] \<longleftrightarrow> ppc s \<in> {P_post_eof, P_return} \<and> k = length (reads s) - 1) \<and>
     (ppc s \<in> {P_post_eof, P_return, P_inc} \<longrightarrow> reads s \<noteq> []) \<and>
     (cpc s = C_return \<longrightarrow> length (writes s) < length (reads s) \<and> reads s ! length (writes s) = []) \<and>
     (cpc s = C_write \<longrightarrow> length (writes s) < length (reads s) \<and> reads s ! length (writes s) \<noteq> []) \<and>
     (cpc s = C_inc \<longrightarrow> writes s \<noteq> []) \<and> (\<forall>k < length (writes s). reads s ! k \<noteq> [])"

definition threads_ok :: "shared \<Rightarrow> bool" where
  "threads_ok s \<longleftrightarrow> (case mpc s of
     M_create_producer \<Rightarrow> ppc s = P_none \<and> cpc s = C_none
   | M_create_consumer \<Rightarrow> ppc s \<noteq> P_none \<and> cpc s = C_none
   | M_join_producer \<Rightarrow> ppc s \<noteq> P_none \<and> cpc s \<noteq> C_none
   | M_join_consumer \<Rightarrow> ppc s = P_return \<and> cpc s \<noteq> C_none
   | M_destroy j \<Rightarrow> ppc s = P_return \<and> cpc s = C_return \<and> j \<le> 2
   | M_exit c \<Rightarrow> c = 0 \<and> ppc s = P_return \<and> cpc s = C_return \<or> c = 1
   | M_init j \<Rightarrow> ppc s = P_none \<and> cpc s = C_none \<and> j \<le> 2 \<and> reads s = [] \<and> writes s = [] \<and> p_i s = 0 \<and> c_i s = 0 \<and>
       mutex s = (if j > 0 then 1 else 0) \<and> nempty s = (if j > 1 then NBUFF else 0) \<and> nstored s = 0
   | _ \<Rightarrow> ppc s = P_none \<and> cpc s = C_none \<and> reads s = [] \<and> writes s = [] \<and> p_i s = 0 \<and> c_i s = 0 \<and> mutex s = 0 \<and> nempty s = 0 \<and> nstored s = 0)"

definition inv :: "shared \<Rightarrow> bool" where
  "inv s \<longleftrightarrow> threads_ok s \<and> (initialised (mpc s) \<or> mpc s = M_exit 0 \<longrightarrow> sems_ok s \<and> index_ok s) \<and> data_ok s \<and> eof_ok s"

lemmas weights = p_mutex_def c_mutex_def p_slot_def p_owes_def c_item_def c_owes_def

lemma producerE:
  assumes "producer s = Some s'"
  obtains (wait_nempty) v where "ppc s = P_wait_nempty" "nempty s = Suc v" "s' = s\<lparr>nempty := v, ppc := P_wait_mutex\<rparr>"
  | (wait_mutex) v where "ppc s = P_wait_mutex" "mutex s = Suc v" "s' = s\<lparr>mutex := v, ppc := P_post_mutex\<rparr>"
  | (post_mutex) "ppc s = P_post_mutex" "s' = s\<lparr>mutex := Suc (mutex s), ppc := P_read\<rparr>"
  | (failed) "ppc s = P_read" "s' = s\<lparr>mpc := M_exit 1\<rparr>"
  | (chunk) b xs where "ppc s = P_read" "b \<noteq> []"
      "s' = s\<lparr>buff := (buff s)(p_i s := b), reads := reads s @ [b], input := xs, ppc := P_inc\<rparr>" "length (input s) = Suc (length xs)"
  | (eof) xs where "ppc s = P_read"
      "s' = s\<lparr>buff := (buff s)(p_i s := []), reads := reads s @ [[]], input := xs, ppc := P_post_eof\<rparr>" "length xs \<le> length (input s)"
  | (inc) "ppc s = P_inc" "s' = s\<lparr>p_i := advance (p_i s), ppc := P_post\<rparr>"
  | (post) "ppc s = P_post" "s' = s\<lparr>nstored := Suc (nstored s), ppc := P_wait_nempty\<rparr>"
  | (post_eof) "ppc s = P_post_eof" "s' = s\<lparr>nstored := Suc (nstored s), ppc := P_return\<rparr>"
proof (cases "ppc s")
  case P_read
  then have s': "s' = read_chunk s" using assms by (simp add: producer_def)
  show ?thesis
  proof (cases "input s")
    case Nil
    then show ?thesis using that(6) [of "[]"] P_read s' by (simp add: read_chunk_def)
  next
    case (Cons a xs)
    show ?thesis
    proof (cases a)
      case None
      then show ?thesis using that(4) Cons P_read s' by (simp add: read_chunk_def)
    next
      case (Some bs)
      then show ?thesis
        using that(5) [of "take BUFFSIZE bs" xs] that(6) [of xs] Cons P_read s'
        by (cases "take BUFFSIZE bs = []") (simp_all add: read_chunk_def Let_def)
    qed
  qed
next
  case P_wait_nempty
  then show ?thesis using assms that(1) by (auto simp: producer_def)
next
  case P_wait_mutex
  then show ?thesis using assms that(2) by (auto simp: producer_def)
next
  case P_post_mutex
  then show ?thesis using assms that(3) by (simp add: producer_def sem_post_def)
next
  case P_inc
  then show ?thesis using assms that(7) by (simp add: producer_def)
next
  case P_post
  then show ?thesis using assms that(8) by (simp add: producer_def sem_post_def)
next
  case P_post_eof
  then show ?thesis using assms that(9) by (simp add: producer_def sem_post_def)
next
  case P_none
  then have False using assms by (simp add: producer_def)
  then show ?thesis ..
next
  case P_return
  then have False using assms by (simp add: producer_def)
  then show ?thesis ..
qed

lemma consumerE:
  assumes "consumer n s = Some s'"
  obtains (wait_nstored) v where "cpc s = C_wait_nstored" "nstored s = Suc v" "s' = s\<lparr>nstored := v, cpc := C_wait_mutex\<rparr>"
  | (wait_mutex) v where "cpc s = C_wait_mutex" "mutex s = Suc v" "s' = s\<lparr>mutex := v, cpc := C_post_mutex\<rparr>"
  | (post_mutex) "cpc s = C_post_mutex" "s' = s\<lparr>mutex := Suc (mutex s), cpc := C_test\<rparr>"
  | (eof) "cpc s = C_test" "buff s (c_i s) = []" "s' = s\<lparr>cpc := C_return\<rparr>"
  | (item) "cpc s = C_test" "buff s (c_i s) \<noteq> []" "s' = s\<lparr>cpc := C_write\<rparr>"
  | (write_item) "cpc s = C_write" "s' = s\<lparr>writes := writes s @ [buff s (c_i s)], taken := taken s @ [take n (buff s (c_i s))], cpc := C_inc\<rparr>"
  | (inc) "cpc s = C_inc" "s' = s\<lparr>c_i := advance (c_i s), cpc := C_post\<rparr>"
  | (post) "cpc s = C_post" "s' = s\<lparr>nempty := Suc (nempty s), cpc := C_wait_nstored\<rparr>"
proof (cases "cpc s")
  case C_test
  then show ?thesis using assms that(4,5) by (cases "buff s (c_i s) = []") (simp_all add: consumer_def)
next
  case C_wait_nstored
  then show ?thesis using assms that(1) by (auto simp: consumer_def)
next
  case C_wait_mutex
  then show ?thesis using assms that(2) by (auto simp: consumer_def)
next
  case C_post_mutex
  then show ?thesis using assms that(3) by (simp add: consumer_def sem_post_def)
next
  case C_write
  then show ?thesis using assms that(6) by (simp add: consumer_def)
next
  case C_inc
  then show ?thesis using assms that(7) by (simp add: consumer_def)
next
  case C_post
  then show ?thesis using assms that(8) by (simp add: consumer_def sem_post_def)
next
  case C_none
  then have False using assms by (simp add: consumer_def)
  then show ?thesis ..
next
  case C_return
  then have False using assms by (simp add: consumer_def)
  then show ?thesis ..
qed

lemma producer_sems: "sems_ok s \<Longrightarrow> producer s = Some s' \<Longrightarrow> sems_ok s'"
  by (elim producerE) (auto simp: sems_ok_def weights)

lemma consumer_sems: "sems_ok s \<Longrightarrow> consumer n s = Some s' \<Longrightarrow> sems_ok s'"
  by (elim consumerE) (auto simp: sems_ok_def weights)

lemma advance_mod: "advance (n mod NBUFF) = (n + 1) mod NBUFF"
  using mod_less_divisor [of 8 n] by (auto simp: advance_def NBUFF_def mod_Suc)

lemma producer_index: "index_ok s \<Longrightarrow> eof_ok s \<Longrightarrow> producer s = Some s' \<Longrightarrow> index_ok s'"
  by (elim producerE) (auto simp: index_ok_def eof_ok_def advance_mod)

lemma consumer_index: "index_ok s \<Longrightarrow> eof_ok s \<Longrightarrow> consumer n s = Some s' \<Longrightarrow> index_ok s'"
  by (elim consumerE) (auto simp: index_ok_def eof_ok_def advance_mod)

text \<open>The buffer being filled is none of those still to be written.\<close>

lemma slot_free:
  assumes "sems_ok s" and "ppc s = P_read" and "length (writes s) \<le> k" and "k < length (reads s)"
  shows "k mod NBUFF \<noteq> length (reads s) mod NBUFF"
proof
  assume "k mod NBUFF = length (reads s) mod NBUFF"
  moreover have "length (reads s) - k < NBUFF" "k < length (reads s)" using assms by (auto simp: sems_ok_def weights)
  ultimately show False by (metis mod_eq_dvd_iff_nat less_imp_le nat_dvd_not_less zero_less_diff)
qed

lemma producer_data:
  assumes "data_ok s" "sems_ok s" "index_ok s" "producer s = Some s'"
  shows "data_ok s'"
proof -
  have *: "data_ok (s\<lparr>buff := (buff s)(p_i s := b), reads := reads s @ [b], input := xs, ppc := pc\<rparr>)" if "ppc s = P_read" for b xs pc
    using assms(1-3) that slot_free [OF assms(2) that]
    by (auto simp: data_ok_def index_ok_def sems_ok_def nth_append less_Suc_eq)
  from assms(4) show ?thesis
    by (cases rule: producerE) (use assms(1) * in \<open>auto simp: data_ok_def\<close>)
qed

lemma pending_item: "sems_ok s \<Longrightarrow> cpc s \<in> {C_test, C_write} \<Longrightarrow> length (writes s) < length (reads s)"
  by (auto simp: sems_ok_def weights)

lemma consumer_data:
  assumes "data_ok s" "sems_ok s" "index_ok s" "consumer n s = Some s'"
  shows "data_ok s'"
proof -
  have *: "data_ok (s\<lparr>writes := writes s @ [buff s (c_i s)], taken := taken s @ [take n (buff s (c_i s))], cpc := C_inc\<rparr>)" if "cpc s = C_write"
    using assms(1,3) that pending_item [OF assms(2)] by (auto simp: data_ok_def index_ok_def take_Suc_conv_app_nth min_def)
  from assms(4) show ?thesis
  proof (cases rule: consumerE)
    case write_item
    then show ?thesis using * by simp
  qed (use assms(1) in \<open>auto simp: data_ok_def\<close>)
qed

lemma producer_eof:
  assumes "eof_ok s" "sems_ok s" "producer s = Some s'"
  shows "eof_ok s'"
proof -
  have le: "length (writes s) \<le> length (reads s)" using assms(2) by (simp add: sems_ok_def)
  from assms(3) show ?thesis
    by (cases rule: producerE) (use assms(1) le in \<open>auto simp: eof_ok_def nth_append less_Suc_eq\<close>)
qed

lemma consumer_eof:
  assumes "eof_ok s" "data_ok s" "sems_ok s" "index_ok s" "consumer n s = Some s'"
  shows "eof_ok s'"
proof -
  have "cpc s = C_test \<Longrightarrow> buff s (c_i s) = reads s ! length (writes s) \<and> length (writes s) < length (reads s)"
    using assms(2,4) pending_item [OF assms(3)] by (auto simp: data_ok_def index_ok_def)
  with assms(5) show ?thesis
    by (cases rule: consumerE) (use assms(1) in \<open>auto simp: eof_ok_def\<close>)
qed

lemma thread_started: "threads_ok s \<Longrightarrow> \<not> exited (mpc s) \<Longrightarrow> ppc s \<noteq> P_none \<or> cpc s \<noteq> C_none \<Longrightarrow> initialised (mpc s)"
  by (cases "mpc s") (auto simp: threads_ok_def)

lemma producer_threads:
  assumes "threads_ok s" "\<not> exited (mpc s)" "producer s = Some s'"
  shows "threads_ok s' \<and> ppc s \<noteq> P_none \<and> (mpc s' = mpc s \<or> mpc s' = M_exit 1)"
proof -
  have n: "ppc s \<noteq> P_none" "ppc s \<noteq> P_return" using assms(3) by (auto simp: producer_def)
  then have m: "mpc s = M_create_consumer \<or> mpc s = M_join_producer"
    using assms(1,2) by (cases "mpc s") (auto simp: threads_ok_def)
  from assms(3) show ?thesis
    by (cases rule: producerE) (use m n assms(1) in \<open>auto simp: threads_ok_def\<close>)
qed

lemma consumer_threads:
  assumes "threads_ok s" "\<not> exited (mpc s)" "consumer n s = Some s'"
  shows "threads_ok s' \<and> cpc s \<noteq> C_none \<and> mpc s' = mpc s"
proof -
  have n: "cpc s \<noteq> C_none" "cpc s \<noteq> C_return" using assms(3) by (auto simp: consumer_def)
  then have m: "mpc s = M_join_consumer \<or> mpc s = M_join_producer"
    using assms(1,2) by (cases "mpc s") (auto simp: threads_ok_def)
  from assms(3) show ?thesis
    by (cases rule: consumerE) (use m n assms(1) in \<open>auto simp: threads_ok_def\<close>)
qed

lemma mb_producer_inv:
  assumes "inv s" "\<not> exited (mpc s)" "producer s = Some s'"
  shows "inv s'"
proof -
  note t = producer_threads [OF _ assms(2,3)]
  have i: "initialised (mpc s)" using assms(1,2) t thread_started [of s] by (auto simp: inv_def)
  then have "sems_ok s" "index_ok s" "data_ok s" "eof_ok s" using assms(1) by (auto simp: inv_def)
  then show ?thesis
    using t assms(1,3) producer_sems producer_index producer_data producer_eof unfolding inv_def by blast
qed

lemma mb_consumer_inv:
  assumes "inv s" "\<not> exited (mpc s)" "consumer n s = Some s'"
  shows "inv s'"
proof -
  note t = consumer_threads [OF _ assms(2,3)]
  have i: "initialised (mpc s)" using assms(1,2) t thread_started [of s] by (auto simp: inv_def)
  then have "sems_ok s" "index_ok s" "data_ok s" "eof_ok s" using assms(1) by (auto simp: inv_def)
  then show ?thesis
    using t assms(1,3) consumer_sems consumer_index consumer_data consumer_eof unfolding inv_def by blast
qed

lemma mb_die_inv: "inv s \<Longrightarrow> inv (die s)"
  by (auto simp: inv_def die_def threads_ok_def data_ok_def eof_ok_def)

lemma eof_cong:
  assumes "reads s' = reads s" "writes s' = writes s" "ppc s' = ppc s \<or> ppc s = P_none \<and> ppc s' = P_wait_nempty"
    "cpc s' = cpc s \<or> cpc s = C_none \<and> cpc s' = C_wait_nstored"
  shows "eof_ok s' = eof_ok s"
  unfolding eof_ok_def assms(1,2) using assms(3,4) by (elim disjE conjE) (simp_all only:, simp_all)

lemma goto_inv:
  assumes "inv s" "initialised (mpc s) \<or> sems_ok s \<and> index_ok s" "threads_ok (s\<lparr>mpc := pc, ppc := p, cpc := c\<rparr>)"
    "p = ppc s \<or> ppc s = P_none \<and> p = P_wait_nempty" "c = cpc s \<or> cpc s = C_none \<and> c = C_wait_nstored"
  shows "inv (s\<lparr>mpc := pc, ppc := p, cpc := c\<rparr>)"
proof -
  have "sems_ok s \<and> index_ok s" using assms(1,2) by (auto simp: inv_def)
  then have "sems_ok (s\<lparr>mpc := pc, ppc := p, cpc := c\<rparr>) \<and> index_ok (s\<lparr>mpc := pc, ppc := p, cpc := c\<rparr>)"
    using assms(4,5) by (elim disjE conjE) (simp_all add: sems_ok_def index_ok_def weights)
  moreover have "data_ok (s\<lparr>mpc := pc, ppc := p, cpc := c\<rparr>)" using assms(1) by (simp add: inv_def data_ok_def)
  moreover have "eof_ok s" using assms(1) by (simp add: inv_def)
  then have "eof_ok (s\<lparr>mpc := pc, ppc := p, cpc := c\<rparr>)"
    using assms(4,5) by (subst eof_cong [of _ s]) auto
  ultimately show ?thesis using assms(3) by (simp add: inv_def)
qed

lemma mb_main_inv:
  assumes inv: "inv s" and step: "main argv ok s = Some s'"
  shows "inv s'"
proof (cases "s' = die s")
  case True
  then show ?thesis using mb_die_inv [OF inv] by simp
next
  case nd: False
  have th: "threads_ok s" using inv by (simp add: inv_def)
  show ?thesis
  proof (cases "mpc s")
    case (M_init j)
    then have s': "s' = (sem_init j s)\<lparr>mpc := (if j < 2 then M_init (j + 1) else M_create_producer)\<rparr>"
      using step nd by (auto simp: main_def split: if_splits)
    have z: "ppc s = P_none" "cpc s = C_none" "j \<le> 2" "reads s = []" "writes s = []" "p_i s = 0" "c_i s = 0"
       "mutex s = (if j > 0 then 1 else 0)" "nempty s = (if j > 1 then NBUFF else 0)" "nstored s = 0"
      using th M_init by (simp_all add: threads_ok_def)
    consider "j = 0" | "j = 1" | "j = 2" using z(3) by linarith
    then show ?thesis
      by cases (use z in \<open>simp_all add: s' sem_init_def inv_def threads_ok_def data_ok_def eof_ok_def sems_ok_def index_ok_def weights\<close>)
  next
    case M_create_producer
    then have s': "s' = s\<lparr>mpc := M_create_consumer, ppc := P_wait_nempty, cpc := cpc s\<rparr>" using step nd by (auto simp: main_def split: if_splits)
    show ?thesis unfolding s' by (rule goto_inv [OF inv]) (use M_create_producer th in \<open>auto simp: threads_ok_def\<close>)
  next
    case M_create_consumer
    then have s': "s' = s\<lparr>mpc := M_join_producer, ppc := ppc s, cpc := C_wait_nstored\<rparr>" using step nd by (auto simp: main_def split: if_splits)
    show ?thesis unfolding s' by (rule goto_inv [OF inv]) (use M_create_consumer th in \<open>auto simp: threads_ok_def\<close>)
  next
    case M_join_producer
    then have s': "s' = s\<lparr>mpc := M_join_consumer, ppc := ppc s, cpc := cpc s\<rparr>" and x: "ppc s = P_return" using step nd by (auto simp: main_def split: if_splits)
    show ?thesis unfolding s' by (rule goto_inv [OF inv]) (use M_join_producer x th in \<open>auto simp: threads_ok_def\<close>)
  next
    case M_join_consumer
    then have s': "s' = s\<lparr>mpc := M_destroy 0, ppc := ppc s, cpc := cpc s\<rparr>" and x: "cpc s = C_return" using step nd by (auto simp: main_def split: if_splits)
    show ?thesis unfolding s' by (rule goto_inv [OF inv]) (use M_join_consumer x th in \<open>auto simp: threads_ok_def\<close>)
  next
    case (M_destroy j)
    then have s': "s' = s\<lparr>mpc := (if j < 2 then M_destroy (j + 1) else M_exit 0), ppc := ppc s, cpc := cpc s\<rparr>" using step nd by (auto simp: main_def split: if_splits)
    show ?thesis unfolding s' by (rule goto_inv [OF inv]) (use M_destroy th in \<open>auto simp: threads_ok_def\<close>)
  qed (use step nd inv in \<open>auto simp: main_def inv_def threads_ok_def data_ok_def eof_ok_def split: if_splits\<close>)
qed

lemma mb_start_inv: "inv (start xs)"
  by (simp add: inv_def start_def threads_ok_def data_ok_def eof_ok_def)

lemma mb_step_inv: "inv s \<Longrightarrow> step argv a s = Some s' \<Longrightarrow> inv s'"
  by (cases a) (auto intro: mb_main_inv mb_producer_inv mb_consumer_inv split: if_splits)

section \<open>Termination and progress\<close>

definition ahead :: "shared \<Rightarrow> nat" where
  "ahead s = (if ppc s \<in> {P_post_eof, P_return} then 0 else length (input s) + 1)"

fun p_rank :: "producer_pc \<Rightarrow> nat" where
  "p_rank P_none = 7" | "p_rank P_wait_nempty = 6" | "p_rank P_wait_mutex = 5" | "p_rank P_post_mutex = 4" | "p_rank P_read = 3"
| "p_rank P_inc = 8" | "p_rank P_post = 7" | "p_rank P_post_eof = 1" | "p_rank P_return = 0"

fun c_rank :: "consumer_pc \<Rightarrow> nat" where
  "c_rank C_none = 7" | "c_rank C_wait_nstored = 6" | "c_rank C_wait_mutex = 5" | "c_rank C_post_mutex = 4" | "c_rank C_test = 3"
| "c_rank C_write = 2" | "c_rank C_inc = 8" | "c_rank C_post = 7" | "c_rank C_return = 0"

fun m_rank :: "main_pc \<Rightarrow> nat" where
  "m_rank M_args = 15" | "m_rank M_open = 14" | "m_rank (M_init j) = 13 - j" | "m_rank M_create_producer = 10" | "m_rank M_create_consumer = 9"
| "m_rank M_join_producer = 8" | "m_rank M_join_consumer = 7" | "m_rank (M_destroy j) = 6 - j" | "m_rank (M_exit c) = 0"

definition rank :: "shared \<Rightarrow> nat" where
  "rank s = m_rank (mpc s) + (10 * ahead s + p_rank (ppc s)) + (10 * (length (reads s) + ahead s - length (writes s)) + c_rank (cpc s))"

lemma inv_written: "inv s \<Longrightarrow> length (writes s) \<le> length (reads s)"
  unfolding inv_def data_ok_def by (metis length_take min.cobounded1)

lemma m_rank_pos: "threads_ok s \<Longrightarrow> \<not> exited (mpc s) \<Longrightarrow> 0 < m_rank (mpc s)"
  by (cases "mpc s") (auto simp: threads_ok_def)

lemma mb_producer_rank:
  assumes "producer s = Some s'" and "inv s" and "\<not> exited (mpc s)"
  shows "rank s' < rank s"
proof -
  have m: "0 < m_rank (mpc s)" using assms(2,3) m_rank_pos by (simp add: inv_def)
  show ?thesis using assms(1)
    by (cases rule: producerE) (use m inv_written [OF assms(2)] in \<open>auto simp: rank_def ahead_def\<close>)
qed

lemma mb_consumer_rank:
  assumes "consumer n s = Some s'" and "inv s" and "\<not> exited (mpc s)"
  shows "rank s' < rank s"
proof -
  have w: "cpc s = C_write \<Longrightarrow> length (writes s) < length (reads s)" using assms(2) by (simp add: inv_def eof_ok_def)
  from assms(1) show ?thesis
    by (cases rule: consumerE) (use w in \<open>auto simp: rank_def ahead_def\<close>)
qed

lemma mb_main_rank:
  assumes "main argv ok s = Some s'" and "inv s"
  shows "rank s' < rank s"
proof -
  have d: "rank (die s) < rank s" if "\<not> exited (mpc s)"
    using m_rank_pos [of s] assms(2) that by (simp add: rank_def die_def ahead_def inv_def)
  have i: "ahead (sem_init j s) = ahead s" "reads (sem_init j s) = reads s" "writes (sem_init j s) = writes s"
    "ppc (sem_init j s) = ppc s" "cpc (sem_init j s) = cpc s" for j
    by (simp_all add: sem_init_def ahead_def)
  have a: "ahead (s\<lparr>mpc := x\<rparr>) = ahead s" "ahead (s\<lparr>cpc := y\<rparr>) = ahead s" for s x y by (simp_all add: ahead_def)
  have p: "ppc s = P_none \<Longrightarrow> ahead (s\<lparr>ppc := P_wait_nempty\<rparr>) = ahead s" by (simp add: ahead_def)
  have th: "threads_ok s" using assms(2) by (simp add: inv_def)
  show ?thesis
    by (cases "mpc s"; use assms(1) th d i p in \<open>auto simp: main_def rank_def a threads_ok_def split: if_splits\<close>)
qed

lemma eof_unwritten:
  assumes "eof_ok s" and "sems_ok s" and "ppc s = P_return"
  shows "length (writes s) < length (reads s)"
proof (rule ccontr)
  assume "\<not> ?thesis"
  moreover have ne: "reads s \<noteq> []" using assms(1,3) by (simp add: eof_ok_def)
  ultimately have l: "length (reads s) - 1 < length (writes s)" "length (reads s) - 1 < length (reads s)"
    by (auto simp: not_less) (metis Suc_pred length_greater_0_conv less_Suc_eq_le not_less)
  have "reads s ! (length (reads s) - 1) = []" using assms(1,3) l(2) unfolding eof_ok_def by blast
  moreover have "reads s ! (length (reads s) - 1) \<noteq> []" using assms(1) l(1) unfolding eof_ok_def by blast
  ultimately show False by simp
qed

lemma progress:
  assumes i: "inv s" and n: "\<not> exited (mpc s)"
  shows "\<exists>a\<in>good. \<exists>s'. step argv a s = Some s'"
proof (rule ccontr)
  assume "\<not> ?thesis"
  then have m: "main argv True s = None" and p: "producer s = None" and c: "consumer BUFFSIZE s = None" using n by (auto simp: good_def)
  have pc: "mpc s = M_join_producer \<and> ppc s \<noteq> P_return \<or> mpc s = M_join_consumer \<and> cpc s \<noteq> C_return"
    using m n by (cases "mpc s") (auto simp: main_def split: if_splits)
  then have ok: "sems_ok s" "eof_ok s" "threads_ok s" using i by (auto simp: inv_def)
  have "ppc s = P_none \<or> ppc s = P_return \<or> ppc s = P_wait_nempty \<and> nempty s = 0 \<or> ppc s = P_wait_mutex \<and> mutex s = 0"
    using p by (cases "ppc s") (auto simp: producer_def)
  moreover have "cpc s = C_none \<or> cpc s = C_return \<or> cpc s = C_wait_nstored \<and> nstored s = 0 \<or> cpc s = C_wait_mutex \<and> mutex s = 0"
    using c by (cases "cpc s") (auto simp: consumer_def)
  moreover have "ppc s = P_return \<Longrightarrow> length (writes s) < length (reads s)" using eof_unwritten ok(1,2) by blast
  moreover have "cpc s = C_return \<Longrightarrow> ppc s \<in> {P_post_eof, P_return}" using ok(2) unfolding eof_ok_def by blast
  moreover have "ppc s \<noteq> P_none" "cpc s \<noteq> C_none" "mpc s = M_join_consumer \<Longrightarrow> ppc s = P_return"
    using pc ok(3) by (auto simp: threads_ok_def)
  ultimately show False
    using pc ok(1) by (auto simp: sems_ok_def weights NBUFF_def)
qed

interpretation multibuffer: terminating_system "step argv" "start xs" inv rank "\<lambda>s. exited (mpc s)" "good"
proof unfold_locales
  show "inv (start xs)" by (rule mb_start_inv)
next
  fix s a s'
  assume i: "inv s" and s: "step argv a s = Some s'"
  show "inv s'" by (rule mb_step_inv [OF i s])
  show "rank s' < rank s"
    using s i by (cases a) (auto intro: mb_main_rank mb_producer_rank mb_consumer_rank split: if_splits)
qed (rule progress)

section \<open>What the standard output gets\<close>

definition out_ok :: "shared \<Rightarrow> bool" where
  "out_ok s \<longleftrightarrow> list_all2 prefix (taken s) (writes s) \<and> (\<forall>i. length (buff s i) \<le> BUFFSIZE)"

lemma mb_main_out: "main argv ok s = Some s' \<Longrightarrow> taken s' = taken s \<and> writes s' = writes s \<and> buff s' = buff s"
  by (cases "mpc s") (auto simp: main_def die_def sem_init_def split: if_splits)

lemma mb_step_out: "out_ok s \<Longrightarrow> step argv a s = Some s' \<Longrightarrow> out_ok s'"
proof (cases a)
  case (Main ok)
  moreover assume "out_ok s" "step argv a s = Some s'"
  ultimately show ?thesis using mb_main_out [of argv ok s s'] by (simp add: out_ok_def)
next
  case Producer
  moreover assume o: "out_ok s" and "step argv a s = Some s'"
  ultimately have "producer s = Some s'" by (simp split: if_splits)
  then show ?thesis
    using o by (cases "ppc s") (auto simp: producer_def read_chunk_def out_ok_def Let_def split: list.splits option.splits)
next
  case (Consumer n)
  moreover assume o: "out_ok s" and "step argv a s = Some s'"
  ultimately have "consumer n s = Some s'" by (simp split: if_splits)
  then show ?thesis
    using o by (cases rule: consumerE) (auto simp: out_ok_def take_is_prefix intro: list_all2_appendI)
qed

interpretation multibuffer_out: invariant_system "step argv" "start xs" out_ok for argv xs
  by unfold_locales (simp add: out_ok_def start_def, erule (1) mb_step_out)

text \<open>As long as every \<open>write\<close> takes its chunk, the standard output has exactly what was asked to be written.\<close>

definition whole_writes :: "act \<Rightarrow> bool" where
  "whole_writes a \<longleftrightarrow> (\<forall>n. a = Consumer n \<longrightarrow> BUFFSIZE \<le> n)"

lemma mb_step_whole:
  assumes "out_ok s \<and> taken s = writes s" and "only whole_writes (step argv) a s = Some s'"
  shows "out_ok s' \<and> taken s' = writes s'"
proof -
  have s: "step argv a s = Some s'" and w: "whole_writes a" using assms(2) by (auto simp: only_def split: if_splits)
  have "taken s' = writes s'"
  proof (cases a)
    case (Main ok)
    then show ?thesis using s assms(1) mb_main_out [of argv ok s s'] by simp
  next
    case Producer
    then have "producer s = Some s'" using s by (simp split: if_splits)
    then show ?thesis using assms(1) by (cases rule: producerE) simp_all
  next
    case (Consumer n)
    then have c: "consumer n s = Some s'" and n: "BUFFSIZE \<le> n" using s w by (simp_all add: whole_writes_def split: if_splits)
    have "length (buff s (c_i s)) \<le> n" using assms(1) n order_trans by (auto simp: out_ok_def)
    with c show ?thesis using assms(1) by (cases rule: consumerE) simp_all
  qed
  with mb_step_out [OF _ s] assms(1) show ?thesis by blast
qed

interpretation multibuffer_whole: invariant_system "only whole_writes (step argv)" "start xs"
  "\<lambda>s. out_ok s \<and> taken s = writes s" for argv xs
  by unfold_locales (simp add: out_ok_def start_def, erule (1) mb_step_whole)

section \<open>Property\<close>

text \<open>
  C8. sem\_multibuffer copies its file: under every schedule and whatever calls fail, the chunks that \<open>write\<close> was asked to
  write are the beginning of what has been read, in order, and the standard output has got a beginning of each of them; no
  schedule is longer than 49 + 20 k steps for k answers of \<open>read\<close>, none blocks for ever, and when the
  program exits with status 0 the whole file has been read and asked to be written. When no \<open>write\<close> is
  short or fails (the program does not check), the standard output is at exit 0 the whole file.
\<close>

theorem multibuffer_copies:
  assumes "run (step argv) ts (start xs) = Some s"
  shows "(\<exists>rest. concat (reads s) = concat (writes s) @ rest) \<and> list_all2 prefix (taken s) (writes s) \<and>
    length ts \<le> 49 + 20 * length xs \<and> (stuck good (step argv) s \<longrightarrow> exited (mpc s)) \<and>
    (mpc s = M_exit 0 \<longrightarrow> concat (writes s) = concat (reads s) \<and> last (reads s) = [] \<and> reads s \<noteq> []) \<and>
    ((\<forall>n. Consumer n \<in> set ts \<longrightarrow> BUFFSIZE \<le> n) \<longrightarrow> (\<exists>rest. concat (reads s) = concat (taken s) @ rest) \<and>
       (mpc s = M_exit 0 \<longrightarrow> concat (taken s) = concat (reads s)))"
proof -
  have i: "inv s" by (rule multibuffer.run_inv [OF assms])
  then have w: "writes s = take (length (writes s)) (reads s)" by (simp add: inv_def data_ok_def)
  then have "concat (reads s) = concat (writes s) @ concat (drop (length (writes s)) (reads s))"
    by (metis append_take_drop_id concat_append)
  moreover have "rank (start xs) = 49 + 20 * length xs" by (simp add: rank_def start_def ahead_def)
  moreover have "concat (writes s) = concat (reads s) \<and> last (reads s) = [] \<and> reads s \<noteq> []" if "mpc s = M_exit 0"
  proof -
    have t: "ppc s = P_return" "cpc s = C_return" "eof_ok s" using i that by (auto simp: inv_def threads_ok_def)
    then have "reads s \<noteq> []" "length (writes s) = length (reads s) - 1" "reads s ! (length (reads s) - 1) = []"
      by (auto simp: eof_ok_def)
    then have "reads s = writes s @ [[]]"
      using w by (metis append_butlast_last_id butlast_conv_take last_conv_nth)
    then show ?thesis by simp
  qed
  moreover have "list_all2 prefix (taken s) (writes s)"
    using multibuffer_out.run_inv [OF assms] by (simp add: out_ok_def)
  moreover have "taken s = writes s" if "\<forall>n. Consumer n \<in> set ts \<longrightarrow> BUFFSIZE \<le> n"
  proof -
    have "\<forall>a\<in>set ts. whole_writes a" using that by (auto simp: whole_writes_def)
    from multibuffer_whole.run_inv [of argv ts xs s] run_only [OF this, of "step argv"] assms show ?thesis by simp
  qed
  ultimately show ?thesis
    using multibuffer.run_bounded [OF assms] multibuffer.stuck_final [OF assms] by auto
qed

definition two_chunks :: "act list" where
  "two_chunks = replicate 7 (Main True) @ replicate 7 Producer @ replicate 7 (Consumer 1024)"

theorem multibuffer_copies_witness:
  "\<exists>s. run (step [''p'', ''f'']) two_chunks (start [Some ''ab'', Some ''c'']) = Some s \<and> writes s = [''ab''] \<and>
     (\<exists>rest. concat (reads s) = ''ab'' @ rest) \<and> (\<exists>rest. concat (reads s) = concat (taken s) @ rest) \<and> length two_chunks \<le> 49 + 20 * 2"
proof -
  have "map_option writes (run (step [''p'', ''f'']) two_chunks (start [Some ''ab'', Some ''c''])) = Some [''ab'']" by code_simp
  then obtain s where s: "run (step [''p'', ''f'']) two_chunks (start [Some ''ab'', Some ''c'']) = Some s" "writes s = [''ab'']" by auto
  have "\<forall>n. Consumer n \<in> set two_chunks \<longrightarrow> BUFFSIZE \<le> n" by (auto simp: two_chunks_def BUFFSIZE_def)
  with multibuffer_copies [OF s(1)] s show ?thesis by auto
qed

text \<open>A \<open>write\<close> that fails is not noticed: the program exits with status 0 and has written nothing of the file.\<close>

definition failing_write :: "act list" where
  "failing_write = replicate 7 (Main True) @ replicate 11 Producer @ replicate 11 (Consumer 0) @ replicate 5 (Main True)"

lemma multibuffer_unnoticed:
  "case run (step [''p'', ''f'']) failing_write (start [Some ''ab'']) of None \<Rightarrow> False
     | Some s \<Rightarrow> mpc s = M_exit 0 \<and> concat (reads s) = ''ab'' \<and> concat (taken s) = []"
  by code_simp

end
