(* ===== verification/Posix_Prog.thy ===== *)
theory Posix_Prog
  imports Prelude
begin

text \<open>
  Sequential programs over system calls. A program is a function on a \<open>world\<close>: the answers the
  kernel is going to give, in order, and the trace of what the program did so far. A system call
  takes the next answer, so a theorem about every list of answers is a theorem about every
  behaviour of the kernel, with failures, short reads and arbitrary data; when the answers are
  used up the program is \<open>Blocked\<close> in its call. Programs are written in continuation style: the
  last argument of a call is the rest of the program. Reading or writing outside an array is
  \<open>Undefined\<close>.
\<close>

section \<open>Worlds and outcomes\<close>

text \<open>
  An answer: the return value, \<open>errno\<close>, the bytes delivered to the caller's buffer and those
  delivered to a second output argument, such as a peer address.
\<close>

datatype answer = Ans (ret: int) (errno: int) (data: string) (extra: string)

text \<open>
  \<open>Read\<close> is a successful \<open>read\<close> or \<open>recv\<close> with the bytes it delivered, \<open>Write\<close> a \<open>write\<close> or
  \<open>send\<close> with the bytes the program asked to write and the result; every other call, and a
  failed read, is \<open>Sys\<close> with its name, integer arguments, bytes and result. \<open>Out\<close> and \<open>Err\<close> are
  text on the standard streams.
\<close>

datatype event =
    Read int nat string
  | Write int string int
  | Sys string "int list" string int
  | Out string
  | Err string

record world =
  answers :: "answer list"
  trace :: "event list"

datatype outcome = Exit int | Blocked | Undefined | Spinning

type_synonym prog = "world \<Rightarrow> outcome \<times> world"

definition boot :: "answer list \<Rightarrow> world" where
  "boot as = \<lparr>answers = as, trace = []\<rparr>"

definition log :: "event \<Rightarrow> world \<Rightarrow> world" where
  "log e w = w\<lparr>trace := trace w @ [e]\<rparr>"

section \<open>Calls\<close>

definition syscall :: "(answer \<Rightarrow> event) \<Rightarrow> (answer \<Rightarrow> prog) \<Rightarrow> prog" where
  "syscall e k w = (case answers w of [] \<Rightarrow> (Blocked, w)
     | a # as \<Rightarrow> k a (log (e a) (w\<lparr>answers := as\<rparr>)))"

definition exit :: "int \<Rightarrow> prog" where
  "exit c w = (Exit c, w)"

definition undef :: prog where
  "undef w = (Undefined, w)"

definition emit :: "event \<Rightarrow> prog \<Rightarrow> prog" where
  "emit e k w = k (log e w)"

definition puts :: "string \<Rightarrow> prog \<Rightarrow> prog" where
  "puts s = emit (Out (s @ [NL]))"

definition printf :: "string \<Rightarrow> prog \<Rightarrow> prog" where
  "printf s = emit (Out s)"

text \<open>A call that returns a number, at least -1: a descriptor, an identifier or a status.\<close>

definition call :: "string \<Rightarrow> int list \<Rightarrow> string \<Rightarrow> (int \<Rightarrow> prog) \<Rightarrow> prog" where
  "call name args bs k =
     syscall (\<lambda>a. Sys name args bs (max (- 1) (ret a))) (\<lambda>a. k (max (- 1) (ret a)))"

text \<open>A call whose result the program ignores.\<close>

definition call0 :: "string \<Rightarrow> int list \<Rightarrow> string \<Rightarrow> prog \<Rightarrow> prog" where
  "call0 name args bs k = call name args bs (\<lambda>_. k)"

text \<open>
  A call checked by \<open>error_handler\<close>: at -1 the program prints the message and the text of \<open>errno\<close>, which the parameter
  \<open>se\<close> (\<open>strerror\<close>) gives, and exits with status 1. The file name and line number of the message are left out.
\<close>

definition complain :: "(int \<Rightarrow> string) \<Rightarrow> int \<Rightarrow> string \<Rightarrow> prog" where
  "complain se e msg = printf (msg @ '', '' @ se e @ [NL]) (exit 1)"

definition checked :: "(int \<Rightarrow> string) \<Rightarrow> string \<Rightarrow> int list \<Rightarrow> string \<Rightarrow> string \<Rightarrow> (int \<Rightarrow> prog) \<Rightarrow> prog" where
  "checked se name args bs msg k = syscall (\<lambda>a. Sys name args bs (max (- 1) (ret a)))
     (\<lambda>a. if max (- 1) (ret a) = - 1 then complain se (errno a) msg else k (max (- 1) (ret a)))"

text \<open>
  \<open>read(fd, buf, n)\<close> delivers at most \<open>n\<close> bytes and returns their number, 0 at the end of the
  file, or -1. The continuation gets the result and the bytes.
\<close>

definition sys_read :: "int \<Rightarrow> nat \<Rightarrow> (int \<Rightarrow> string \<Rightarrow> prog) \<Rightarrow> prog" where
  "sys_read fd n k = syscall
     (\<lambda>a. if ret a < 0 then Sys ''read'' [fd, int n] [] (- 1) else Read fd n (take n (data a)))
     (\<lambda>a. if ret a < 0 then k (- 1) [] else k (int (length (take n (data a)))) (take n (data a)))"

text \<open>\<open>write(fd, bs, length bs)\<close> returns -1 or the number of bytes it took.\<close>

definition sys_write :: "int \<Rightarrow> string \<Rightarrow> (int \<Rightarrow> prog) \<Rightarrow> prog" where
  "sys_write fd bs k = syscall (\<lambda>a. Write fd bs (min (max (- 1) (ret a)) (int (length bs))))
     (\<lambda>a. k (min (max (- 1) (ret a)) (int (length bs))))"

text \<open>
  \<open>write(fd, buf, n)\<close> on an array: a count outside \<open>0..sizeof buf\<close> reads other memory. A negative
  count is one of these, as it converts to a huge \<open>size_t\<close>.
\<close>

definition write_buf :: "int \<Rightarrow> char list \<Rightarrow> int \<Rightarrow> prog \<Rightarrow> prog" where
  "write_buf fd buf n k = (if 0 \<le> n \<and> n \<le> int (length buf)
     then sys_write fd (take (nat n) buf) (\<lambda>_. k) else undef)"

text \<open>\<open>buf[i] = c\<close>, and the delivery of bytes to the start of an array.\<close>

definition store :: "char list \<Rightarrow> int \<Rightarrow> char \<Rightarrow> (char list \<Rightarrow> prog) \<Rightarrow> prog" where
  "store buf i c k = (case buf_put buf i c of None \<Rightarrow> undef | Some b \<Rightarrow> k b)"

definition deliver :: "char list \<Rightarrow> string \<Rightarrow> (char list \<Rightarrow> prog) \<Rightarrow> prog" where
  "deliver buf bs k = (case buf_copy buf bs of None \<Rightarrow> undef | Some b \<Rightarrow> k b)"

text \<open>\<open>%s\<close> of an array without a NUL reads past its end.\<close>

definition with_cstr :: "char list \<Rightarrow> (string \<Rightarrow> prog) \<Rightarrow> prog" where
  "with_cstr buf k = (if NUL \<in> set buf then k (cstr buf) else undef)"

text \<open>
  \<open>fgets(buf, n, fp)\<close> for \<open>n > 0\<close>: at most \<open>n - 1\<close> bytes, up to and with the first newline, and
  a NUL; \<open>None\<close> is NULL, at the end of the file or on an error, with the array unchanged.
\<close>

definition line_of :: "nat \<Rightarrow> string \<Rightarrow> string" where
  "line_of n s = take (n - 1) (case strchr s NL of None \<Rightarrow> s | Some i \<Rightarrow> take (Suc i) s)"

definition fgets :: "int \<Rightarrow> nat \<Rightarrow> (string option \<Rightarrow> prog) \<Rightarrow> prog" where
  "fgets fp n k = syscall
     (\<lambda>a. if ret a < 0 \<or> data a = [] then Sys ''fgets'' [fp, int n] [] 0
          else Sys ''fgets'' [fp, int n] (line_of n (data a)) 1)
     (\<lambda>a. if ret a < 0 \<or> data a = [] then k None else k (Some (line_of n (data a))))"

text \<open>The array after \<open>fgets\<close>.\<close>

definition fgets_buf :: "char list \<Rightarrow> string option \<Rightarrow> (char list \<Rightarrow> prog) \<Rightarrow> prog" where
  "fgets_buf buf r k = (case r of None \<Rightarrow> k buf | Some l \<Rightarrow> deliver buf (l @ [NUL]) k)"

text \<open>What an array holds before it is written: any bytes.\<close>

definition uninit :: "(nat \<Rightarrow> char) \<Rightarrow> nat \<Rightarrow> char list" where
  "uninit g n = map g [0..<n]"

lemma length_uninit [simp]: "length (uninit g n) = n"
  by (simp add: uninit_def)

section \<open>Loops\<close>

text \<open>
  \<open>loop body a k\<close> runs \<open>body a next break\<close>, where \<open>next a'\<close> goes round again and \<open>break a'\<close>
  leaves for \<open>k a'\<close>. Every iteration of the loops modelled here makes a system call, so the
  answers shrink; an iteration that made none would spin.
\<close>

function loop :: "('a \<Rightarrow> ('a \<Rightarrow> prog) \<Rightarrow> ('a \<Rightarrow> prog) \<Rightarrow> prog) \<Rightarrow> 'a \<Rightarrow> ('a \<Rightarrow> prog) \<Rightarrow> prog" where
  "loop body a k w = body a
     (\<lambda>a' w'. if length (answers w') < length (answers w) then loop body a' k w' else (Spinning, w'))
     k w"
  by pat_completeness auto
termination
  by (relation "measure (\<lambda>(body, a, k, w). length (answers w))") auto

declare loop.simps [simp del]

primrec for_each :: "'i list \<Rightarrow> ('i \<Rightarrow> 'a \<Rightarrow> ('a \<Rightarrow> prog) \<Rightarrow> prog) \<Rightarrow> 'a \<Rightarrow> ('a \<Rightarrow> prog) \<Rightarrow> prog" where
  "for_each [] body a k = k a"
| "for_each (i # is) body a k = body i a (\<lambda>a'. for_each is body a' k)"

section \<open>Reasoning\<close>

lemma boot_simps [simp]: "answers (boot as) = as" "trace (boot as) = []"
  by (simp_all add: boot_def)

lemma log_simps [simp]: "answers (log e w) = answers w" "trace (log e w) = trace w @ [e]"
  by (simp_all add: log_def)

named_theorems prog_defs \<open>definitions of the calls other than \<open>syscall\<close>\<close>

lemmas [prog_defs] = exit_def undef_def emit_def puts_def printf_def call_def call0_def sys_read_def
  sys_write_def write_buf_def store_def deliver_def with_cstr_def fgets_def fgets_buf_def

text \<open>A post-condition of a call: it holds when the program blocks, and after every answer.\<close>

lemma syscall_rule:
  assumes "answers w = [] \<Longrightarrow> Q (Blocked, w)"
    and "\<And>a as. answers w = a # as \<Longrightarrow> Q (k a (log (e a) (w\<lparr>answers := as\<rparr>)))"
  shows "Q (syscall e k w)"
  using assms by (auto simp: syscall_def split: list.splits)

text \<open>
  Loop invariants: \<open>I\<close> holds at the head of every iteration. The body is checked for an arbitrary
  continuation that establishes \<open>Q\<close> from \<open>I\<close> with fewer answers left; so it must make a call
  before it goes round, and the loop cannot spin.
\<close>

lemma loop_rule:
  assumes start: "I a w"
    and body: "\<And>a w c. I a w \<Longrightarrow>
      (\<And>a' w'. I a' w' \<Longrightarrow> length (answers w') < length (answers w) \<Longrightarrow> Q (c a' w')) \<Longrightarrow>
      Q (body a c k w)"
  shows "Q (loop body a k w)"
  using start
proof (induction "length (answers w)" arbitrary: a w rule: less_induct)
  case less
  show ?case
    by (subst loop.simps, rule body [OF less.prems]) (simp add: less.hyps)
qed

lemma for_each_rule:
  assumes "I a w"
    and "\<And>i a w c. i \<in> set is \<Longrightarrow> I a w \<Longrightarrow> (\<And>a' w'. I a' w' \<Longrightarrow> Q (c a' w')) \<Longrightarrow> Q (body i a c w)"
    and "\<And>a w. I a w \<Longrightarrow> Q (k a w)"
  shows "Q (for_each is body a k w)"
  using assms
proof (induction "is" arbitrary: a w)
  case (Cons i "is")
  show ?case
    unfolding for_each.simps
  proof (rule Cons.prems(2))
    fix a' w' assume "I a' w'"
    then show "Q (for_each is body a' k w')"
      by (rule Cons.IH) (use Cons.prems(2,3) in \<open>auto\<close>)
  qed (use Cons.prems in auto)
qed simp

end
