(* ===== verification/Shared_Counters.thy ===== *)
theory Shared_Counters
  imports Posix_Prog Posix_Sync
begin

text \<open>
  Processes that increment a counter they share: in a file under a record lock or none
  (\<^verbatim>\<open>src/ipc/src/lock/lockfcntl.c\<close>, \<^verbatim>\<open>locknone.c\<close>), and in mapped memory under a semaphore
  (\<^verbatim>\<open>src/ipc/src/shm/incr.c\<close>, \<^verbatim>\<open>incr2.c\<close>, \<^verbatim>\<open>incr_map_anon.c\<close>, \<^verbatim>\<open>incr_dev_zero.c\<close>, and
  \<^verbatim>\<open>src/ipc/src/pxshm/server1.c\<close> with \<^verbatim>\<open>client1.c\<close>).

  All of them run the same loop: lock, fetch the counter, print it, store it incremented, unlock. They differ in
  the kind of lock, in where the counter is, in the order of printing and storing, and in what happens
  around the loop. The loop is one step function over a description of these; what the counter is
  made of is an interface.
\<close>

section \<open>The loop\<close>

text \<open>
  \<open>Shared_sem\<close>: a semaphore that all processes see. \<open>Private_sem\<close>: a semaphore in memory that \<open>fork\<close> copies, so that
  every process has its own. \<open>File_lock\<close>: \<open>fcntl\<close> with \<open>F_SETLKW\<close>. \<open>No_lock\<close>: empty functions.
\<close>

datatype lock_kind = Shared_sem | Private_sem | File_lock | No_lock

record loop_desc =
  kind :: lock_kind
  print_first :: bool  \<comment> \<open>print, then store; otherwise the counter is stored by the increment in the argument of \<open>printf\<close>\<close>
  file_io :: bool  \<comment> \<open>fetching and storing are \<open>read\<close> and \<open>write\<close>, whose failure ends the process\<close>

datatype cpc = C_none | C_for nat | C_lock nat | C_fetch nat | C_store nat int | C_print nat int | C_unlock nat | C_return | C_exit

record 'c cstate =
  cell :: 'c
  sems :: "nat \<Rightarrow> nat"
  owner :: "nat option"
  cpc :: "nat \<Rightarrow> cpc"
  lines :: "(nat \<times> int) list"
  destroyed :: bool
  corrupt :: bool

definition which_sem :: "lock_kind \<Rightarrow> nat \<Rightarrow> nat" where
  "which_sem k t = (if k = Private_sem then Suc t else 0)"

definition goto :: "nat \<Rightarrow> cpc \<Rightarrow> 'c cstate \<Rightarrow> 'c cstate" where
  "goto t pc s = s\<lparr>cpc := (cpc s)(t := pc)\<rparr>"

definition corrupted :: "'c cstate \<Rightarrow> 'c cstate" where
  "corrupted s = s\<lparr>corrupt := True\<rparr>"

text \<open>
  Taking the lock. The result of the call is not checked: when it fails, the process goes on without the
  lock. Using a shared semaphore that another process has destroyed is undefined.
\<close>

definition take_lock :: "lock_kind \<Rightarrow> nat \<Rightarrow> bool \<Rightarrow> 'c cstate \<Rightarrow> 'c cstate option" where
  "take_lock k t ok s = (if k = No_lock \<or> \<not> ok then Some s
     else if k = File_lock then map_option (\<lambda>m. s\<lparr>owner := m\<rparr>) (mutex_lock t (owner s))
     else if k = Shared_sem \<and> destroyed s then Some (corrupted s)
     else map_option (\<lambda>v. s\<lparr>sems := (sems s)(which_sem k t := v)\<rparr>) (sem_wait (sems s (which_sem k t))))"

definition release_lock :: "lock_kind \<Rightarrow> nat \<Rightarrow> 'c cstate \<Rightarrow> 'c cstate" where
  "release_lock k t s = (if k = No_lock then s
     else if k = File_lock then (if owner s = Some t then s\<lparr>owner := None\<rparr> else s)
     else if k = Shared_sem \<and> destroyed s then corrupted s
     else s\<lparr>sems := (sems s)(which_sem k t := sem_post (sems s (which_sem k t)))\<rparr>)"

text \<open>Leaving through \<open>error_handler\<close>: the kernel drops the record lock.\<close>

definition die :: "nat \<Rightarrow> 'c cstate \<Rightarrow> 'c cstate" where
  "die t s = goto t C_exit (if owner s = Some t then s\<lparr>owner := None\<rparr> else s)"

text \<open>
  One statement of process \<open>t\<close>, with \<open>ok\<close> the outcome of its system call. \<open>load\<close> gives no value when the program
  would leave its buffer or use an indeterminate value; \<open>limit\<close> is the largest value of the counter's type.
\<close>

definition cstep :: "('c \<Rightarrow> int option) \<Rightarrow> (int \<Rightarrow> 'c \<Rightarrow> 'c) \<Rightarrow> int \<Rightarrow> loop_desc \<Rightarrow> (nat \<Rightarrow> nat) \<Rightarrow> nat \<Rightarrow> bool \<Rightarrow> 'c cstate \<Rightarrow> 'c cstate option" where
  "cstep load save limit d nloop t ok s = (if corrupt s then None else case cpc s t of
     C_for i \<Rightarrow> Some (goto t (if i < nloop t then C_lock i else C_return) s)
   | C_lock i \<Rightarrow> map_option (goto t (C_fetch i)) (take_lock (kind d) t ok s)
   | C_fetch i \<Rightarrow> Some (if file_io d \<and> \<not> ok then die t s else (case load (cell s) of
        None \<Rightarrow> corrupted s
      | Some v \<Rightarrow> goto t (if print_first d then C_print i v else C_store i v) s))
   | C_store i v \<Rightarrow> Some (if v + 1 > limit then corrupted s else if file_io d \<and> \<not> ok then die t s
        else goto t (if print_first d then C_unlock i else C_print i v) (s\<lparr>cell := save (v + 1) (cell s)\<rparr>))
   | C_print i v \<Rightarrow> Some (goto t (if print_first d then C_store i v else C_unlock i) (s\<lparr>lines := lines s @ [(t, v)]\<rparr>))
   | C_unlock i \<Rightarrow> Some (goto t (C_for (i + 1)) (release_lock (kind d) t s))
   | _ \<Rightarrow> None)"

section \<open>Counters in memory and in a file\<close>

definition mem_load :: "int \<Rightarrow> int option" where "mem_load c = Some c"
definition mem_store :: "int \<Rightarrow> int \<Rightarrow> int" where "mem_store v c = v"

text \<open>
  \<open>read(fd, buf, MAXSIZE)\<close> from the start of the file; \<open>buf[n] = 0\<close> is outside the array when the file
  has \<open>MAXSIZE\<close> bytes; without a number \<open>sscanf\<close> leaves the variable as it was, at first indeterminate.
\<close>

definition MAXSIZE :: nat where "MAXSIZE = 256"
definition LONG_MAX :: int where "LONG_MAX = 9223372036854775807"

definition has_number :: "string \<Rightarrow> bool" where
  "has_number s = (case dropWhile is_space s of
     c # r \<Rightarrow> is_digit c \<or> (c = CHR ''-'' \<or> c = CHR ''+'') \<and> r \<noteq> [] \<and> is_digit (hd r)
   | [] \<Rightarrow> False)"

definition seq_load :: "string \<Rightarrow> int option" where
  "seq_load f = (if MAXSIZE \<le> length f \<or> \<not> has_number (cstr f) then None else Some (atol (cstr f)))"

text \<open>The write starts at the beginning of the file and leaves what is behind it.\<close>

definition seq_store :: "int \<Rightarrow> string \<Rightarrow> string" where
  "seq_store v f = (let new = show_int v @ [NL] in new @ drop (length new) f)"

section \<open>The programs\<close>

definition lockfcntl_desc :: loop_desc where
  "lockfcntl_desc = \<lparr>kind = File_lock, print_first = True, file_io = True\<rparr>"

definition locknone_desc :: loop_desc where
  "locknone_desc = \<lparr>kind = No_lock, print_first = True, file_io = True\<rparr>"

text \<open>Several processes that have all opened the file; \<open>open\<close> failing ends a process before its loop.\<close>

definition seq_start :: "string \<Rightarrow> nat \<Rightarrow> string cstate" where
  "seq_start f n = \<lparr>cell = f, sems = (\<lambda>_. 0), owner = None, cpc = (\<lambda>t. if t < n then C_for 0 else C_none), lines = [],
     destroyed = False, corrupt = False\<rparr>"

definition lockfcntl_step :: "nat \<times> bool \<Rightarrow> string cstate \<Rightarrow> string cstate option" where
  "lockfcntl_step = (\<lambda>(t, ok). cstep seq_load seq_store LONG_MAX lockfcntl_desc (\<lambda>_. 20) t ok)"

definition locknone_step :: "nat \<times> bool \<Rightarrow> string cstate \<Rightarrow> string cstate option" where
  "locknone_step = (\<lambda>(t, ok). cstep seq_load seq_store LONG_MAX locknone_desc (\<lambda>_. 20) t ok)"

text \<open>
  The programs under \<^verbatim>\<open>shm\<close>: a usage test, a sequence of calls each of which ends the program when it fails,
  and then two processes with the loop. A failing \<open>fork\<close> is not noticed. The parent is process 0.
\<close>

record shm_desc =
  argc :: nat
  loop_arg :: nat
  calls :: "string list"
  ignored :: "string list"
  sem_kind :: lock_kind
  destroys :: bool

datatype main_pc = M_args | M_setup nat | M_fork | M_loop | M_exit int

record shm_state =
  mpc :: main_pc
  nloop :: nat
  procs :: "int cstate"

definition incr :: shm_desc where
  "incr = \<lparr>argc = 3, loop_arg = 2, calls = [''open'', ''write'', ''mmap'', ''sem_open'', ''sem_unlink''], ignored = [],
     sem_kind = Shared_sem, destroys = False\<rparr>"

text \<open>
  In \<open>incr2\<close> the test of \<open>sem_init\<close> has no statement of its own and guards \<open>setbuf\<close>: a failure is ignored and
  leaves the semaphore at zero, as the file holds.
\<close>

definition incr2 :: shm_desc where
  "incr2 = \<lparr>argc = 3, loop_arg = 2, calls = [''open'', ''write'', ''mmap'', ''sem_init''], ignored = [''sem_init''],
     sem_kind = Shared_sem, destroys = True\<rparr>"

text \<open>In these two the semaphore is a local variable of \<open>main\<close>.\<close>

definition incr_map_anon :: shm_desc where
  "incr_map_anon = \<lparr>argc = 2, loop_arg = 1, calls = [''mmap'', ''sem_init''], ignored = [],
     sem_kind = Private_sem, destroys = True\<rparr>"

definition incr_dev_zero :: shm_desc where
  "incr_dev_zero = \<lparr>argc = 2, loop_arg = 1, calls = [''open'', ''mmap'', ''sem_init''], ignored = [],
     sem_kind = Private_sem, destroys = True\<rparr>"

definition shm_loop :: "shm_desc \<Rightarrow> loop_desc" where
  "shm_loop p = \<lparr>kind = sem_kind p, print_first = False, file_io = False\<rparr>"

definition shm_start :: shm_state where
  "shm_start = \<lparr>mpc = M_args, nloop = 0, procs = \<lparr>cell = 0, sems = (\<lambda>_. 0), owner = None, cpc = (\<lambda>_. C_none), lines = [],
     destroyed = False, corrupt = False\<rparr>\<rparr>"

text \<open>The semaphore is created with the value 1 by the call that makes it.\<close>

definition creates_sem :: "string \<Rightarrow> bool" where
  "creates_sem c \<longleftrightarrow> c = ''sem_open'' \<or> c = ''sem_init''"

definition setup_call :: "shm_desc \<Rightarrow> string \<Rightarrow> bool \<Rightarrow> nat \<Rightarrow> shm_state \<Rightarrow> shm_state" where
  "setup_call p c ok j s = (if ok then s\<lparr>mpc := M_setup (j + 1), procs := (procs s)\<lparr>sems := (if creates_sem c then (\<lambda>_. 1) else sems (procs s))\<rparr>\<rparr>
     else if c \<in> set (ignored p) then s\<lparr>mpc := M_setup (j + 1)\<rparr>
     else s\<lparr>mpc := M_exit 1\<rparr>)"

definition shm_main :: "shm_desc \<Rightarrow> string list \<Rightarrow> bool \<Rightarrow> shm_state \<Rightarrow> shm_state option" where
  "shm_main p argv ok s = (case mpc s of
     M_args \<Rightarrow> Some (if length argv \<noteq> argc p then s\<lparr>mpc := M_exit 1\<rparr>
       else s\<lparr>mpc := M_setup 0, nloop := nat (atoi (argv ! loop_arg p))\<rparr>)
   | M_setup j \<Rightarrow> Some (if j < length (calls p) then setup_call p (calls p ! j) ok j s else s\<lparr>mpc := M_fork\<rparr>)
   | M_fork \<Rightarrow> Some (s\<lparr>mpc := M_loop, procs := (if ok then goto 1 (C_for 0) else id) (goto 0 (C_for 0) (procs s))\<rparr>)
   | M_loop \<Rightarrow> if cpc (procs s) 0 = C_return
       then Some (s\<lparr>mpc := M_exit 0, procs := (procs s)\<lparr>destroyed := destroys p\<rparr>\<rparr>) else None
   | M_exit c \<Rightarrow> None)"

datatype shm_act = Main bool | Proc nat bool

fun shm_step :: "shm_desc \<Rightarrow> string list \<Rightarrow> shm_act \<Rightarrow> shm_state \<Rightarrow> shm_state option" where
  "shm_step p argv (Main ok) s = (if corrupt (procs s) then None else shm_main p argv ok s)"
| "shm_step p argv (Proc t ok) s = map_option (\<lambda>c. s\<lparr>procs := c\<rparr>)
     (cstep mem_load mem_store INT_MAX (shm_loop p) (\<lambda>_. nloop s) t ok (procs s))"

text \<open>
  \<^verbatim>\<open>pxshm/server1.c\<close> creates the counter and the semaphore; \<^verbatim>\<open>client1.c\<close> is run any number of times, each with its
  number of loops.
\<close>

definition server1_main :: "(int \<Rightarrow> string) \<Rightarrow> string list \<Rightarrow> prog" where
  "server1_main se argv = (if length argv \<noteq> 3 then printf (argv ! 0 @ '' <shmname> <semname>'' @ [NL]) (exit 1) else
     call0 ''shm_unlink'' [] (argv ! 1) (
     checked se ''shm_open'' [194, 420] (argv ! 1) ''sem_open error'' (\<lambda>fd.
     checked se ''ftruncate'' [fd, 4] [] ''ftruncate error'' (\<lambda>_.
     checked se ''mmap'' [fd, 4] [] ''mmap error'' (\<lambda>_.
     call0 ''close'' [fd] [] (
     call0 ''sem_unlink'' [] (argv ! 2) (
     checked se ''sem_open'' [192, 420, 1] (argv ! 2) ''sem_open error'' (\<lambda>_.
     call0 ''sem_close'' [] [] (exit 0)))))))))"

definition client1_setup :: "(int \<Rightarrow> string) \<Rightarrow> string list \<Rightarrow> (nat \<Rightarrow> int \<Rightarrow> prog) \<Rightarrow> prog" where
  "client1_setup se argv k = (if length argv \<noteq> 4 then printf (argv ! 0 @ '' <shmname> <semname> <#loops>'' @ [NL]) (exit 1) else
     let nloop = atoi (argv ! 3) in
     checked se ''shm_open'' [2, 420] (argv ! 1) ''sem_open error'' (\<lambda>fd.
     checked se ''mmap'' [fd, 4] [] ''mmap error'' (\<lambda>_.
     call0 ''close'' [fd] [] (
     checked se ''sem_open'' [0] (argv ! 2) ''sem_open error'' (\<lambda>_.
     call ''getpid'' [] [] (\<lambda>pid. k (nat nloop) pid))))))"

definition client1_desc :: loop_desc where
  "client1_desc = \<lparr>kind = Shared_sem, print_first = False, file_io = False\<rparr>"

definition client1_start :: "nat \<Rightarrow> int cstate" where
  "client1_start n = \<lparr>cell = 0, sems = (\<lambda>_. 1), owner = None, cpc = (\<lambda>t. if t < n then C_for 0 else C_none), lines = [],
     destroyed = False, corrupt = False\<rparr>"

definition client1_step :: "(nat \<Rightarrow> nat) \<Rightarrow> nat \<times> bool \<Rightarrow> int cstate \<Rightarrow> int cstate option" where
  "client1_step nl = (\<lambda>(t, ok). cstep mem_load mem_store INT_MAX client1_desc nl t ok)"

section \<open>The lock protects the counter\<close>

text \<open>What the loop needs of a counter: what is stored can be fetched again, up to the largest value.\<close>

locale counter_cell =
  fixes load :: "'c \<Rightarrow> int option" and save :: "int \<Rightarrow> 'c \<Rightarrow> 'c" and good :: "'c \<Rightarrow> bool" and limit :: int
  assumes good_save: "good c \<Longrightarrow> 0 \<le> v \<Longrightarrow> v \<le> limit \<Longrightarrow> good (save v c)"
    and load_save: "good c \<Longrightarrow> 0 \<le> v \<Longrightarrow> v \<le> limit \<Longrightarrow> load (save v c) = Some v"

interpretation mem: counter_cell mem_load mem_store "\<lambda>_. True" INT_MAX
  by unfold_locales (simp_all add: mem_load_def mem_store_def)

fun crit :: "cpc \<Rightarrow> bool" where
  "crit (C_fetch _) = True"
| "crit (C_store _ _) = True"
| "crit (C_print _ _) = True"
| "crit (C_unlock _) = True"
| "crit _ = False"

text \<open>Where a process may be, with \<open>n\<close> its number of iterations.\<close>

fun in_range :: "nat \<Rightarrow> cpc \<Rightarrow> bool" where
  "in_range n (C_lock i) = (i < n)"
| "in_range n (C_fetch i) = (i < n)"
| "in_range n (C_store i _) = (i < n)"
| "in_range n (C_print i _) = (i < n)"
| "in_range n (C_unlock i) = (i < n)"
| "in_range n (C_for i) = (i \<le> n)"
| "in_range n _ = True"

text \<open>The iterations in which it has printed.\<close>

fun done_iters :: "loop_desc \<Rightarrow> nat \<Rightarrow> cpc \<Rightarrow> nat" where
  "done_iters d n (C_for i) = i"
| "done_iters d n (C_lock i) = i"
| "done_iters d n (C_fetch i) = i"
| "done_iters d n (C_store i _) = (if print_first d then i + 1 else i)"
| "done_iters d n (C_print i _) = i"
| "done_iters d n (C_unlock i) = i + 1"
| "done_iters d n C_return = n"
| "done_iters d n _ = 0"

text \<open>What a process in the critical section knows: \<open>val\<close> is the counter, \<open>l\<close> the next value to print.\<close>

fun knows :: "loop_desc \<Rightarrow> int option \<Rightarrow> int \<Rightarrow> cpc \<Rightarrow> bool" where
  "knows d val l (C_fetch _) = (val = Some l)"
| "knows d val l (C_store _ v) = (val = Some v \<and> v = (if print_first d then l - 1 else l))"
| "knows d val l (C_print _ v) = (v = l \<and> val = Some (if print_first d then v else v + 1))"
| "knows d val l (C_unlock _) = (val = Some l)"
| "knows d val l C_exit = False"
| "knows d val l _ = True"

definition lock_ok :: "lock_kind \<Rightarrow> nat option \<Rightarrow> 'c cstate \<Rightarrow> bool" where
  "lock_ok k h s \<longleftrightarrow> (\<forall>t. crit (cpc s t) \<longleftrightarrow> h = Some t) \<and>
     (case k of Shared_sem \<Rightarrow> \<not> destroyed s \<and> sems s 0 = (if h = None then 1 else 0) | File_lock \<Rightarrow> owner s = h | _ \<Rightarrow> False)"

definition upcoming :: "int \<Rightarrow> 'c cstate \<Rightarrow> int" where
  "upcoming v0 s = v0 + int (length (lines s))"

definition counted :: "loop_desc \<Rightarrow> (nat \<Rightarrow> nat) \<Rightarrow> nat \<Rightarrow> 'c cstate \<Rightarrow> nat" where
  "counted d nl n s = (\<Sum>t<n. done_iters d (nl t) (cpc s t))"

definition counter_inv :: "('c \<Rightarrow> int option) \<Rightarrow> ('c \<Rightarrow> bool) \<Rightarrow> loop_desc \<Rightarrow> (nat \<Rightarrow> nat) \<Rightarrow> nat \<Rightarrow> int \<Rightarrow> 'c cstate \<Rightarrow> bool" where
  "counter_inv load good d nl n v0 s \<longleftrightarrow> \<not> corrupt s \<and> good (cell s) \<and> (\<exists>h. lock_ok (kind d) h s \<and>
       (h = None \<longrightarrow> load (cell s) = Some (upcoming v0 s))) \<and>
     (\<forall>t. knows d (load (cell s)) (upcoming v0 s) (cpc s t)) \<and>
     map snd (lines s) = map (\<lambda>k. v0 + int k) [0..<length (lines s)] \<and>
     counted d nl n s = length (lines s)"

definition placed :: "(nat \<Rightarrow> nat) \<Rightarrow> nat \<Rightarrow> 'c cstate \<Rightarrow> bool" where
  "placed nl n s \<longleftrightarrow> (\<forall>t. in_range (nl t) (cpc s t)) \<and> (\<forall>t \<ge> n. cpc s t = C_none)"

lemma knows_outside: "\<not> crit pc \<Longrightarrow> knows d val l pc \<Longrightarrow> knows d val' l' pc"
  by (cases pc) auto

lemma sum_upd:
  fixes f :: "nat \<Rightarrow> 'a \<Rightarrow> nat"
  assumes "t < n"
  shows "(\<Sum>u<n. f u ((g(t := x)) u)) + f t (g t) = (\<Sum>u<n. f u (g u)) + f t x"
proof -
  have *: "(\<Sum>u<n. f u (h u)) = f t (h t) + (\<Sum>u\<in>{..<n} - {t}. f u (h u))" for h
    using assms by (simp add: sum.remove)
  have "(\<Sum>u\<in>{..<n} - {t}. f u ((g(t := x)) u)) = (\<Sum>u\<in>{..<n} - {t}. f u (g u))" by (rule sum.cong) auto
  then show ?thesis using * [of g] * [of "g(t := x)"] by simp
qed

lemma counted_goto:
  assumes "t < n"
  shows "counted d nl n (s\<lparr>cpc := (cpc s)(t := pc)\<rparr>) + done_iters d (nl t) (cpc s t) = counted d nl n s + done_iters d (nl t) pc"
  unfolding counted_def using sum_upd [OF assms, of "\<lambda>t. done_iters d (nl t)" "cpc s" pc] by simp

lemma counted_frame: "cpc s' = cpc s \<Longrightarrow> counted d nl n s' = counted d nl n s"
  by (simp add: counted_def)

lemma counted_le: "placed nl n s \<Longrightarrow> counted d nl n s \<le> (\<Sum>t<n. nl t)"
proof -
  have "in_range n pc \<Longrightarrow> done_iters d n pc \<le> n" for n pc by (cases pc) auto
  then show "placed nl n s \<Longrightarrow> counted d nl n s \<le> (\<Sum>t<n. nl t)"
    unfolding counted_def placed_def by (intro sum_mono) blast
qed

lemma locked_alone: "lock_ok k h s \<Longrightarrow> crit (cpc s t) \<Longrightarrow> crit (cpc s u) \<Longrightarrow> u = t"
  by (auto simp: lock_ok_def)

text \<open>A step of the process in the critical section that stays there.\<close>

lemma inside_inv:
  assumes inv: "counter_inv load good d nl n v0 s" and t: "t < n" "crit (cpc s t)" "crit pc"
    and s': "cpc s' = (cpc s)(t := pc)" "owner s' = owner s" "sems s' = sems s" "destroyed s' = destroyed s" "\<not> corrupt s'" "good (cell s')"
    and k: "knows d (load (cell s')) (upcoming v0 s') pc"
    and l: "map snd (lines s') = map (\<lambda>k. v0 + int k) [0..<length (lines s')]"
    and c: "length (lines s') + done_iters d (nl t) (cpc s t) = length (lines s) + done_iters d (nl t) pc"
  shows "counter_inv load good d nl n v0 s'"
proof -
  from inv obtain h where h: "lock_ok (kind d) h s" unfolding counter_inv_def by blast
  have alone: "u = t" if "crit (cpc s u)" for u using locked_alone [OF h t(2) that] .
  have "lock_ok (kind d) h s'" using h t s' unfolding lock_ok_def by (auto split: lock_kind.splits)
  moreover have "h \<noteq> None" using h t(2) by (auto simp: lock_ok_def)
  moreover have "knows d (load (cell s')) (upcoming v0 s') (cpc s' u)" for u
    using inv k alone [of u] s'(1) unfolding counter_inv_def by (cases "u = t") (auto intro: knows_outside)
  moreover have "counted d nl n s' = length (lines s')"
    using inv counted_goto [OF t(1), of d nl s pc] counted_frame [of s' "s\<lparr>cpc := (cpc s)(t := pc)\<rparr>" d nl n] s'(1) c
    unfolding counter_inv_def by simp
  ultimately show ?thesis unfolding counter_inv_def using s' l by blast
qed

text \<open>A step outside.\<close>

lemma outside_inv:
  assumes inv: "counter_inv load good d nl n v0 s" and t: "t < n" "\<not> crit (cpc s t)" "\<not> crit pc" "pc \<noteq> C_exit"
    and c: "done_iters d (nl t) (cpc s t) = done_iters d (nl t) pc"
  shows "counter_inv load good d nl n v0 (goto t pc s)"
proof -
  from inv obtain h where h: "lock_ok (kind d) h s" "h = None \<longrightarrow> load (cell s) = Some (upcoming v0 s)"
    unfolding counter_inv_def by blast
  have "lock_ok (kind d) h (goto t pc s)" using h t unfolding lock_ok_def goto_def by (auto split: lock_kind.splits)
  moreover have "knows d val l pc" for val l using t(3,4) by (cases pc) auto
  moreover have "counted d nl n (goto t pc s) = counted d nl n s"
    using counted_goto [OF t(1), of d nl s pc] c by (simp add: goto_def)
  ultimately show ?thesis using inv h(2) unfolding counter_inv_def by (auto simp: goto_def upcoming_def)
qed

lemma enter_inv:
  assumes inv: "counter_inv load good d nl n v0 s" and t: "t < n" "cpc s t = C_lock i"
    and u: "take_lock (kind d) t True s = Some u"
  shows "counter_inv load good d nl n v0 (goto t (C_fetch i) u)"
proof -
  from inv obtain h where h: "lock_ok (kind d) h s" "h = None \<longrightarrow> load (cell s) = Some (upcoming v0 s)"
    unfolding counter_inv_def by blast
  from h(1) u have free: "h = None" and same: "cell u = cell s" "cpc u = cpc s" "lines u = lines s" "corrupt u = corrupt s"
    and ok: "lock_ok (kind d) (Some t) (goto t (C_fetch i) u)"
    by (auto simp: lock_ok_def take_lock_def which_sem_def goto_def split: lock_kind.splits if_splits)
  have out: "\<not> crit (cpc s v)" for v using h(1) free by (simp add: lock_ok_def)
  have "counted d nl n (goto t (C_fetch i) u) = counted d nl n s"
    using counted_goto [OF t(1), of d nl s "C_fetch i"] counted_frame [of "goto t (C_fetch i) u" "goto t (C_fetch i) s"] t(2) same
    by (simp add: goto_def)
  then show ?thesis
    using inv ok h(2) free same out unfolding counter_inv_def
    by (auto simp: goto_def upcoming_def intro: knows_outside)
qed

lemma leave_inv:
  assumes inv: "counter_inv load good d nl n v0 s" and t: "t < n" "cpc s t = C_unlock i"
  shows "counter_inv load good d nl n v0 (goto t (C_for (i + 1)) (release_lock (kind d) t s))"
proof -
  let ?u = "release_lock (kind d) t s"
  from inv obtain h where h: "lock_ok (kind d) h s" unfolding counter_inv_def by blast
  have held: "h = Some t" using h t(2) unfolding lock_ok_def by (metis crit.simps(4))
  have ok: "lock_ok (kind d) None (goto t (C_for (i + 1)) ?u)"
    and same: "cell ?u = cell s" "cpc ?u = cpc s" "lines ?u = lines s" "corrupt ?u = corrupt s"
    using h held by (auto simp: lock_ok_def release_lock_def which_sem_def goto_def sem_post_def split: lock_kind.splits)
  have "load (cell s) = Some (upcoming v0 s)" using inv t(2) unfolding counter_inv_def by (metis knows.simps(4))
  moreover have "counted d nl n (goto t (C_for (i + 1)) ?u) = counted d nl n s"
    using counted_goto [OF t(1), of d nl s "C_for (i + 1)"] counted_frame [of "goto t (C_for (i + 1)) ?u" "goto t (C_for (i + 1)) s"] t(2) same
    by (simp add: goto_def)
  ultimately show ?thesis
    using inv ok same unfolding counter_inv_def by (auto simp: goto_def upcoming_def)
qed

lemma cstep_placed:
  assumes "placed nl n s" and "cstep load save limit d nl t ok s = Some s'"
  shows "placed nl n s'" and "t < n"
proof -
  have *: "placed nl n (goto t pc u)" if "cpc u = cpc s" "in_range (nl t) pc" "t < n" for pc u
    using assms(1) that by (auto simp: placed_def goto_def)
  have frame: "cpc (release_lock k t s) = cpc s" "take_lock k t ok s = Some u \<Longrightarrow> cpc u = cpc s" for k u
    by (auto simp: release_lock_def take_lock_def corrupted_def split: if_splits)
  show t: "t < n" using assms by (cases "t < n") (auto simp: placed_def cstep_def split: if_splits)
  have r: "in_range (nl t) (cpc s t)" using assms(1) by (simp add: placed_def)
  have c: "placed nl n (corrupted s)" using assms(1) by (simp add: placed_def corrupted_def)
  show "placed nl n s'"
    using assms(2) r t c unfolding cstep_def
    by (auto simp: die_def frame intro!: * split: cpc.splits if_splits option.splits)
qed

text \<open>The next value to print is within bounds, and strictly so while some process has an iteration left.\<close>

lemma upcoming_le:
  assumes "counter_inv load good d nl n v0 s" and "placed nl n s" and "v0 + int (\<Sum>t<n. nl t) \<le> limit"
  shows "upcoming v0 s \<le> limit"
  using assms counted_le [OF assms(2), of d] by (simp add: counter_inv_def upcoming_def del: of_nat_sum)

lemma upcoming_less:
  assumes inv: "counter_inv load good d nl n v0 s" and pl: "placed nl n s" and b: "v0 + int (\<Sum>t<n. nl t) \<le> limit"
    and t: "t < n" "done_iters d (nl t) (cpc s t) < nl t"
  shows "upcoming v0 s + 1 \<le> limit"
proof -
  have "placed nl n (s\<lparr>cpc := (cpc s)(t := C_return)\<rparr>)" using pl t(1) by (auto simp: placed_def)
  from counted_le [OF this, of d] counted_goto [OF t(1), of d nl s C_return] t(2)
  have "counted d nl n s < (\<Sum>t<n. nl t)" by simp
  then show ?thesis using inv b by (simp add: counter_inv_def upcoming_def del: of_nat_sum)
qed

context counter_cell
begin

lemma cstep_inv:
  assumes inv: "counter_inv load good d nl n v0 s" and pl: "placed nl n s" and v0: "0 \<le> v0" "v0 + int (\<Sum>t<n. nl t) \<le> limit"
    and step: "cstep load save limit d nl t True s = Some s'"
  shows "counter_inv load good d nl n v0 s'"
proof -
  have t: "t < n" using cstep_placed(2) [OF pl step] .
  have r: "in_range (nl t) (cpc s t)" using pl by (simp add: placed_def)
  have k: "knows d (load (cell s)) (upcoming v0 s) (cpc s t)" and nc: "\<not> corrupt s" and gd: "good (cell s)"
    and ls: "map snd (lines s) = map (\<lambda>k. v0 + int k) [0..<length (lines s)]"
    using inv by (auto simp: counter_inv_def)
  have up: "0 \<le> upcoming v0 s" using v0(1) by (simp add: upcoming_def)
  show ?thesis
  proof (cases "cpc s t")
    case (C_for i)
    then have "s' = goto t (if i < nl t then C_lock i else C_return) s" using step nc by (simp add: cstep_def)
    then show ?thesis using outside_inv [OF inv t] C_for r by auto
  next
    case (C_lock i)
    then show ?thesis using step nc enter_inv [OF inv t C_lock] by (auto simp: cstep_def)
  next
    case (C_fetch i)
    then have "s' = goto t (if print_first d then C_print i (upcoming v0 s) else C_store i (upcoming v0 s)) s"
      using step nc k by (simp add: cstep_def)
    then show ?thesis
      using C_fetch k ls gd nc by (intro inside_inv [OF inv t]) (auto simp: goto_def upcoming_def)
  next
    case (C_store i v)
    have bound: "v + 1 \<le> limit" "0 \<le> v + 1"
      using C_store k r upcoming_le [OF inv pl v0(2)] upcoming_less [OF inv pl v0(2) t] up by (auto split: if_splits)
    then have "s' = goto t (if print_first d then C_unlock i else C_print i v) (s\<lparr>cell := save (v + 1) (cell s)\<rparr>)"
      using step nc C_store by (simp add: cstep_def)
    then show ?thesis
      using C_store k ls nc good_save [OF gd bound(2,1)] load_save [OF gd bound(2,1)]
      by (intro inside_inv [OF inv t]) (auto simp: goto_def upcoming_def)
  next
    case (C_print i v)
    then have "s' = goto t (if print_first d then C_store i v else C_unlock i) (s\<lparr>lines := lines s @ [(t, v)]\<rparr>)"
      using step nc by (simp add: cstep_def)
    then show ?thesis
      using C_print k ls nc gd by (intro inside_inv [OF inv t]) (auto simp: goto_def upcoming_def)
  next
    case (C_unlock i)
    then show ?thesis using step nc leave_inv [OF inv t C_unlock] by (auto simp: cstep_def)
  qed (use step nc in \<open>auto simp: cstep_def\<close>)
qed

end

section \<open>Termination and progress\<close>

fun left_steps :: "loop_desc \<Rightarrow> nat \<Rightarrow> cpc \<Rightarrow> nat" where
  "left_steps d n (C_for i) = 6 * (n - i) + 1"
| "left_steps d n (C_lock i) = 6 * (n - i)"
| "left_steps d n (C_fetch i) = 6 * (n - i) - 1"
| "left_steps d n (C_store i _) = 6 * (n - i) - (if print_first d then 3 else 2)"
| "left_steps d n (C_print i _) = 6 * (n - i) - (if print_first d then 2 else 3)"
| "left_steps d n (C_unlock i) = 6 * (n - i) - 4"
| "left_steps d n _ = 0"

definition crank :: "loop_desc \<Rightarrow> (nat \<Rightarrow> nat) \<Rightarrow> nat \<Rightarrow> 'c cstate \<Rightarrow> nat" where
  "crank d nl n s = (\<Sum>t<n. left_steps d (nl t) (cpc s t)) + (if corrupt s then 0 else 1)"

lemma crank_goto:
  assumes "t < n" and "cpc u = cpc s" and "\<not> corrupt s" and "left_steps d (nl t) pc < left_steps d (nl t) (cpc s t)"
  shows "crank d nl n (goto t pc u) < crank d nl n s"
  using sum_upd [OF assms(1), of "\<lambda>t. left_steps d (nl t)" "cpc s" pc] assms(2-4) by (simp add: crank_def goto_def)

lemma cstep_rank:
  assumes pl: "placed nl n s" and step: "cstep load save limit d nl t ok s = Some s'"
  shows "crank d nl n s' < crank d nl n s"
proof -
  note t = cstep_placed(2) [OF pl step]
  have nc: "\<not> corrupt s" using step by (auto simp: cstep_def)
  have c: "crank d nl n (corrupted s) < crank d nl n s" using nc by (simp add: crank_def corrupted_def)
  have r: "in_range (nl t) (cpc s t)" using pl by (simp add: placed_def)
  have frame: "cpc (release_lock k t s) = cpc s" "take_lock k t ok s = Some u \<Longrightarrow> cpc u = cpc s" for k u
    by (auto simp: release_lock_def take_lock_def corrupted_def split: if_splits)
  show ?thesis
    using step r nc c unfolding cstep_def die_def
    by (auto simp: frame intro!: crank_goto [OF t _ nc] split: cpc.splits if_splits option.splits)
qed

definition all_returned :: "nat \<Rightarrow> 'c cstate \<Rightarrow> bool" where
  "all_returned n s \<longleftrightarrow> (\<forall>t<n. cpc s t = C_return)"

lemma cstep_inside: "crit (cpc s t) \<Longrightarrow> \<not> corrupt s \<Longrightarrow> \<exists>s'. cstep load save limit d nl t ok s = Some s'"
  by (cases "cpc s t") (auto simp: cstep_def)

lemma cstep_progress:
  assumes inv: "counter_inv load good d nl n v0 s" and "cpc s t \<noteq> C_return" and "cpc s t \<noteq> C_none"
  shows "\<exists>u s'. cstep load save limit d nl u True s = Some s'"
proof -
  from inv obtain h where h: "lock_ok (kind d) h s" and nc: "\<not> corrupt s" and k: "knows d (load (cell s)) (upcoming v0 s) (cpc s t)"
    unfolding counter_inv_def by blast
  show ?thesis
  proof (cases h)
    case (Some u)
    then have "crit (cpc s u)" using h by (simp add: lock_ok_def)
    then show ?thesis using cstep_inside nc by blast
  next
    case None
    then have out: "\<not> crit (cpc s t)" and free: "\<exists>u. take_lock (kind d) t True s = Some u"
      using h by (auto simp: lock_ok_def take_lock_def which_sem_def mutex_lock_def sem_wait_def split: lock_kind.splits)
    show ?thesis
      using assms(2,3) out k nc free by (intro exI [of _ t], cases "cpc s t") (auto simp: cstep_def)
  qed
qed

text \<open>What a completed run has printed: the numbers from the start on, one for every iteration.\<close>

lemma counter_outcome:
  assumes inv: "counter_inv load good d nl n v0 s" and pl: "placed nl n s" and ret: "all_returned n s"
  shows "map snd (lines s) = map (\<lambda>k. v0 + int k) [0..<(\<Sum>t<n. nl t)] \<and> load (cell s) = Some (v0 + int (\<Sum>t<n. nl t))"
proof -
  have "counted d nl n s = (\<Sum>t<n. nl t)"
    unfolding counted_def using ret by (intro sum.cong) (auto simp: all_returned_def)
  then have l: "length (lines s) = (\<Sum>t<n. nl t)" using inv by (simp add: counter_inv_def)
  have "\<not> crit (cpc s t)" for t using pl ret by (cases "t < n") (auto simp: placed_def all_returned_def)
  then have "load (cell s) = Some (upcoming v0 s)" using inv by (auto simp: counter_inv_def lock_ok_def)
  with inv l show ?thesis unfolding counter_inv_def upcoming_def by metis
qed

section \<open>The record lock\<close>

lemma length_show_nat: "n < 10 ^ k \<Longrightarrow> 0 < k \<Longrightarrow> length (show_nat n) \<le> k"
proof (induction n arbitrary: k rule: show_nat.induct)
  case (1 n)
  show ?case
  proof (cases "n < 10")
    case False
    then obtain j where j: "k = Suc j" "0 < j" using "1.prems" by (cases k; cases "k - 1") auto
    then have "length (show_nat (n div 10)) \<le> j" using "1.IH" [OF False, of j] "1.prems" by (simp add: less_mult_imp_div_less mult.commute)
    then show ?thesis using False j by (subst show_nat.simps) simp
  qed (use "1.prems" in \<open>subst show_nat.simps, simp\<close>)
qed

lemma has_number_show_int: "0 \<le> v \<Longrightarrow> has_number (show_int v @ r)"
proof -
  assume "0 \<le> v"
  moreover obtain c cs where "show_nat (nat v) = c # cs" "is_digit c" using show_nat_hd_digit by blast
  moreover from this have "\<not> is_space c" using digit_not_special by (auto simp: is_space_def is_digit_def)
  ultimately show ?thesis by (simp add: has_number_def show_int_def)
qed

definition seq_good :: "string \<Rightarrow> bool" where
  "seq_good f \<longleftrightarrow> length f < MAXSIZE"

interpretation seq: counter_cell seq_load seq_store seq_good LONG_MAX
proof unfold_locales
  fix c v
  assume g: "seq_good c" and v: "0 \<le> v" "v \<le> LONG_MAX"
  have "length (show_int v) \<le> 19"
    using v length_show_nat [of "nat v" 19] by (simp add: show_int_def LONG_MAX_def)
  then show good: "seq_good (seq_store v c)" using g by (simp add: seq_good_def seq_store_def MAXSIZE_def Let_def)
  have "cstr (seq_store v c) = show_int v @ NL # cstr (drop (Suc (length (show_int v))) c)"
    using show_int_NUL_free [of v] by (simp add: seq_store_def Let_def cstr_def, subst takeWhile_append2) auto
  then show "seq_load (seq_store v c) = Some v"
    using good v(1) has_number_show_int [OF v(1)] atol_show_int [of "NL # r" v for r]
    by (simp add: seq_load_def seq_good_def digit_stop_def is_digit_def)
qed

text \<open>The file at the start, and room for the increments.\<close>

definition seq_ok :: "string \<Rightarrow> nat \<Rightarrow> bool" where
  "seq_ok f n \<longleftrightarrow> seq_good f \<and> (case seq_load f of None \<Rightarrow> False | Some v \<Rightarrow> 0 \<le> v \<and> v + 20 * int n \<le> LONG_MAX)"

definition seq_value :: "string \<Rightarrow> int" where
  "seq_value f = (case seq_load f of None \<Rightarrow> 0 | Some v \<Rightarrow> v)"

lemma seq_start_placed: "placed (\<lambda>_. 20) n (seq_start f n)"
  by (simp add: placed_def seq_start_def)

lemma seq_start_inv: "seq_ok f n \<Longrightarrow> counter_inv seq_load seq_good lockfcntl_desc (\<lambda>_. 20) n (seq_value f) (seq_start f n)"
  by (auto simp: counter_inv_def seq_ok_def seq_value_def seq_start_def lock_ok_def lockfcntl_desc_def upcoming_def counted_def split: option.splits)

definition lockfcntl_inv :: "string \<Rightarrow> nat \<Rightarrow> string cstate \<Rightarrow> bool" where
  "lockfcntl_inv f n s \<longleftrightarrow> placed (\<lambda>_. 20) n s \<and>
     (seq_ok f n \<longrightarrow> counter_inv seq_load seq_good lockfcntl_desc (\<lambda>_. 20) n (seq_value f) s \<and> (\<forall>t<n. cpc s t \<noteq> C_none))"

lemma cstep_started: "cstep load save limit d nl t ok s = Some s' \<Longrightarrow> cpc s u \<noteq> C_none \<Longrightarrow> cpc s' u \<noteq> C_none"
  by (auto simp: cstep_def goto_def die_def corrupted_def take_lock_def release_lock_def split: cpc.splits if_splits option.splits)

lemma cstep_returned:
  assumes "cstep load save limit d nl t ok s = Some s'" and "cpc s u = C_return"
  shows "cpc s' u = C_return"
proof (cases "u = t")
  case False
  then show ?thesis
    using assms by (auto simp: cstep_def goto_def die_def corrupted_def take_lock_def release_lock_def split: cpc.splits if_splits option.splits)
qed (use assms in \<open>simp add: cstep_def split: if_splits\<close>)

interpretation lockfcntl: terminating_system "\<lambda>t. lockfcntl_step (t, True)" "seq_start f n" "lockfcntl_inv f n"
  "crank lockfcntl_desc (\<lambda>_. 20) n" "\<lambda>s. seq_ok f n \<longrightarrow> all_returned n s" UNIV
proof unfold_locales
  show "lockfcntl_inv f n (seq_start f n)"
    using seq_start_placed seq_start_inv by (simp add: lockfcntl_inv_def) (simp add: seq_start_def)
next
  fix s t s'
  assume i: "lockfcntl_inv f n s" and "lockfcntl_step (t, True) s = Some s'"
  then have step: "cstep seq_load seq_store LONG_MAX lockfcntl_desc (\<lambda>_. 20) t True s = Some s'" by (simp add: lockfcntl_step_def)
  have "seq_ok f n \<Longrightarrow> 0 \<le> seq_value f \<and> seq_value f + int (\<Sum>t<n. 20) \<le> LONG_MAX"
    by (auto simp: seq_ok_def seq_value_def mult.commute split: option.splits)
  then show "lockfcntl_inv f n s'"
    using i seq.cstep_inv [OF _ _ _ _ step] cstep_placed(1) [OF _ step] cstep_started [OF step] unfolding lockfcntl_inv_def by blast
  show "crank lockfcntl_desc (\<lambda>_. 20) n s' < crank lockfcntl_desc (\<lambda>_. 20) n s"
    using i cstep_rank [OF _ step] unfolding lockfcntl_inv_def by blast
next
  fix s
  assume "lockfcntl_inv f n s" and "\<not> (seq_ok f n \<longrightarrow> all_returned n s)"
  then show "\<exists>t\<in>UNIV. \<exists>s'. lockfcntl_step (t, True) s = Some s'"
    using cstep_progress [where load = seq_load and good = seq_good and d = lockfcntl_desc] 
    unfolding lockfcntl_inv_def all_returned_def lockfcntl_step_def by (simp, blast)
qed

lemma run_ok: "run step (map (\<lambda>t. (t, True)) ts) s = run (\<lambda>t. step (t, True)) ts s"
  by (induction ts arbitrary: s) (auto split: option.splits)

text \<open>
  C7. lockfcntl, run by any number of processes on a file with a number that leaves room for the increments: under every schedule the
  processes together print consecutive numbers from that number on, never one twice; they cannot block for ever,
  end after at most 121 steps each, and then the file has been incremented 20 times for every process.
\<close>

theorem lockfcntl_correct:
  assumes "seq_load f = Some v" and "0 \<le> v" and "v + 20 * int n \<le> LONG_MAX" and "length f < MAXSIZE"
    and "run lockfcntl_step (map (\<lambda>t. (t, True)) ts) (seq_start f n) = Some s"
  shows "map snd (lines s) = map (\<lambda>k. v + int k) [0..<length (lines s)] \<and> length ts \<le> 121 * n + 1 \<and>
    (stuck UNIV (\<lambda>t. lockfcntl_step (t, True)) s \<longrightarrow>
       all_returned n s \<and> length (lines s) = 20 * n \<and> seq_load (cell s) = Some (v + 20 * int n))"
proof -
  have ok: "seq_ok f n" "seq_value f = v" using assms(1-4) by (simp_all add: seq_ok_def seq_good_def seq_value_def)
  have r: "run (\<lambda>t. lockfcntl_step (t, True)) ts (seq_start f n) = Some s" using assms(5) by (simp add: run_ok)
  have pl: "placed (\<lambda>_. 20) n s" and inv: "counter_inv seq_load seq_good lockfcntl_desc (\<lambda>_. 20) n v s"
    using lockfcntl.run_inv [OF r] ok by (simp_all add: lockfcntl_inv_def)
  have "crank lockfcntl_desc (\<lambda>_. 20) n (seq_start f n) = 121 * n + 1" by (simp add: crank_def seq_start_def)
  then have b: "length ts \<le> 121 * n + 1" using lockfcntl.run_bounded [OF r] by simp
  have fin: "stuck UNIV (\<lambda>t. lockfcntl_step (t, True)) s \<Longrightarrow> all_returned n s" using lockfcntl.stuck_final [OF r] ok by simp
  have "all_returned n s \<Longrightarrow> length (lines s) = 20 * n \<and> seq_load (cell s) = Some (v + 20 * int n)"
    using counter_outcome [OF inv pl] by (auto simp: mult.commute dest: arg_cong [of _ _ length])
  with fin b inv show ?thesis by (auto simp: counter_inv_def)
qed

theorem lockfcntl_correct_witness:
  "\<exists>s. run lockfcntl_step (map (\<lambda>t. (t, True)) [0, 0, 0, 0, 1, 0]) (seq_start (''7'' @ [NL]) 2) = Some s \<and>
     map snd (lines s) = [7] \<and> length [0, 0, 0, 0, 1, 0 :: nat] \<le> 121 * 2 + (1 :: nat)"
proof -
  have "map_option (\<lambda>s. length (lines s)) (run lockfcntl_step (map (\<lambda>t. (t, True)) [0, 0, 0, 0, 1, 0]) (seq_start (''7'' @ [NL]) 2)) = Some 1"
    by code_simp
  then obtain s where s: "run lockfcntl_step (map (\<lambda>t. (t, True)) [0, 0, 0, 0, 1, 0]) (seq_start (''7'' @ [NL]) 2) = Some s" "length (lines s) = 1"
    by auto
  have "seq_load (''7'' @ [NL]) = Some 7" by code_simp
  with lockfcntl_correct [of "''7'' @ [NL]" 7 2, OF _ _ _ _ s(1)] s show ?thesis by (auto simp: LONG_MAX_def MAXSIZE_def)
qed

text \<open>Without a lock two processes get the same number.\<close>

lemma locknone_duplicates:
  "map_option lines (run locknone_step (map (\<lambda>t. (t, True)) [0, 0, 0, 1, 1, 1, 0, 1]) (seq_start (''7'' @ [NL]) 2)) = Some [(0, 7), (1, 7)]"
  by code_simp

section \<open>Clients of a counter in shared memory\<close>

definition client1_ok :: "(nat \<Rightarrow> nat) \<Rightarrow> nat \<Rightarrow> bool" where
  "client1_ok nl n \<longleftrightarrow> int (\<Sum>t<n. nl t) \<le> INT_MAX"

definition client1_inv :: "(nat \<Rightarrow> nat) \<Rightarrow> nat \<Rightarrow> int cstate \<Rightarrow> bool" where
  "client1_inv nl n s \<longleftrightarrow> placed nl n s \<and>
     (client1_ok nl n \<longrightarrow> counter_inv mem_load (\<lambda>_. True) client1_desc nl n 0 s \<and> (\<forall>t<n. cpc s t \<noteq> C_none))"

interpretation client1: terminating_system "\<lambda>t. client1_step nl (t, True)" "client1_start n" "client1_inv nl n"
  "crank client1_desc nl n" "\<lambda>s. client1_ok nl n \<longrightarrow> all_returned n s" UNIV
proof unfold_locales
  show "client1_inv nl n (client1_start n)"
    by (auto simp: client1_inv_def placed_def client1_start_def counter_inv_def lock_ok_def client1_desc_def upcoming_def counted_def mem_load_def)
next
  fix s t s'
  assume i: "client1_inv nl n s" and "client1_step nl (t, True) s = Some s'"
  then have step: "cstep mem_load mem_store INT_MAX client1_desc nl t True s = Some s'" by (simp add: client1_step_def)
  have "client1_ok nl n \<Longrightarrow> (0::int) + int (\<Sum>t<n. nl t) \<le> INT_MAX" by (simp add: client1_ok_def)
  then show "client1_inv nl n s'"
    using i mem.cstep_inv [OF _ _ order_refl _ step] cstep_placed(1) [OF _ step] cstep_started [OF step] unfolding client1_inv_def by blast
  show "crank client1_desc nl n s' < crank client1_desc nl n s"
    using i cstep_rank [OF _ step] unfolding client1_inv_def by blast
next
  fix s
  assume "client1_inv nl n s" and "\<not> (client1_ok nl n \<longrightarrow> all_returned n s)"
  then show "\<exists>t\<in>UNIV. \<exists>s'. client1_step nl (t, True) s = Some s'"
    using cstep_progress [where load = mem_load and good = "\<lambda>_. True" and d = client1_desc]
    unfolding client1_inv_def all_returned_def client1_step_def by (simp, blast)
qed

text \<open>The clients of server1 together print the numbers from 0 on, whatever the schedule.\<close>

lemma client1_correct:
  assumes "int (\<Sum>t<n. nl t) \<le> INT_MAX" and "run (client1_step nl) (map (\<lambda>t. (t, True)) ts) (client1_start n) = Some s"
  shows "map snd (lines s) = map int [0..<length (lines s)]"
    and "stuck UNIV (\<lambda>t. client1_step nl (t, True)) s \<Longrightarrow> all_returned n s \<and> length (lines s) = (\<Sum>t<n. nl t)"
proof -
  have ok: "client1_ok nl n" using assms(1) by (simp add: client1_ok_def)
  have r: "run (\<lambda>t. client1_step nl (t, True)) ts (client1_start n) = Some s" using assms(2) by (simp add: run_ok)
  have pl: "placed nl n s" and inv: "counter_inv mem_load (\<lambda>_. True) client1_desc nl n 0 s"
    using client1.run_inv [OF r] ok by (simp_all add: client1_inv_def)
  show "map snd (lines s) = map int [0..<length (lines s)]" using inv by (simp add: counter_inv_def)
  assume "stuck UNIV (\<lambda>t. client1_step nl (t, True)) s"
  then have a: "all_returned n s" using client1.stuck_final [OF r] ok by simp
  show "all_returned n s \<and> length (lines s) = (\<Sum>t<n. nl t)"
    using counter_outcome [OF inv pl a] a by (auto dest: arg_cong [of _ _ length])
qed

section \<open>Parent and child\<close>

text \<open>In \<open>incr\<close> no call on the semaphore fails; those before the \<open>fork\<close>, and the \<open>fork\<close>, may.\<close>

definition incr_step :: "string list \<Rightarrow> shm_act \<Rightarrow> shm_state \<Rightarrow> shm_state option" where
  "incr_step argv a s = (case a of Proc t False \<Rightarrow> None | _ \<Rightarrow> shm_step incr argv a s)"

definition incr_loops :: "string list \<Rightarrow> nat" where
  "incr_loops argv = nat (atoi (argv ! 2))"

definition fresh :: "nat \<Rightarrow> int cstate" where
  "fresh v = (procs shm_start)\<lparr>sems := (\<lambda>_. v)\<rparr>"

definition incr_ok :: "string list \<Rightarrow> bool" where
  "incr_ok argv \<longleftrightarrow> 2 * int (incr_loops argv) \<le> INT_MAX"

definition incr_procs :: "string list \<Rightarrow> int cstate \<Rightarrow> bool" where
  "incr_procs argv c \<longleftrightarrow> placed (\<lambda>_. incr_loops argv) 2 c \<and> cpc c 0 \<noteq> C_none \<and>
     (incr_ok argv \<longrightarrow> counter_inv mem_load (\<lambda>_. True) (shm_loop incr) (\<lambda>_. incr_loops argv) 2 0 c)"

definition incr_inv :: "string list \<Rightarrow> shm_state \<Rightarrow> bool" where
  "incr_inv argv s \<longleftrightarrow> (mpc s = M_args \<or> length argv = 3 \<and> nloop s = incr_loops argv \<or> mpc s = M_exit 1) \<and> (case mpc s of
     M_args \<Rightarrow> procs s = fresh 0
   | M_setup j \<Rightarrow> j \<le> 5 \<and> procs s = fresh (if j > 3 then 1 else 0)
   | M_fork \<Rightarrow> procs s = fresh 1
   | M_loop \<Rightarrow> incr_procs argv (procs s)
   | M_exit c \<Rightarrow> c = 1 \<and> (\<exists>v. procs s = fresh v) \<or> c = 0 \<and> incr_procs argv (procs s) \<and> cpc (procs s) 0 = C_return)"

fun m_rank :: "nat \<Rightarrow> main_pc \<Rightarrow> nat" where
  "m_rank k M_args = k + 10"
| "m_rank k (M_setup j) = k + 9 - j"
| "m_rank k M_fork = k + 3"
| "m_rank k M_loop = 1"
| "m_rank k (M_exit c) = 0"

definition incr_rank :: "string list \<Rightarrow> shm_state \<Rightarrow> nat" where
  "incr_rank argv s = m_rank (2 * (6 * incr_loops argv + 1)) (mpc s) + crank (shm_loop incr) (\<lambda>_. incr_loops argv) 2 (procs s)"

definition incr_final :: "string list \<Rightarrow> shm_state \<Rightarrow> bool" where
  "incr_final argv s \<longleftrightarrow> (incr_ok argv \<longrightarrow> mpc s = M_exit 1 \<or>
     mpc s = M_exit 0 \<and> cpc (procs s) 0 = C_return \<and> cpc (procs s) 1 \<in> {C_return, C_none})"

lemma fork_procs: "incr_procs argv ((if ok then goto 1 (C_for 0) else id) (goto 0 (C_for 0) (fresh 1)))"
proof -
  have "counter_inv mem_load (\<lambda>_. True) (shm_loop incr) (\<lambda>_. incr_loops argv) 2 0 ((if ok then goto 1 (C_for 0) else id) (goto 0 (C_for 0) (fresh 1)))"
    unfolding counter_inv_def
    by (intro conjI exI [of _ None])
      (auto simp: goto_def fresh_def shm_start_def lock_ok_def shm_loop_def incr_def upcoming_def mem_load_def counted_def numeral_2_eq_2)
  moreover have "placed (\<lambda>_. incr_loops argv) 2 ((if ok then goto 1 (C_for 0) else id) (goto 0 (C_for 0) (fresh 1)))"
    by (auto simp: placed_def goto_def fresh_def shm_start_def)
  ultimately show ?thesis by (auto simp: incr_procs_def goto_def)
qed

lemma setup_call_incr:
  assumes "j < 5"
  shows "setup_call incr (calls incr ! j) ok j s = (if ok
    then s\<lparr>mpc := M_setup (j + 1), procs := (procs s)\<lparr>sems := (if j = 3 then (\<lambda>_. 1) else sems (procs s))\<rparr>\<rparr> else s\<lparr>mpc := M_exit 1\<rparr>)"
proof -
  from assms consider "j = 0" | "j = 1" | "j = 2" | "j = 3" | "j = 4" by linarith
  then show ?thesis by cases (simp_all add: setup_call_def incr_def creates_sem_def numeral_3_eq_3 numeral_2_eq_2)
qed

lemma incr_main_inv:
  assumes inv: "incr_inv argv s" and step: "shm_main incr argv ok s = Some s'"
  shows "incr_inv argv s'"
proof (cases "mpc s")
  case M_args
  then show ?thesis
    using assms by (cases "length argv = 3") (auto simp: incr_inv_def shm_main_def incr_def incr_loops_def)
next
  case (M_setup j)
  have l: "length (calls incr) = 5" by (simp add: incr_def)
  have f: "(fresh v)\<lparr>sems := \<lambda>_. w\<rparr> = fresh w" for v w by (simp add: fresh_def)
  have g: "(fresh v)\<lparr>sems := sems (fresh v)\<rparr> = fresh v" for v by simp
  show ?thesis
  proof (cases "j < 5")
    case True
    then have "s' = setup_call incr (calls incr ! j) ok j s" using step M_setup l by (simp add: shm_main_def)
    then show ?thesis
      using inv M_setup True unfolding setup_call_incr [OF True] by (auto simp: incr_inv_def f g)
  next
    case False
    then show ?thesis using inv step M_setup l by (auto simp: shm_main_def incr_inv_def)
  qed
next
  case M_fork
  then show ?thesis using assms fork_procs [of argv ok] by (auto simp: incr_inv_def shm_main_def)
next
  case M_loop
  have d: "counter_inv ld gd d nl n v (c\<lparr>destroyed := False\<rparr>)" if "counter_inv ld gd d nl n v c" for ld gd d nl n v and c :: "int cstate"
  proof -
    have "lock_ok k h c \<Longrightarrow> lock_ok k h (c\<lparr>destroyed := False\<rparr>)" for k h by (auto simp: lock_ok_def split: lock_kind.splits)
    with that show ?thesis unfolding counter_inv_def counted_def upcoming_def by (simp, blast)
  qed
  have s': "s' = s\<lparr>mpc := M_exit 0, procs := (procs s)\<lparr>destroyed := False\<rparr>\<rparr>" and c: "cpc (procs s) 0 = C_return"
    using step M_loop by (auto simp: shm_main_def incr_def split: if_splits)
  have "incr_procs argv ((procs s)\<lparr>destroyed := False\<rparr>)"
    using inv M_loop d [of mem_load "\<lambda>_. True" "shm_loop incr" "\<lambda>_. incr_loops argv" 2 0 "procs s"]
    by (simp add: incr_inv_def incr_procs_def placed_def)
  then show ?thesis using inv M_loop c unfolding s' by (simp add: incr_inv_def)
next
  case (M_exit c)
  then show ?thesis using step by (simp add: shm_main_def)
qed

lemma incr_proc_inv:
  assumes inv: "incr_inv argv s" and step: "cstep mem_load mem_store INT_MAX (shm_loop incr) (\<lambda>_. nloop s) t True (procs s) = Some c"
  shows "incr_inv argv (s\<lparr>procs := c\<rparr>)" and "nloop s = incr_loops argv" and "placed (\<lambda>_. incr_loops argv) 2 (procs s)"
proof -
  have none: False if "procs s = fresh v" for v using step that by (auto simp: cstep_def fresh_def shm_start_def split: if_splits)
  then have p: "incr_procs argv (procs s)" "nloop s = incr_loops argv" "mpc s = M_loop \<or> mpc s = M_exit 0 \<and> cpc (procs s) 0 = C_return"
    using inv by (auto simp: incr_inv_def split: main_pc.splits if_splits)
  note step' = step [unfolded p(2)]
  show pl: "placed (\<lambda>_. incr_loops argv) 2 (procs s)" and "nloop s = incr_loops argv" using p by (auto simp: incr_procs_def)
  have b: "incr_ok argv \<Longrightarrow> (0::int) + int (\<Sum>t<(2::nat). incr_loops argv) \<le> INT_MAX" by (simp add: incr_ok_def)
  have "incr_procs argv c"
    using p(1) cstep_placed(1) [OF pl step'] cstep_started [OF step'] mem.cstep_inv [OF _ pl order_refl b step'] unfolding incr_procs_def by blast
  moreover have "cpc (procs s) 0 = C_return \<Longrightarrow> cpc c 0 = C_return"
    using cstep_returned [OF step'] .
  ultimately show "incr_inv argv (s\<lparr>procs := c\<rparr>)"
    using inv p by (auto simp: incr_inv_def)
qed

lemma incr_stepE:
  assumes "incr_step argv a s = Some s'"
  obtains (Main) ok where "a = Main ok" "\<not> corrupt (procs s)" "shm_main incr argv ok s = Some s'"
  | (Proc) t c where "a = Proc t True" "cstep mem_load mem_store INT_MAX (shm_loop incr) (\<lambda>_. nloop s) t True (procs s) = Some c" "s' = s\<lparr>procs := c\<rparr>"
  using assms by (auto simp: incr_step_def split: shm_act.splits bool.splits if_splits)

lemma incr_main_rank:
  assumes inv: "incr_inv argv s" and step: "shm_main incr argv ok s = Some s'"
  shows "incr_rank argv s' < incr_rank argv s"
proof -
  have f: "crank d nl n (fresh v) = 1" for d nl n v by (simp add: crank_def fresh_def shm_start_def)
  have g: "crank d (\<lambda>_. k) 2 ((if ok then goto 1 (C_for 0) else id) (goto 0 (C_for 0) (fresh 1))) \<le> 2 * (6 * k + 1) + 1" for d k
    by (auto simp: crank_def fresh_def shm_start_def goto_def numeral_2_eq_2)
  have h: "crank d nl n (c\<lparr>destroyed := x\<rparr>) = crank d nl n c" for d nl n x and c :: "int cstate" by (simp add: crank_def)
  have k: "crank d nl n (c\<lparr>sems := x\<rparr>) = crank d nl n c" for d nl n x and c :: "int cstate" by (simp add: crank_def)
  have l: "length (calls incr) = 5" by (simp add: incr_def)
  show ?thesis
  proof (cases "mpc s")
    case (M_setup j)
    then have "j \<le> 5" using inv by (simp add: incr_inv_def)
    with M_setup show ?thesis
      using step setup_call_incr [of j ok s] l by (cases "j < 5") (auto simp: shm_main_def incr_rank_def k)
  next
    case M_fork
    then have "procs s = fresh 1" using inv by (simp add: incr_inv_def)
    then show ?thesis using step M_fork f g [of "shm_loop incr" "incr_loops argv"] by (auto simp: shm_main_def incr_rank_def)
  qed (use step in \<open>auto simp: shm_main_def incr_rank_def h split: if_splits\<close>)
qed

lemma incr_progress:
  assumes inv: "incr_inv argv s" and nf: "\<not> incr_final argv s"
  shows "\<exists>a\<in>insert (Main True) (range (\<lambda>t. Proc t True)). \<exists>s'. incr_step argv a s = Some s'"
proof -
  have ok: "incr_ok argv" using nf by (simp add: incr_final_def)
  have main: "\<exists>s'. incr_step argv (Main True) s = Some s'" if "\<exists>s'. shm_main incr argv True s = Some s'" "\<not> corrupt (procs s)"
    using that by (simp add: incr_step_def)
  have f: "\<not> corrupt (fresh v)" for v by (simp add: fresh_def shm_start_def)
  have proc: "\<exists>t s'. incr_step argv (Proc t True) s = Some s'" if p: "incr_procs argv (procs s)" "nloop s = incr_loops argv"
    and t: "cpc (procs s) t \<noteq> C_return" "cpc (procs s) t \<noteq> C_none" for t
  proof -
    have "counter_inv mem_load (\<lambda>_. True) (shm_loop incr) (\<lambda>_. incr_loops argv) 2 0 (procs s)" using p ok by (simp add: incr_procs_def)
    from cstep_progress [OF this t, of mem_store INT_MAX] p(2) show ?thesis by (auto simp: incr_step_def)
  qed
  show ?thesis
  proof (cases "mpc s")
    case M_loop
    then have p: "incr_procs argv (procs s)" "nloop s = incr_loops argv" using inv by (auto simp: incr_inv_def)
    show ?thesis
    proof (cases "cpc (procs s) 0 = C_return")
      case True
      then have "\<exists>s'. shm_main incr argv True s = Some s'" using M_loop by (simp add: shm_main_def)
      moreover have "\<not> corrupt (procs s)" using p ok by (simp add: incr_procs_def counter_inv_def)
      ultimately show ?thesis using main by blast
    next
      case False
      then show ?thesis using proc [OF p, of 0] p(1) by (auto simp: incr_procs_def)
    qed
  next
    case (M_exit c)
    then have "c = 0" "incr_procs argv (procs s)" "cpc (procs s) 0 = C_return" "cpc (procs s) 1 \<notin> {C_return, C_none}"
      using inv nf ok by (auto simp: incr_inv_def incr_final_def)
    moreover have "nloop s = incr_loops argv" using inv M_exit calculation(1) by (simp add: incr_inv_def)
    ultimately show ?thesis using proc [of 1] by auto
  qed (use inv main f in \<open>auto simp: incr_inv_def shm_main_def\<close>)
qed

interpretation incr: terminating_system "incr_step argv" shm_start "incr_inv argv" "incr_rank argv" "incr_final argv"
  "insert (Main True) (range (\<lambda>t. Proc t True))"
proof unfold_locales
  show "incr_inv argv shm_start" by (simp add: incr_inv_def shm_start_def fresh_def)
next
  fix s a s'
  assume i: "incr_inv argv s" and "incr_step argv a s = Some s'"
  then show "incr_inv argv s'" by (elim incr_stepE) (auto intro: incr_main_inv incr_proc_inv(1))
next
  fix s a s'
  assume i: "incr_inv argv s" and step: "incr_step argv a s = Some s'"
  from step show "incr_rank argv s' < incr_rank argv s"
  proof (cases rule: incr_stepE)
    case (Proc t c)
    note p = incr_proc_inv(2,3) [OF i Proc(2)]
    show ?thesis using cstep_rank [OF p(2) Proc(2) [unfolded p(1)]] Proc(3) by (simp add: incr_rank_def)
  qed (rule incr_main_rank [OF i])
qed (rule incr_progress)




text \<open>
  The mutex of incr\_map\_anon and incr\_dev\_zero is a local variable that fork copies: parent and child are in
  their critical sections together and print the same number.
\<close>

theorem private_mutex_race:
  "map_option (lines \<circ> procs) (run (shm_step incr_map_anon [''p'', ''1'']) (replicate 5 (Main True)
      @ [Proc 0 True, Proc 0 True, Proc 0 True, Proc 1 True, Proc 1 True, Proc 1 True, Proc 0 True, Proc 0 True, Proc 1 True, Proc 1 True]) shm_start)
    = Some [(0, 0), (1, 0)] \<and>
   map_option (lines \<circ> procs) (run (shm_step incr_dev_zero [''p'', ''1'']) (replicate 6 (Main True)
      @ [Proc 0 True, Proc 0 True, Proc 0 True, Proc 1 True, Proc 1 True, Proc 1 True, Proc 0 True, Proc 0 True, Proc 1 True, Proc 1 True]) shm_start)
    = Some [(0, 0), (1, 0)]"
  by code_simp

text \<open>In incr2 the parent destroys the semaphore while the child may still use it; and a failed \<open>sem_init\<close> goes unnoticed, so that both block.\<close>

lemma incr2_destroys:
  "map_option (corrupt \<circ> procs) (run (shm_step incr2 [''p'', ''f'', ''1'']) (replicate 7 (Main True) @ replicate 7 (Proc 0 True)
      @ [Main True, Proc 1 True, Proc 1 True]) shm_start) = Some True"
  by code_simp

lemma incr2_blocks:
  "map_option (\<lambda>s. (mpc s, shm_step incr2 [''p'', ''f'', ''1''] (Proc 0 True) s = None, shm_step incr2 [''p'', ''f'', ''1''] (Proc 1 True) s = None))
    (run (shm_step incr2 [''p'', ''f'', ''1'']) (replicate 4 (Main True) @ [Main False, Main True, Main True, Proc 0 True, Proc 1 True]) shm_start)
   = Some (M_loop, True, True)"
  by (simp add: eval_nat_numeral shm_start_def incr2_def shm_main_def setup_call_def creates_sem_def cstep_def goto_def shm_loop_def take_lock_def which_sem_def sem_wait_def)

end
