(* ===== verification/Log_Server.thy ===== *)
theory Log_Server
  imports Posix_Prog Posix_Sync
begin

text \<open>
  \<^verbatim>\<open>src/ipc/src/pxshm/server2.c\<close> and \<^verbatim>\<open>client2.c\<close>: clients put messages into a ring of slots in shared memory and a
  server prints them. A client never waits for a slot: when none is empty it counts an overflow and drops the message.
\<close>

section \<open>Model\<close>

definition NMSG :: nat where "NMSG = 16"
definition MSG_SIZE :: nat where "MSG_SIZE = 256"

text \<open>
  The calls before the loops: \<open>k\<close> is the loop, which uses the shared memory. \<open>strerror\<close> is a parameter. The flags are
  \<open>O_RDWR | O_CREAT | O_EXCL\<close> and \<open>FILE_MODE\<close>; \<open>bytes\<close> is the size of the structure.
\<close>

definition server2_setup :: "(int \<Rightarrow> string) \<Rightarrow> int \<Rightarrow> string list \<Rightarrow> prog \<Rightarrow> prog" where
  "server2_setup se bytes argv k = (if length argv \<noteq> 2 then printf (''usage: '' @ argv ! 0 @ '' <name>'' @ [NL]) (exit 1) else
     call0 ''shm_unlink'' [] (argv ! 1) (
     checked se ''shm_open'' [194, 420] (argv ! 1) ''shm_open error'' (\<lambda>fd.
     checked se ''mmap'' [fd, bytes] [] ''mmap error'' (\<lambda>_.
     checked se ''ftruncate'' [fd, bytes] [] ''ftruncate error'' (\<lambda>_.
     call0 ''close'' [fd] [] (
     checked se ''sem_init'' [1, 1] ''mutex'' ''sem_init error'' (\<lambda>_.
     checked se ''sem_init'' [1, int NMSG] ''nempty'' ''sem_init error'' (\<lambda>_.
     checked se ''sem_init'' [1, 0] ''nstroed'' ''sem_init error'' (\<lambda>_.
     checked se ''sem_init'' [1, 1] ''noverflowmutex'' ''sem_init error'' (\<lambda>_. k))))))))))"

definition client2_setup :: "(int \<Rightarrow> string) \<Rightarrow> int \<Rightarrow> string list \<Rightarrow> (nat \<Rightarrow> int \<Rightarrow> int \<Rightarrow> prog) \<Rightarrow> prog" where
  "client2_setup se bytes argv k = (if length argv \<noteq> 4 then printf (''usage: '' @ argv ! 0 @ '' <name> <#loops> <#usec>'' @ [NL]) (exit 1) else
     let nloop = atoi (argv ! 2); nusec = atoi (argv ! 3) in
     checked se ''shm_open'' [2, 420] (argv ! 1) ''shm_open error'' (\<lambda>fd.
     checked se ''mmap'' [fd, bytes] [] ''mmap error'' (\<lambda>_.
     call0 ''close'' [fd] [] (
     call ''getpid'' [] [] (\<lambda>pid. k (nat nloop) nusec pid)))))"

text \<open>
  The loops. The argument of a position of a client is its \<open>index\<close>, the second one the \<open>offset\<close>. \<open>L_dead\<close> is the exit after a
  failure of \<open>sem_trywait\<close> other than \<open>EAGAIN\<close>.
\<close>

datatype client_pc =
    L_for nat | L_try nat | L_lock nat | L_reserve nat | L_unlock nat nat | L_copy nat nat | L_post nat
  | L_ovf_lock nat | L_ovf_inc nat | L_ovf_unlock nat | L_end nat | L_dead nat

datatype server_pc = S_wait | S_lock | S_print | S_unlock | S_post | S_ovf_lock | S_ovf_read | S_ovf_unlock int | S_report int

datatype line = Msg nat string | Noverflow int

text \<open>
  \<open>sent\<close> is not in the code: it lists, in the order of the reservations, which client reserved a slot in which iteration.
\<close>

record shm =
  mutex :: nat
  nempty :: nat
  nstored :: nat
  nput :: nat
  noverflow :: int
  noverflowmutex :: nat
  msgoff :: "nat list"
  msgdata :: "char list"
  cpc :: "nat \<Rightarrow> client_pc"
  spc :: server_pc
  index :: nat
  lastnoverflow :: int
  lines :: "line list"
  sent :: "(nat \<times> nat) list"

text \<open>What the server has set up; a new shared memory object holds zeros.\<close>

definition start :: shm where
  "start = \<lparr>mutex = 1, nempty = NMSG, nstored = 0, nput = 0, noverflow = 0, noverflowmutex = 1,
     msgoff = map (\<lambda>index. index * MSG_SIZE) [0..<NMSG], msgdata = replicate (NMSG * MSG_SIZE) NUL,
     cpc = (\<lambda>_. L_for 0), spc = S_wait, index = 0, lastnoverflow = 0, lines = [], sent = []\<rparr>"

definition message :: "int \<Rightarrow> nat \<Rightarrow> string" where
  "message pid i = take (MSG_SIZE - 1) (''pid '' @ show_int pid @ '': message '' @ show_int (int i))"

definition strcpy_at :: "nat \<Rightarrow> string \<Rightarrow> char list \<Rightarrow> char list" where
  "strcpy_at off m d = take off d @ (m @ [NUL]) @ drop (off + length m + 1) d"

definition client :: "nat \<Rightarrow> int \<Rightarrow> nat \<Rightarrow> bool \<Rightarrow> shm \<Rightarrow> shm option" where
  "client nloop pid t ok s = (let goto = (\<lambda>pc u. u\<lparr>cpc := (cpc u)(t := pc)\<rparr>) in case cpc s t of
     L_for i \<Rightarrow> Some (if i < nloop then goto (L_try i) s else goto (L_end i) s)
   | L_try i \<Rightarrow> Some (if \<not> ok then goto (L_dead i) s
        else case sem_wait (nempty s) of Some v \<Rightarrow> goto (L_lock i) (s\<lparr>nempty := v\<rparr>) | None \<Rightarrow> goto (L_ovf_lock i) s)
   | L_lock i \<Rightarrow> map_option (\<lambda>v. goto (L_reserve i) (s\<lparr>mutex := v\<rparr>)) (sem_wait (mutex s))
   | L_reserve i \<Rightarrow> Some (goto (L_unlock i (msgoff s ! nput s))
        (s\<lparr>nput := if nput s + 1 \<ge> NMSG then 0 else nput s + 1, sent := sent s @ [(t, i)]\<rparr>))
   | L_unlock i off \<Rightarrow> Some (goto (L_copy i off) (s\<lparr>mutex := sem_post (mutex s)\<rparr>))
   | L_copy i off \<Rightarrow> Some (goto (L_post i) (s\<lparr>msgdata := strcpy_at off (message pid i) (msgdata s)\<rparr>))
   | L_post i \<Rightarrow> Some (goto (L_for (i + 1)) (s\<lparr>nstored := sem_post (nstored s)\<rparr>))
   | L_ovf_lock i \<Rightarrow> map_option (\<lambda>v. goto (L_ovf_inc i) (s\<lparr>noverflowmutex := v\<rparr>)) (sem_wait (noverflowmutex s))
   | L_ovf_inc i \<Rightarrow> Some (goto (L_ovf_unlock i) (s\<lparr>noverflow := noverflow s + 1\<rparr>))
   | L_ovf_unlock i \<Rightarrow> Some (goto (L_for (i + 1)) (s\<lparr>noverflowmutex := sem_post (noverflowmutex s)\<rparr>))
   | L_end i \<Rightarrow> None
   | L_dead i \<Rightarrow> None)"

text \<open>\<open>temp\<close> is an \<open>int\<close>, \<open>noverflow\<close> a \<open>long\<close>.\<close>

definition server :: "shm \<Rightarrow> shm option" where
  "server s = (case spc s of
     S_wait \<Rightarrow> map_option (\<lambda>v. s\<lparr>nstored := v, spc := S_lock\<rparr>) (sem_wait (nstored s))
   | S_lock \<Rightarrow> map_option (\<lambda>v. s\<lparr>mutex := v, spc := S_print\<rparr>) (sem_wait (mutex s))
   | S_print \<Rightarrow> Some (s\<lparr>lines := lines s @ [Msg (index s) (cstr (drop (msgoff s ! index s) (msgdata s)))],
        index := (index s + 1) mod NMSG, spc := S_unlock\<rparr>)
   | S_unlock \<Rightarrow> Some (s\<lparr>mutex := sem_post (mutex s), spc := S_post\<rparr>)
   | S_post \<Rightarrow> Some (s\<lparr>nempty := sem_post (nempty s), spc := S_ovf_lock\<rparr>)
   | S_ovf_lock \<Rightarrow> map_option (\<lambda>v. s\<lparr>noverflowmutex := v, spc := S_ovf_read\<rparr>) (sem_wait (noverflowmutex s))
   | S_ovf_read \<Rightarrow> Some (s\<lparr>spc := S_ovf_unlock (c_int (noverflow s))\<rparr>)
   | S_ovf_unlock temp \<Rightarrow> Some (s\<lparr>noverflowmutex := sem_post (noverflowmutex s), spc := S_report temp\<rparr>)
   | S_report temp \<Rightarrow> Some (if temp \<noteq> lastnoverflow s
        then s\<lparr>lines := lines s @ [Noverflow temp], lastnoverflow := temp, spc := S_wait\<rparr> else s\<lparr>spc := S_wait\<rparr>))"

text \<open>\<open>n\<close> clients, client \<open>t\<close> with process id \<open>pid t\<close> and \<open>nl t\<close> iterations.\<close>

datatype act = Client nat bool | Server

definition step :: "nat \<Rightarrow> (nat \<Rightarrow> nat) \<Rightarrow> (nat \<Rightarrow> int) \<Rightarrow> act \<Rightarrow> shm \<Rightarrow> shm option" where
  "step n nl pid a s = (case a of Client t ok \<Rightarrow> if t < n then client (nl t) (pid t) t ok s else None | Server \<Rightarrow> server s)"

definition good :: "act set" where
  "good = - {Client t False | t. True}"

definition msgs :: "shm \<Rightarrow> (nat \<times> string) list" where
  "msgs s = List.map_filter (\<lambda>l. case l of Msg i m \<Rightarrow> Some (i, m) | Noverflow v \<Rightarrow> None) (lines s)"

section \<open>Units and accounts\<close>

fun c_mutex :: "client_pc \<Rightarrow> int" where
  "c_mutex (L_reserve _) = 1" | "c_mutex (L_unlock _ _) = 1" | "c_mutex _ = 0"

fun c_ovf :: "client_pc \<Rightarrow> int" where
  "c_ovf (L_ovf_inc _) = 1" | "c_ovf (L_ovf_unlock _) = 1" | "c_ovf _ = 0"

fun c_hold :: "client_pc \<Rightarrow> int" where
  "c_hold (L_lock _) = 1" | "c_hold (L_reserve _) = 1" | "c_hold (L_unlock _ _) = 1" | "c_hold (L_copy _ _) = 1"
| "c_hold (L_post _) = 1" | "c_hold _ = 0"

fun c_res :: "client_pc \<Rightarrow> int" where
  "c_res (L_unlock _ _) = 1" | "c_res (L_copy _ _) = 1" | "c_res (L_post _) = 1" | "c_res _ = 0"

text \<open>The iterations whose message has been sent or counted as overflow.\<close>

fun c_done :: "client_pc \<Rightarrow> int" where
  "c_done (L_for i) = int i" | "c_done (L_try i) = int i" | "c_done (L_lock i) = int i" | "c_done (L_reserve i) = int i"
| "c_done (L_unlock i _) = int i + 1" | "c_done (L_copy i _) = int i + 1" | "c_done (L_post i) = int i + 1"
| "c_done (L_ovf_lock i) = int i" | "c_done (L_ovf_inc i) = int i" | "c_done (L_ovf_unlock i) = int i + 1"
| "c_done (L_end i) = int i" | "c_done (L_dead i) = int i"

fun s_mutex :: "server_pc \<Rightarrow> int" where
  "s_mutex S_print = 1" | "s_mutex S_unlock = 1" | "s_mutex _ = 0"

fun s_ovf :: "server_pc \<Rightarrow> int" where
  "s_ovf S_ovf_read = 1" | "s_ovf (S_ovf_unlock _) = 1" | "s_ovf _ = 0"

fun s_hold :: "server_pc \<Rightarrow> int" where
  "s_hold S_lock = 1" | "s_hold S_print = 1" | "s_hold S_unlock = 1" | "s_hold S_post = 1" | "s_hold _ = 0"

fun s_pend :: "server_pc \<Rightarrow> int" where
  "s_pend S_lock = 1" | "s_pend S_print = 1" | "s_pend _ = 0"

definition units_inv :: "nat \<Rightarrow> shm \<Rightarrow> bool" where
  "units_inv n s \<longleftrightarrow> int (mutex s) + tot c_mutex (cpc s) n + s_mutex (spc s) = 1 \<and>
     int (noverflowmutex s) + tot c_ovf (cpc s) n + s_ovf (spc s) = 1 \<and>
     int (nempty s) + tot c_hold (cpc s) n + int (nstored s) + s_hold (spc s) = int NMSG \<and>
     int (length (sent s)) = int (length (msgs s)) + int (nstored s) + s_pend (spc s) + tot c_res (cpc s) n \<and>
     tot c_done (cpc s) n = int (length (sent s)) + noverflow s"

definition ring_inv :: "shm \<Rightarrow> bool" where
  "ring_inv s \<longleftrightarrow> msgoff s = map (\<lambda>index. index * MSG_SIZE) [0..<NMSG] \<and> length (msgdata s) = NMSG * MSG_SIZE \<and>
     nput s = length (sent s) mod NMSG \<and> index s = length (msgs s) mod NMSG \<and>
     map fst (msgs s) = map (\<lambda>j. j mod NMSG) [0..<length (msgs s)]"

fun in_slot :: "client_pc \<Rightarrow> bool" where
  "in_slot (L_unlock _ off) = (\<exists>k<NMSG. off = k * MSG_SIZE)" | "in_slot (L_copy _ off) = (\<exists>k<NMSG. off = k * MSG_SIZE)" | "in_slot _ = True"

fun in_loop :: "nat \<Rightarrow> client_pc \<Rightarrow> bool" where
  "in_loop n (L_for i) = (i \<le> n)" | "in_loop n (L_end i) = (i = n)" | "in_loop n (L_dead i) = True"
| "in_loop n (L_try i) = (i < n)" | "in_loop n (L_lock i) = (i < n)" | "in_loop n (L_reserve i) = (i < n)"
| "in_loop n (L_unlock i _) = (i < n)" | "in_loop n (L_copy i _) = (i < n)" | "in_loop n (L_post i) = (i < n)"
| "in_loop n (L_ovf_lock i) = (i < n)" | "in_loop n (L_ovf_inc i) = (i < n)" | "in_loop n (L_ovf_unlock i) = (i < n)"

definition inv :: "nat \<Rightarrow> (nat \<Rightarrow> nat) \<Rightarrow> shm \<Rightarrow> bool" where
  "inv n nl s \<longleftrightarrow> units_inv n s \<and> ring_inv s \<and> (\<forall>t<n. in_slot (cpc s t) \<and> in_loop (nl t) (cpc s t))"

lemma ls_msgs_frame [simp]:
  "msgs (s\<lparr>mutex := x0\<rparr>) = msgs s" "msgs (s\<lparr>nempty := x1\<rparr>) = msgs s" "msgs (s\<lparr>nstored := x2\<rparr>) = msgs s"
  "msgs (s\<lparr>nput := x3\<rparr>) = msgs s" "msgs (s\<lparr>noverflow := x4\<rparr>) = msgs s" "msgs (s\<lparr>noverflowmutex := x5\<rparr>) = msgs s"
  "msgs (s\<lparr>msgdata := x6\<rparr>) = msgs s" "msgs (s\<lparr>cpc := x7\<rparr>) = msgs s" "msgs (s\<lparr>spc := x8\<rparr>) = msgs s"
  "msgs (s\<lparr>index := x9\<rparr>) = msgs s" "msgs (s\<lparr>lastnoverflow := x10\<rparr>) = msgs s" "msgs (s\<lparr>sent := x11\<rparr>) = msgs s"
  by (simp_all add: msgs_def)

lemma ls_msgs_print [simp]:
  "msgs (s\<lparr>lines := lines s @ [Msg i m]\<rparr>) = msgs s @ [(i, m)]" "msgs (s\<lparr>lines := lines s @ [Noverflow v]\<rparr>) = msgs s"
  by (simp_all add: msgs_def map_filter_def)

lemma ls_clientE:
  assumes "client nloop pid t ok s = Some s'"
  obtains (more) i where "cpc s t = L_for i" "i < nloop" "s' = s\<lparr>cpc := (cpc s)(t := L_try i)\<rparr>"
  | (stop) i where "cpc s t = L_for i" "nloop \<le> i" "s' = s\<lparr>cpc := (cpc s)(t := L_end i)\<rparr>"
  | (dead) i where "cpc s t = L_try i" "\<not> ok" "s' = s\<lparr>cpc := (cpc s)(t := L_dead i)\<rparr>"
  | (slot) i v where "cpc s t = L_try i" "nempty s = Suc v" "s' = s\<lparr>nempty := v, cpc := (cpc s)(t := L_lock i)\<rparr>"
  | (full) i where "cpc s t = L_try i" "nempty s = 0" "s' = s\<lparr>cpc := (cpc s)(t := L_ovf_lock i)\<rparr>"
  | (lock) i v where "cpc s t = L_lock i" "mutex s = Suc v" "s' = s\<lparr>mutex := v, cpc := (cpc s)(t := L_reserve i)\<rparr>"
  | (reserve) i where "cpc s t = L_reserve i" "s' = s\<lparr>nput := if nput s + 1 \<ge> NMSG then 0 else nput s + 1, sent := sent s @ [(t, i)],
        cpc := (cpc s)(t := L_unlock i (msgoff s ! nput s))\<rparr>"
  | (unlock) i off where "cpc s t = L_unlock i off" "s' = s\<lparr>mutex := Suc (mutex s), cpc := (cpc s)(t := L_copy i off)\<rparr>"
  | (copy) i off where "cpc s t = L_copy i off" "s' = s\<lparr>msgdata := strcpy_at off (message pid i) (msgdata s), cpc := (cpc s)(t := L_post i)\<rparr>"
  | (post) i where "cpc s t = L_post i" "s' = s\<lparr>nstored := Suc (nstored s), cpc := (cpc s)(t := L_for (i + 1))\<rparr>"
  | (ovf_lock) i v where "cpc s t = L_ovf_lock i" "noverflowmutex s = Suc v" "s' = s\<lparr>noverflowmutex := v, cpc := (cpc s)(t := L_ovf_inc i)\<rparr>"
  | (ovf_inc) i where "cpc s t = L_ovf_inc i" "s' = s\<lparr>noverflow := noverflow s + 1, cpc := (cpc s)(t := L_ovf_unlock i)\<rparr>"
  | (ovf_unlock) i where "cpc s t = L_ovf_unlock i" "s' = s\<lparr>noverflowmutex := Suc (noverflowmutex s), cpc := (cpc s)(t := L_for (i + 1))\<rparr>"
proof (cases "cpc s t")
  case (L_for i) then show ?thesis using more stop assms by (cases "i < nloop") (simp_all add: client_def)
next
  case (L_try i)
  show ?thesis
  proof (cases ok)
    case False then show ?thesis using L_try dead [of i] assms by (simp add: client_def)
  next
    case True
    show ?thesis
    proof (cases "nempty s")
      case 0 then show ?thesis using L_try True full [of i] assms by (simp add: client_def sem_wait_def)
    next
      case (Suc v) then show ?thesis using L_try True slot [of i v] assms by (simp add: client_def sem_wait_def)
    qed
  qed
next
  case (L_lock i) then show ?thesis using lock assms by (auto simp: client_def)
next
  case (L_reserve i) then show ?thesis using reserve assms by (simp add: client_def)
next
  case (L_unlock i off) then show ?thesis using unlock assms by (simp add: client_def sem_post_def)
next
  case (L_copy i off) then show ?thesis using copy assms by (simp add: client_def)
next
  case (L_post i) then show ?thesis using post assms by (simp add: client_def sem_post_def)
next
  case (L_ovf_lock i) then show ?thesis using ovf_lock assms by (auto simp: client_def)
next
  case (L_ovf_inc i) then show ?thesis using ovf_inc assms by (simp add: client_def)
next
  case (L_ovf_unlock i) then show ?thesis using ovf_unlock assms by (simp add: client_def sem_post_def)
next
  case (L_end i) then show ?thesis using assms by (simp add: client_def)
next
  case (L_dead i) then show ?thesis using assms by (simp add: client_def)
qed

lemma ls_serverE:
  assumes "server s = Some s'"
  obtains (wait) v where "spc s = S_wait" "nstored s = Suc v" "s' = s\<lparr>nstored := v, spc := S_lock\<rparr>"
  | (lock) v where "spc s = S_lock" "mutex s = Suc v" "s' = s\<lparr>mutex := v, spc := S_print\<rparr>"
  | (print) "spc s = S_print" "s' = s\<lparr>lines := lines s @ [Msg (index s) (cstr (drop (msgoff s ! index s) (msgdata s)))],
        index := (index s + 1) mod NMSG, spc := S_unlock\<rparr>"
  | (unlock) "spc s = S_unlock" "s' = s\<lparr>mutex := Suc (mutex s), spc := S_post\<rparr>"
  | (post) "spc s = S_post" "s' = s\<lparr>nempty := Suc (nempty s), spc := S_ovf_lock\<rparr>"
  | (ovf_lock) v where "spc s = S_ovf_lock" "noverflowmutex s = Suc v" "s' = s\<lparr>noverflowmutex := v, spc := S_ovf_read\<rparr>"
  | (ovf_read) v where "spc s = S_ovf_read" "s' = s\<lparr>spc := S_ovf_unlock v\<rparr>"
  | (ovf_unlock) v where "spc s = S_ovf_unlock v" "s' = s\<lparr>noverflowmutex := Suc (noverflowmutex s), spc := S_report v\<rparr>"
  | (report) v where "spc s = S_report v" "s' = s\<lparr>lines := lines s @ [Noverflow v], lastnoverflow := v, spc := S_wait\<rparr>"
  | (same) v where "spc s = S_report v" "s' = s\<lparr>spc := S_wait\<rparr>"
proof (cases "spc s")
  case S_wait then show ?thesis using wait assms by (auto simp: server_def)
next
  case S_lock then show ?thesis using lock assms by (auto simp: server_def)
next
  case S_print then show ?thesis using print assms by (simp add: server_def)
next
  case S_unlock then show ?thesis using unlock assms by (simp add: server_def sem_post_def)
next
  case S_post then show ?thesis using post assms by (simp add: server_def sem_post_def)
next
  case S_ovf_lock then show ?thesis using ovf_lock assms by (auto simp: server_def)
next
  case S_ovf_read then show ?thesis using ovf_read [of "c_int (noverflow s)"] assms by (simp add: server_def)
next
  case (S_ovf_unlock v) then show ?thesis using ovf_unlock assms by (simp add: server_def sem_post_def)
next
  case (S_report v) then show ?thesis using report same assms by (cases "v = lastnoverflow s") (simp_all add: server_def)
qed

lemma ls_message: "length (message p i) < MSG_SIZE" "NUL \<notin> set (message p i)"
proof -
  show "length (message p i) < MSG_SIZE" by (simp add: message_def MSG_SIZE_def)
  have "NUL \<notin> set (''pid '' @ show_int p @ '': message '' @ show_int (int i))" by simp
  then show "NUL \<notin> set (message p i)" unfolding message_def by (meson in_set_takeD)
qed

lemma ls_strcpy_length: "off + length m + 1 \<le> length d \<Longrightarrow> length (strcpy_at off m d) = length d"
  by (simp add: strcpy_at_def)

lemma ls_slot_room: "k < NMSG \<Longrightarrow> length m < MSG_SIZE \<Longrightarrow> k * MSG_SIZE + length m + 1 \<le> NMSG * MSG_SIZE"
proof -
  assume "k < NMSG" "length m < MSG_SIZE"
  then have "k * MSG_SIZE + length m + 1 \<le> k * MSG_SIZE + MSG_SIZE" by simp
  also have "\<dots> = (k + 1) * MSG_SIZE" by simp
  also have "\<dots> \<le> NMSG * MSG_SIZE" using \<open>k < NMSG\<close> by (intro mult_le_mono1) simp
  finally show ?thesis .
qed

lemma ls_client_units:
  assumes u: "units_inv n s" and t: "t < n" and c: "client nloop pid t ok s = Some s'"
  shows "units_inv n s'"
  using c by (cases rule: ls_clientE) (use u t in \<open>simp_all add: units_inv_def\<close>)

lemma ls_server_units:
  assumes u: "units_inv n s" and c: "server s = Some s'"
  shows "units_inv n s'"
  using c by (cases rule: ls_serverE) (use u in \<open>simp_all add: units_inv_def\<close>)

lemma ls_next_mod: "(if k mod NMSG + 1 \<ge> NMSG then 0 else k mod NMSG + 1) = Suc k mod NMSG"
  using mod_less_divisor [of NMSG k] by (auto simp: NMSG_def mod_Suc)

lemma ls_client_ring:
  assumes r: "ring_inv s" and i: "in_slot (cpc s t)" and c: "client nloop pid t ok s = Some s'"
  shows "ring_inv s' \<and> in_slot (cpc s' t)"
  using c
proof (cases rule: ls_clientE)
  case (reserve i)
  have "nput s < NMSG" using r by (simp add: ring_inv_def NMSG_def)
  then have "msgoff s ! nput s = nput s * MSG_SIZE" using r by (simp add: ring_inv_def)
  with \<open>nput s < NMSG\<close> reserve r show ?thesis using ls_next_mod [of "length (sent s)"] by (auto simp: ring_inv_def)
next
  case (copy i off)
  then obtain k where "k < NMSG" "off = k * MSG_SIZE" using \<open>in_slot (cpc s t)\<close> by auto
  then have "length (msgdata s') = length (msgdata s)"
    using copy r ls_slot_room [OF _ ls_message(1), of k pid i] by (simp add: ls_strcpy_length ring_inv_def)
  with copy r show ?thesis by (simp add: ring_inv_def)
qed (use r i in \<open>simp_all add: ring_inv_def\<close>)

lemma ls_server_ring:
  assumes r: "ring_inv s" and c: "server s = Some s'"
  shows "ring_inv s'"
  using c by (cases rule: ls_serverE) (use r in \<open>simp_all add: ring_inv_def mod_Suc_eq\<close>)

lemma ls_client_frame:
  assumes c: "client nloop pid t ok s = Some s'"
  shows "u \<noteq> t \<Longrightarrow> cpc s' u = cpc s u" "spc s' = spc s" "lines s' = lines s" "in_loop nloop (cpc s t) \<Longrightarrow> in_loop nloop (cpc s' t)"
  using c by (cases rule: ls_clientE; simp)+

lemma ls_server_frame:
  assumes c: "server s = Some s'"
  shows "cpc s' = cpc s" "msgdata s' = msgdata s" "sent s' = sent s" "noverflow s' = noverflow s"
  using c by (cases rule: ls_serverE; simp)+

lemma ls_start_inv: "inv n nl start"
  by (simp add: inv_def units_inv_def ring_inv_def start_def msgs_def map_filter_def)

lemma ls_step_inv:
  assumes i: "inv n nl s" and c: "step n nl pid a s = Some s'"
  shows "inv n nl s'"
proof (cases a)
  case (Client t ok)
  then have t: "t < n" and c': "client (nl t) (pid t) t ok s = Some s'" using c by (auto simp: step_def split: if_splits)
  have "units_inv n s'" using ls_client_units [OF _ t c'] i by (simp add: inv_def)
  moreover have "ring_inv s' \<and> in_slot (cpc s' t)" using ls_client_ring [OF _ _ c'] i t by (simp add: inv_def)
  moreover have "in_loop (nl t) (cpc s' t)" using ls_client_frame(4) [OF c'] i t by (simp add: inv_def)
  ultimately show ?thesis using i ls_client_frame(1) [OF c'] unfolding inv_def by metis
next
  case Server
  then have c': "server s = Some s'" using c by (simp add: step_def)
  then show ?thesis using i ls_server_units [OF _ c'] ls_server_ring [OF _ c'] ls_server_frame(1) [OF c'] by (simp add: inv_def)
qed

section \<open>Termination and progress\<close>

fun c_rank :: "nat \<Rightarrow> client_pc \<Rightarrow> int" where
  "c_rank n (L_for i) = 20 * (int n - int i) + 1" | "c_rank n (L_try i) = 20 * (int n - int i)"
| "c_rank n (L_lock i) = 20 * (int n - int i) - 1" | "c_rank n (L_reserve i) = 20 * (int n - int i) - 2"
| "c_rank n (L_unlock i _) = 20 * (int n - int i) - 3" | "c_rank n (L_copy i _) = 20 * (int n - int i) - 4"
| "c_rank n (L_post i) = 20 * (int n - int i) - 5" | "c_rank n (L_ovf_lock i) = 20 * (int n - int i) - 1"
| "c_rank n (L_ovf_inc i) = 20 * (int n - int i) - 2" | "c_rank n (L_ovf_unlock i) = 20 * (int n - int i) - 3"
| "c_rank n (L_end _) = 0" | "c_rank n (L_dead _) = 0"

fun s_rank :: "server_pc \<Rightarrow> int" where
  "s_rank S_wait = 0" | "s_rank S_lock = 9" | "s_rank S_print = 8" | "s_rank S_unlock = 7" | "s_rank S_post = 6"
| "s_rank S_ovf_lock = 5" | "s_rank S_ovf_read = 4" | "s_rank (S_ovf_unlock _) = 3" | "s_rank (S_report _) = 2"

definition irank :: "nat \<Rightarrow> (nat \<Rightarrow> nat) \<Rightarrow> shm \<Rightarrow> int" where
  "irank n nl s = tot (\<lambda>x. x) (\<lambda>t. c_rank (nl t) (cpc s t)) n + 10 * int (nstored s) + s_rank (spc s)"

lemma ls_irank_nonneg:
  assumes "inv n nl s" shows "0 \<le> irank n nl s"
proof -
  have "0 \<le> c_rank (nl t) (cpc s t)" if "t < n" for t using assms that by (cases "cpc s t") (auto simp: inv_def)
  then have "0 \<le> tot (\<lambda>x. x) (\<lambda>t. c_rank (nl t) (cpc s t)) n" unfolding tot_def by (intro sum_nonneg) simp
  moreover have "0 \<le> s_rank (spc s)" by (cases "spc s") simp_all
  ultimately show ?thesis by (simp add: irank_def)
qed

lemma ls_step_rank:
  assumes i: "inv n nl s" and c: "step n nl pid a s = Some s'"
  shows "irank n nl s' < irank n nl s"
proof (cases a)
  case (Client t ok)
  then have t: "t < n" and c': "client (nl t) (pid t) t ok s = Some s'" using c by (auto simp: step_def split: if_splits)
  have l: "in_loop (nl t) (cpc s t)" using i t by (simp add: inv_def)
  have "(\<lambda>u. c_rank (nl u) (cpc s' u)) = (\<lambda>u. c_rank (nl u) (cpc s u))(t := c_rank (nl t) (cpc s' t))"
    using ls_client_frame(1) [OF c'] by (auto simp: fun_eq_iff)
  then have "tot (\<lambda>x. x) (\<lambda>u. c_rank (nl u) (cpc s' u)) n
    = tot (\<lambda>x. x) (\<lambda>u. c_rank (nl u) (cpc s u)) n - c_rank (nl t) (cpc s t) + c_rank (nl t) (cpc s' t)" using t by simp
  moreover from c' have "c_rank (nl t) (cpc s' t) + 10 * int (nstored s') < c_rank (nl t) (cpc s t) + 10 * int (nstored s)"
    by (cases rule: ls_clientE) (use l in auto)
  ultimately show ?thesis using ls_client_frame(2) [OF c'] by (simp add: irank_def)
next
  case Server
  then have c': "server s = Some s'" using c by (simp add: step_def)
  then have "10 * int (nstored s') + s_rank (spc s') < 10 * int (nstored s) + s_rank (spc s)" by (cases rule: ls_serverE) auto
  then show ?thesis using ls_server_frame(1) [OF c'] by (simp add: irank_def)
qed

fun ended :: "client_pc \<Rightarrow> bool" where
  "ended (L_end _) = True" | "ended (L_dead _) = True" | "ended _ = False"

lemma ls_blocked:
  "client nloop pid t True s = None \<Longrightarrow> ended (cpc s t) \<or> c_hold (cpc s t) = 1 \<and> c_res (cpc s t) = 0 \<and> c_mutex (cpc s t) = 0 \<and> c_ovf (cpc s t) = 0 \<and> mutex s = 0
     \<or> c_mutex (cpc s t) = 0 \<and> c_ovf (cpc s t) = 0 \<and> noverflowmutex s = 0"
  "server s = None \<Longrightarrow> spc s = S_wait \<and> nstored s = 0 \<or> spc s = S_lock \<and> mutex s = 0 \<or> spc s = S_ovf_lock \<and> noverflowmutex s = 0"
  by (cases "cpc s t"; auto simp: client_def) (cases "spc s"; auto simp: server_def)

lemma ls_ended_weights: "ended pc \<Longrightarrow> c_mutex pc = 0 \<and> c_ovf pc = 0 \<and> c_hold pc = 0 \<and> c_res pc = 0"
  by (cases pc) simp_all

lemma ls_all_blocked:
  assumes u: "units_inv n s" and c: "\<And>t. t < n \<Longrightarrow> client (nl t) (pid t) t True s = None" and v: "server s = None"
  shows "(\<forall>t<n. ended (cpc s t)) \<and> spc s = S_wait \<and> nstored s = 0"
proof -
  have "c_mutex (cpc s t) = 0" "c_ovf (cpc s t) = 0" if "t < n" for t using ls_blocked(1) [OF c [OF that]] ls_ended_weights [of "cpc s t"] by auto
  then have "tot c_mutex (cpc s) n = 0" "tot c_ovf (cpc s) n = 0" by (simp_all add: tot_zero)
  moreover have "s_mutex (spc s) = 0" "s_ovf (spc s) = 0" using ls_blocked(2) [OF v] by auto
  ultimately have m: "mutex s = 1" "noverflowmutex s = 1" using u by (simp_all add: units_inv_def)
  then have "ended (cpc s t)" if "t < n" for t using ls_blocked(1) [OF c [OF that]] by auto
  moreover have "spc s = S_wait \<and> nstored s = 0" using ls_blocked(2) [OF v] m by auto
  ultimately show ?thesis by blast
qed

interpretation log_server: terminating_system "step n nl pid" start "inv n nl" "\<lambda>s. nat (irank n nl s)"
  "\<lambda>s. (\<forall>t<n. ended (cpc s t)) \<and> spc s = S_wait \<and> nstored s = 0" good for n nl pid
proof unfold_locales
  show "inv n nl start" by (rule ls_start_inv)
next
  fix s a s' assume i: "inv n nl s" and c: "step n nl pid a s = Some s'"
  show i': "inv n nl s'" by (rule ls_step_inv [OF i c])
  show "nat (irank n nl s') < nat (irank n nl s)" using ls_step_rank [OF i c] ls_irank_nonneg [OF i'] by simp
next
  fix s assume i: "inv n nl s" and f: "\<not> ((\<forall>t<n. ended (cpc s t)) \<and> spc s = S_wait \<and> nstored s = 0)"
  show "\<exists>a\<in>good. \<exists>s'. step n nl pid a s = Some s'"
  proof (rule ccontr)
    assume "\<not> ?thesis"
    then have none: "step n nl pid a s = None" if "a \<in> good" for a using that by auto
    have "client (nl t) (pid t) t True s = None" if "t < n" for t using none [of "Client t True"] that by (simp add: good_def step_def)
    moreover have "server s = None" using none [of Server] by (simp add: good_def step_def)
    ultimately show False using ls_all_blocked [of n s nl pid] i f by (simp add: inv_def)
  qed
qed

section \<open>The contents of the slots with one client\<close>

definition holds :: "char list \<Rightarrow> nat \<Rightarrow> string \<Rightarrow> bool" where
  "holds d k m \<longleftrightarrow> length m < MSG_SIZE \<and> NUL \<notin> set m \<and> take (length m + 1) (drop (k * MSG_SIZE) d) = m @ [NUL]"

lemma holds_read: "holds d k m \<Longrightarrow> cstr (drop (k * MSG_SIZE) d) = m"
proof -
  assume h: "holds d k m"
  have "drop (k * MSG_SIZE) d = take (length m + 1) (drop (k * MSG_SIZE) d) @ drop (length m + 1) (drop (k * MSG_SIZE) d)"
    by (rule append_take_drop_id [symmetric])
  with h have "drop (k * MSG_SIZE) d = m @ NUL # drop (length m + 1) (drop (k * MSG_SIZE) d)" by (simp add: holds_def)
  then show ?thesis using h by (metis cstr_append_NUL holds_def)
qed

lemma holds_written: "k * MSG_SIZE \<le> length d \<Longrightarrow> holds (strcpy_at (k * MSG_SIZE) (message p i) d) k (message p i)"
  using ls_message [of p i] by (simp add: holds_def strcpy_at_def)

lemma strcpy_elsewhere:
  assumes "p + length m + 1 \<le> length d" and "q + l \<le> p \<or> p + length m + 1 \<le> q"
  shows "take l (drop q (strcpy_at p m d)) = take l (drop q d)"
  using assms(2)
proof
  assume "q + l \<le> p"
  then show ?thesis using assms(1) by (simp add: strcpy_at_def take_drop)
next
  assume "p + length m + 1 \<le> q"
  moreover define x where "x = m @ [NUL]"
  ultimately have "p + length x \<le> q" "p \<le> length d" using assms(1) by simp_all
  then have "drop q (take p d @ x @ drop (p + length x) d) = drop q d" by simp
  moreover have "strcpy_at p m d = take p d @ x @ drop (p + length x) d" by (simp add: strcpy_at_def x_def)
  ultimately show ?thesis by simp
qed

lemma holds_elsewhere:
  assumes h: "holds d j m" and jk: "j < NMSG" "k < NMSG" "j \<noteq> k" and d: "length d = NMSG * MSG_SIZE"
  shows "holds (strcpy_at (k * MSG_SIZE) (message p i) d) j m"
proof -
  have "take (length m + 1) (drop (j * MSG_SIZE) (strcpy_at (k * MSG_SIZE) (message p i) d)) = take (length m + 1) (drop (j * MSG_SIZE) d)"
  proof (rule strcpy_elsewhere)
    show "k * MSG_SIZE + length (message p i) + 1 \<le> length d" using ls_slot_room [OF jk(2) ls_message(1)] d by simp
    have "(j + 1) * MSG_SIZE \<le> k * MSG_SIZE \<or> (k + 1) * MSG_SIZE \<le> j * MSG_SIZE"
      using jk(3) mult_le_mono1 [of "j + 1" k MSG_SIZE] mult_le_mono1 [of "k + 1" j MSG_SIZE] by (cases "j < k") simp_all
    then show "j * MSG_SIZE + (length m + 1) \<le> k * MSG_SIZE \<or> k * MSG_SIZE + length (message p i) + 1 \<le> j * MSG_SIZE"
      using h ls_message(1) [of p i] by (auto simp: holds_def)
  qed
  then show ?thesis using h by (simp add: holds_def)
qed

fun unwritten :: "client_pc \<Rightarrow> nat" where
  "unwritten (L_unlock _ _) = 1" | "unwritten (L_copy _ _) = 1" | "unwritten _ = 0"

fun last_ok :: "(nat \<times> nat) list \<Rightarrow> client_pc \<Rightarrow> bool" where
  "last_ok q (L_unlock i off) = (q \<noteq> [] \<and> snd (last q) = i \<and> off = ((length q - 1) mod NMSG) * MSG_SIZE)"
| "last_ok q (L_copy i off) = (q \<noteq> [] \<and> snd (last q) = i \<and> off = ((length q - 1) mod NMSG) * MSG_SIZE)"
| "last_ok q _ = True"

definition content_inv :: "int \<Rightarrow> shm \<Rightarrow> bool" where
  "content_inv p s \<longleftrightarrow> last_ok (sent s) (cpc s 0) \<and>
     (\<forall>k. length (msgs s) \<le> k \<and> k + unwritten (cpc s 0) < length (sent s) \<longrightarrow> holds (msgdata s) (k mod NMSG) (message p (snd (sent s ! k)))) \<and>
     (\<forall>j < length (msgs s). j < length (sent s) \<and> msgs s ! j = (j mod NMSG, message p (snd (sent s ! j)))) \<and>
     (\<forall>x \<in> set (sent s). int (snd x) < c_done (cpc s 0)) \<and> sorted_wrt (<) (map snd (sent s))"

lemma tot_one [simp]: "tot w f 1 = w (f 0)" "tot w f (Suc 0) = w (f 0)"
  by (simp_all add: tot_def)

lemma ls_outstanding:
  assumes "units_inv 1 s"
  shows "length (msgs s) \<le> length (sent s)" "length (sent s) \<le> length (msgs s) + NMSG" "spc s = S_print \<Longrightarrow> length (msgs s) + unwritten (cpc s 0) < length (sent s)"
proof -
  have e: "int (nempty s) + c_hold (cpc s 0) + int (nstored s) + s_hold (spc s) = int NMSG"
    "int (length (sent s)) = int (length (msgs s)) + int (nstored s) + s_pend (spc s) + c_res (cpc s 0)" using assms by (simp_all add: units_inv_def)
  have w: "0 \<le> c_res (cpc s 0)" "c_res (cpc s 0) \<le> c_hold (cpc s 0)" "int (unwritten (cpc s 0)) \<le> c_res (cpc s 0)" by (cases "cpc s 0"; simp)+
  have v: "0 \<le> s_pend (spc s)" "s_pend (spc s) \<le> s_hold (spc s)" by (cases "spc s"; simp)+
  show "length (msgs s) \<le> length (sent s)" using e(2) w(1) v(1) by linarith
  show "length (sent s) \<le> length (msgs s) + NMSG" using e w v by linarith
  show "length (msgs s) + unwritten (cpc s 0) < length (sent s)" if "spc s = S_print" using e(2) w that by simp
qed

lemma ls_distinct_slots: "a < b \<Longrightarrow> b < a + NMSG \<Longrightarrow> a mod NMSG \<noteq> b mod NMSG"
proof
  assume "a < b" "b < a + NMSG" "a mod NMSG = b mod NMSG"
  then have "NMSG dvd b - a" by (metis less_imp_le mod_eq_dvd_iff_nat)
  with \<open>a < b\<close> \<open>b < a + NMSG\<close> show False by (auto dest: dvd_imp_le)
qed

lemma ls_client_content:
  assumes k: "content_inv p s" and i: "inv 1 nl s" and c: "client nloop p 0 ok s = Some s'"
  shows "content_inv p s'"
  using c
proof (cases rule: ls_clientE)
  case (reserve j)
  have r: "msgoff s = map (\<lambda>index. index * MSG_SIZE) [0..<NMSG]" "nput s = length (sent s) mod NMSG" using i by (simp_all add: inv_def ring_inv_def)
  then have "msgoff s ! nput s = (length (sent s) mod NMSG) * MSG_SIZE" by (simp add: NMSG_def)
  moreover have "\<forall>x\<in>set (sent s). snd x < j" using k reserve by (auto simp: content_inv_def)
  moreover have "length (msgs s) \<le> length (sent s)" using ls_outstanding(1) i by (simp add: inv_def)
  ultimately show ?thesis using k reserve by (auto simp: content_inv_def nth_append sorted_wrt_append less_Suc_eq)
next
  case (copy j off)
  let ?n = "length (sent s) - 1"
  have l: "sent s \<noteq> []" "snd (last (sent s)) = j" "off = (?n mod NMSG) * MSG_SIZE" using k copy by (auto simp: content_inv_def)
  then have last: "snd (sent s ! ?n) = j" by (simp add: last_conv_nth)
  have d: "length (msgdata s) = NMSG * MSG_SIZE" and out: "length (sent s) \<le> length (msgs s) + NMSG"
    using i ls_outstanding(2) by (simp_all add: inv_def ring_inv_def)
  have n: "?n mod NMSG < NMSG" by (simp add: NMSG_def)
  have w: "holds (strcpy_at off (message p j) (msgdata s)) (m mod NMSG) (message p (snd (sent s ! m)))"
    if "length (msgs s) \<le> m" "m < length (sent s)" for m
  proof (cases "m = ?n")
    case True
    then show ?thesis using holds_written [of "?n mod NMSG" "msgdata s" p j] n d last l(3) by simp
  next
    case False
    then have m: "m < ?n" using that by simp
    then have "m mod NMSG \<noteq> ?n mod NMSG" using out that by (intro ls_distinct_slots) auto
    moreover have "holds (msgdata s) (m mod NMSG) (message p (snd (sent s ! m)))" using k copy that m by (simp add: content_inv_def)
    ultimately show ?thesis using holds_elsewhere [of "msgdata s" "m mod NMSG" _ "?n mod NMSG" p j] n d l(3) by (simp add: NMSG_def)
  qed
  then show ?thesis using k copy by (simp add: content_inv_def)
qed (use k in \<open>auto simp: content_inv_def\<close>)

lemma ls_server_content:
  assumes k: "content_inv p s" and i: "inv 1 nl s" and c: "server s = Some s'"
  shows "content_inv p s'"
  using c
proof (cases rule: ls_serverE)
  case print
  let ?n = "length (msgs s)"
  have r: "msgoff s = map (\<lambda>index. index * MSG_SIZE) [0..<NMSG]" "index s = ?n mod NMSG" using i by (simp_all add: inv_def ring_inv_def)
  then have off: "msgoff s ! index s = (?n mod NMSG) * MSG_SIZE" by (simp add: NMSG_def)
  have n: "?n + unwritten (cpc s 0) < length (sent s)" using ls_outstanding(3) i print by (simp add: inv_def)
  then have "holds (msgdata s) (?n mod NMSG) (message p (snd (sent s ! ?n)))" using k by (simp add: content_inv_def)
  then have "cstr (drop (msgoff s ! index s) (msgdata s)) = message p (snd (sent s ! ?n))" unfolding off by (rule holds_read)
  then show ?thesis using k print r(2) n by (auto simp: content_inv_def nth_append less_Suc_eq)
qed (use k in \<open>simp_all add: content_inv_def\<close>)

interpretation log_content: invariant_system "step 1 nl pid" start "\<lambda>s. inv 1 nl s \<and> content_inv (pid 0) s" for nl pid
proof unfold_locales
  show "inv 1 nl start \<and> content_inv (pid 0) start" using ls_start_inv by (simp add: content_inv_def start_def msgs_def map_filter_def)
next
  fix s a s' assume i: "inv 1 nl s \<and> content_inv (pid 0) s" and c: "step 1 nl pid a s = Some s'"
  show "inv 1 nl s' \<and> content_inv (pid 0) s'"
  proof (cases a)
    case (Client t ok)
    then have "client (nl 0) (pid 0) 0 ok s = Some s'" using c by (simp add: step_def split: if_splits)
    then show ?thesis using ls_step_inv [OF _ c] ls_client_content i by blast
  next
    case Server
    then have "server s = Some s'" using c by (simp add: step_def)
    then show ?thesis using ls_step_inv [OF _ c] ls_server_content i by blast
  qed
qed

section \<open>Properties\<close>

text \<open>The start state with its arrays folded, for symbolic runs.\<close>

definition zeros :: "char list" where "zeros = replicate (NMSG * MSG_SIZE) NUL"
definition offsets :: "nat list" where "offsets = map (\<lambda>index. index * MSG_SIZE) [0..<NMSG]"

lemma start_folded: "start = \<lparr>mutex = 1, nempty = 16, nstored = 0, nput = 0, noverflow = 0, noverflowmutex = 1, msgoff = offsets, msgdata = zeros,
     cpc = (\<lambda>_. L_for 0), spc = S_wait, index = 0, lastnoverflow = 0, lines = [], sent = []\<rparr>"
  by (simp add: start_def zeros_def offsets_def NMSG_def)

lemma offsets_nth: "offsets ! 0 = 0" "offsets ! Suc 0 = MSG_SIZE" "offsets ! 1 = MSG_SIZE"
  by (simp_all add: offsets_def NMSG_def)

lemmas ls_run_defs = step_def client_def server_def start_folded offsets_nth sem_post_def sem_wait_def NMSG_def

text \<open>
  C40. The shape of the shared memory is kept by every step of every client and of the server: the ring of 16 offsets never changes, the data keep
  their length, the two positions stay below 16, and a client that is about to copy has the offset of a slot, so that the copy ends inside it.
\<close>

theorem log_server_shape:
  assumes "run (step n nl pid) sched start = Some s"
  shows "msgoff s = map (\<lambda>k. k * MSG_SIZE) [0..<NMSG] \<and> length (msgdata s) = NMSG * MSG_SIZE \<and> nput s < NMSG \<and> index s < NMSG \<and>
    (\<forall>t<n. \<forall>i off. cpc s t = L_copy i off \<longrightarrow>
      (\<exists>k<NMSG. off = k * MSG_SIZE \<and> off + length (message (pid t) i) + 1 \<le> (k + 1) * MSG_SIZE))"
proof -
  have i: "inv n nl s" by (rule log_server.run_inv [OF assms])
  have "\<exists>k<NMSG. off = k * MSG_SIZE \<and> off + length (message (pid t) j) + 1 \<le> (k + 1) * MSG_SIZE" if t: "t < n" and c: "cpc s t = L_copy j off" for t j off
  proof -
    have "in_slot (cpc s t)" using i t by (simp add: inv_def)
    then obtain k where "k < NMSG" "off = k * MSG_SIZE" using c by auto
    then show ?thesis using ls_message(1) [of "pid t" j] by (intro exI [of _ k]) simp
  qed
  moreover have "0 < NMSG" by (simp add: NMSG_def)
  ultimately show ?thesis using i by (simp add: inv_def ring_inv_def)
qed

theorem log_server_shape_witness:
  "\<exists>s. run (step 1 (\<lambda>_. 1) (\<lambda>_. 7)) (replicate 5 (Client 0 True)) start = Some s \<and> cpc s 0 = L_copy 0 0 \<and> length (msgdata s) = NMSG * MSG_SIZE"
proof -
  have "map_option (\<lambda>s. cpc s 0) (run (step 1 (\<lambda>_. 1) (\<lambda>_. 7)) (replicate 5 (Client 0 True)) start) = Some (L_copy 0 0)"
    by (simp add: ls_run_defs eval_nat_numeral del: sem_wait_Some sem_wait_None)
  then obtain s where s: "run (step 1 (\<lambda>_. 1) (\<lambda>_. 7)) (replicate 5 (Client 0 True)) start = Some s" "cpc s 0 = L_copy 0 0" by auto
  then show ?thesis using log_server_shape [OF s(1)] by blast
qed

text \<open>
  C24. The log server with any number of clients and every schedule: the server prints the slots in cyclic order; a
  schedule is bounded by the numbers of iterations; when nothing can move any more every client has ended, the server
  has printed as many messages as were accepted, and, unless a client ended early with an error, every iteration of every client is
  accounted for either as an accepted message or in \<open>noverflow\<close>.
\<close>

theorem log_server_accounts:
  assumes "run (step n nl pid) sched start = Some s"
  shows "map fst (msgs s) = map (\<lambda>j. j mod NMSG) [0..<length (msgs s)] \<and> length sched \<le> (\<Sum>t<n. 20 * nl t + 1) \<and>
    (stuck good (step n nl pid) s \<longrightarrow> (\<forall>t<n. ended (cpc s t)) \<and> length (msgs s) = length (sent s) \<and>
      ((\<forall>t<n. \<exists>i. cpc s t = L_end i) \<longrightarrow> int (length (sent s)) + noverflow s = (\<Sum>t<n. int (nl t))))"
proof -
  have i: "inv n nl s" by (rule log_server.run_inv [OF assms])
  have u: "units_inv n s" using i by (simp add: inv_def)
  have "irank n nl start = int (\<Sum>t<n. 20 * nl t + 1)" by (simp add: irank_def start_def tot_def add.commute)
  then have b: "length sched \<le> (\<Sum>t<n. 20 * nl t + 1)" using log_server.run_bounded [OF assms] by (simp only: nat_int)
  have fin: "(\<forall>t<n. ended (cpc s t)) \<and> length (msgs s) = length (sent s)" if st: "stuck good (step n nl pid) s"
  proof -
    note f = log_server.stuck_final [OF assms st]
    have "tot c_res (cpc s) n = 0" using f ls_ended_weights by (intro tot_zero) auto
    then show ?thesis using u f by (simp add: units_inv_def)
  qed
  have "int (length (sent s)) + noverflow s = (\<Sum>t<n. int (nl t))" if e: "\<forall>t<n. \<exists>i. cpc s t = L_end i"
  proof -
    have "c_done (cpc s t) = int (nl t)" if "t < n" for t using e i that unfolding inv_def by (metis c_done.simps(11) in_loop.simps(2))
    then have "tot c_done (cpc s) n = (\<Sum>t<n. int (nl t))" by (simp add: tot_def)
    then show ?thesis using u by (simp add: units_inv_def)
  qed
  then show ?thesis using i b fin by (auto simp: inv_def ring_inv_def)
qed

text \<open>
  C6. With one client the server prints exactly the accepted messages, each once and in the order of the iterations, whatever
  the schedule: the \<open>j\<close>-th line is slot \<open>j mod 16\<close> with the text of the \<open>j\<close>-th accepted message.
\<close>

theorem log_server_one_client:
  assumes "run (step 1 nl pid) sched start = Some s"
  shows "msgs s = map (\<lambda>j. (j mod NMSG, message (pid 0) (snd (sent s ! j)))) [0..<length (msgs s)] \<and>
    length (msgs s) \<le> length (sent s) \<and> sorted_wrt (<) (map snd (sent s))"
proof -
  have c: "content_inv (pid 0) s" "inv 1 nl s" using log_content.run_inv [OF assms] by simp_all
  then have "msgs s = map (\<lambda>j. (j mod NMSG, message (pid 0) (snd (sent s ! j)))) [0..<length (msgs s)]"
    by (intro nth_equalityI) (auto simp: content_inv_def)
  then show ?thesis using c ls_outstanding(1) by (simp add: content_inv_def inv_def)
qed

text \<open>One client with two iterations.\<close>

definition two_messages :: "act list" where
  "two_messages = replicate 15 (Client 0 True) @ replicate 18 Server"

lemma two_messages_run:
  "map_option (\<lambda>s. (length (msgs s), map snd (sent s))) (run (step 1 (\<lambda>_. 2) (\<lambda>_. 7)) two_messages start) = Some (2, [0, 1])"
proof -
  have sched: "two_messages = [Client 0 True, Client 0 True, Client 0 True, Client 0 True, Client 0 True, Client 0 True, Client 0 True, Client 0 True,
    Client 0 True, Client 0 True, Client 0 True, Client 0 True, Client 0 True, Client 0 True, Client 0 True, Server, Server, Server, Server,
    Server, Server, Server, Server, Server, Server, Server, Server, Server, Server, Server, Server, Server, Server]"
    by (simp add: two_messages_def eval_nat_numeral)
  show ?thesis unfolding sched by (simp add: ls_run_defs msgs_def map_filter_def c_int_def del: sem_wait_Some sem_wait_None)
qed

theorem log_server_one_client_witness:
  "\<exists>s. run (step 1 (\<lambda>_. 2) (\<lambda>_. 7)) two_messages start = Some s \<and> msgs s = [(0, ''pid 7: message 0''), (1, ''pid 7: message 1'')]"
proof -
  obtain s where s: "run (step 1 (\<lambda>_. 2) (\<lambda>_. 7)) two_messages start = Some s" "length (msgs s) = 2" "map snd (sent s) = [0, 1]"
    using two_messages_run by auto
  then obtain x y where q: "sent s = [x, y]" "snd x = 0" "snd y = 1" by (auto simp: map_eq_Cons_conv)
  have "message 7 0 = ''pid 7: message 0''" "message 7 1 = ''pid 7: message 1''" by code_simp+
  moreover from log_server_one_client [OF s(1)] have "msgs s = [(0, message 7 0), (1, message 7 1)]" unfolding s(2) using q
    by (simp add: numeral_2_eq_2 NMSG_def)
  ultimately show ?thesis using s(1) by simp
qed

text \<open>Client 0 reserves a slot and is overtaken by client 1 before it copies its message.\<close>

definition overtaking :: "act list" where
  "overtaking = replicate 5 (Client 0 True) @ replicate 7 (Client 1 True) @ replicate 9 Server @ replicate 2 (Client 0 True) @ replicate 9 Server
     @ [Client 0 True, Client 1 True]"

lemma overtaking_run:
  "map_option (\<lambda>s. (msgs s, sent s, cpc s 0, cpc s 1, spc s, nstored s)) (run (step 2 (\<lambda>_. 1) (\<lambda>t. 8 + int t)) overtaking start)
    = Some ([(0, cstr (drop 0 (strcpy_at MSG_SIZE (message 9 0) zeros))),
        (1, cstr (drop MSG_SIZE (strcpy_at 0 (message 8 0) (strcpy_at MSG_SIZE (message 9 0) zeros))))],
      [(0, 0), (1, 0)], L_end 1, L_end 1, S_wait, 0)"
proof -
  have sched: "overtaking = [Client 0 True, Client 0 True, Client 0 True, Client 0 True, Client 0 True, Client 1 True, Client 1 True, Client 1 True,
    Client 1 True, Client 1 True, Client 1 True, Client 1 True, Server, Server, Server, Server, Server, Server, Server, Server, Server,
    Client 0 True, Client 0 True, Server, Server, Server, Server, Server, Server, Server, Server, Server, Client 0 True, Client 1 True]"
    by (simp add: overtaking_def eval_nat_numeral)
  show ?thesis unfolding sched by (simp add: ls_run_defs msgs_def map_filter_def c_int_def del: sem_wait_Some sem_wait_None)
qed

text \<open>
  With two clients a message can be lost: a client leaves the critical section before it copies its message, so when a
  second client is faster the server prints the first client's slot while it is still empty, and never comes back to it.
\<close>

theorem log_server_loses_message:
  "\<exists>s. run (step 2 (\<lambda>_. 1) (\<lambda>t. 8 + int t)) overtaking start = Some s \<and> stuck good (step 2 (\<lambda>_. 1) (\<lambda>t. 8 + int t)) s \<and>
     sent s = [(0, 0), (1, 0)] \<and> msgs s = [(0, []), (1, ''pid 9: message 0'')] \<and> noverflow s = 0"
proof -
  let ?step = "step 2 (\<lambda>_. 1) (\<lambda>t. 8 + int t)"
  let ?d = "strcpy_at MSG_SIZE (message 9 0) zeros"
  obtain s where s: "run ?step overtaking start = Some s" and e: "sent s = [(0, 0), (1, 0)]" "cpc s 0 = L_end 1" "cpc s 1 = L_end 1" "spc s = S_wait" "nstored s = 0"
    and m: "msgs s = [(0, cstr (drop 0 ?d)), (1, cstr (drop MSG_SIZE (strcpy_at 0 (message 8 0) ?d)))]"
    using overtaking_run by auto
  have len: "length zeros = NMSG * MSG_SIZE" by (simp add: zeros_def)
  have r: "1 * MSG_SIZE + length (message 9 0) + 1 \<le> NMSG * MSG_SIZE" by (rule ls_slot_room [OF _ ls_message(1)]) (simp add: NMSG_def)
  then have len': "length ?d = NMSG * MSG_SIZE" using ls_strcpy_length [of MSG_SIZE "message 9 0" zeros] len by simp
  have "holds ?d 1 (message 9 0)" using holds_written [of 1 zeros 9 0] len by (simp add: NMSG_def)
  from holds_elsewhere [OF this _ _ _ len', of 0 8 0] have "holds (strcpy_at 0 (message 8 0) ?d) 1 (message 9 0)" by (simp add: NMSG_def)
  then have one: "cstr (drop MSG_SIZE (strcpy_at 0 (message 8 0) ?d)) = message 9 0" using holds_read by fastforce
  have "holds zeros 0 []" by (simp add: holds_def zeros_def MSG_SIZE_def NMSG_def)
  from holds_elsewhere [OF this _ _ _ len, of 1 9 0] have "holds ?d 0 []" by (simp add: NMSG_def)
  then have zero: "cstr (drop 0 ?d) = []" using holds_read [of ?d 0 "[]"] by simp
  have "message 9 0 = ''pid 9: message 0''" by code_simp
  then have "msgs s = [(0, []), (1, ''pid 9: message 0'')]" using m one zero by simp
  moreover have "?step a s = None" for a
  proof (cases a)
    case (Client t ok)
    have "client 1 (8 + int t) t ok s = None" if "t < 2"
    proof -
      from that have "t = 0 \<or> t = 1" by linarith
      then have "cpc s t = L_end 1" using e by blast
      then show ?thesis by (simp add: client_def)
    qed
    then show ?thesis using Client by (simp add: step_def)
  qed (use e in \<open>simp add: step_def server_def\<close>)
  moreover have "inv 2 (\<lambda>_. 1) s" by (rule log_server.run_inv [OF s])
  then have "tot c_done (cpc s) 2 = 2 + noverflow s" using e by (simp add: inv_def units_inv_def)
  then have "noverflow s = 0" using e by (simp add: tot_def numeral_2_eq_2)
  ultimately show ?thesis using s e(1) by (auto simp: stuck_def)
qed

text \<open>The same run as a witness of the accounts.\<close>

theorem log_server_accounts_witness:
  "\<exists>s. run (step 2 (\<lambda>_. 1) (\<lambda>t. 8 + int t)) overtaking start = Some s \<and> map fst (msgs s) = map (\<lambda>j. j mod NMSG) [0..<length (msgs s)] \<and>
     length overtaking \<le> 42"
proof -
  obtain s where s: "run (step 2 (\<lambda>_. 1) (\<lambda>t. 8 + int t)) overtaking start = Some s" using overtaking_run by auto
  then show ?thesis using log_server_accounts [OF s] by (auto simp: numeral_2_eq_2)
qed

end
