(* ===== verification/Thread_Demos.thy ===== *)
theory Thread_Demos
  imports Posix_Sync
begin

text \<open>
  The thread demonstrations of \<^verbatim>\<open>src/tcp-ip/socket/src\<close>: threads that update one variable, without protection
  (\<^verbatim>\<open>thread3.c\<close>, \<^verbatim>\<open>thread4.c\<close>) and under a mutex (\<^verbatim>\<open>mutex.c\<close>); two threads that hand over numbers with two semaphores
  (\<^verbatim>\<open>semaphore.c\<close>); and a thread that prints while \<open>main\<close> waits for it or not (\<^verbatim>\<open>thread1.c\<close>, \<^verbatim>\<open>thread2.c\<close>). Updating the
  variable is two steps, fetching and storing.
\<close>

section \<open>Many threads, one variable\<close>

definition NUM_THREAD :: nat where "NUM_THREAD = 100"
definition MAX_RUN :: nat where "MAX_RUN = 50000000"

datatype tpc = T_none | T_lock | T_for nat | T_fetch nat | T_store nat int | T_unlock | T_return

datatype main_pc = M_create nat | M_join nat | M_print | M_done | M_undef

record counter =
  mutex :: "nat option"
  total :: int
  tpc :: "nat \<Rightarrow> tpc"
  mpc :: main_pc
  result :: "int option"

definition start :: counter where
  "start = \<lparr>mutex = None, total = 0, tpc = (\<lambda>_. T_none), mpc = M_create 0, result = None\<rparr>"

definition goto :: "nat \<Rightarrow> tpc \<Rightarrow> counter \<Rightarrow> counter" where
  "goto t pc s = s\<lparr>tpc := (tpc s)(t := pc)\<rparr>"

text \<open>Threads with an odd number run \<open>thread_inc\<close>, the others \<open>thread_des\<close>.\<close>

definition delta :: "nat \<Rightarrow> int" where
  "delta t = (if t mod 2 \<noteq> 0 then 1 else - 1)"

text \<open>A thread of \<^verbatim>\<open>mutex.c\<close> (\<open>locked\<close>) or \<^verbatim>\<open>thread4.c\<close>, with \<open>runs\<close> iterations.\<close>

definition thread :: "bool \<Rightarrow> nat \<Rightarrow> nat \<Rightarrow> counter \<Rightarrow> counter option" where
  "thread locked runs t s = (case tpc s t of
     T_lock \<Rightarrow> if locked then map_option (\<lambda>m. goto t (T_for 0) (s\<lparr>mutex := m\<rparr>)) (mutex_lock t (mutex s)) else Some (goto t (T_for 0) s)
   | T_for i \<Rightarrow> Some (goto t (if i < runs then T_fetch i else T_unlock) s)
   | T_fetch i \<Rightarrow> Some (goto t (T_store i (total s)) s)
   | T_store i v \<Rightarrow> Some (goto t (T_for (i + 1)) (s\<lparr>total := v + delta t\<rparr>))
   | T_unlock \<Rightarrow> Some (goto t T_return (if locked then s\<lparr>mutex := mutex_unlock (mutex s)\<rparr> else s))
   | _ \<Rightarrow> None)"

text \<open>\<open>pthread_create\<close> is not checked; joining a thread that was not created is undefined.\<close>

definition main :: "nat \<Rightarrow> bool \<Rightarrow> counter \<Rightarrow> counter option" where
  "main n ok s = (case mpc s of
     M_create i \<Rightarrow> Some (if i < n then (if ok then goto i T_lock else id) (s\<lparr>mpc := M_create (i + 1)\<rparr>) else s\<lparr>mpc := M_join 0\<rparr>)
   | M_join i \<Rightarrow> if i < n then (if tpc s i = T_none then Some (s\<lparr>mpc := M_undef\<rparr>)
       else if tpc s i = T_return then Some (s\<lparr>mpc := M_join (i + 1)\<rparr>) else None) else Some (s\<lparr>mpc := M_print\<rparr>)
   | M_print \<Rightarrow> Some (s\<lparr>result := Some (total s), mpc := M_done\<rparr>)
   | _ \<Rightarrow> None)"

datatype act = Main bool | Thread nat

fun step :: "bool \<Rightarrow> nat \<Rightarrow> nat \<Rightarrow> act \<Rightarrow> counter \<Rightarrow> counter option" where
  "step locked runs n (Main ok) s = main n ok s"
| "step locked runs n (Thread t) s = (if mpc s \<in> {M_done, M_undef} then None else thread locked runs t s)"

definition mutex_step :: "act \<Rightarrow> counter \<Rightarrow> counter option" where
  "mutex_step = step True MAX_RUN NUM_THREAD"

definition thread4_step :: "act \<Rightarrow> counter \<Rightarrow> counter option" where
  "thread4_step = step False MAX_RUN NUM_THREAD"

section \<open>Two ranges\<close>

text \<open>\<^verbatim>\<open>thread3.c\<close>: a thread adds the numbers from \<open>lo\<close> to \<open>hi\<close> to \<open>sum\<close>.\<close>

datatype spc = S_while int | S_fetch int | S_store int int | S_return

record ranges =
  rsum :: int
  spc :: "nat \<Rightarrow> spc"

definition range_of :: "nat \<Rightarrow> int \<times> int" where
  "range_of t = (if t = 0 then (1, 5) else (6, 10))"

definition thread_sum :: "nat \<Rightarrow> ranges \<Rightarrow> ranges option" where
  "thread_sum t s = (let goto = (\<lambda>pc s. s\<lparr>spc := (spc s)(t := pc)\<rparr>) in case spc s t of
     S_while i \<Rightarrow> Some (goto (if i \<le> snd (range_of t) then S_fetch i else S_return) s)
   | S_fetch i \<Rightarrow> Some (goto (S_store i (rsum s)) s)
   | S_store i v \<Rightarrow> Some (goto (S_while (i + 1)) (s\<lparr>rsum := v + i\<rparr>))
   | S_return \<Rightarrow> None)"

definition thread3_start :: ranges where
  "thread3_start = \<lparr>rsum = 0, spc = (\<lambda>t. S_while (fst (range_of t)))\<rparr>"

definition thread3_step :: "bool \<Rightarrow> ranges \<Rightarrow> ranges option" where
  "thread3_step second s = thread_sum (if second then 1 else 0) s"

section \<open>Handing over numbers\<close>

text \<open>
  \<^verbatim>\<open>semaphore.c\<close>. \<open>typed\<close> is what \<open>scanf\<close> is going to find; \<open>None\<close> or the end of the list leaves \<open>num\<close> as it is. The sum
  overflows when it leaves the range of \<open>int\<close>.
\<close>

datatype rpc = R_for | R_wait | R_scan | R_post | R_return
datatype apc = A_for | A_wait | A_add | A_post | A_print | A_return

record handover =
  sem_one :: nat
  sem_two :: nat
  num :: int
  acc :: int
  r_i :: nat
  a_i :: nat
  rpc :: rpc
  apc :: apc
  typed :: "int option list"
  prompts :: nat
  printed :: "int list"
  overflow :: bool

definition handover_start :: "int option list \<Rightarrow> handover" where
  "handover_start xs = \<lparr>sem_one = 0, sem_two = 1, num = 0, acc = 0, r_i = 0, a_i = 0, rpc = R_for, apc = A_for, typed = xs,
     prompts = 0, printed = [], overflow = False\<rparr>"

definition scan :: "int \<Rightarrow> int option list \<Rightarrow> int" where
  "scan old xs = (case xs of Some v # _ \<Rightarrow> v | _ \<Rightarrow> old)"

definition read_thread :: "handover \<Rightarrow> handover option" where
  "read_thread s = (case rpc s of
     R_for \<Rightarrow> Some (if r_i s < 5 then s\<lparr>prompts := prompts s + 1, rpc := R_wait\<rparr> else s\<lparr>rpc := R_return\<rparr>)
   | R_wait \<Rightarrow> map_option (\<lambda>v. s\<lparr>sem_two := v, rpc := R_scan\<rparr>) (sem_wait (sem_two s))
   | R_scan \<Rightarrow> Some (s\<lparr>num := scan (num s) (typed s), typed := tl (typed s), rpc := R_post\<rparr>)
   | R_post \<Rightarrow> Some (s\<lparr>sem_one := sem_post (sem_one s), r_i := r_i s + 1, rpc := R_for\<rparr>)
   | R_return \<Rightarrow> None)"

definition accu_thread :: "handover \<Rightarrow> handover option" where
  "accu_thread s = (case apc s of
     A_for \<Rightarrow> Some (if a_i s < 5 then s\<lparr>apc := A_wait\<rparr> else s\<lparr>apc := A_print\<rparr>)
   | A_wait \<Rightarrow> map_option (\<lambda>v. s\<lparr>sem_one := v, apc := A_add\<rparr>) (sem_wait (sem_one s))
   | A_add \<Rightarrow> Some (if - INT_MAX - 1 \<le> acc s + num s \<and> acc s + num s \<le> INT_MAX
        then s\<lparr>acc := acc s + num s, apc := A_post\<rparr> else s\<lparr>overflow := True\<rparr>)
   | A_post \<Rightarrow> Some (s\<lparr>sem_two := sem_post (sem_two s), a_i := a_i s + 1, apc := A_for\<rparr>)
   | A_print \<Rightarrow> Some (s\<lparr>printed := printed s @ [acc s], apc := A_return\<rparr>)
   | A_return \<Rightarrow> None)"

text \<open>The two threads; \<open>main\<close> creates them and waits for both.\<close>

definition handover_step :: "bool \<Rightarrow> handover \<Rightarrow> handover option" where
  "handover_step reading s = (if overflow s then None else if reading then read_thread s else accu_thread s)"

section \<open>A printing thread\<close>

text \<open>
  \<^verbatim>\<open>thread1.c\<close>: \<open>main\<close> sleeps, prints and returns, which ends the thread wherever it is. \<^verbatim>\<open>thread2.c\<close>: \<open>main\<close> joins the
  thread and prints what it returned. \<open>i\<close> counts the lines of the thread.
\<close>

datatype ppc = K_create | K_sleep | K_puts | K_join | K_print | K_exit int

record printing =
  kpc :: ppc
  running :: "nat option"
  shown :: "string list"

definition printing_start :: printing where
  "printing_start = \<lparr>kpc = K_create, running = None, shown = []\<rparr>"

definition thread_param :: nat where "thread_param = 5"

definition thread_main :: "printing \<Rightarrow> printing option" where
  "thread_main s = (case running s of
     Some i \<Rightarrow> if i < thread_param then Some (s\<lparr>shown := shown s @ [''running thread''], running := Some (i + 1)\<rparr>) else None
   | None \<Rightarrow> None)"

definition thread1_main :: "bool \<Rightarrow> printing \<Rightarrow> printing option" where
  "thread1_main ok s = (case kpc s of
     K_create \<Rightarrow> Some (if ok then s\<lparr>running := Some 0, kpc := K_sleep\<rparr> else s\<lparr>shown := shown s @ [''pthread_create() error''], kpc := K_exit (- 1)\<rparr>)
   | K_sleep \<Rightarrow> Some (s\<lparr>kpc := K_puts\<rparr>)
   | K_puts \<Rightarrow> Some (s\<lparr>shown := shown s @ [''end of main''], kpc := K_exit 0\<rparr>)
   | _ \<Rightarrow> None)"

definition thread2_main :: "bool \<Rightarrow> printing \<Rightarrow> printing option" where
  "thread2_main ok s = (case kpc s of
     K_create \<Rightarrow> Some (if ok then s\<lparr>running := Some 0, kpc := K_join\<rparr> else s\<lparr>shown := shown s @ [''pthread_create() error''], kpc := K_exit (- 1)\<rparr>)
   | K_join \<Rightarrow> if \<not> ok then Some (s\<lparr>shown := shown s @ [''pthread_join() error''], kpc := K_exit (- 1)\<rparr>)
       else if running s = Some thread_param then Some (s\<lparr>kpc := K_print\<rparr>) else None
   | K_print \<Rightarrow> Some (s\<lparr>shown := shown s @ [''thread return message: Hello, I'' @ [CHR 0x27] @ ''am thread~''], kpc := K_exit 0\<rparr>)
   | _ \<Rightarrow> None)"

datatype print_act = P_main bool | P_thread

fun exited :: "ppc \<Rightarrow> bool" where
  "exited (K_exit _) = True"
| "exited _ = False"

definition print_step :: "(bool \<Rightarrow> printing \<Rightarrow> printing option) \<Rightarrow> print_act \<Rightarrow> printing \<Rightarrow> printing option" where
  "print_step m a s = (if exited (kpc s) then None else case a of P_main ok \<Rightarrow> m ok s | P_thread \<Rightarrow> thread_main s)"

section \<open>The mutex\<close>

fun holds :: "tpc \<Rightarrow> bool" where
  "holds (T_for _) = True" | "holds (T_fetch _) = True" | "holds (T_store _ _) = True" | "holds T_unlock = True" | "holds _ = False"

fun done_runs :: "nat \<Rightarrow> tpc \<Rightarrow> nat" where
  "done_runs n (T_for i) = i" | "done_runs n (T_fetch i) = i" | "done_runs n (T_store i _) = i"
| "done_runs n T_unlock = n" | "done_runs n T_return = n" | "done_runs n _ = 0"

fun t_ok :: "nat \<Rightarrow> int \<Rightarrow> tpc \<Rightarrow> bool" where
  "t_ok n v (T_for i) = (i \<le> n)" | "t_ok n v (T_fetch i) = (i < n)" | "t_ok n v (T_store i w) = (i < n \<and> w = v)" | "t_ok n v _ = True"

definition contribution :: "nat \<Rightarrow> nat \<Rightarrow> counter \<Rightarrow> int" where
  "contribution runs n s = (\<Sum>t<n. delta t * int (done_runs runs (tpc s t)))"

definition main_ok :: "nat \<Rightarrow> counter \<Rightarrow> bool" where
  "main_ok n s \<longleftrightarrow> (case mpc s of
     M_create i \<Rightarrow> (\<forall>t\<ge>i. tpc s t = T_none) \<and> i \<le> n
   | M_join i \<Rightarrow> (\<forall>t<i. tpc s t = T_return) \<and> i \<le> n
   | M_undef \<Rightarrow> True
   | _ \<Rightarrow> \<forall>t<n. tpc s t = T_return)"

definition locked_inv :: "nat \<Rightarrow> nat \<Rightarrow> counter \<Rightarrow> bool" where
  "locked_inv runs n s \<longleftrightarrow> (\<forall>t. holds (tpc s t) \<longleftrightarrow> mutex s = Some t) \<and> total s = contribution runs n s \<and>
     (\<forall>t. t_ok runs (total s) (tpc s t)) \<and> (\<forall>t\<ge>n. tpc s t = T_none) \<and> main_ok n s \<and>
     result s = (if mpc s = M_done then Some (total s) else None)"

lemma sum_upd_int:
  fixes f :: "nat \<Rightarrow> 'a \<Rightarrow> int"
  assumes "t < n"
  shows "(\<Sum>u<n. f u ((g(t := x)) u)) = (\<Sum>u<n. f u (g u)) - f t (g t) + f t x"
proof -
  have *: "(\<Sum>u<n. f u (h u)) = f t (h t) + (\<Sum>u\<in>{..<n} - {t}. f u (h u))" for h
    using assms by (simp add: sum.remove)
  have "(\<Sum>u\<in>{..<n} - {t}. f u ((g(t := x)) u)) = (\<Sum>u\<in>{..<n} - {t}. f u (g u))" by (rule sum.cong) auto
  then show ?thesis using * [of g] * [of "g(t := x)"] by simp
qed

lemma contribution_move:
  assumes "t < n" "tpc s' = (tpc s)(t := pc)"
  shows "contribution runs n s' = contribution runs n s + delta t * (int (done_runs runs pc) - int (done_runs runs (tpc s t)))"
  unfolding contribution_def assms(2) using sum_upd_int [OF assms(1), of "\<lambda>t pc. delta t * int (done_runs runs pc)" "tpc s" pc]
  by (simp add: right_diff_distrib)

text \<open>A thread that moves: only the one with the mutex changes the variable.\<close>

lemma thread_move:
  assumes inv: "locked_inv runs n s" and t: "tpc s t \<noteq> T_none" "tpc s t \<noteq> T_return"
    and s': "tpc s' = (tpc s)(t := pc)" "mpc s' = mpc s" "result s' = result s" "mpc s \<noteq> M_done" "pc \<noteq> T_none"
    and h: "\<And>u. holds (((tpc s)(t := pc)) u) \<longleftrightarrow> mutex s' = Some u"
    and v: "total s' = total s + delta t * (int (done_runs runs pc) - int (done_runs runs (tpc s t)))"
    and k: "t_ok runs (total s') pc" "total s' = total s \<or> holds (tpc s t)"
  shows "locked_inv runs n s'"
proof -
  have n: "t < n" using inv t(1) by (auto simp: locked_inv_def not_le [symmetric])
  have alone: "\<not> holds (tpc s u)" if "holds (tpc s t)" "u \<noteq> t" for u using inv that by (auto simp: locked_inv_def)
  have other: "t_ok runs v pc'" if "\<not> holds pc'" for v pc' using that by (cases pc') auto
  have "t_ok runs (total s') (tpc s u)" if "u \<noteq> t" for u
    using k(2) alone that other inv by (auto simp: locked_inv_def)
  then have "t_ok runs (total s') (tpc s' u)" for u using s'(1) k(1) by (cases "u = t") auto
  moreover have "main_ok n s'"
    using inv s' t by (auto simp: locked_inv_def main_ok_def split: main_pc.splits)
  moreover have "total s' = contribution runs n s'" using inv v contribution_move [OF n s'(1)] by (simp add: locked_inv_def)
  moreover have "holds (tpc s' u) \<longleftrightarrow> mutex s' = Some u" for u using h [of u] s'(1) by simp
  moreover have "\<forall>u\<ge>n. tpc s' u = T_none" using inv n s'(1) by (simp add: locked_inv_def)
  moreover have "result s' = (if mpc s' = M_done then Some (total s') else None)" using inv s'(2-4) by (simp add: locked_inv_def)
  ultimately show ?thesis unfolding locked_inv_def by blast
qed

lemma thread_inv:
  assumes inv: "locked_inv runs n s" and m: "mpc s \<noteq> M_done" and step: "thread True runs t s = Some s'"
  shows "locked_inv runs n s'"
proof -
  have h: "holds (tpc s u) \<longleftrightarrow> mutex s = Some u" and k: "t_ok runs (total s) (tpc s t)" for u using inv by (auto simp: locked_inv_def)
  show ?thesis
  proof (cases "tpc s t")
    case T_lock
    then have "s' = goto t (T_for 0) (s\<lparr>mutex := Some t\<rparr>)" "mutex s = None" using step by (auto simp: thread_def)
    then show ?thesis using T_lock m h by (intro thread_move [OF inv, of t _ "T_for 0"]) (auto simp: goto_def)
  next
    case (T_for i)
    have s': "s' = goto t (if i < runs then T_fetch i else T_unlock) s" using step T_for by (simp add: thread_def)
    have ht: "mutex s = Some t" using h [of t] T_for by simp
    show ?thesis
    proof (cases "i < runs")
      case True
      then show ?thesis using T_for m h ht s' by (intro thread_move [OF inv, of t _ "T_fetch i"]) (simp_all add: goto_def)
    next
      case False
      then have "i = runs" using T_for k by simp
      then show ?thesis using T_for m h ht s' by (intro thread_move [OF inv, of t _ T_unlock]) (simp_all add: goto_def)
    qed
  next
    case (T_fetch i)
    then have "s' = goto t (T_store i (total s)) s" using step by (simp add: thread_def)
    moreover have "mutex s = Some t" using h [of t] T_fetch by simp
    ultimately show ?thesis using T_fetch m h k by (intro thread_move [OF inv, of t _ "T_store i (total s)"]) (simp_all add: goto_def)
  next
    case (T_store i v)
    then have "s' = goto t (T_for (i + 1)) (s\<lparr>total := v + delta t\<rparr>)" using step by (simp add: thread_def)
    moreover have "mutex s = Some t" using h [of t] T_store by simp
    ultimately show ?thesis using T_store m h k by (intro thread_move [OF inv, of t _ "T_for (i + 1)"]) (simp_all add: goto_def algebra_simps)
  next
    case T_unlock
    then have "s' = goto t T_return (s\<lparr>mutex := None\<rparr>)" using step by (simp add: thread_def mutex_unlock_def)
    moreover have "mutex s = Some t" using h [of t] T_unlock by simp
    ultimately show ?thesis using T_unlock m h by (intro thread_move [OF inv, of t _ T_return]) (simp_all add: goto_def)
  qed (use step in \<open>simp_all add: thread_def\<close>)
qed

lemma td_main_inv:
  assumes inv: "locked_inv runs n s" and step: "main n ok s = Some s'"
  shows "locked_inv runs n s'"
proof -
  have frame: "locked_inv runs n (s\<lparr>mpc := pc\<rparr>)" if "main_ok n (s\<lparr>mpc := pc\<rparr>)" "pc \<noteq> M_done" "mpc s \<noteq> M_done" for pc
    using inv that by (auto simp: locked_inv_def contribution_def)
  have mo: "main_ok n s" using inv by (simp add: locked_inv_def)
  show ?thesis
  proof (cases "mpc s")
    case (M_create i)
    show ?thesis
    proof (cases "i < n")
      case False
      then have s': "s' = s\<lparr>mpc := M_join 0\<rparr>" using step M_create by (simp add: main_def)
      show ?thesis unfolding s' by (rule frame) (use M_create in \<open>simp_all add: main_ok_def\<close>)
    next
      case True
      have f: "locked_inv runs n (s\<lparr>mpc := M_create (i + 1)\<rparr>)"
        using frame [of "M_create (i + 1)"] M_create True mo by (simp add: main_ok_def)
      show ?thesis
      proof (cases ok)
        case True
        have none: "tpc s i = T_none" using mo M_create by (simp add: main_ok_def)
        have c: "contribution runs n (goto i T_lock (s\<lparr>mpc := M_create (i + 1)\<rparr>)) = contribution runs n s"
          unfolding contribution_def goto_def by (rule sum.cong) (auto simp: none)
        have s': "s' = goto i T_lock (s\<lparr>mpc := M_create (i + 1)\<rparr>)" using step M_create \<open>i < n\<close> True by (simp add: main_def)
        have "main_ok n s'" using mo M_create \<open>i < n\<close> by (simp add: s' main_ok_def goto_def)
        moreover have "\<forall>t. holds (tpc s' t) \<longleftrightarrow> mutex s' = Some t" using inv none by (auto simp: locked_inv_def s' goto_def) (metis holds.simps(5))
        moreover have "\<forall>t. t_ok runs (total s) (tpc s t)" using inv unfolding locked_inv_def by blast
        then have "\<forall>t. t_ok runs (total s') (tpc s' t)" by (simp add: s' goto_def)
        ultimately show ?thesis using inv c \<open>i < n\<close> M_create by (simp add: locked_inv_def s') (simp add: goto_def)
      next
        case False
        then show ?thesis using f step M_create \<open>i < n\<close> by (simp add: main_def)
      qed
    qed
  next
    case (M_join i)
    consider "i < n" "s' = s\<lparr>mpc := M_undef\<rparr>" | "i < n" "tpc s i = T_return" "s' = s\<lparr>mpc := M_join (i + 1)\<rparr>" | "\<not> i < n" "s' = s\<lparr>mpc := M_print\<rparr>"
      using step M_join by (auto simp: main_def split: if_splits)
    then show ?thesis
      by cases (use M_join mo frame in \<open>auto simp: main_ok_def less_Suc_eq\<close>)
  next
    case M_print
    then show ?thesis using step inv by (auto simp: main_def locked_inv_def main_ok_def contribution_def)
  qed (use step in \<open>simp_all add: main_def\<close>)
qed

fun t_rank :: "nat \<Rightarrow> tpc \<Rightarrow> nat" where
  "t_rank n T_none = 3 * n + 4" | "t_rank n T_lock = 3 * n + 3" | "t_rank n (T_for i) = 3 * (n - i) + 2" | "t_rank n (T_fetch i) = 3 * (n - i) + 1"
| "t_rank n (T_store i v) = 3 * (n - i)" | "t_rank n T_unlock = 1" | "t_rank n T_return = 0"

fun m_rank :: "nat \<Rightarrow> main_pc \<Rightarrow> nat" where
  "m_rank n (M_create i) = 2 * n + 4 - i" | "m_rank n (M_join i) = n + 3 - i" | "m_rank n M_print = 1" | "m_rank n _ = 0"

definition rank :: "nat \<Rightarrow> nat \<Rightarrow> counter \<Rightarrow> nat" where
  "rank runs n s = m_rank n (mpc s) + nat (\<Sum>t<n. int (t_rank runs (tpc s t)))"

lemma rank_move:
  assumes "t < n" "tpc s' = (tpc s)(t := pc)" "t_rank runs pc < t_rank runs (tpc s t)" "m_rank n (mpc s') \<le> m_rank n (mpc s)"
  shows "rank runs n s' < rank runs n s"
proof -
  have "0 \<le> (\<Sum>t<n. int (t_rank runs (tpc s' t)))" by (rule sum_nonneg) simp
  then show ?thesis
    using sum_upd_int [OF assms(1), of "\<lambda>t pc. int (t_rank runs pc)" "tpc s" pc] assms(2-4) by (simp add: rank_def)
qed

lemma thread_rank:
  assumes inv: "locked_inv runs n s" and step: "thread True runs t s = Some s'"
  shows "rank runs n s' < rank runs n s"
proof -
  have t: "t < n" using inv step by (cases "t < n") (auto simp: locked_inv_def thread_def)
  have k: "t_ok runs (total s) (tpc s t)" using inv unfolding locked_inv_def by blast
  obtain pc where "tpc s' = (tpc s)(t := pc)" "t_rank runs pc < t_rank runs (tpc s t)" "mpc s' = mpc s"
    using step k by (cases "tpc s t") (auto simp: thread_def goto_def split: if_splits)
  then show ?thesis using rank_move [OF t] by simp
qed

lemma td_main_rank:
  assumes inv: "locked_inv runs n s" and step: "main n ok s = Some s'"
  shows "rank runs n s' < rank runs n s"
proof (cases "\<exists>i<n. mpc s = M_create i \<and> ok")
  case True
  then obtain i where i: "i < n" "mpc s = M_create i" ok by blast
  then have "tpc s i = T_none" "s' = goto i T_lock (s\<lparr>mpc := M_create (i + 1)\<rparr>)"
    using inv step by (auto simp: locked_inv_def main_ok_def main_def)
  then show ?thesis using i by (intro rank_move [OF i(1), of _ _ T_lock]) (auto simp: goto_def)
next
  case False
  have "main_ok n s" using inv by (simp add: locked_inv_def)
  with False step show ?thesis by (cases "mpc s") (auto simp: main_def rank_def main_ok_def split: if_splits)
qed

lemma locked_progress:
  assumes inv: "locked_inv runs n s" and m: "mpc s \<notin> {M_done, M_undef}"
  shows "\<exists>a\<in>insert (Main True) (range Thread). \<exists>s'. step True runs n a s = Some s'"
proof (cases "\<exists>t. tpc s t \<noteq> T_none \<and> tpc s t \<noteq> T_return")
  case False
  have "\<exists>s'. main n True s = Some s'" using False m by (cases "mpc s") (auto simp: main_def)
  then show ?thesis by auto
next
  case True
  have mv: "\<exists>s'. step True runs n (Thread u) s = Some s'" if "\<exists>s'. thread True runs u s = Some s'" for u using that m by auto
  show ?thesis
  proof (cases "mutex s")
    case (Some u)
    then have "holds (tpc s u)" using inv by (simp add: locked_inv_def)
    then have "\<exists>s'. thread True runs u s = Some s'" by (cases "tpc s u") (auto simp: thread_def)
    then show ?thesis using mv by blast
  next
    case None
    with True inv obtain t where "tpc s t = T_lock" unfolding locked_inv_def by (metis holds.elims(3) option.distinct(1))
    then have "\<exists>s'. thread True runs t s = Some s'" using None by (simp add: thread_def mutex_lock_def)
    then show ?thesis using mv by blast
  qed
qed

interpretation locked: terminating_system "step True runs n" start "locked_inv runs n" "rank runs n" "\<lambda>s. mpc s \<in> {M_done, M_undef}"
  "insert (Main True) (range Thread)"
proof unfold_locales
  show "locked_inv runs n start" by (simp add: locked_inv_def start_def contribution_def main_ok_def)
next
  fix s a s'
  assume i: "locked_inv runs n s" and s: "step True runs n a s = Some s'"
  show "locked_inv runs n s'" using s td_main_inv [OF i] thread_inv [OF i] by (cases a) (auto split: if_splits)
  show "rank runs n s' < rank runs n s" using s td_main_rank [OF i] thread_rank [OF i] by (cases a) (auto split: if_splits)
qed (rule locked_progress)

lemma delta_pairs: "(\<Sum>t<2 * k. delta t) = 0"
  by (induction k) (simp_all add: delta_def)

text \<open>
  mutex.c: under every schedule the hundred threads leave the variable at 0, and that is what main prints. Every schedule
  is finite; one that cannot go on has printed, or \<open>pthread_create\<close> had failed and main joined a thread that does not exist.
\<close>

theorem mutex_prints_zero:
  assumes "run mutex_step ts start = Some s"
  shows "(\<forall>r. result s = Some r \<longrightarrow> r = 0) \<and> length ts \<le> 204 + 100 * (3 * MAX_RUN + 4) \<and>
    (stuck (insert (Main True) (range Thread)) mutex_step s \<longrightarrow> mpc s = M_undef \<or> result s = Some 0)"
proof -
  have r: "run (step True MAX_RUN NUM_THREAD) ts start = Some s" using assms by (simp add: mutex_step_def)
  have i: "locked_inv MAX_RUN NUM_THREAD s" by (rule locked.run_inv [OF r])
  have z: "result s = Some 0" if "mpc s = M_done"
  proof -
    have "contribution MAX_RUN NUM_THREAD s = (\<Sum>t<NUM_THREAD. delta t * int MAX_RUN)"
      unfolding contribution_def using i that by (intro sum.cong) (auto simp: locked_inv_def main_ok_def)
    also have "\<dots> = (\<Sum>t<2 * 50. delta t) * int MAX_RUN" by (simp add: sum_distrib_right NUM_THREAD_def)
    finally have "contribution MAX_RUN NUM_THREAD s = 0" unfolding delta_pairs by simp
    then show ?thesis using i that by (simp add: locked_inv_def)
  qed
  have n: "result s = None" if "mpc s \<noteq> M_done" using i that by (simp add: locked_inv_def)
  have b: "rank MAX_RUN NUM_THREAD start = 204 + 100 * (3 * MAX_RUN + 4)" by (simp add: rank_def start_def NUM_THREAD_def MAX_RUN_def)
  have "\<forall>r. result s = Some r \<longrightarrow> r = 0" using z n by (cases "mpc s = M_done") auto
  then show ?thesis
    using z n locked.run_bounded [OF r] locked.stuck_final [OF r] b by (auto simp: mutex_step_def)
qed

theorem mutex_prints_zero_witness:
  "\<exists>s. run mutex_step [Main True, Thread 0, Thread 0, Main True, Thread 0] start = Some s \<and> (\<forall>r. result s = Some r \<longrightarrow> r = 0) \<and> tpc s 1 = T_lock"
proof -
  have "\<exists>s. run mutex_step [Main True, Thread 0, Thread 0, Main True, Thread 0] start = Some s \<and> tpc s 1 = T_lock"
    by (simp add: mutex_step_def start_def main_def thread_def goto_def mutex_lock_def NUM_THREAD_def MAX_RUN_def)
  then obtain s where "run mutex_step [Main True, Thread 0, Thread 0, Main True, Thread 0] start = Some s" "tpc s 1 = T_lock" by blast
  with mutex_prints_zero [of "[Main True, Thread 0, Thread 0, Main True, Thread 0]" s] show ?thesis by blast
qed

text \<open>Without the mutex two updates give one: after one iteration of an incrementing and a decrementing thread the variable is 1.\<close>

lemma thread4_race:
  "\<exists>s. run thread4_step [Main True, Main True, Thread 0, Thread 0, Thread 0, Thread 1, Thread 1, Thread 1, Thread 0, Thread 1] start = Some s \<and>
     tpc s 0 = T_for 1 \<and> tpc s 1 = T_for 1 \<and> total s = 1 \<and> delta 0 + delta 1 = 0"
  by (simp add: thread4_step_def start_def main_def thread_def goto_def NUM_THREAD_def MAX_RUN_def delta_def)

lemma thread3_race:
  "map_option (\<lambda>s. (spc s 0, spc s 1, rsum s)) (run thread3_step
     ([False, False, True, True, True] @ replicate 13 True @ [False] @ replicate 13 False) thread3_start) = Some (S_return, S_return, 15)"
  by code_simp

section \<open>The two semaphores\<close>

text \<open>The numbers that the reading thread sees.\<close>

fun entered :: "int \<Rightarrow> int option list \<Rightarrow> nat \<Rightarrow> int list" where
  "entered old xs 0 = []"
| "entered old xs (Suc k) = scan old xs # entered (scan old xs) (tl xs) k"

lemma length_entered [simp]: "length (entered old xs k) = k"
  by (induction k arbitrary: old xs) auto

lemma entered_nth: "j < k \<Longrightarrow> entered old xs k ! j = scan (if j = 0 then old else entered old xs k ! (j - 1)) (drop j xs)"
proof (induction k arbitrary: old xs j)
  case (Suc k)
  show ?case
  proof (cases j)
    case (Suc i)
    then have "i < k" using Suc.prems by simp
    with Suc.IH [of i "scan old xs" "tl xs"] show ?thesis using Suc by (cases i) (auto simp: drop_Suc)
  qed simp
qed simp

definition r_done :: "handover \<Rightarrow> nat" where "r_done s = r_i s + (if rpc s = R_post then 1 else 0)"
definition a_done :: "handover \<Rightarrow> nat" where "a_done s = a_i s + (if apc s = A_post then 1 else 0)"

text \<open>Some partial sum of the numbers leaves the range of \<open>int\<close>.\<close>

definition sum_overflows :: "int list \<Rightarrow> bool" where
  "sum_overflows vs \<longleftrightarrow> (\<exists>k\<le>length vs. \<not> (- INT_MAX - 1 \<le> sum_list (take k vs) \<and> sum_list (take k vs) \<le> INT_MAX))"

definition handover_inv :: "int option list \<Rightarrow> handover \<Rightarrow> bool" where
  "handover_inv xs s \<longleftrightarrow> sem_one s + (if apc s = A_add then 1 else 0) + a_done s = r_i s \<and>
     sem_two s + r_i s + (if rpc s \<in> {R_scan, R_post} then 1 else 0) = 1 + a_i s \<and>
     typed s = drop (r_done s) xs \<and> num s = (if r_done s = 0 then 0 else entered 0 xs 5 ! (r_done s - 1)) \<and>
     acc s = sum_list (take (a_done s) (entered 0 xs 5)) \<and>
     (rpc s \<in> {R_wait, R_scan, R_post} \<longrightarrow> r_i s < 5) \<and> r_i s \<le> 5 \<and> (rpc s = R_return \<longrightarrow> r_i s = 5) \<and>
     (apc s \<in> {A_wait, A_add, A_post} \<longrightarrow> a_i s < 5) \<and> a_i s \<le> 5 \<and> (apc s \<in> {A_print, A_return} \<longrightarrow> a_i s = 5) \<and>
     printed s = (if apc s = A_return then [acc s] else []) \<and> (overflow s \<longrightarrow> sum_overflows (entered 0 xs 5))"

definition handover_rank :: "handover \<Rightarrow> nat" where
  "handover_rank s = (4 * (5 - r_i s) + (case rpc s of R_for \<Rightarrow> 4 | R_wait \<Rightarrow> 3 | R_scan \<Rightarrow> 2 | R_post \<Rightarrow> 1 | R_return \<Rightarrow> 0)) +
     (4 * (5 - a_i s) + (case apc s of A_for \<Rightarrow> 5 | A_wait \<Rightarrow> 4 | A_add \<Rightarrow> 3 | A_post \<Rightarrow> 2 | A_print \<Rightarrow> 1 | A_return \<Rightarrow> 0)) + (if overflow s then 0 else 1)"

lemmas handover_defs = handover_inv_def r_done_def a_done_def handover_rank_def

lemma reader_ahead:
  assumes "handover_inv xs s" "rpc s \<in> {R_scan, R_post} \<or> rpc s = R_wait \<and> 0 < sem_two s"
  shows "a_i s = r_i s" "r_i s < 5" "apc s \<notin> {A_print, A_return}"
proof -
  have "sem_one s + (if apc s = A_add then 1 else 0) + a_done s = r_i s"
    "sem_two s + r_i s + (if rpc s \<in> {R_scan, R_post} then 1 else 0) = 1 + a_i s" "apc s \<in> {A_print, A_return} \<longrightarrow> a_i s = 5"
    and r: "r_i s < 5" using assms unfolding handover_inv_def by blast+
  then show e: "a_i s = r_i s" "apc s \<notin> {A_print, A_return}" using assms(2) by (auto simp: a_done_def)
  show "r_i s < 5" by (rule r)
qed

lemma adder_last:
  assumes "handover_inv xs s" "apc s \<in> {A_print, A_return}"
  shows "r_i s = 5" "a_i s = 5" "rpc s \<notin> {R_wait, R_scan, R_post}"
proof -
  have "sem_one s + (if apc s = A_add then 1 else 0) + a_done s = r_i s" "r_i s \<le> 5" and a: "a_i s = 5"
    and p: "rpc s \<in> {R_wait, R_scan, R_post} \<longrightarrow> r_i s < 5" using assms unfolding handover_inv_def by blast+
  then show r: "r_i s = 5" by (simp add: a_done_def)
  show "a_i s = 5" by (rule a)
  show "rpc s \<notin> {R_wait, R_scan, R_post}" using p r by simp
qed

lemma read_inv:
  assumes inv: "handover_inv xs s" and step: "read_thread s = Some s'"
  shows "handover_inv xs s' \<and> handover_rank s' < handover_rank s"
proof (cases "rpc s")
  case R_scan
  then have d: "r_done s = r_i s" by (simp add: r_done_def)
  note a = reader_ahead [OF inv disjI1, unfolded R_scan, simplified]
  have e: "scan (num s) (typed s) = entered 0 xs 5 ! r_i s"
    using entered_nth [OF a(2), of 0 xs] inv d by (simp add: handover_inv_def)
  have t: "tl (typed s) = drop (Suc (r_i s)) xs" using inv d by (simp add: handover_inv_def drop_Suc tl_drop)
  have "s' = s\<lparr>num := scan (num s) (typed s), typed := tl (typed s), rpc := R_post\<rparr>" using step R_scan by (simp add: read_thread_def)
  with inv d R_scan e t a show ?thesis by (simp add: handover_defs)
next
  case R_for
  then have "s' = (if r_i s < 5 then s\<lparr>prompts := prompts s + 1, rpc := R_wait\<rparr> else s\<lparr>rpc := R_return\<rparr>)" using step by (simp add: read_thread_def)
  with inv R_for show ?thesis by (simp add: handover_defs)
next
  case R_wait
  then have s: "s' = s\<lparr>sem_two := sem_two s - 1, rpc := R_scan\<rparr>" "0 < sem_two s"
    using step by (auto simp: read_thread_def sem_wait_def split: if_splits)
  note reader_ahead [OF inv disjI2, unfolded R_wait, simplified, OF s(2)]
  with inv R_wait s show ?thesis by (simp add: handover_defs)
next
  case R_post
  then have "s' = s\<lparr>sem_one := sem_one s + 1, r_i := r_i s + 1, rpc := R_for\<rparr>" using step by (simp add: read_thread_def sem_post_def)
  moreover note a = reader_ahead [OF inv disjI1, unfolded R_post, simplified]
  moreover have "Suc (4 - r_i s) = 5 - r_i s" using a(2) by simp
  ultimately show ?thesis using inv R_post by (simp add: handover_defs)
next
  case R_return
  then show ?thesis using step by (simp add: read_thread_def)
qed

lemma accu_inv:
  assumes inv: "handover_inv xs s" and step: "accu_thread s = Some s'" and o: "\<not> overflow s"
  shows "handover_inv xs s' \<and> handover_rank s' < handover_rank s"
proof (cases "apc s")
  case A_add
  have "sem_one s + 1 + a_i s = r_i s" "sem_two s + r_i s + (if rpc s \<in> {R_scan, R_post} then 1 else 0) = 1 + a_i s"
    using inv A_add by (simp_all add: handover_inv_def a_done_def)
  then have r: "r_i s = a_i s + 1" "rpc s \<notin> {R_scan, R_post}" by (auto split: if_splits)
  then have d: "r_done s = a_i s + 1" "a_done s = a_i s" "a_i s < 5"
    using inv A_add by (auto simp: r_done_def a_done_def handover_inv_def)
  then have e: "acc s + num s = sum_list (take (Suc (a_i s)) (entered 0 xs 5))"
    using inv by (simp add: handover_inv_def take_Suc_conv_app_nth)
  have "s' = s\<lparr>acc := acc s + num s, apc := A_post\<rparr> \<or> s' = s\<lparr>overflow := True\<rparr> \<and> \<not> (- INT_MAX - 1 \<le> acc s + num s \<and> acc s + num s \<le> INT_MAX)"
    using step A_add by (auto simp: accu_thread_def split: if_splits)
  then show ?thesis
  proof
    assume "s' = s\<lparr>acc := acc s + num s, apc := A_post\<rparr>"
    with inv r d e A_add show ?thesis by (simp add: handover_defs)
  next
    assume *: "s' = s\<lparr>overflow := True\<rparr> \<and> \<not> (- INT_MAX - 1 \<le> acc s + num s \<and> acc s + num s \<le> INT_MAX)"
    then have "sum_overflows (entered 0 xs 5)" unfolding e sum_overflows_def using d(3) by (intro exI [of _ "Suc (a_i s)"]) simp
    with inv o * show ?thesis by (simp add: handover_defs)
  qed
next
  case A_for
  then have "s' = (if a_i s < 5 then s\<lparr>apc := A_wait\<rparr> else s\<lparr>apc := A_print\<rparr>)" using step by (simp add: accu_thread_def)
  with inv A_for show ?thesis by (simp add: handover_defs)
next
  case A_wait
  then have "s' = s\<lparr>sem_one := sem_one s - 1, apc := A_add\<rparr>" "0 < sem_one s" using step by (auto simp: accu_thread_def sem_wait_def split: if_splits)
  with inv A_wait show ?thesis by (simp add: handover_defs)
next
  case A_post
  then have "s' = s\<lparr>sem_two := sem_two s + 1, a_i := a_i s + 1, apc := A_for\<rparr>" using step by (simp add: accu_thread_def sem_post_def)
  moreover have "a_i s < 5" using inv A_post by (simp add: handover_inv_def)
  then have "Suc (4 - a_i s) = 5 - a_i s" by simp
  ultimately show ?thesis using inv A_post by (simp add: handover_defs)
next
  case A_print
  then have "s' = s\<lparr>printed := printed s @ [acc s], apc := A_return\<rparr>" using step by (simp add: accu_thread_def)
  with inv A_print adder_last [OF inv] show ?thesis by (auto simp: handover_defs)
next
  case A_return
  then show ?thesis using step by (simp add: accu_thread_def)
qed

interpretation handover: terminating_system handover_step "handover_start xs" "handover_inv xs" handover_rank
  "\<lambda>s. overflow s \<or> rpc s = R_return \<and> apc s = A_return" UNIV
proof unfold_locales
  show "handover_inv xs (handover_start xs)" by (simp add: handover_inv_def handover_start_def r_done_def a_done_def)
next
  fix s t s'
  assume i: "handover_inv xs s" and s: "handover_step t s = Some s'"
  then have "handover_inv xs s' \<and> handover_rank s' < handover_rank s"
    using read_inv [OF i] accu_inv [OF i] by (simp add: handover_step_def split: if_splits)
  then show "handover_inv xs s'" "handover_rank s' < handover_rank s" by simp_all
next
  fix s
  assume i: "handover_inv xs s" and n: "\<not> (overflow s \<or> rpc s = R_return \<and> apc s = A_return)"
  show "\<exists>t\<in>UNIV. \<exists>s'. handover_step t s = Some s'"
  proof (rule ccontr)
    assume "\<not> ?thesis"
    then have "handover_step True s = None" "handover_step False s = None" by auto
    then have "read_thread s = None" "accu_thread s = None" using n by (simp_all add: handover_step_def)
    then have "rpc s = R_return \<or> rpc s = R_wait \<and> sem_two s = 0" "apc s = A_return \<or> apc s = A_wait \<and> sem_one s = 0"
      by (auto simp: read_thread_def accu_thread_def split: rpc.splits apc.splits if_splits)
    then consider "rpc s = R_return" "apc s = A_wait" "sem_one s = 0" | "rpc s = R_wait" "sem_two s = 0" "apc s = A_return"
      | "rpc s = R_wait" "sem_two s = 0" "apc s = A_wait" "sem_one s = 0" using n by auto
    then show False by cases (use i adder_last(3) [OF i] in \<open>auto simp: handover_inv_def a_done_def\<close>)
  qed
qed

text \<open>
  C36. semaphore.c: the two threads alternate, and accu prints the sum of the five numbers as read saw them, whatever the schedule;
  every schedule ends, with both threads returned, unless a partial sum of these numbers leaves the range of \<open>int\<close>.
\<close>

theorem semaphore_sums:
  assumes "run handover_step ts (handover_start xs) = Some s"
  shows "printed s \<in> {[], [sum_list (entered 0 xs 5)]} \<and> length ts \<le> 50 \<and> a_i s \<le> r_i s \<and> r_i s \<le> a_i s + 1 \<and>
    (stuck UNIV handover_step s \<longrightarrow> sum_overflows (entered 0 xs 5) \<or>
       printed s = [sum_list (entered 0 xs 5)] \<and> rpc s = R_return \<and> apc s = A_return)"
proof -
  have i: "handover_inv xs s" by (rule handover.run_inv [OF assms])
  have "apc s = A_return \<Longrightarrow> printed s = [sum_list (entered 0 xs 5)]" "apc s \<noteq> A_return \<Longrightarrow> printed s = []"
    using i by (auto simp: handover_inv_def a_done_def)
  moreover have "handover_rank (handover_start xs) = 50" by (simp add: handover_rank_def handover_start_def)
  moreover have "a_i s \<le> r_i s" "r_i s \<le> a_i s + 1" "overflow s \<longrightarrow> sum_overflows (entered 0 xs 5)"
    using i by (auto simp: handover_inv_def a_done_def split: if_splits)
  ultimately show ?thesis using handover.run_bounded [OF assms] handover.stuck_final [OF assms] by auto
qed

theorem semaphore_sums_witness:
  "\<exists>s. run handover_step (concat (replicate 5 [True, True, True, True, False, False, False, False]) @ [True, False, False])
      (handover_start [Some 3, None, Some 4, Some 5, Some 6]) = Some s \<and> printed s = [21]"
proof -
  let ?ts = "concat (replicate 5 [True, True, True, True, False, False, False, False]) @ [True, False, False]"
  let ?xs = "[Some 3, None, Some 4, Some 5, Some 6]"
  have "map_option apc (run handover_step ?ts (handover_start ?xs)) = Some A_return" by code_simp
  then obtain s where s: "run handover_step ?ts (handover_start ?xs) = Some s" "apc s = A_return" by auto
  then have "printed s \<noteq> []" using handover.run_inv [OF s(1)] by (simp add: handover_inv_def)
  moreover have "sum_list (entered 0 ?xs 5) = 21" by code_simp
  ultimately show ?thesis using semaphore_sums [OF s(1)] s(1) by auto
qed

section \<open>The printing thread\<close>

definition thread2_inv :: "printing \<Rightarrow> bool" where
  "thread2_inv s \<longleftrightarrow> (case kpc s of
     K_create \<Rightarrow> running s = None \<and> shown s = []
   | K_join \<Rightarrow> \<exists>i\<le>thread_param. running s = Some i \<and> shown s = replicate i ''running thread''
   | K_print \<Rightarrow> running s = Some thread_param \<and> shown s = replicate thread_param ''running thread''
   | K_exit c \<Rightarrow> c = - 1 \<or> shown s = replicate thread_param ''running thread'' @ [''thread return message: Hello, I'' @ [CHR 0x27] @ ''am thread~'']
   | _ \<Rightarrow> False)"

interpretation thread2: invariant_system "print_step thread2_main" printing_start thread2_inv
proof unfold_locales
  show "thread2_inv printing_start" by (simp add: thread2_inv_def printing_start_def)
next
  fix s a s'
  assume i: "thread2_inv s" and s: "print_step thread2_main a s = Some s'"
  show "thread2_inv s'"
  proof (cases a)
    case (P_main ok)
    then show ?thesis using i s by (auto simp: print_step_def thread2_main_def thread2_inv_def split: ppc.splits if_splits)
  next
    case P_thread
    then have t: "thread_main s = Some s'" using s by (simp add: print_step_def split: if_splits)
    then obtain i where "running s = Some i" "i < thread_param" "s' = s\<lparr>shown := shown s @ [''running thread''], running := Some (i + 1)\<rparr>"
      by (auto simp: thread_main_def split: option.splits if_splits)
    then show ?thesis using i s P_thread
      by (auto simp: thread2_inv_def print_step_def replicate_append_same split: ppc.splits if_splits)
  qed
qed

text \<open>thread2 with status 0 has printed the five lines of its thread and then the message; thread1 may end before its thread printed at all.\<close>

lemma thread2_prints:
  "run (print_step thread2_main) ts printing_start = Some s \<Longrightarrow> kpc s = K_exit 0 \<Longrightarrow>
    shown s = replicate 5 ''running thread'' @ [''thread return message: Hello, I'' @ [CHR 0x27] @ ''am thread~'']"
  using thread2.run_inv [of ts s] by (simp add: thread2_inv_def thread_param_def)

lemma thread1_early_end:
  "map_option shown (run (print_step thread1_main) [P_main True, P_thread, P_main True, P_main True] printing_start)
    = Some [''running thread'', ''end of main'']"
  by code_simp

end
