(* ===== verification/Net_Addr.thy ===== *)
theory Net_Addr
  imports Posix_Prog
begin

text \<open>
  Integers in memory and network addresses: little-endian storage, \<open>htons\<close> and \<open>htonl\<close>,
  \<open>inet_aton\<close>, \<open>inet_addr\<close> and \<open>inet_ntoa\<close> of the C library, \<open>struct sockaddr_in\<close>, and the
  programs \<^verbatim>\<open>endian_conv.c\<close>, \<^verbatim>\<open>inet_addr.c\<close>, \<^verbatim>\<open>inet_aton.c\<close> and \<^verbatim>\<open>inet_ntoa.c\<close> under
  \<^verbatim>\<open>src/tcp-ip/socket/src\<close> that show them.
\<close>

section \<open>Integers in memory\<close>

primrec le_bytes :: "nat \<Rightarrow> int \<Rightarrow> char list" where
  "le_bytes 0 i = []"
| "le_bytes (Suc n) i = char_of (nat (i mod 256)) # le_bytes n (i div 256)"

primrec le_val :: "char list \<Rightarrow> int" where
  "le_val [] = 0"
| "le_val (c # cs) = int (of_char c) + 256 * le_val cs"

lemma length_le_bytes [simp]: "length (le_bytes n i) = n"
  by (induction n arbitrary: i) auto

lemma of_char_less_256 [simp]: "(of_char c :: nat) < 256"
  by simp

lemma le_val_range: "0 \<le> le_val cs \<and> le_val cs < 256 ^ length cs"
proof (induction cs)
  case (Cons c cs)
  have c: "0 \<le> int (of_char c :: nat)" "int (of_char c :: nat) < 256"
    using of_char_less_256 [of c] by linarith+
  from Cons have "le_val cs + 1 \<le> 256 ^ length cs" by simp
  with c have "int (of_char c) + 256 * le_val cs < 256 * 256 ^ length cs" by linarith
  with Cons show ?case by simp
qed simp

lemma le_val_bytes: "le_val (le_bytes n i) = i mod 256 ^ n"
proof (induction n arbitrary: i)
  case (Suc n)
  have "of_char (char_of (nat (i mod 256)) :: char) = nat (i mod 256)"
    by (simp add: of_char_of nat_less_iff)
  then have "le_val (le_bytes (Suc n) i) = i mod 256 + 256 * (i div 256 mod 256 ^ n)"
    by (simp add: Suc)
  also have "\<dots> = i mod (256 * 256 ^ n)"
    by (subst zmod_zmult2_eq) (auto simp: algebra_simps)
  finally show ?case by simp
qed simp

lemma le_bytes_val: "le_bytes (length cs) (le_val cs) = cs"
proof (induction cs)
  case (Cons c cs)
  have "0 \<le> int (of_char c :: nat)" "int (of_char c :: nat) < 256"
    using of_char_less_256 [of c] by linarith+
  then have "(int (of_char c) + 256 * le_val cs) mod 256 = int (of_char c)"
    "(int (of_char c) + 256 * le_val cs) div 256 = le_val cs"
    by simp_all
  with Cons show ?case by simp
qed simp

text \<open>A signed \<open>int\<close> in memory.\<close>

definition int_bytes :: "int \<Rightarrow> char list" where
  "int_bytes i = le_bytes 4 i"

definition int_val :: "char list \<Rightarrow> int" where
  "int_val bs = c_int (le_val bs)"

lemma length_int_bytes [simp]: "length (int_bytes i) = 4"
  by (simp add: int_bytes_def)

lemma int_val_bytes: "int_val (int_bytes i) = c_int i"
proof -
  have "(i mod 4294967296 + 2147483648) mod 4294967296 = (i + 2147483648) mod 4294967296"
    by (simp add: mod_add_left_eq)
  then show ?thesis by (simp add: int_val_def int_bytes_def le_val_bytes c_int_def)
qed

lemma mod_65536_div: "(i :: int) mod 65536 div 256 = i div 256 mod 256"
proof -
  have "i mod (256 * 256) = 256 * (i div 256 mod 256) + i mod 256" by (rule zmod_zmult2_eq) simp
  then show ?thesis by simp
qed

section \<open>Byte order\<close>

definition htons :: "int \<Rightarrow> int" where
  "htons i = le_val (rev (le_bytes 2 i))"

definition htonl :: "int \<Rightarrow> int" where
  "htonl i = le_val (rev (le_bytes 4 i))"

lemma htons_bytes: "le_bytes 2 (htons i) = rev (le_bytes 2 i)"
  using le_bytes_val [of "rev (le_bytes 2 i)"] by (simp only: htons_def length_rev length_le_bytes)

lemma htonl_bytes: "le_bytes 4 (htonl i) = rev (le_bytes 4 i)"
  using le_bytes_val [of "rev (le_bytes 4 i)"] by (simp only: htonl_def length_rev length_le_bytes)

lemma htons_htons: "htons (htons i) = i mod 65536"
  using le_val_bytes [of 2 i] by (simp only: htons_def [of "htons i"] htons_bytes rev_rev_ident) simp

lemma htonl_htonl: "htonl (htonl i) = i mod 4294967296"
  using le_val_bytes [of 4 i] by (simp only: htonl_def [of "htonl i"] htonl_bytes rev_rev_ident) simp

section \<open>Dotted notation\<close>

fun split_on :: "char \<Rightarrow> string \<Rightarrow> string list" where
  "split_on d [] = [[]]"
| "split_on d (c # cs) = (if c = d then [] # split_on d cs
     else case split_on d cs of [] \<Rightarrow> [[c]] | p # ps \<Rightarrow> (c # p) # ps)"

text \<open>A number in C notation: \<open>0x\<close> hexadecimal, a leading 0 octal, otherwise decimal.\<close>

definition hex_digit :: "char \<Rightarrow> int option" where
  "hex_digit c = (let v = int (of_char c :: nat) in
     if 48 \<le> v \<and> v \<le> 57 then Some (v - 48)
     else if 97 \<le> v \<and> v \<le> 102 then Some (v - 87)
     else if 65 \<le> v \<and> v \<le> 70 then Some (v - 55) else None)"

fun digits_val :: "int \<Rightarrow> int \<Rightarrow> string \<Rightarrow> int option" where
  "digits_val base acc [] = Some acc"
| "digits_val base acc (c # cs) = (case hex_digit c of None \<Rightarrow> None
     | Some v \<Rightarrow> if v < base then digits_val base (base * acc + v) cs else None)"

definition c_number :: "string \<Rightarrow> int option" where
  "c_number s = (if s = [] then None
     else if hd s = CHR ''0'' \<and> length s > 2 \<and> s ! 1 \<in> {CHR ''x'', CHR ''X''}
       then digits_val 16 0 (drop 2 s)
     else if hd s = CHR ''0'' then digits_val 8 0 s
     else digits_val 10 0 s)"

text \<open>
  The last of the one to four parts fills the bytes that the others leave; the address is
  delivered in network order. White space ends the address.
\<close>

fun inet_parts :: "int \<Rightarrow> int list \<Rightarrow> int option" where
  "inet_parts n [] = None"
| "inet_parts n [p] = (if 0 \<le> p \<and> p < 256 ^ nat n then Some p else None)"
| "inet_parts n (p # ps) = (if n \<le> 1 \<or> p < 0 \<or> 255 < p then None
     else map_option (\<lambda>v. p * 256 ^ nat (n - 1) + v) (inet_parts (n - 1) ps))"

definition inet_aton :: "string \<Rightarrow> int option" where
  "inet_aton s = (let ps = map c_number (split_on (CHR ''.'') (takeWhile (\<lambda>c. \<not> is_space c) s)) in
     if None \<in> set ps then None else map_option htonl (inet_parts 4 (map the ps)))"

definition INADDR_NONE :: int where "INADDR_NONE = 4294967295"
definition INADDR_ANY :: int where "INADDR_ANY = 0"

definition inet_addr :: "string \<Rightarrow> int" where
  "inet_addr s = (case inet_aton s of None \<Rightarrow> INADDR_NONE | Some a \<Rightarrow> a)"

definition inet_ntoa :: "int \<Rightarrow> string" where
  "inet_ntoa a = (let b = map (\<lambda>c. show_nat (of_char c)) (le_bytes 4 a) in
     b ! 0 @ ''.'' @ b ! 1 @ ''.'' @ b ! 2 @ ''.'' @ b ! 3)"

lemma split_on_none: "d \<notin> set p \<Longrightarrow> split_on d p = [p]"
  by (induction p) auto

lemma split_on_append: "d \<notin> set p \<Longrightarrow> split_on d (p @ d # r) = p # split_on d r"
  by (induction p) auto

lemma digit_hex: "is_digit c \<Longrightarrow> hex_digit c = Some (digit_val c) \<and> digit_val c < 10"
  by (auto simp: is_digit_def hex_digit_def digit_val_def Let_def)

lemma digits_val_atol: "\<forall>c \<in> set s. is_digit c \<Longrightarrow> digits_val 10 a s = Some (atol_digits a s)"
  by (induction s arbitrary: a) (auto simp: digit_hex)

lemma show_nat_hd_zero: "0 < n \<Longrightarrow> hd (show_nat n) \<noteq> CHR ''0''"
proof (induction n rule: show_nat.induct)
  case (1 n)
  show ?case
  proof (cases "n < 10")
    case True
    have "of_char (digit_char n) \<noteq> (of_char (CHR ''0'') :: nat)"
      using "1.prems" True by (simp add: of_char_digit)
    then have "digit_char n \<noteq> CHR ''0''" by metis
    with True show ?thesis by (simp add: show_nat.simps [of n])
  next
    case False
    with "1.IH" show ?thesis by (simp add: show_nat.simps [of n])
  qed
qed

lemma c_number_show_nat: "c_number (show_nat n) = Some (int n)"
proof (cases "n = 0")
  case True
  then show ?thesis by (simp add: c_number_def show_nat.simps digit_char_def hex_digit_def)
next
  case False
  then show ?thesis
    using show_nat_hd_zero [of n] digits_val_atol [of "show_nat n" 0]
    by (simp add: c_number_def show_nat_digits atol_digits_show_nat_acc)
qed

lemma show_nat_no_dot: "CHR ''.'' \<notin> set (show_nat n)"
  using show_nat_digits [of n] by (auto simp: is_digit_def)

lemma show_nat_no_space: "takeWhile (\<lambda>c. \<not> is_space c) (show_nat n @ r)
   = show_nat n @ takeWhile (\<lambda>c. \<not> is_space c) r"
  using show_nat_digits [of n] digit_not_special(1) by (intro takeWhile_append2) auto

lemma show_nat_takeWhile: "takeWhile (\<lambda>c. \<not> is_space c) (show_nat n) = show_nat n"
  using show_nat_no_space [of n "[]"] by (simp only: append_Nil2 takeWhile.simps)

lemma le_bytes_4: "le_bytes 4 a = [le_bytes 4 a ! 0, le_bytes 4 a ! 1, le_bytes 4 a ! 2, le_bytes 4 a ! 3]"
  by (simp add: eval_nat_numeral)

lemma inet_parts_bytes:
  "inet_parts 4 [int (of_char b0), int (of_char b1), int (of_char b2), int (of_char b3)]
     = Some (le_val [b3, b2, b1, b0])"
proof -
  have "\<not> 255 < int (of_char c :: nat)" "int (of_char c :: nat) < 256" for c
    using of_char_less_256 [of c] by linarith+
  then show ?thesis by (simp add: algebra_simps)
qed

text \<open>Reading back a printed address gives the address.\<close>

lemma inet_aton_ntoa: "inet_aton (inet_ntoa a) = Some (a mod 4294967296)"
proof -
  obtain b0 b1 b2 b3 where b: "le_bytes 4 a = [b0, b1, b2, b3]"
    using le_bytes_4 [of a] by blast
  let ?s = "\<lambda>c. show_nat (of_char c)"
  have dot: "\<not> is_space (CHR ''.'')" by (simp add: is_space_def)
  have "inet_ntoa a = ?s b0 @ CHR ''.'' # ?s b1 @ CHR ''.'' # ?s b2 @ CHR ''.'' # ?s b3"
    by (simp add: inet_ntoa_def b)
  then have "split_on (CHR ''.'') (takeWhile (\<lambda>c. \<not> is_space c) (inet_ntoa a)) = [?s b0, ?s b1, ?s b2, ?s b3]"
    using dot
    by (simp add: show_nat_no_space show_nat_takeWhile split_on_append split_on_none show_nat_no_dot)
  then have "inet_aton (inet_ntoa a) = Some (htonl (le_val [b3, b2, b1, b0]))"
    by (simp only: inet_aton_def Let_def list.map c_number_show_nat option.sel inet_parts_bytes) simp
  moreover have "le_val [b3, b2, b1, b0] = htonl a"
    by (simp only: htonl_def b rev.simps append.simps)
  ultimately show ?thesis by (simp add: htonl_htonl)
qed

section \<open>Addresses of sockets\<close>

record sockaddr_in =
  sin_family :: int
  sin_port :: int
  sin_addr :: int

definition AF_INET :: int where "AF_INET = 2"

text \<open>The structure in memory, with the zero padding that \<open>memset\<close> leaves.\<close>

definition sockaddr_bytes :: "sockaddr_in \<Rightarrow> char list" where
  "sockaddr_bytes a = le_bytes 2 (sin_family a) @ le_bytes 2 (sin_port a) @ le_bytes 4 (sin_addr a)
     @ replicate 8 NUL"

text \<open>The address a server binds to and the one a client connects to.\<close>

definition server_addr :: "string \<Rightarrow> sockaddr_in" where
  "server_addr port = \<lparr>sin_family = AF_INET, sin_port = htons (c_ushort (atoi port)),
     sin_addr = htonl INADDR_ANY\<rparr>"

definition client_addr :: "string \<Rightarrow> string \<Rightarrow> sockaddr_in" where
  "client_addr ip port = \<lparr>sin_family = AF_INET, sin_port = htons (c_ushort (atoi port)),
     sin_addr = inet_addr ip\<rparr>"

section \<open>Programs\<close>

text \<open>The \<open>%#x\<close> conversion, and \<open>%15s\<close>.\<close>

definition hex_char :: "nat \<Rightarrow> char" where
  "hex_char d = char_of (if d < 10 then 48 + d else 87 + d)"

fun show_hex :: "nat \<Rightarrow> string" where
  "show_hex n = (if n < 16 then [hex_char n] else show_hex (n div 16) @ [hex_char (n mod 16)])"

declare show_hex.simps [simp del]

definition format_hex :: "int \<Rightarrow> string" where
  "format_hex i = (if i = 0 then ''0'' else ''0x'' @ show_hex (nat i))"

definition pad15 :: "string \<Rightarrow> string" where
  "pad15 s = replicate (15 - length s) (CHR '' '') @ s"

definition endian_conv_main :: prog where
  "endian_conv_main = (let host_port = 0x1234; host_addr = 0x12345678;
       net_port = htons host_port; net_addr = htonl host_addr in
     puts (''host ordered prot: '' @ format_hex host_port) (
     puts (''network ordered prot: '' @ format_hex net_port) (
     puts (''host ordered address: '' @ format_hex (c_uint host_addr)) (
     puts (''network ordered address: '' @ format_hex (c_uint net_addr)) (
     exit 0)))))"

definition inet_addr_main :: "string list \<Rightarrow> prog" where
  "inet_addr_main argv = (if length argv \<noteq> 2
     then printf (''usage: '' @ argv ! 0 @ '' <IP>'') (exit 1)
     else let conv_addr = inet_addr (argv ! 1) in
       if conv_addr = INADDR_NONE then puts ''error occured!'' (exit 0)
       else puts (''ip: '' @ pad15 (argv ! 1) @ [CHR 0x09] @ ''network order integet addr: ''
         @ format_hex conv_addr) (exit 0))"

definition inet_aton_main :: "string list \<Rightarrow> prog" where
  "inet_aton_main argv = (if length argv \<noteq> 2
     then puts (''usage: '' @ argv ! 0 @ '' <IP>'') (exit 1)
     else case inet_aton (argv ! 1) of
       None \<Rightarrow> emit (Err (''conversion error'' @ [NL])) (exit 1)
     | Some a \<Rightarrow> puts (''ip: '' @ pad15 (argv ! 1) @ [CHR 0x09] @ ''network ordered interger add: ''
         @ format_hex a) (exit 0))"

text \<open>
  \<open>inet_ntoa\<close> returns a pointer to a static buffer, so \<open>str_ptr\<close> sees the result of the second
  call and only the copy in \<open>str_arr\<close> keeps the first.
\<close>

definition inet_ntoa_main :: prog where
  "inet_ntoa_main = (let addr1 = htonl 0x1020304; addr2 = htonl 0x1010101;
       static1 = inet_ntoa addr1; str_arr = static1; static2 = inet_ntoa addr2 in
     puts (''dotted-decimal notation1: '' @ static1 @ '' '') (
     puts (''dotted-decimal notation2: '' @ static2 @ '' '') (
     puts (''dotted-decimal notation3: '' @ str_arr @ '' '') (exit 0))))"

section \<open>Properties\<close>

text \<open>
  Addresses survive printing and parsing: the dotted form that \<open>inet_ntoa\<close> gives for any
  32-bit address is accepted by \<open>inet_aton\<close> with the same address, and \<^verbatim>\<open>inet_aton.c\<close> run on it
  reports that address and exits with 0.
\<close>

theorem dotted_roundtrip:
  assumes "0 \<le> a" and "a < 4294967296"
  shows "inet_aton (inet_ntoa a) = Some a \<and>
    inet_aton_main [prog, inet_ntoa a] (boot as) = (Exit 0, \<lparr>answers = as,
      trace = [Out (''ip: '' @ pad15 (inet_ntoa a) @ [CHR 0x09] @ ''network ordered interger add: ''
        @ format_hex a @ [NL])]\<rparr>)"
proof -
  have "inet_aton (inet_ntoa a) = Some a" using assms by (simp add: inet_aton_ntoa)
  then show ?thesis by (simp add: inet_aton_main_def prog_defs boot_def log_def)
qed

theorem dotted_roundtrip_witness:
  "inet_ntoa 16777343 = ''127.0.0.1'' \<and> inet_aton ''127.0.0.1'' = Some 16777343"
proof -
  have "inet_ntoa 16777343 = ''127.0.0.1''" by code_simp
  with dotted_roundtrip [of 16777343] show ?thesis by simp
qed

text \<open>
  The address a server binds to, as it lies in memory: the family, the port taken modulo
  65536 with its high byte first, and the wildcard address.
\<close>

theorem server_addr_bytes:
  "sockaddr_bytes (server_addr port) =
     [CHR 0x02, NUL, char_of (nat (atoi port div 256 mod 256)), char_of (nat (atoi port mod 256))]
     @ replicate 12 NUL"
proof -
  let ?p = "c_ushort (atoi port)"
  have "le_bytes 2 (htons ?p) = rev (le_bytes 2 ?p)" by (rule htons_bytes)
  also have "\<dots> = [char_of (nat (atoi port div 256 mod 256)), char_of (nat (atoi port mod 256))]"
    by (simp add: eval_nat_numeral c_ushort_def mod_mod_cancel mod_65536_div)
  finally have "le_bytes 2 (htons ?p) =
    [char_of (nat (atoi port div 256 mod 256)), char_of (nat (atoi port mod 256))]" .
  moreover have "le_bytes 2 AF_INET = [CHR 0x02, NUL]" "htonl INADDR_ANY = 0"
    "le_bytes 4 0 @ replicate 8 NUL = replicate 12 NUL"
    by code_simp+
  ultimately show ?thesis by (simp add: sockaddr_bytes_def server_addr_def)
qed

end
