(* ===== verification/Socket_Setup.thy ===== *)
theory Socket_Setup
  imports Net_Addr
begin

text \<open>
  What the socket programs of \<^verbatim>\<open>src/tcp-ip/socket/src\<close> share: the usage line and
  \<open>error_handler\<close>, the calls that open a listening or a connected socket, the calls that deliver
  several descriptors, and the projections of a trace on the bytes read and written.
\<close>

section \<open>Setting up\<close>

definition PF_INET :: int where "PF_INET = 2"
definition SOCK_STREAM :: int where "SOCK_STREAM = 1"
definition SOCK_DGRAM :: int where "SOCK_DGRAM = 2"
definition SOL_SOCKET :: int where "SOL_SOCKET = 1"

definition error_handler :: "string \<Rightarrow> prog" where
  "error_handler msg = emit (Err (msg @ [NL])) (exit 1)"

definition usage :: "string list \<Rightarrow> string \<Rightarrow> int \<Rightarrow> prog" where
  "usage argv form code = printf (''usage: '' @ argv ! 0 @ form @ [NL]) (exit code)"

text \<open>\<open>socket\<close>, \<open>bind\<close>, \<open>listen\<close>, each with the message of its failure.\<close>

definition open_server :: "string \<Rightarrow> string \<Rightarrow> string \<Rightarrow> string \<Rightarrow> (int \<Rightarrow> prog) \<Rightarrow> prog" where
  "open_server port m_socket m_bind m_listen k =
     call ''socket'' [PF_INET, SOCK_STREAM, 0] [] (\<lambda>serv. if serv = - 1 then error_handler m_socket else
     call ''bind'' [serv] (sockaddr_bytes (server_addr port)) (\<lambda>r. if r = - 1 then error_handler m_bind else
     call ''listen'' [serv, 5] [] (\<lambda>r. if r = - 1 then error_handler m_listen else k serv)))"

definition open_client :: "string \<Rightarrow> string \<Rightarrow> string \<Rightarrow> string \<Rightarrow> (int \<Rightarrow> prog) \<Rightarrow> prog" where
  "open_client ip port m_socket m_connect k =
     call ''socket'' [PF_INET, SOCK_STREAM, 0] [] (\<lambda>sock. if sock = - 1 then error_handler m_socket else
     call ''connect'' [sock] (sockaddr_bytes (client_addr ip port)) (\<lambda>r.
       if r = - 1 then error_handler m_connect else k sock))"

definition accept :: "int \<Rightarrow> (int \<Rightarrow> prog) \<Rightarrow> prog" where
  "accept serv k = call ''accept'' [serv] [] k"

definition close :: "int \<Rightarrow> prog \<Rightarrow> prog" where
  "close fd k = call0 ''close'' [fd] [] k"

lemmas [prog_defs] = error_handler_def usage_def open_server_def open_client_def accept_def close_def

text \<open>A delivered array of \<open>int\<close>: the descriptors of a pipe, of ready sockets.\<close>

fun ints_of :: "char list \<Rightarrow> int list" where
  "ints_of (a # b # c # d # r) = int_val [a, b, c, d] # ints_of r"
| "ints_of _ = []"

section \<open>Bytes read and written\<close>

fun received :: "int \<Rightarrow> event list \<Rightarrow> string" where
  "received fd [] = []"
| "received fd (Read f n bs # tr) = (if f = fd then bs else []) @ received fd tr"
| "received fd (_ # tr) = received fd tr"

text \<open>\<open>sent\<close> is what the program asked to write, whatever came of it.\<close>

fun sent :: "int \<Rightarrow> event list \<Rightarrow> string" where
  "sent fd [] = []"
| "sent fd (Write f bs r # tr) = (if f = fd then bs else []) @ sent fd tr"
| "sent fd (_ # tr) = sent fd tr"

text \<open>The bytes the kernel took, as far as the results of the writes tell.\<close>

fun taken :: "int \<Rightarrow> event list \<Rightarrow> string" where
  "taken fd [] = []"
| "taken fd (Write f bs r # tr) = (if f = fd then take (nat r) bs else []) @ taken fd tr"
| "taken fd (_ # tr) = taken fd tr"

text \<open>No write is short or fails.\<close>

fun whole_writes :: "event list \<Rightarrow> bool" where
  "whole_writes [] = True"
| "whole_writes (Write f bs r # tr) = (r = int (length bs) \<and> whole_writes tr)"
| "whole_writes (_ # tr) = whole_writes tr"

lemma whole_taken: "whole_writes tr \<Longrightarrow> taken fd tr = sent fd tr"
  by (induction tr rule: whole_writes.induct) auto

fun printed :: "event list \<Rightarrow> string" where
  "printed [] = []"
| "printed (Out s # tr) = s @ printed tr"
| "printed (_ # tr) = printed tr"

text \<open>Whether some \<open>read\<close> failed.\<close>

fun read_failed :: "event list \<Rightarrow> bool" where
  "read_failed [] = False"
| "read_failed (Sys name args bs r # tr) = (name = ''read'' \<and> r = - 1 \<or> read_failed tr)"
| "read_failed (_ # tr) = read_failed tr"

lemma received_append [simp]: "received fd (xs @ ys) = received fd xs @ received fd ys"
  by (induction fd xs rule: received.induct) auto

lemma sent_append [simp]: "sent fd (xs @ ys) = sent fd xs @ sent fd ys"
  by (induction fd xs rule: sent.induct) auto

lemma taken_append [simp]: "taken fd (xs @ ys) = taken fd xs @ taken fd ys"
  by (induction fd xs rule: taken.induct) auto

lemma printed_append [simp]: "printed (xs @ ys) = printed xs @ printed ys"
  by (induction xs rule: printed.induct) auto

lemma read_failed_append [simp]: "read_failed (xs @ ys) \<longleftrightarrow> read_failed xs \<or> read_failed ys"
  by (induction xs rule: read_failed.induct) auto

section \<open>Echoing\<close>

text \<open>
  The promise of an echo server: it has asked to write to every peer exactly the bytes received from it,
  except that the chunk read last may still have to be written.
\<close>

definition echoed :: "event list \<Rightarrow> bool" where
  "echoed tr \<longleftrightarrow> (\<forall>fd. sent fd tr = received fd tr)"

definition echoing :: "event list \<Rightarrow> bool" where
  "echoing tr \<longleftrightarrow> echoed tr \<or> (\<exists>tr' fd n bs. tr = tr' @ [Read fd n bs] \<and> echoed tr')"

lemma echoed_Nil [simp]: "echoed []"
  by (simp add: echoed_def)

lemma echoed_other [simp]:
  "echoed (tr @ Sys name args bs r # us) = echoed (tr @ us)" "echoed (tr @ Out s # us) = echoed (tr @ us)"
  "echoed (tr @ Err s # us) = echoed (tr @ us)"
  by (simp_all add: echoed_def)

lemma echoed_Cons [simp]:
  "echoed (Sys name args bs r # tr) = echoed tr" "echoed (Out s # tr) = echoed tr"
  "echoed (Err s # tr) = echoed tr"
  by (simp_all add: echoed_def)

lemma echoed_chunk [simp]: "echoed (tr @ [Read fd n bs, Write fd bs r]) = echoed tr"
  by (simp add: echoed_def)

lemma echoed_empty_read [simp]: "echoed (tr @ [Read fd n []]) = echoed tr"
  by (simp add: echoed_def)

lemma echoed_echoing: "echoed tr \<Longrightarrow> echoing tr"
  by (simp add: echoing_def)

lemma echoing_read: "echoed tr \<Longrightarrow> echoing (tr @ [Read fd n bs])"
  by (auto simp: echoing_def)

end
