(* ===== verification/Echo_Servers.thy ===== *)
theory Echo_Servers
  imports Socket_Setup
begin

text \<open>
  The TCP echo servers of \<^verbatim>\<open>src/tcp-ip/socket/src\<close>: one client after \<open>accept\<close>
  (\<^verbatim>\<open>echo_server.c\<close>, \<^verbatim>\<open>reuseaddr_eserver.c\<close>), a process per client (\<^verbatim>\<open>echo_mpserver.c\<close>,
  \<^verbatim>\<open>echo_storeserver.c\<close>), and multiplexing with \<open>select\<close> (\<^verbatim>\<open>echo_selectserver.c\<close>) and \<open>epoll\<close>
  (\<^verbatim>\<open>echo_epollserver.c\<close>, \<^verbatim>\<open>echo_EPLTserver.c\<close>, \<^verbatim>\<open>echo_EPETserver.c\<close>). The argument \<open>g\<close> is the
  initial contents of the uninitialised buffer.
\<close>

section \<open>One client\<close>

text \<open>\<open>while((msg_len = read(clnt_sockfd, msg, BUF_SIZE)) != 0) write(clnt_sockfd, msg, msg_len);\<close>\<close>

definition echo_loop :: "nat \<Rightarrow> int \<Rightarrow> char list \<Rightarrow> prog \<Rightarrow> prog" where
  "echo_loop sz fd buf k = loop (\<lambda>msg next break.
     sys_read fd sz (\<lambda>msg_len bs. deliver msg bs (\<lambda>msg.
       if msg_len = 0 then break msg else write_buf fd msg msg_len (next msg)))) buf (\<lambda>_. k)"

definition echo_server_main :: "(nat \<Rightarrow> char) \<Rightarrow> string list \<Rightarrow> prog" where
  "echo_server_main g argv = (if length argv \<noteq> 2 then usage argv '' <port>'' 1 else
     open_server (argv ! 1) ''socket error'' ''bind error'' ''listen error'' (\<lambda>serv.
     accept serv (\<lambda>clnt. if clnt = - 1 then error_handler ''accept error'' else
     echo_loop 1024 clnt (uninit g 1024) (close clnt (close serv (exit 0))))))"

text \<open>
  \<^verbatim>\<open>reuseaddr_eserver.c\<close> sets \<open>SO_REUSEADDR\<close> (2) between \<open>socket\<close> and \<open>bind\<close> and copies the
  messages to the standard output.
\<close>

definition reuseaddr_main :: "(nat \<Rightarrow> char) \<Rightarrow> string list \<Rightarrow> prog" where
  "reuseaddr_main g argv = (if length argv \<noteq> 2 then usage argv '' <port>'' 1 else
     call ''socket'' [PF_INET, SOCK_STREAM, 0] [] (\<lambda>serv. if serv = - 1 then error_handler ''socket() error'' else
     call ''setsockopt'' [serv, SOL_SOCKET, 2] (int_bytes 1) (\<lambda>r. if r \<noteq> 0 then error_handler ''setsockopt() error'' else
     call ''bind'' [serv] (sockaddr_bytes (server_addr (argv ! 1))) (\<lambda>r. if r = - 1 then error_handler ''bind() error'' else
     call ''listen'' [serv, 5] [] (\<lambda>r. if r = - 1 then error_handler ''listen() error'' else
     accept serv (\<lambda>clnt. if clnt = - 1 then error_handler ''accept() error'' else
     loop (\<lambda>msg next break. sys_read clnt 30 (\<lambda>msg_len bs. if msg_len = 0 then break msg else
         deliver msg bs (\<lambda>msg. write_buf clnt msg msg_len (write_buf 1 msg msg_len (next msg)))))
       (uninit g 30) (\<lambda>_. close clnt (close serv (exit 0)))))))))"

section \<open>A process per client\<close>

text \<open>
  \<open>fork\<close> answers -1, 0 in the child or the child's identifier in the parent; the model follows
  the process that gets the answer. The handler of \<open>SIGCHLD\<close> (17) collects one child.
\<close>

definition read_childproc :: "prog \<Rightarrow> prog" where
  "read_childproc k = call ''waitpid'' [- 1, 1] [] (\<lambda>pid. puts (''removed proc id: '' @ show_int pid) k)"

definition echo_mpserver_main :: "(nat \<Rightarrow> char) \<Rightarrow> string list \<Rightarrow> prog" where
  "echo_mpserver_main g argv = (if length argv \<noteq> 2 then usage argv '' <port>'' 1 else
     call0 ''sigaction'' [17] ''read_childproc'' (
     open_server (argv ! 1) ''socket() error'' ''bind() error'' ''listen() error'' (\<lambda>serv.
     loop (\<lambda>msg next break.
       accept serv (\<lambda>clnt. if clnt = - 1 then next msg else
       puts ''new client connected...'' (
       call ''fork'' [] [] (\<lambda>pid. if pid = - 1 then close clnt (next msg)
         else if pid = 0 then
           close serv (echo_loop 30 clnt msg (close clnt (puts ''client disconnected...'' (exit 0))))
         else close clnt (next msg)))))
     (uninit g 30) (\<lambda>_. close serv (exit 0)))))"

text \<open>
  \<^verbatim>\<open>echo_storeserver.c\<close>: the first child copies three messages from a pipe to a file, the
  children that serve clients write each message to the pipe as well. A file that could not be
  opened, or a failed read, is used all the same.
\<close>

definition store_child :: "(nat \<Rightarrow> char) \<Rightarrow> int \<Rightarrow> prog" where
  "store_child g rfd = call ''fopen'' [] ''echomsg.txt'' (\<lambda>fp.
     for_each [0..<3] (\<lambda>i msgbuf next. sys_read rfd 100 (\<lambda>len bs. deliver msgbuf bs (\<lambda>msgbuf.
       if fp = - 1 \<or> len < 0 then undef
       else call0 ''fwrite'' [fp] (take (nat len) msgbuf) (next msgbuf))))
     (uninit g 100) (\<lambda>_. call0 ''fclose'' [fp] [] (exit 0)))"

definition store_client :: "int \<Rightarrow> int \<Rightarrow> char list \<Rightarrow> prog \<Rightarrow> prog" where
  "store_client clnt wfd buf k = loop (\<lambda>buf next break.
     sys_read clnt 100 (\<lambda>buf_len bs. if buf_len = 0 then break buf else
     deliver buf bs (\<lambda>buf. write_buf clnt buf buf_len (write_buf wfd buf buf_len (next buf)))))
   buf (\<lambda>_. k)"

definition pipe :: "(int \<Rightarrow> int \<Rightarrow> prog) \<Rightarrow> prog" where
  "pipe k = syscall (\<lambda>a. Sys ''pipe'' [] (data a) (max (- 1) (ret a)))
     (\<lambda>a. case ints_of (data a) of r # w # _ \<Rightarrow> k r w | _ \<Rightarrow> k (- 1) (- 1))"

definition echo_storeserver_main :: "(nat \<Rightarrow> char) \<Rightarrow> string list \<Rightarrow> prog" where
  "echo_storeserver_main g argv = (if length argv \<noteq> 2 then usage argv '' <port>'' 1 else
     call0 ''sigaction'' [17] ''read_childproc'' (
     open_server (argv ! 1) ''socket() error'' ''bind() error'' ''listen() error'' (\<lambda>serv.
     pipe (\<lambda>rfd wfd.
     call ''fork'' [] [] (\<lambda>pid. if pid = - 1 then error_handler ''fork() error''
       else if pid = 0 then store_child g rfd else
     loop (\<lambda>buf next break.
       accept serv (\<lambda>clnt. if clnt = - 1 then next buf else
       puts ''new client connected...'' (
       call ''fork'' [] [] (\<lambda>pid. if pid = 0 then
           close serv (store_client clnt wfd buf (close clnt (puts ''client disconnected...'' (exit 0))))
         else close clnt (next buf)))))
     (uninit g 100) (\<lambda>_. close serv (exit 0)))))))"

section \<open>Multiplexing\<close>

text \<open>
  \<open>select\<close> answers with the descriptors that are ready, among the watched ones below the bound;
  none is a time-out. \<open>FD_SET\<close> outside \<open>FD_SETSIZE\<close> writes past the set.
\<close>

definition select :: "int \<Rightarrow> int list \<Rightarrow> (int \<Rightarrow> int list \<Rightarrow> prog) \<Rightarrow> prog" where
  "select n fds k = syscall (\<lambda>a. Sys ''select'' [n] (data a) (max (- 1) (ret a)))
     (\<lambda>a. if ret a < 0 then k (- 1) [] else
        let ready = filter (\<lambda>fd. fd < n \<and> fd \<in> set fds) (remdups (ints_of (data a)))
        in k (int (length ready)) ready)"

definition FD_SETSIZE :: int where "FD_SETSIZE = 1024"

definition fd_set :: "int \<Rightarrow> int list \<Rightarrow> (int list \<Rightarrow> prog) \<Rightarrow> prog" where
  "fd_set fd fds k = (if 0 \<le> fd \<and> fd < FD_SETSIZE then k (fd # removeAll fd fds) else undef)"

text \<open>
  The handler of one ready descriptor; the state is the watched descriptors, \<open>fd_max\<close> and the
  buffer.
\<close>

definition select_ready :: "int \<Rightarrow> int \<Rightarrow> int list \<times> int \<times> char list \<Rightarrow>
    (int list \<times> int \<times> char list \<Rightarrow> prog) \<Rightarrow> prog" where
  "select_ready serv i st next = (case st of (fds, fd_max, buf) \<Rightarrow>
     if i = serv then
       accept serv (\<lambda>clnt. if clnt = - 1 then next (fds, fd_max, buf) else
       fd_set clnt fds (\<lambda>fds. puts (''connected client: '' @ show_int clnt)
         (next (fds, max fd_max clnt, buf))))
     else sys_read i 100 (\<lambda>str_len bs. deliver buf bs (\<lambda>buf.
       if str_len = 0 then close i (printf (''closed client: '' @ show_int i)
         (next (removeAll i fds, fd_max, buf)))
       else write_buf i buf str_len (next (fds, fd_max, buf)))))"

text \<open>
  The loop over \<open>i < fd_max + 1\<close>, where \<open>fd_max\<close> may grow on the way; every descriptor in the set,
  and so \<open>fd_max\<close>, is below \<open>FD_SETSIZE\<close>.
\<close>

function select_round :: "int \<Rightarrow> int list \<Rightarrow> int \<Rightarrow> int list \<times> int \<times> char list \<Rightarrow>
    (int list \<times> int \<times> char list \<Rightarrow> prog) \<Rightarrow> prog" where
  "select_round serv ready i st next =
     (if i < fst (snd st) + 1 \<and> i < FD_SETSIZE then
        (if i \<in> set ready then select_ready serv i st (\<lambda>st. select_round serv ready (i + 1) st next)
         else select_round serv ready (i + 1) st next)
      else next st)"
  by pat_completeness auto
termination
  by (relation "measure (\<lambda>(serv, ready, i, st, next). nat (FD_SETSIZE - i))") auto

declare select_round.simps [simp del]

definition echo_selectserver_main :: "(nat \<Rightarrow> char) \<Rightarrow> string list \<Rightarrow> prog" where
  "echo_selectserver_main g argv = (if length argv \<noteq> 2 then usage argv '' <port>'' 1 else
     open_server (argv ! 1) ''socket() error'' ''bind() error'' ''listen() error'' (\<lambda>serv.
     fd_set serv [] (\<lambda>fds.
     loop (\<lambda>(fds, fd_max, buf) next break.
       select (fd_max + 1) fds (\<lambda>fd_num ready.
         if fd_num = - 1 then break (fds, fd_max, buf)
         else if fd_num = 0 then next (fds, fd_max, buf)
         else select_round serv ready 0 (fds, fd_max, buf) next))
     (fds, serv, uninit g 100) (\<lambda>_. close serv (exit 0)))))"

text \<open>\<open>epoll_wait\<close> answers with at most \<open>EPOLL_SIZE\<close> descriptors.\<close>

definition EPOLL_SIZE :: nat where "EPOLL_SIZE = 50"

definition epoll_wait :: "int \<Rightarrow> (int \<Rightarrow> int list \<Rightarrow> prog) \<Rightarrow> prog" where
  "epoll_wait epfd k = syscall (\<lambda>a. Sys ''epoll_wait'' [epfd] (data a) (max (- 1) (ret a)))
     (\<lambda>a. if ret a < 0 then k (- 1) [] else
        let ready = take EPOLL_SIZE (ints_of (data a)) in k (int (length ready)) ready)"

definition EPOLL_CTL_ADD :: int where "EPOLL_CTL_ADD = 1"
definition EPOLL_CTL_DEL :: int where "EPOLL_CTL_DEL = 2"
definition EPOLLIN :: int where "EPOLLIN = 1"
definition EPOLLET :: int where "EPOLLET = 2147483648"

definition epoll_ctl :: "int \<Rightarrow> int \<Rightarrow> int \<Rightarrow> int \<Rightarrow> prog \<Rightarrow> prog" where
  "epoll_ctl epfd operation fd events k = call0 ''epoll_ctl'' [epfd, operation, fd, events] [] k"

text \<open>One ready descriptor of the level-triggered servers, with buffers of \<open>sz\<close> bytes.\<close>

definition epoll_ready :: "nat \<Rightarrow> int \<Rightarrow> int \<Rightarrow> int \<Rightarrow> char list \<Rightarrow> (char list \<Rightarrow> prog) \<Rightarrow> prog" where
  "epoll_ready sz epfd serv fd buf next =
     (if fd = serv then accept serv (\<lambda>clnt. epoll_ctl epfd EPOLL_CTL_ADD clnt EPOLLIN (
        puts (''connected client: '' @ show_int clnt) (next buf)))
      else sys_read fd sz (\<lambda>str_len bs. deliver buf bs (\<lambda>buf.
        if str_len = 0 then epoll_ctl epfd EPOLL_CTL_DEL fd 0 (close fd (
          puts (''closed client: '' @ show_int fd) (next buf)))
        else write_buf fd buf str_len (next buf))))"

definition epoll_main :: "nat \<Rightarrow> bool \<Rightarrow> (nat \<Rightarrow> char) \<Rightarrow> string list \<Rightarrow> prog" where
  "epoll_main sz announce g argv = (if length argv \<noteq> 2 then usage argv '' <port>'' 1 else
     open_server (argv ! 1) ''socket() error'' ''bind() error'' ''listen() error'' (\<lambda>serv.
     call ''epoll_create'' [int EPOLL_SIZE] [] (\<lambda>epfd.
     epoll_ctl epfd EPOLL_CTL_ADD serv EPOLLIN (
     loop (\<lambda>buf next break. epoll_wait epfd (\<lambda>event_cnt ready.
         if event_cnt = - 1 then puts ''epoll_wait() error'' (break buf)
         else let events = for_each ready (epoll_ready sz epfd serv) buf next in
           if announce then puts ''return epoll wait'' events else events))
       (uninit g sz) (\<lambda>_. close serv (close epfd (exit 0)))))))"

definition echo_epollserver_main :: "(nat \<Rightarrow> char) \<Rightarrow> string list \<Rightarrow> prog" where
  "echo_epollserver_main = epoll_main 100 False"

definition echo_EPLTserver_main :: "(nat \<Rightarrow> char) \<Rightarrow> string list \<Rightarrow> prog" where
  "echo_EPLTserver_main = epoll_main 4 True"

text \<open>
  \<^verbatim>\<open>echo_EPETserver.c\<close>: edge-triggered, so a ready client is read until \<open>read\<close> fails for want of
  data. \<open>F_GETFL\<close> is 3, \<open>F_SETFL\<close> 4 and \<open>O_NONBLOCK\<close> 2048.
\<close>

unbundle bit_operations_syntax

definition setnonblockingmode :: "int \<Rightarrow> prog \<Rightarrow> prog" where
  "setnonblockingmode fd k = call ''fcntl'' [fd, 3, 0] [] (\<lambda>flag.
     call0 ''fcntl'' [fd, 4, flag OR 2048] [] k)"

definition drain :: "int \<Rightarrow> int \<Rightarrow> char list \<Rightarrow> (char list \<Rightarrow> prog) \<Rightarrow> prog" where
  "drain epfd fd buf k = loop (\<lambda>buf next break.
     sys_read fd 4 (\<lambda>str_len bs. deliver buf bs (\<lambda>buf.
       if str_len = 0 then epoll_ctl epfd EPOLL_CTL_DEL fd 0 (close fd (
         puts (''closed client: '' @ show_int fd) (break buf)))
       else if str_len < 0 then break buf
       else write_buf fd buf str_len (next buf)))) buf k"

definition edge_ready :: "int \<Rightarrow> int \<Rightarrow> int \<Rightarrow> char list \<Rightarrow> (char list \<Rightarrow> prog) \<Rightarrow> prog" where
  "edge_ready epfd serv fd buf next =
     (if fd = serv then accept serv (\<lambda>clnt. setnonblockingmode clnt (
        epoll_ctl epfd EPOLL_CTL_ADD clnt (EPOLLIN OR EPOLLET) (
        puts (''connected client: '' @ show_int clnt) (next buf))))
      else drain epfd fd buf next)"

definition echo_EPETserver_main :: "(nat \<Rightarrow> char) \<Rightarrow> string list \<Rightarrow> prog" where
  "echo_EPETserver_main g argv = (if length argv \<noteq> 2 then usage argv '' <port>'' 1 else
     open_server (argv ! 1) ''socket() error'' ''bind() error'' ''bind() error'' (\<lambda>serv.
     call ''epoll_create'' [int EPOLL_SIZE] [] (\<lambda>epfd.
     setnonblockingmode serv (
     epoll_ctl epfd EPOLL_CTL_ADD serv EPOLLIN (
     loop (\<lambda>buf next break. epoll_wait epfd (\<lambda>event_cnt ready.
         if event_cnt = - 1 then puts ''epoll_wait() error'' (break buf)
         else puts ''return epoll_wait'' (for_each ready (edge_ready epfd serv) buf next)))
       (uninit g 4) (\<lambda>_. close serv (close epfd (exit 0))))))))"

section \<open>Reasoning\<close>

text \<open>
  The post-condition of the servers: what has been received has been sent back, and undefined
  behaviour needs a fault \<open>U\<close>, a failed read for most servers. \<open>select\<close> adds a second one: a
  descriptor beyond \<open>FD_SETSIZE\<close>.
\<close>

fun high_fd :: "event list \<Rightarrow> bool" where
  "high_fd [] = False"
| "high_fd (Sys name args bs r # tr) = (name \<in> {''socket'', ''accept''} \<and> FD_SETSIZE \<le> r \<or> high_fd tr)"
| "high_fd (_ # tr) = high_fd tr"

lemma high_fd_append [simp]: "high_fd (xs @ ys) \<longleftrightarrow> high_fd xs \<or> high_fd ys"
  by (induction xs rule: high_fd.induct) auto

definition sel_fault :: "event list \<Rightarrow> bool" where
  "sel_fault tr \<longleftrightarrow> read_failed tr \<or> high_fd tr"

definition echo_post :: "(event list \<Rightarrow> bool) \<Rightarrow> outcome \<times> world \<Rightarrow> bool" where
  "echo_post U r \<longleftrightarrow> echoing (trace (snd r)) \<and> fst r \<noteq> Spinning \<and>
     (fst r = Exit 0 \<longrightarrow> echoed (trace (snd r))) \<and>
     (fst r = Undefined \<longrightarrow> U (trace (snd r)))"

lemma echo_post_Blocked [simp]: "echo_post U (Blocked, w) = echoing (trace w)"
  by (simp add: echo_post_def)

lemma echo_post_Exit [simp]: "echoed (trace w) \<Longrightarrow> echo_post U (Exit c, w)"
  by (simp add: echo_post_def echoed_echoing)

lemma echo_post_Undefined [simp]: "echo_post U (Undefined, w) \<longleftrightarrow> echoing (trace w) \<and> U (trace w)"
  by (simp add: echo_post_def)

lemma deliver_read: "length bs \<le> length buf \<Longrightarrow> deliver buf bs k = k (bs @ drop (length bs) buf)"
  by (simp add: deliver_def buf_copy_def)

lemma write_delivered: "write_buf fd (bs @ r) (int (length bs)) k = sys_write fd bs (\<lambda>_. k)"
  by (simp add: write_buf_def)

lemma write_negative: "write_buf fd buf (- 1) k = undef"
  by (simp add: write_buf_def)

text \<open>Reading a chunk into a buffer and writing it back, from a state in which all is echoed.\<close>

lemma chunk3_post:
  assumes "echoed (trace w)" and "length buf = sz"
    and "\<And>bs w'. length bs \<le> sz \<Longrightarrow> echoed (trace w') \<Longrightarrow> length (answers w') < length (answers w) \<Longrightarrow>
      echo_post U (k (bs @ drop (length bs) buf) w')"
    and "\<And>w'. echoed (trace w') \<Longrightarrow> length (answers w') < length (answers w) \<Longrightarrow> echo_post U (z buf w')"
    and "\<And>w'. echoed (trace w') \<Longrightarrow> read_failed (trace w') \<Longrightarrow> length (answers w') < length (answers w) \<Longrightarrow>
      echo_post U (f buf w')"
  shows "echo_post U (sys_read fd sz (\<lambda>n bs. deliver buf bs (\<lambda>b. if n = 0 then z b
    else if n < 0 then f b else write_buf fd b n (k b))) w)"
  unfolding sys_read_def
proof (rule syscall_rule [where Q = "echo_post U"])
  fix a as assume w: "answers w = a # as"
  define bs where "bs = take sz (data a)"
  have bs: "length bs \<le> sz" by (simp add: bs_def)
  have "echo_post U (sys_write fd bs (\<lambda>_. k (bs @ drop (length bs) buf)) (log (Read fd sz bs) (w\<lparr>answers := as\<rparr>)))"
    unfolding sys_write_def
    by (rule syscall_rule [where Q = "echo_post U"]) (use assms(1) w bs in \<open>auto intro!: echoing_read assms(3)\<close>)
  then show "echo_post U ((if ret a < 0
     then deliver buf [] (\<lambda>b. if - 1 = (0::int) then z b else if - 1 < (0::int) then f b else write_buf fd b (- 1) (k b))
     else deliver buf (take sz (data a)) (\<lambda>b. if int (length (take sz (data a))) = 0 then z b
        else if int (length (take sz (data a))) < 0 then f b
        else write_buf fd b (int (length (take sz (data a)))) (k b)))
     (log (if ret a < 0 then Sys ''read'' [fd, int sz] [] (- 1) else Read fd sz (take sz (data a)))
       (w\<lparr>answers := as\<rparr>)))"
    using assms(1,2,4,5) w bs
    by (cases "bs = []") (simp_all add: bs_def [symmetric] deliver_read write_delivered)
qed (use assms(1) in \<open>simp add: echoed_echoing\<close>)

lemma chunk_post:
  assumes "echoed (trace w)" and "length buf = sz"
    and "\<And>bs w'. length bs \<le> sz \<Longrightarrow> echoed (trace w') \<Longrightarrow> length (answers w') < length (answers w) \<Longrightarrow>
      echo_post U (k (bs @ drop (length bs) buf) w')"
    and "\<And>w'. echoed (trace w') \<Longrightarrow> length (answers w') < length (answers w) \<Longrightarrow> echo_post U (z buf w')"
    and "\<And>tr. read_failed tr \<Longrightarrow> U tr"
  shows "echo_post U (sys_read fd sz (\<lambda>n bs. deliver buf bs (\<lambda>b. if n = 0 then z b
    else write_buf fd b n (k b))) w)"
proof -
  have "(\<lambda>n bs. deliver buf bs (\<lambda>b. if n = 0 then z b else write_buf fd b n (k b))) =
      (\<lambda>n bs. deliver buf bs (\<lambda>b. if n = 0 then z b else if n < 0 then undef else write_buf fd b n (k b)))"
    by (auto simp: fun_eq_iff write_buf_def deliver_def split: option.splits)
  then show ?thesis
    using assms by (auto simp: undef_def echoed_echoing intro!: chunk3_post)
qed

lemma call_post:
  assumes "echoed (trace w)"
    and "\<And>r w'. echoed (trace w') \<Longrightarrow> length (answers w') < length (answers w) \<Longrightarrow> echo_post U (k r w')"
  shows "echo_post U (call name args bs k w)"
  unfolding call_def
  by (rule syscall_rule [where Q = "echo_post U"]) (use assms in \<open>auto intro!: echoed_echoing\<close>)

lemma call0_post:
  assumes "echoed (trace w)"
    and "\<And>w'. echoed (trace w') \<Longrightarrow> length (answers w') < length (answers w) \<Longrightarrow> echo_post U (k w')"
  shows "echo_post U (call0 name args bs k w)"
  unfolding call0_def using assms by (rule call_post)

lemma emit_post:
  assumes "echoed (trace w)" and "\<And>w'. echoed (trace w') \<Longrightarrow> answers w' = answers w \<Longrightarrow> echo_post U (k w')"
  shows "echo_post U (puts s k w)" and "echo_post U (printf s k w)"
  using assms by (auto simp: puts_def printf_def emit_def)

lemma error_post: "echoed (trace w) \<Longrightarrow> echo_post U (error_handler msg w)"
  by (simp add: error_handler_def emit_def exit_def)

lemma usage_post: "echoed (trace w) \<Longrightarrow> echo_post U (usage argv form c w)"
  by (simp add: usage_def printf_def emit_def exit_def)

lemma exit_post: "echoed (trace w) \<Longrightarrow> echo_post U (exit c w)"
  by (simp add: exit_def)

lemma open_server_post:
  assumes "echoed (trace w)"
    and "\<And>serv w'. echoed (trace w') \<Longrightarrow> length (answers w') < length (answers w) \<Longrightarrow> echo_post U (k serv w')"
  shows "echo_post U (open_server port m1 m2 m3 k w)"
  unfolding open_server_def
  using assms by (auto intro!: call_post error_post)

lemma accept_post:
  assumes "echoed (trace w)"
    and "\<And>clnt w'. echoed (trace w') \<Longrightarrow> length (answers w') < length (answers w) \<Longrightarrow> echo_post U (k clnt w')"
  shows "echo_post U (accept serv k w)"
  unfolding accept_def using assms by (rule call_post)

lemma close_post:
  assumes "echoed (trace w)"
    and "\<And>w'. echoed (trace w') \<Longrightarrow> length (answers w') < length (answers w) \<Longrightarrow> echo_post U (k w')"
  shows "echo_post U (close fd k w)"
  unfolding close_def using assms by (rule call0_post)

lemmas posts = call_post call0_post emit_post error_post usage_post exit_post accept_post close_post
  open_server_post

lemma echo_loop_post:
  assumes "echoed (trace w)" and "length buf = sz" and "\<And>w'. echoed (trace w') \<Longrightarrow> echo_post read_failed (k w')"
  shows "echo_post read_failed (echo_loop sz fd buf k w)"
  unfolding echo_loop_def
  by (rule loop_rule [where I = "\<lambda>buf w. length buf = sz \<and> echoed (trace w)"])
    (use assms in \<open>auto intro!: chunk_post\<close>)

lemma echo_server_post: "echo_post read_failed (echo_server_main g argv (boot as))"
  unfolding echo_server_main_def by (auto intro!: posts echo_loop_post)

lemma echo_mpserver_post: "echo_post read_failed (echo_mpserver_main g argv (boot as))"
  unfolding echo_mpserver_main_def
  apply (auto intro!: posts)
  apply (rule loop_rule [where I = "\<lambda>buf w. length buf = 30 \<and> echoed (trace w)"])
   apply (auto intro!: posts echo_loop_post)
  done

lemma epoll_ready_post:
  assumes "echoed (trace w)" and "length buf = sz"
    and "\<And>buf w'. echoed (trace w') \<Longrightarrow> length buf = sz \<Longrightarrow> length (answers w') < length (answers w) \<Longrightarrow>
       echo_post read_failed (k buf w')"
  shows "echo_post read_failed (epoll_ready sz epfd serv fd buf k w)"
  unfolding epoll_ready_def epoll_ctl_def
  using assms by (auto intro!: posts chunk_post)

lemma wait_post:
  assumes "echoed (trace w)"
    and "\<And>n ready w'. echoed (trace w') \<Longrightarrow> length (answers w') < length (answers w) \<Longrightarrow> echo_post U (k n ready w')"
  shows "echo_post U (epoll_wait epfd k w)" and "echo_post U (select m fds k w)"
  unfolding epoll_wait_def select_def
  by (rule syscall_rule [where Q = "echo_post U"]; use assms in \<open>auto intro!: echoed_echoing simp: Let_def\<close>)+

lemma epoll_events_post:
  assumes "echoed (trace w)" and "length buf = sz" and "length (answers w) < n"
    and "\<And>buf w'. length buf = sz \<and> echoed (trace w') \<Longrightarrow> length (answers w') < n \<Longrightarrow> echo_post read_failed (k buf w')"
  shows "echo_post read_failed (for_each ready (epoll_ready sz epfd serv) buf k w)"
  by (rule for_each_rule [where I = "\<lambda>buf w'. length buf = sz \<and> echoed (trace w') \<and> length (answers w') < n"])
    (use assms in \<open>auto intro!: epoll_ready_post\<close>)

lemma epoll_loop_post:
  assumes "echoed (trace w)" and "length buf = sz" and "\<And>buf w'. echoed (trace w') \<Longrightarrow> echo_post read_failed (k buf w')"
  shows "echo_post read_failed (loop (\<lambda>buf next break. epoll_wait epfd (\<lambda>event_cnt ready.
         if event_cnt = - 1 then puts ''epoll_wait() error'' (break buf)
         else let events = for_each ready (epoll_ready sz epfd serv) buf next in
           if announce then puts ''return epoll wait'' events else events)) buf k w)"
proof (rule loop_rule [where I = "\<lambda>buf w. length buf = sz \<and> echoed (trace w)"])
  fix buf :: "char list" and w :: world and c :: "char list \<Rightarrow> prog"
  assume i: "length buf = sz \<and> echoed (trace w)"
    and c: "\<And>a' w'. length a' = sz \<and> echoed (trace w') \<Longrightarrow> length (answers w') < length (answers w) \<Longrightarrow>
      echo_post read_failed (c a' w')"
  then have e: "echo_post read_failed (for_each ready (epoll_ready sz epfd serv) buf c w')"
    if "echoed (trace w')" "length (answers w') < length (answers w)" for ready w'
    using epoll_events_post [OF that(1) _ that(2)] by blast
  show "echo_post read_failed (epoll_wait epfd (\<lambda>event_cnt ready.
         if event_cnt = - 1 then puts ''epoll_wait() error'' (k buf)
         else let events = for_each ready (epoll_ready sz epfd serv) buf c in
           if announce then puts ''return epoll wait'' events else events) w)"
    using conjunct2 [OF i] by (auto simp: Let_def intro!: wait_post emit_post e assms(3))
qed (use assms in auto)

lemma epoll_main_post: "echo_post read_failed (epoll_main sz announce g argv (boot as))"
  unfolding epoll_main_def epoll_ctl_def by (auto intro!: posts epoll_loop_post)

text \<open>\<open>select\<close>: the state also has the descriptors, which the post-condition does not mention.\<close>

lemma select_ready_post:
  assumes "echoed (trace w)" and "length buf = 100"
    and "\<And>fds m buf w'. length buf = 100 \<Longrightarrow> echoed (trace w') \<Longrightarrow> length (answers w') < length (answers w) \<Longrightarrow>
       echo_post sel_fault (k (fds, m, buf) w')"
  shows "echo_post sel_fault (select_ready serv i (fds, m, buf) k w)"
proof (cases "i = serv")
  case True
  have "echo_post sel_fault (syscall e (\<lambda>a. if max (- 1) (ret a) = - 1 then k (fds, m, buf)
       else fd_set (max (- 1) (ret a)) fds (\<lambda>fds. puts (f a) (k (fds, max m (max (- 1) (ret a)), buf)))) w)"
    if "e = (\<lambda>a. Sys ''accept'' [serv] [] (max (- 1) (ret a)))" for e f
    by (rule syscall_rule [where Q = "echo_post sel_fault"])
      (use that assms in \<open>auto simp: fd_set_def undef_def max_def sel_fault_def intro!: echoed_echoing emit_post\<close>)
  with True show ?thesis by (simp add: select_ready_def accept_def call_def)
next
  case False
  then show ?thesis
    using assms by (auto simp: select_ready_def sel_fault_def intro!: chunk_post posts)
qed

lemma select_round_post:
  assumes "echoed (trace w)" and "length (snd (snd st)) = 100" and "length (answers w) < n"
    and "\<And>st w'. length (snd (snd st)) = 100 \<and> echoed (trace w') \<Longrightarrow> length (answers w') < n \<Longrightarrow>
      echo_post sel_fault (k st w')"
  shows "echo_post sel_fault (select_round serv ready i st k w)"
  using assms
proof (induction "nat (FD_SETSIZE - i)" arbitrary: i st w rule: less_induct)
  case less
  obtain fds m buf where st: "st = (fds, m, buf)" by (cases st)
  have "echo_post sel_fault (select_round serv ready (i + 1) st' k w')"
    if "i < FD_SETSIZE" "echoed (trace w')" "length (snd (snd st')) = 100" "length (answers w') < n" for st' w'
    by (rule less.hyps) (use that less.prems in auto)
  with less.prems st show ?case
    by (subst select_round.simps) (auto intro!: select_ready_post)
qed

lemma select_loop_post:
  assumes "echoed (trace w)" and "length (snd (snd st)) = 100" and "\<And>st w'. echoed (trace w') \<Longrightarrow> echo_post sel_fault (k st w')"
  shows "echo_post sel_fault (loop (\<lambda>(fds, fd_max, buf) next break.
       select (fd_max + 1) fds (\<lambda>fd_num ready.
         if fd_num = - 1 then break (fds, fd_max, buf)
         else if fd_num = 0 then next (fds, fd_max, buf)
         else select_round serv ready 0 (fds, fd_max, buf) next)) st k w)"
proof (rule loop_rule [where I = "\<lambda>st w. length (snd (snd st)) = 100 \<and> echoed (trace w)"])
  fix st :: "int list \<times> int \<times> char list" and w :: world and c :: "int list \<times> int \<times> char list \<Rightarrow> prog"
  assume i: "length (snd (snd st)) = 100 \<and> echoed (trace w)"
    and c: "\<And>a' w'. length (snd (snd a')) = 100 \<and> echoed (trace w') \<Longrightarrow> length (answers w') < length (answers w) \<Longrightarrow>
      echo_post sel_fault (c a' w')"
  obtain fds m buf where st: "st = (fds, m, buf)" by (cases st)
  have r: "echo_post sel_fault (select_round serv ready 0 (fds, m, buf) c w')"
    if "echoed (trace w')" "length (answers w') < length (answers w)" for ready w'
    using select_round_post [OF that(1) _ that(2)] i c st by (metis snd_conv)
  show "echo_post sel_fault ((case st of (fds, fd_max, buf) \<Rightarrow> \<lambda>next break.
       select (fd_max + 1) fds (\<lambda>fd_num ready.
         if fd_num = - 1 then break (fds, fd_max, buf)
         else if fd_num = 0 then next (fds, fd_max, buf)
         else select_round serv ready 0 (fds, fd_max, buf) next)) c k w)"
    using i st by (auto intro!: wait_post r assms(3) c)
qed (use assms in auto)

lemma open_server_high:
  assumes "echoed (trace w)"
    and "\<And>serv w'. echoed (trace w') \<Longrightarrow> serv < 0 \<or> FD_SETSIZE \<le> serv \<longrightarrow> high_fd (trace w') \<Longrightarrow>
      echo_post sel_fault (k serv w')"
  shows "echo_post sel_fault (open_server port m1 m2 m3 k w)"
  unfolding open_server_def call_def
  using assms(1)
  by (auto simp: max_def intro!: syscall_rule [where Q = "echo_post sel_fault"] echoed_echoing error_post assms(2))

lemma fd_set_post:
  assumes "echoed (trace w)" and "fd < 0 \<or> FD_SETSIZE \<le> fd \<longrightarrow> high_fd (trace w)"
    and "\<And>fds. echo_post sel_fault (k fds w)"
  shows "echo_post sel_fault (fd_set fd fds k w)"
  using assms by (cases "0 \<le> fd \<and> fd < FD_SETSIZE") (auto simp: fd_set_def undef_def sel_fault_def echoed_echoing)

lemma echo_selectserver_post: "echo_post sel_fault (echo_selectserver_main g argv (boot as))"
  unfolding echo_selectserver_main_def
  by (auto intro!: open_server_high fd_set_post select_loop_post usage_post close_post exit_post)

text \<open>Edge-triggered.\<close>

lemma drain_post:
  assumes "echoed (trace w)" and "length buf = 4"
    and "\<And>buf w'. length buf = 4 \<Longrightarrow> echoed (trace w') \<Longrightarrow> length (answers w') \<le> length (answers w) \<Longrightarrow>
       echo_post U (k buf w')"
  shows "echo_post U (drain epfd fd buf k w)"
  unfolding drain_def epoll_ctl_def
  by (rule loop_rule [where I = "\<lambda>buf w'. length buf = 4 \<and> echoed (trace w') \<and> length (answers w') \<le> length (answers w)"])
    (use assms in \<open>auto intro!: chunk3_post posts\<close>)

lemma edge_ready_post:
  assumes "echoed (trace w)" and "length buf = 4"
    and "\<And>buf w'. echoed (trace w') \<Longrightarrow> length buf = 4 \<Longrightarrow> length (answers w') \<le> length (answers w) \<Longrightarrow>
       echo_post U (k buf w')"
  shows "echo_post U (edge_ready epfd serv fd buf k w)"
  unfolding edge_ready_def epoll_ctl_def setnonblockingmode_def
  using assms by (auto intro!: posts drain_post)

lemma edge_loop_post:
  assumes "echoed (trace w)" and "length buf = 4" and "\<And>buf w'. echoed (trace w') \<Longrightarrow> echo_post U (k buf w')"
  shows "echo_post U (loop (\<lambda>buf next break. epoll_wait epfd (\<lambda>event_cnt ready.
         if event_cnt = - 1 then puts ''epoll_wait() error'' (break buf)
         else puts ''return epoll_wait'' (for_each ready (edge_ready epfd serv) buf next))) buf k w)"
proof (rule loop_rule [where I = "\<lambda>buf w. length buf = 4 \<and> echoed (trace w)"])
  fix buf :: "char list" and w :: world and c :: "char list \<Rightarrow> prog"
  assume i: "length buf = 4 \<and> echoed (trace w)"
    and c: "\<And>a' w'. length a' = 4 \<and> echoed (trace w') \<Longrightarrow> length (answers w') < length (answers w) \<Longrightarrow>
      echo_post U (c a' w')"
  have e: "echo_post U (for_each ready (edge_ready epfd serv) buf c w')"
    if "echoed (trace w')" "length (answers w') < length (answers w)" for ready w'
    by (rule for_each_rule [where I = "\<lambda>buf w'. length buf = 4 \<and> echoed (trace w') \<and> length (answers w') < length (answers w)"])
      (use i c that in \<open>auto intro!: edge_ready_post\<close>)
  show "echo_post U (epoll_wait epfd (\<lambda>event_cnt ready.
         if event_cnt = - 1 then puts ''epoll_wait() error'' (k buf)
         else puts ''return epoll_wait'' (for_each ready (edge_ready epfd serv) buf c)) w)"
    using conjunct2 [OF i] by (auto intro!: wait_post emit_post e assms(3))
qed (use assms in auto)

lemma echo_EPETserver_post: "echo_post (\<lambda>_. False) (echo_EPETserver_main g argv (boot as))"
  unfolding echo_EPETserver_main_def epoll_ctl_def setnonblockingmode_def
  by (auto intro!: posts edge_loop_post)

section \<open>Properties\<close>

lemma echoing_received:
  assumes "echoing tr"
  shows "\<exists>rest. received fd tr = sent fd tr @ rest"
  using assms by (auto simp: echoing_def echoed_def)

text \<open>
  C26. echo\_server, whatever the kernel answers: at every point the program has asked to write to every peer exactly the
  bytes received from it, in order, up to the chunk read last; a normal exit leaves nothing to write;
  and the program stays within its buffer unless a read fails. It does not look at what \<open>write\<close> returns: if no \<open>write\<close> is short
  or fails, what the kernel took for a peer is a beginning of what was received from it, and at a normal exit all of it.
\<close>

theorem echo_server_echoes:
  "case echo_server_main g argv (boot as) of (r, w) \<Rightarrow>
     echoing (trace w) \<and> r \<noteq> Spinning \<and> (r = Exit 0 \<longrightarrow> echoed (trace w)) \<and>
     (r = Undefined \<longrightarrow> read_failed (trace w)) \<and>
     (whole_writes (trace w) \<longrightarrow> (\<forall>fd. (\<exists>rest. received fd (trace w) = taken fd (trace w) @ rest) \<and>
        (r = Exit 0 \<longrightarrow> taken fd (trace w) = received fd (trace w))))"
  using echo_server_post [of g argv as]
  by (auto simp: echo_post_def whole_taken echoing_received echoed_def split: prod.splits)

text \<open>A \<open>write\<close> that takes one of two bytes is not noticed.\<close>

lemma echo_server_short_write:
  "case echo_server_main (\<lambda>_. NUL) [''server'', ''9190''] (boot [Ans 3 0 [] [], Ans 0 0 [] [], Ans 0 0 [] [], Ans 4 0 [] [],
       Ans 1 0 ''ab'' [], Ans 1 0 [] [], Ans 0 0 [] [], Ans 0 0 [] [], Ans 0 0 [] []]) of (r, w) \<Rightarrow>
     r = Exit 0 \<and> received 4 (trace w) = ''ab'' \<and> taken 4 (trace w) = ''a''"
  by (simp add: echo_server_main_def echo_loop_def prog_defs syscall_def buf_copy_def
      loop.simps [where 'a = string] min_def)

text \<open>A session with one client that sends two chunks and closes.\<close>

definition one_client :: "answer list" where
  "one_client = [Ans 3 0 [] [], Ans 0 0 [] [], Ans 0 0 [] [], Ans 4 0 [] [],
     Ans 1 0 ''ab'' [], Ans 2 0 [] [], Ans 1 0 ''c'' [], Ans 1 0 [] [], Ans 0 0 [] [], Ans 0 0 [] [], Ans 0 0 [] []]"

theorem echo_server_echoes_witness:
  "case echo_server_main (\<lambda>_. NUL) [''server'', ''9190''] (boot one_client) of (r, w) \<Rightarrow>
     r = Exit 0 \<and> sent 4 (trace w) = ''abc'' \<and> echoed (trace w) \<and> taken 4 (trace w) = ''abc''"
proof -
  have "case echo_server_main (\<lambda>_. NUL) [''server'', ''9190''] (boot one_client) of (r, w) \<Rightarrow>
     r = Exit 0 \<and> sent 4 (trace w) = ''abc'' \<and> whole_writes (trace w)"
    by (simp add: echo_server_main_def echo_loop_def one_client_def prog_defs syscall_def buf_copy_def
        loop.simps [where 'a = string] min_def)
  with echo_server_echoes [of "\<lambda>_. NUL" "[''server'', ''9190'']" one_client] show ?thesis by (auto simp: whole_taken)
qed

definition reset_client :: "answer list" where
  "reset_client = [Ans 3 0 [] [], Ans 0 0 [] [], Ans 0 0 [] [], Ans 4 0 [] [], Ans (- 1) 104 [] []]"

text \<open>
  When a read fails, echo\_server passes the result -1 on to \<open>write\<close> as a length: the model reaches
  undefined behaviour right after the failed read.
\<close>

theorem echo_server_read_error:
  "case echo_server_main g [''server'', ''9190''] (boot reset_client) of (r, w) \<Rightarrow>
     r = Undefined \<and> last (trace w) = Sys ''read'' [4, 1024] [] (- 1)"
  by (simp add: echo_server_main_def prog_defs syscall_def reset_client_def echo_loop_def loop.simps buf_copy_def)

text \<open>
  C32. echo\_selectserver keeps the promise of an echo server for all its clients at once, and has no
  undefined behaviour unless a read fails or a descriptor does not fit into an \<open>fd_set\<close>.
\<close>

theorem echo_selectserver_echoes:
  "case echo_selectserver_main g argv (boot as) of (r, w) \<Rightarrow>
     echoing (trace w) \<and> r \<noteq> Spinning \<and> (r = Exit 0 \<longrightarrow> echoed (trace w)) \<and>
     (r = Undefined \<longrightarrow> read_failed (trace w) \<or> high_fd (trace w))"
  using echo_selectserver_post [of g argv as] by (auto simp: echo_post_def sel_fault_def split: prod.splits)

definition select_session :: "answer list" where
  "select_session = [Ans 3 0 [] [], Ans 0 0 [] [], Ans 0 0 [] [], Ans 1 0 (int_bytes 3) [], Ans 5 0 [] [],
     Ans 1 0 (int_bytes 5) [], Ans 2 0 ''hi'' [], Ans 2 0 [] [], Ans (- 1) 4 [] [], Ans 0 0 [] []]"

theorem echo_selectserver_echoes_witness:
  "case echo_selectserver_main (\<lambda>_. NUL) [''server'', ''9190''] (boot select_session) of (r, w) \<Rightarrow>
     r = Exit 0 \<and> sent 5 (trace w) = ''hi'' \<and> echoed (trace w)"
proof -
  have "case echo_selectserver_main (\<lambda>_. NUL) [''server'', ''9190''] (boot select_session) of (r, w) \<Rightarrow>
     r = Exit 0 \<and> sent 5 (trace w) = ''hi''"
    by code_simp
  with echo_selectserver_echoes [of "\<lambda>_. NUL" "[''server'', ''9190'']" select_session] show ?thesis by auto
qed

text \<open>
  The level-triggered epoll servers (with and without the announcement, for both buffer sizes) keep
  the promise of an echo server for all their clients.
\<close>

theorem epoll_servers_echo:
  "case (if lt then echo_EPLTserver_main else echo_epollserver_main) g argv (boot as) of (r, w) \<Rightarrow>
     echoing (trace w) \<and> r \<noteq> Spinning \<and> (r = Exit 0 \<longrightarrow> echoed (trace w)) \<and>
     (r = Undefined \<longrightarrow> read_failed (trace w))"
  using epoll_main_post [of 4 True g argv as] epoll_main_post [of 100 False g argv as]
  by (auto simp: echo_post_def echo_EPLTserver_main_def echo_epollserver_main_def split: prod.splits)

definition epoll_session :: "answer list" where
  "epoll_session = [Ans 3 0 [] [], Ans 0 0 [] [], Ans 0 0 [] [], Ans 4 0 [] [], Ans 0 0 [] [],
     Ans 1 0 (int_bytes 3) [], Ans 5 0 [] [], Ans 0 0 [] [],
     Ans 1 0 (int_bytes 5) [], Ans 2 0 ''hi'' [], Ans 2 0 [] [], Ans (- 1) 4 [] [], Ans 0 0 [] [], Ans 0 0 [] []]"

theorem epoll_servers_echo_witness:
  "case echo_EPLTserver_main (\<lambda>_. NUL) [''server'', ''9190''] (boot epoll_session) of (r, w) \<Rightarrow>
     r = Exit 0 \<and> sent 5 (trace w) = ''hi'' \<and> echoed (trace w)"
proof -
  have "case echo_EPLTserver_main (\<lambda>_. NUL) [''server'', ''9190''] (boot epoll_session) of (r, w) \<Rightarrow>
     r = Exit 0 \<and> sent 5 (trace w) = ''hi''"
    by code_simp
  with epoll_servers_echo [of True "\<lambda>_. NUL" "[''server'', ''9190'']" epoll_session] show ?thesis by auto
qed

text \<open>
  The edge-triggered server keeps the promise of an echo server and, unlike the others, has no
  undefined behaviour even when reads fail, as they do whenever a client's data is used up.
\<close>

theorem echo_EPETserver_echoes:
  "case echo_EPETserver_main g argv (boot as) of (r, w) \<Rightarrow>
     echoing (trace w) \<and> r \<noteq> Spinning \<and> r \<noteq> Undefined \<and> (r = Exit 0 \<longrightarrow> echoed (trace w))"
  using echo_EPETserver_post [of g argv as] by (auto simp: echo_post_def split: prod.splits)

definition edge_session :: "answer list" where
  "edge_session = [Ans 3 0 [] [], Ans 0 0 [] [], Ans 0 0 [] [], Ans 4 0 [] [], Ans 2 0 [] [], Ans 0 0 [] [],
     Ans 0 0 [] [], Ans 1 0 (int_bytes 3) [], Ans 5 0 [] [], Ans 2 0 [] [], Ans 0 0 [] [], Ans 0 0 [] [],
     Ans 1 0 (int_bytes 5) [], Ans 2 0 ''hi'' [], Ans 2 0 [] [], Ans (- 1) 11 [] [],
     Ans (- 1) 4 [] [], Ans 0 0 [] [], Ans 0 0 [] []]"

theorem echo_EPETserver_echoes_witness:
  "case echo_EPETserver_main (\<lambda>_. NUL) [''server'', ''9190''] (boot edge_session) of (r, w) \<Rightarrow>
     r = Exit 0 \<and> sent 5 (trace w) = ''hi'' \<and> echoed (trace w)"
proof -
  have "case echo_EPETserver_main (\<lambda>_. NUL) [''server'', ''9190''] (boot edge_session) of (r, w) \<Rightarrow>
     r = Exit 0 \<and> sent 5 (trace w) = ''hi''"
    by code_simp
  with echo_EPETserver_echoes [of "\<lambda>_. NUL" "[''server'', ''9190'']" edge_session] show ?thesis by auto
qed

text \<open>
  The multi-process server keeps the promise in the parent and in every child.
\<close>

theorem echo_mpserver_echoes:
  "case echo_mpserver_main g argv (boot as) of (r, w) \<Rightarrow>
     echoing (trace w) \<and> r \<noteq> Spinning \<and> (r = Exit 0 \<longrightarrow> echoed (trace w)) \<and>
     (r = Undefined \<longrightarrow> read_failed (trace w))"
  using echo_mpserver_post [of g argv as] by (auto simp: echo_post_def split: prod.splits)

definition child_session :: "answer list" where
  "child_session = [Ans 0 0 [] [], Ans 3 0 [] [], Ans 0 0 [] [], Ans 0 0 [] [], Ans 5 0 [] [], Ans 0 0 [] [],
     Ans 0 0 [] [], Ans 2 0 ''hi'' [], Ans 2 0 [] [], Ans 0 0 [] [], Ans 0 0 [] []]"

theorem echo_mpserver_echoes_witness:
  "case echo_mpserver_main (\<lambda>_. NUL) [''server'', ''9190''] (boot child_session) of (r, w) \<Rightarrow>
     r = Exit 0 \<and> sent 5 (trace w) = ''hi'' \<and> echoed (trace w)"
proof -
  have "case echo_mpserver_main (\<lambda>_. NUL) [''server'', ''9190''] (boot child_session) of (r, w) \<Rightarrow>
     r = Exit 0 \<and> sent 5 (trace w) = ''hi''"
    by code_simp
  with echo_mpserver_echoes [of "\<lambda>_. NUL" "[''server'', ''9190'']" child_session] show ?thesis by auto
qed

end
