(* ===== verification/File_Transfer.thy ===== *)
theory File_Transfer
  imports Socket_Setup
begin

text \<open>
  \<^verbatim>\<open>file_server.c\<close> and \<^verbatim>\<open>file_client.c\<close> of \<^verbatim>\<open>src/tcp-ip/socket/src\<close>: the server sends a file in
  chunks of at most 30 bytes, half-closes the connection and prints the client's thanks; the
  client stores what it receives. A stream is a number, \<open>-1\<close> stands for the null pointer.
\<close>

section \<open>Programs\<close>

text \<open>
  \<open>fread\<close> returns the number of bytes it could read, fewer than asked for only at the end of the
  file or on an error.
\<close>

definition fread :: "int \<Rightarrow> nat \<Rightarrow> (int \<Rightarrow> string \<Rightarrow> prog) \<Rightarrow> prog" where
  "fread fp n k = syscall (\<lambda>a. Sys ''fread'' [fp] (take n (data a)) (int (length (take n (data a)))))
     (\<lambda>a. k (int (length (take n (data a)))) (take n (data a)))"

definition send_file :: "int \<Rightarrow> int \<Rightarrow> char list \<Rightarrow> (char list \<Rightarrow> prog) \<Rightarrow> prog" where
  "send_file fp clnt buf k = loop (\<lambda>buf next break.
     fread fp 30 (\<lambda>read_cnt bs. deliver buf bs (\<lambda>buf.
       if read_cnt < 30 then write_buf clnt buf read_cnt (break buf)
       else write_buf clnt buf 30 (next buf)))) buf k"

definition await_thanks :: "int \<Rightarrow> int \<Rightarrow> int \<Rightarrow> char list \<Rightarrow> prog" where
  "await_thanks fp clnt serv buf = call0 ''shutdown'' [clnt, 1] [] (
     sys_read clnt 30 (\<lambda>_ bs. deliver buf bs (\<lambda>buf. with_cstr buf (\<lambda>s.
     puts (''message from clinet: '' @ s) (
     call0 ''fclose'' [fp] [] (close clnt (close serv (exit 0))))))))"

definition file_server_main :: "(nat \<Rightarrow> char) \<Rightarrow> string list \<Rightarrow> prog" where
  "file_server_main g argv = (if length argv \<noteq> 2 then usage argv '' <port>'' 1 else
     call ''fopen'' [] ''file_server.c'' (\<lambda>fp. if fp = - 1 then error_handler ''cannot open the file'' else
     open_server (argv ! 1) ''socket() error'' ''bind() error'' ''listen() error'' (\<lambda>serv.
     accept serv (\<lambda>clnt. if clnt = - 1 then error_handler ''accept() error'' else
     send_file fp clnt (uninit g 30) (await_thanks fp clnt serv)))))"

text \<open>\<open>fwrite\<close> with a negative count reads outside the buffer.\<close>

definition receive_file :: "int \<Rightarrow> int \<Rightarrow> char list \<Rightarrow> (char list \<Rightarrow> prog) \<Rightarrow> prog" where
  "receive_file fp sock buf k = loop (\<lambda>buf next break.
     sys_read sock 30 (\<lambda>read_cnt bs. deliver buf bs (\<lambda>buf.
       if read_cnt = 0 then break buf
       else if read_cnt < 0 then undef
       else call0 ''fwrite'' [fp] (take (nat read_cnt) buf) (next buf)))) buf k"

definition say_thanks :: "int \<Rightarrow> int \<Rightarrow> prog" where
  "say_thanks fp sock = puts ''received file data'' (
     sys_write sock (''Thank You'' @ [NUL]) (\<lambda>_.
     call0 ''fclose'' [fp] [] (close sock (exit 0))))"

definition file_client_main :: "(nat \<Rightarrow> char) \<Rightarrow> string list \<Rightarrow> prog" where
  "file_client_main g argv = (if length argv \<noteq> 3 then usage argv '' <ip> <port>'' 1 else
     call ''fopen'' [] ''receive.dat'' (\<lambda>fp. if fp = - 1 then error_handler ''cannot open the file'' else
     open_client (argv ! 1) (argv ! 2) ''socket() error'' ''connect() error'' (\<lambda>sock.
     receive_file fp sock (uninit g 30) (\<lambda>_. say_thanks fp sock))))"

section \<open>Reasoning\<close>

text \<open>The bytes that the calls of one name moved, in order.\<close>

fun moved :: "string \<Rightarrow> event list \<Rightarrow> string" where
  "moved f [] = []"
| "moved f (Sys name args bs r # tr) = (if name = f then bs else []) @ moved f tr"
| "moved f (_ # tr) = moved f tr"

lemma moved_append [simp]: "moved f (xs @ ys) = moved f xs @ moved f ys"
  by (induction f xs rule: moved.induct) auto

text \<open>All bytes written to, or read from, sockets.\<close>

fun all_sent :: "event list \<Rightarrow> string" where
  "all_sent [] = []"
| "all_sent (Write f bs r # tr) = bs @ all_sent tr"
| "all_sent (_ # tr) = all_sent tr"

fun all_received :: "event list \<Rightarrow> string" where
  "all_received [] = []"
| "all_received (Read f n bs # tr) = bs @ all_received tr"
| "all_received (_ # tr) = all_received tr"

lemma all_sent_append [simp]: "all_sent (xs @ ys) = all_sent xs @ all_sent ys"
  by (induction xs rule: all_sent.induct) auto

lemma all_received_append [simp]: "all_received (xs @ ys) = all_received xs @ all_received ys"
  by (induction xs rule: all_received.induct) auto

lemma send_file_post:
  assumes "all_sent (trace w) = moved ''fread'' (trace w)" and "length buf = 30"
    and "\<And>buf w'. all_sent (trace w') = moved ''fread'' (trace w') \<Longrightarrow> length buf = 30 \<Longrightarrow> Q (k buf w')"
    and "\<And>w'. Q (Blocked, w')"
  shows "Q (send_file fp clnt buf k w)"
  unfolding send_file_def
proof (rule loop_rule [where I = "\<lambda>buf w. length buf = 30 \<and> all_sent (trace w) = moved ''fread'' (trace w)"])
  fix buf :: "char list" and w :: world and c :: "char list \<Rightarrow> prog"
  assume i: "length buf = 30 \<and> all_sent (trace w) = moved ''fread'' (trace w)"
    and c: "\<And>a' w'. length a' = 30 \<and> all_sent (trace w') = moved ''fread'' (trace w') \<Longrightarrow>
      length (answers w') < length (answers w) \<Longrightarrow> Q (c a' w')"
  show "Q (fread fp 30 (\<lambda>read_cnt bs. deliver buf bs (\<lambda>buf.
       if read_cnt < 30 then write_buf clnt buf read_cnt (k buf) else write_buf clnt buf 30 (c buf))) w)"
    unfolding fread_def
  proof (rule syscall_rule [where Q = Q])
    fix a as assume w: "answers w = a # as"
    define bs where "bs = take 30 (data a)"
    let ?w = "log (Sys ''fread'' [fp] bs (int (length bs))) (w\<lparr>answers := as\<rparr>)"
    have l: "length bs \<le> 30" by (simp add: bs_def)
    have "Q (sys_write clnt bs (\<lambda>_. k (bs @ drop (length bs) buf)) ?w)"
      "Q (sys_write clnt bs (\<lambda>_. c (bs @ drop (length bs) buf)) ?w)"
      unfolding sys_write_def
      by (rule syscall_rule [where Q = Q]; use i w l assms(3,4) c in simp)+
    then show "Q (deliver buf (take 30 (data a)) (\<lambda>b. if int (length (take 30 (data a))) < 30
         then write_buf clnt b (int (length (take 30 (data a)))) (k b) else write_buf clnt b 30 (c b))
       (log (Sys ''fread'' [fp] (take 30 (data a)) (int (length (take 30 (data a))))) (w\<lparr>answers := as\<rparr>)))"
      using i l by (auto simp: bs_def [symmetric] deliver_def buf_copy_def write_buf_def)
  qed (rule assms(4))
qed (use assms in auto)

lemma receive_file_post:
  assumes "moved ''fwrite'' (trace w) = all_received (trace w)" and "length buf = 30"
    and "\<And>buf w'. moved ''fwrite'' (trace w') = all_received (trace w') \<Longrightarrow> Q (k buf w')"
    and "\<And>w'. Q (Blocked, w')" and "\<And>w'. read_failed (trace w') \<Longrightarrow> Q (Undefined, w')"
  shows "Q (receive_file fp sock buf k w)"
  unfolding receive_file_def
proof (rule loop_rule [where I = "\<lambda>buf w. length buf = 30 \<and> moved ''fwrite'' (trace w) = all_received (trace w)"])
  fix buf :: "char list" and w :: world and c :: "char list \<Rightarrow> prog"
  assume i: "length buf = 30 \<and> moved ''fwrite'' (trace w) = all_received (trace w)"
    and c: "\<And>a' w'. length a' = 30 \<and> moved ''fwrite'' (trace w') = all_received (trace w') \<Longrightarrow>
      length (answers w') < length (answers w) \<Longrightarrow> Q (c a' w')"
  show "Q (sys_read sock 30 (\<lambda>read_cnt bs. deliver buf bs (\<lambda>buf. if read_cnt = 0 then k buf
       else if read_cnt < 0 then undef else call0 ''fwrite'' [fp] (take (nat read_cnt) buf) (c buf))) w)"
    unfolding sys_read_def
  proof (rule syscall_rule [where Q = Q])
    fix a as assume w: "answers w = a # as"
    define bs where "bs = take 30 (data a)"
    have l: "length bs \<le> 30" by (simp add: bs_def)
    have "Q (call0 ''fwrite'' [fp] bs (c (bs @ drop (length bs) buf)) (log (Read sock 30 bs) (w\<lparr>answers := as\<rparr>)))"
      unfolding call0_def call_def
      by (rule syscall_rule [where Q = Q]; use i w l assms(4) c in simp)
    then show "Q ((if ret a < 0
        then deliver buf [] (\<lambda>b. if - 1 = (0::int) then k b else if - 1 < (0::int) then undef
          else call0 ''fwrite'' [fp] (take (nat (- 1)) b) (c b))
        else deliver buf (take 30 (data a)) (\<lambda>b. if int (length (take 30 (data a))) = 0 then k b
          else if int (length (take 30 (data a))) < 0 then undef
          else call0 ''fwrite'' [fp] (take (nat (int (length (take 30 (data a))))) b) (c b)))
       (log (if ret a < 0 then Sys ''read'' [sock, int 30] [] (- 1) else Read sock 30 (take 30 (data a)))
         (w\<lparr>answers := as\<rparr>)))"
      using i l assms(3,5)
      by (cases "bs = []") (auto simp: bs_def [symmetric] deliver_def buf_copy_def undef_def)
  qed (rule assms(4))
qed (use assms in auto)

definition server_post :: "outcome \<times> world \<Rightarrow> bool" where
  "server_post r \<longleftrightarrow> fst r \<noteq> Spinning \<and>
     (fst r = Exit 0 \<longrightarrow> all_sent (trace (snd r)) = moved ''fread'' (trace (snd r)))"

definition client_post :: "outcome \<times> world \<Rightarrow> bool" where
  "client_post r \<longleftrightarrow> fst r \<noteq> Spinning \<and>
     (fst r = Exit 0 \<longrightarrow> moved ''fwrite'' (trace (snd r)) = all_received (trace (snd r))) \<and>
     (fst r = Undefined \<longrightarrow> read_failed (trace (snd r)))"

lemma stopped_post [simp]:
  "server_post (Blocked, w)" "server_post (Exit 1, w)" "client_post (Blocked, w)" "client_post (Exit 1, w)"
  by (simp_all add: server_post_def client_post_def)

lemma await_thanks_post:
  "all_sent (trace w) = moved ''fread'' (trace w) \<Longrightarrow> server_post (await_thanks fp clnt serv buf w)"
  by (auto simp: await_thanks_def prog_defs syscall_def buf_copy_def server_post_def split: list.splits)

lemma say_thanks_post:
  "moved ''fwrite'' (trace w) = all_received (trace w) \<Longrightarrow> client_post (say_thanks fp sock w)"
  by (auto simp: say_thanks_def prog_defs syscall_def client_post_def split: list.splits)

lemma file_server_post: "server_post (file_server_main g argv (boot as))"
proof -
  have "server_post (send_file fp clnt (uninit g 30) (await_thanks fp clnt serv) w)"
    if "all_sent (trace w) = moved ''fread'' (trace w)" for clnt fp serv w
    by (rule send_file_post) (use that await_thanks_post in auto)
  then show ?thesis
    unfolding file_server_main_def open_server_def accept_def call_def usage_def printf_def error_handler_def
    by (auto intro!: syscall_rule [where Q = server_post] simp: emit_def exit_def)
qed

lemma file_client_post: "client_post (file_client_main g argv (boot as))"
proof -
  have "client_post (receive_file fp sock (uninit g 30) (\<lambda>_. say_thanks fp sock) w)"
    if "moved ''fwrite'' (trace w) = all_received (trace w)" for sock fp w
    by (rule receive_file_post) (use that say_thanks_post in \<open>auto simp: client_post_def\<close>)
  then show ?thesis
    unfolding file_client_main_def open_client_def call_def usage_def printf_def error_handler_def
    by (auto intro!: syscall_rule [where Q = client_post] simp: emit_def exit_def)
qed

section \<open>Properties\<close>

text \<open>
  C25. The file arrives: when file\_server and file\_client both exit normally and the connection
  delivered what was sent, the bytes the client stored are the bytes the server read from its
  file, for every chunking of the reads on both sides.
\<close>

theorem file_transfer:
  assumes "file_server_main g argv (boot as) = (Exit 0, w)"
    and "file_client_main g' argv' (boot as') = (Exit 0, w')"
    and "all_received (trace w') = all_sent (trace w)"
  shows "moved ''fwrite'' (trace w') = moved ''fread'' (trace w)"
  using file_server_post [of g argv as] file_client_post [of g' argv' as'] assms
  by (simp add: server_post_def client_post_def)

definition server_session :: "answer list" where
  "server_session = [Ans 7 0 [] [], Ans 3 0 [] [], Ans 0 0 [] [], Ans 0 0 [] [], Ans 4 0 [] [],
     Ans 0 0 (replicate 30 (CHR ''x'')) [], Ans 30 0 [] [], Ans 0 0 ''end'' [], Ans 3 0 [] [], Ans 0 0 [] [],
     Ans 0 0 (''Thank You'' @ [NUL]) [], Ans 0 0 [] [], Ans 0 0 [] [], Ans 0 0 [] []]"

definition client_session :: "answer list" where
  "client_session = [Ans 7 0 [] [], Ans 3 0 [] [], Ans 0 0 [] [],
     Ans 0 0 (replicate 20 (CHR ''x'')) [], Ans 20 0 [] [], Ans 0 0 (replicate 10 (CHR ''x'') @ ''end'') [], Ans 13 0 [] [],
     Ans 0 0 [] [], Ans 10 0 [] [], Ans 0 0 [] [], Ans 0 0 [] []]"

theorem file_transfer_witness:
  "\<exists>w w'. file_server_main (\<lambda>_. NUL) [''s'', ''9190''] (boot server_session) = (Exit 0, w) \<and>
     file_client_main (\<lambda>_. NUL) [''c'', ''127.0.0.1'', ''9190''] (boot client_session) = (Exit 0, w') \<and>
     moved ''fwrite'' (trace w') = replicate 30 (CHR ''x'') @ ''end''"
proof -
  have "case file_server_main (\<lambda>_. NUL) [''s'', ''9190''] (boot server_session) of (r, w) \<Rightarrow>
      case file_client_main (\<lambda>_. NUL) [''c'', ''127.0.0.1'', ''9190''] (boot client_session) of (r', w') \<Rightarrow>
      r = Exit 0 \<and> r' = Exit 0 \<and> all_received (trace w') = all_sent (trace w) \<and>
      moved ''fread'' (trace w) = replicate 30 (CHR ''x'') @ ''end''"
    by code_simp
  then obtain w w' where
    a: "file_server_main (\<lambda>_. NUL) [''s'', ''9190''] (boot server_session) = (Exit 0, w)"
    and b: "file_client_main (\<lambda>_. NUL) [''c'', ''127.0.0.1'', ''9190''] (boot client_session) = (Exit 0, w')"
    and c: "all_received (trace w') = all_sent (trace w)"
    and d: "moved ''fread'' (trace w) = replicate 30 (CHR ''x'') @ ''end''"
    by (auto split: prod.splits)
  from file_transfer [OF a b c] d a b show ?thesis by auto
qed

definition rude_client :: "answer list" where
  "rude_client = [Ans 7 0 [] [], Ans 3 0 [] [], Ans 0 0 [] [], Ans 0 0 [] [], Ans 4 0 [] [],
     Ans 0 0 (replicate 30 (CHR ''x'')) [], Ans 30 0 [] [], Ans 0 0 [] [], Ans 0 0 [] [], Ans 0 0 [] [],
     Ans 0 0 [] []]"

text \<open>
  The server prints the client's answer from a buffer that need not hold a string: after a full
  chunk of 30 bytes without NUL and a connection closed without an answer, it reads past the
  buffer.
\<close>

theorem file_server_overread:
  "fst (file_server_main g [''s'', ''9190''] (boot rude_client)) = Undefined"
  by (simp add: file_server_main_def rude_client_def send_file_def await_thanks_def fread_def loop.simps prog_defs
      syscall_def buf_copy_def)

end
