(* ===== verification/Op_Calculator.thy ===== *)
theory Op_Calculator
  imports Socket_Setup
begin

text \<open>
  The calculator of \<^verbatim>\<open>src/tcp-ip/socket/src\<close>: \<^verbatim>\<open>op_client.c\<close> sends the number of operands in one
  byte, the operands in four bytes each and the operator; \<^verbatim>\<open>op_server.c\<close> collects a message over
  several reads and answers with the result in four bytes. A signed overflow is undefined.
\<close>

section \<open>Server\<close>

definition BUF_SIZE :: int where "BUF_SIZE = 1024"
definition OPSZ :: int where "OPSZ = 4"

definition int_range :: "int \<Rightarrow> bool" where
  "int_range i \<longleftrightarrow> - 2147483648 \<le> i \<and> i \<le> INT_MAX"

fun accumulate :: "(int \<Rightarrow> int \<Rightarrow> int) \<Rightarrow> int \<Rightarrow> int list \<Rightarrow> int option" where
  "accumulate f result [] = Some result"
| "accumulate f result (x # xs) = (if int_range (f result x) then accumulate f (f result x) xs else None)"

text \<open>\<open>opnds\<close> is the array from its first element; \<open>None\<close> is a signed overflow.\<close>

definition calculate :: "int \<Rightarrow> int list \<Rightarrow> char \<Rightarrow> int option" where
  "calculate opnum opnds op = (let result = opnds ! 0; rest = take (nat (opnum - 1)) (drop 1 opnds) in
     if op = CHR ''+'' then accumulate (\<lambda>a b. a + b) result rest
     else if op = CHR ''-'' then accumulate (\<lambda>a b. a - b) result rest
     else if op = CHR ''*'' then accumulate (\<lambda>a b. a * b) result rest
     else Some result)"

text \<open>\<open>read(fd, &opinfo[recv_len], BUF_SIZE - 1)\<close> writes from an offset.\<close>

definition deliver_at :: "char list \<Rightarrow> int \<Rightarrow> string \<Rightarrow> (char list \<Rightarrow> prog) \<Rightarrow> prog" where
  "deliver_at buf off bs k = (if 0 \<le> off \<and> off + int (length bs) \<le> int (length buf)
     then k (take (nat off) buf @ bs @ drop (nat off + length bs) buf) else undef)"

definition receive :: "int \<Rightarrow> int \<Rightarrow> char list \<times> int \<Rightarrow> (char list \<times> int \<Rightarrow> prog) \<Rightarrow> prog" where
  "receive clnt opnd_cnt st k = (if snd st < opnd_cnt * OPSZ + 1 then
     loop (\<lambda>(opinfo, recv_len) next break.
       sys_read clnt (nat (BUF_SIZE - 1)) (\<lambda>recv_cnt bs. deliver_at opinfo recv_len bs (\<lambda>opinfo.
         if recv_len + recv_cnt < opnd_cnt * OPSZ + 1 then next (opinfo, recv_len + recv_cnt)
         else break (opinfo, recv_len + recv_cnt)))) st k
     else k st)"

definition answer_client :: "int \<Rightarrow> int \<Rightarrow> char list \<times> int \<Rightarrow> (char list \<Rightarrow> prog) \<Rightarrow> prog" where
  "answer_client clnt opnd_cnt st k = (case st of (opinfo, recv_len) \<Rightarrow>
     case calculate opnd_cnt (ints_of opinfo) (opinfo ! nat (recv_len - 1)) of None \<Rightarrow> undef
     | Some result \<Rightarrow> sys_write clnt (int_bytes result) (\<lambda>_. close clnt (k opinfo)))"

text \<open>One of the five clients: the count is the low byte of an \<open>int\<close> that was set to 0.\<close>

definition serve :: "int \<Rightarrow> char list \<Rightarrow> (char list \<Rightarrow> prog) \<Rightarrow> prog" where
  "serve serv opinfo k = accept serv (\<lambda>clnt.
     sys_read clnt 1 (\<lambda>_ bs. let opnd_cnt = (case bs of [] \<Rightarrow> 0 | c # _ \<Rightarrow> int (of_char c)) in
     receive clnt opnd_cnt (opinfo, 0) (\<lambda>st. answer_client clnt opnd_cnt st k)))"

definition op_server_main :: "(nat \<Rightarrow> char) \<Rightarrow> string list \<Rightarrow> prog" where
  "op_server_main g argv = (if length argv \<noteq> 2 then usage argv '' <PORT>'' 1 else
     open_server (argv ! 1) ''socket error'' ''bind error'' ''listen error'' (\<lambda>serv.
     for_each [0..<5] (\<lambda>i. serve serv) (uninit g (nat BUF_SIZE)) (\<lambda>_. close serv (exit 0))))"

section \<open>Client\<close>

text \<open>
  \<open>scanf\<close> of one number, which keeps the variable when there is none, and of one character.
\<close>

definition scanf_int :: "int \<Rightarrow> (int \<Rightarrow> prog) \<Rightarrow> prog" where
  "scanf_int old k = syscall (\<lambda>a. Sys ''scanf'' [] (data a) (ret a))
     (\<lambda>a. k (if ret a = 1 then atoi (data a) else old))"

definition scanf_char :: "char \<Rightarrow> (char \<Rightarrow> prog) \<Rightarrow> prog" where
  "scanf_char old k = syscall (\<lambda>a. Sys ''scanf'' [] (data a) (ret a))
     (\<lambda>a. k (case data a of [] \<Rightarrow> old | c # _ \<Rightarrow> c))"

text \<open>Storing an \<open>int\<close> at an offset of the message.\<close>

definition put_int :: "char list \<Rightarrow> int \<Rightarrow> int \<Rightarrow> (char list \<Rightarrow> prog) \<Rightarrow> prog" where
  "put_int buf off v k = deliver_at buf off (int_bytes v) k"

definition get_int :: "char list \<Rightarrow> int \<Rightarrow> int" where
  "get_int buf off = int_val (take 4 (drop (nat off) buf))"

definition ask_operand :: "nat \<Rightarrow> char list \<Rightarrow> (char list \<Rightarrow> prog) \<Rightarrow> prog" where
  "ask_operand i opmsg next = printf (''Operand '' @ show_int (int i + 1) @ '': '') (
     scanf_int (get_int opmsg (int i * OPSZ + 1)) (\<lambda>v. put_int opmsg (int i * OPSZ + 1) v next))"

definition send_request :: "int \<Rightarrow> int \<Rightarrow> int \<Rightarrow> char list \<Rightarrow> prog" where
  "send_request sock opnd_cnt result0 opmsg = call0 ''fgetc'' [0] [] (
     printf ''Operator: '' (
     scanf_char (opmsg ! nat (opnd_cnt * OPSZ + 1)) (\<lambda>c. store opmsg (opnd_cnt * OPSZ + 1) c (\<lambda>opmsg.
     write_buf sock opmsg (opnd_cnt * OPSZ + 2) (
     sys_read sock 4 (\<lambda>_ bs. deliver (int_bytes result0) bs (\<lambda>result.
     puts (''Operation result: '' @ show_int (int_val result)) (
     close sock (exit 0)))))))))"

text \<open>\<open>cnt0\<close> and \<open>result0\<close> are the uninitialised variables \<open>opnd_cnt\<close> and \<open>result\<close>.\<close>

definition op_client_main :: "(nat \<Rightarrow> char) \<Rightarrow> int \<Rightarrow> int \<Rightarrow> string list \<Rightarrow> prog" where
  "op_client_main g cnt0 result0 argv = (if length argv \<noteq> 3
     then printf (''usage: '' @ argv ! 0 @ '' <IP> <port'' @ [NL] @ ''>'') (exit 1) else
     open_client (argv ! 1) (argv ! 2) ''socket error'' ''connect error'' (\<lambda>sock.
     printf ''Operand count: '' (
     scanf_int cnt0 (\<lambda>opnd_cnt.
     store (uninit g (nat BUF_SIZE)) 0 (char_of (nat (opnd_cnt mod 256))) (\<lambda>opmsg.
     for_each [0..<nat opnd_cnt] ask_operand opmsg (send_request sock opnd_cnt result0))))))"

section \<open>Messages\<close>

definition payload :: "int list \<Rightarrow> char \<Rightarrow> string" where
  "payload xs c = concat (map int_bytes xs) @ [c]"

definition message :: "int list \<Rightarrow> char \<Rightarrow> string" where
  "message xs c = char_of (length xs) # payload xs c"

lemma length_payload [simp]: "length (payload xs c) = 4 * length xs + 1"
proof -
  have "length (concat (map int_bytes xs)) = 4 * length xs" by (induction xs) auto
  then show ?thesis by (simp add: payload_def)
qed

lemma ints_of_int_bytes: "ints_of (int_bytes x @ r) = c_int x # ints_of r"
proof -
  obtain a b c d where bs: "int_bytes x = [a, b, c, d]"
    by (simp add: int_bytes_def eval_nat_numeral)
  then have "ints_of (int_bytes x @ r) = int_val (int_bytes x) # ints_of r" by simp
  then show ?thesis by (simp add: int_val_bytes)
qed

lemma ints_of_payload: "ints_of (concat (map int_bytes xs) @ r) = map c_int xs @ ints_of r"
  by (induction xs) (simp_all add: ints_of_int_bytes)

text \<open>The receive loop, for every way to cut the message into non-empty chunks.\<close>

definition chunk_answers :: "string list \<Rightarrow> answer list" where
  "chunk_answers cs = map (\<lambda>c. Ans 1 0 c []) cs"

definition chunk_events :: "int \<Rightarrow> string list \<Rightarrow> event list" where
  "chunk_events fd cs = map (Read fd 1023) cs"

lemma receive_loop:
  assumes "cs \<noteq> []" and "\<forall>c \<in> set cs. c \<noteq> []" and "length acc + length (concat cs) = N"
    and "N \<le> 1023" and "length rest = 1024 - length acc"
  shows "loop (\<lambda>(opinfo, recv_len) next break.
       sys_read clnt 1023 (\<lambda>recv_cnt bs. deliver_at opinfo recv_len bs (\<lambda>opinfo.
         if recv_len + recv_cnt < int N then next (opinfo, recv_len + recv_cnt)
         else break (opinfo, recv_len + recv_cnt)))) (acc @ rest, int (length acc)) k
       \<lparr>answers = chunk_answers cs @ as, trace = tr\<rparr>
     = k (acc @ concat cs @ drop (length (concat cs)) rest, int N)
       \<lparr>answers = as, trace = tr @ chunk_events clnt cs\<rparr>"
  using assms
proof (induction cs arbitrary: acc rest tr)
  case (Cons c cs)
  have c: "length c \<le> 1023" "c \<noteq> []" using Cons.prems by auto
  then have t: "take 1023 c = c" by simp
  have d: "drop (length c) rest @ [] = drop (length c) rest" by simp
  show ?case
  proof (cases "cs = []")
    case True
    then have N: "N = length acc + length c" using Cons.prems(3) by simp
    show ?thesis
      unfolding N using Cons.prems(4,5) c t True N
      by (subst loop.simps)
        (auto simp: sys_read_def syscall_def deliver_at_def chunk_answers_def chunk_events_def log_def)
  next
    case False
    with Cons.prems(2) have pos: "0 < length (concat cs)" by (cases cs) auto
    let ?w = "\<lparr>answers = chunk_answers cs @ as, trace = tr @ [Read clnt 1023 c]\<rparr>"
    have "loop (\<lambda>(opinfo, recv_len) next break.
       sys_read clnt 1023 (\<lambda>recv_cnt bs. deliver_at opinfo recv_len bs (\<lambda>opinfo.
         if recv_len + recv_cnt < int N then next (opinfo, recv_len + recv_cnt)
         else break (opinfo, recv_len + recv_cnt)))) ((acc @ c) @ drop (length c) rest, int (length (acc @ c))) k ?w
      = k ((acc @ c) @ concat cs @ drop (length (concat cs)) (drop (length c) rest), int N)
       \<lparr>answers = as, trace = (tr @ [Read clnt 1023 c]) @ chunk_events clnt cs\<rparr>"
      by (rule Cons.IH) (use Cons.prems False in auto)
    moreover have "length acc + length c < N"
      using Cons.prems(3) pos unfolding concat.simps length_append by linarith
    ultimately show ?thesis
      using Cons.prems c t
      by (subst loop.simps)
        (simp add: sys_read_def syscall_def deliver_at_def chunk_answers_def chunk_events_def log_def add.commute)
  qed
qed simp

lemma receive_message:
  assumes "cs \<noteq> []" and "\<forall>c \<in> set cs. c \<noteq> []" and "length (concat cs) = N" and "N \<le> 1023"
    and "length opinfo = 1024" and "cnt * OPSZ + 1 = int N"
  shows "receive clnt cnt (opinfo, 0) k \<lparr>answers = chunk_answers cs @ as, trace = tr\<rparr>
     = k (concat cs @ drop N opinfo, int N) \<lparr>answers = as, trace = tr @ chunk_events clnt cs\<rparr>"
proof -
  have "0 < int N" using assms(1-3) by (cases cs) auto
  then have "receive clnt cnt (opinfo, 0) k = loop (\<lambda>(opinfo, recv_len) next break.
       sys_read clnt 1023 (\<lambda>recv_cnt bs. deliver_at opinfo recv_len bs (\<lambda>opinfo.
         if recv_len + recv_cnt < int N then next (opinfo, recv_len + recv_cnt)
         else break (opinfo, recv_len + recv_cnt)))) (opinfo, 0) k"
    unfolding receive_def assms(6) by (simp add: BUF_SIZE_def)
  then show ?thesis
    using receive_loop [OF assms(1,2), of "[]" N opinfo clnt k as tr] assms(3-5) by simp
qed

lemma serve_message:
  assumes "length xs \<le> 255" and "\<forall>c \<in> set cs. c \<noteq> []" and "concat cs = payload xs op"
    and "length opinfo = 1024" and "0 \<le> clnt"
    and "calculate (int (length xs)) (map c_int xs @ ints_of ([op] @ drop (4 * length xs + 1) opinfo)) op = Some v"
  shows "serve serv opinfo k \<lparr>answers = Ans clnt 0 [] [] # Ans 1 0 [char_of (length xs)] [] # chunk_answers cs
        @ [Ans n 0 [] [], Ans m 0 [] []] @ as, trace = tr\<rparr>
     = k (payload xs op @ drop (4 * length xs + 1) opinfo) \<lparr>answers = as,
        trace = tr @ [Sys ''accept'' [serv] [] clnt, Read clnt 1 [char_of (length xs)]] @ chunk_events clnt cs
          @ [Write clnt (int_bytes v) (min (max (- 1) n) 4), Sys ''close'' [clnt] [] (max (- 1) m)]\<rparr>"
proof -
  have oc: "of_char (char_of (length xs) :: char) = length xs" using assms(1) by (simp add: of_char_of)
  have "cs \<noteq> []" using assms(3) by (auto simp: payload_def)
  from receive_message [OF this assms(2), of "4 * length xs + 1" opinfo "int (length xs)" clnt
      "\<lambda>st. answer_client clnt (int (length xs)) st k" "[Ans n 0 [] [], Ans m 0 [] []] @ as"
      "tr @ [Sys ''accept'' [serv] [] clnt, Read clnt 1 [char_of (length xs)]]"]
  have "receive clnt (int (length xs)) (opinfo, 0) (\<lambda>st. answer_client clnt (int (length xs)) st k)
      \<lparr>answers = chunk_answers cs @ [Ans n 0 [] [], Ans m 0 [] []] @ as,
       trace = tr @ [Sys ''accept'' [serv] [] clnt, Read clnt 1 [char_of (length xs)]]\<rparr>
    = answer_client clnt (int (length xs)) (payload xs op @ drop (4 * length xs + 1) opinfo, int (4 * length xs + 1)) k
      \<lparr>answers = [Ans n 0 [] [], Ans m 0 [] []] @ as,
       trace = (tr @ [Sys ''accept'' [serv] [] clnt, Read clnt 1 [char_of (length xs)]]) @ chunk_events clnt cs\<rparr>"
    using assms(1,3,4) by (simp add: OPSZ_def)
  moreover have "payload xs op ! (4 * length xs) = op"
    using length_payload [of xs op] by (simp add: payload_def nth_append)
  moreover have "ints_of (payload xs op @ drop (4 * length xs + 1) opinfo)
      = map c_int xs @ ints_of ([op] @ drop (4 * length xs + 1) opinfo)"
    by (simp only: payload_def append_assoc ints_of_payload)
  moreover have "nat (4 * int (length xs)) = 4 * length xs" by (simp add: nat_mult_distrib)
  ultimately have "receive clnt (int (length xs)) (opinfo, 0) (\<lambda>st. answer_client clnt (int (length xs)) st k)
      \<lparr>answers = chunk_answers cs @ [Ans n 0 [] [], Ans m 0 [] []] @ as,
       trace = tr @ [Sys ''accept'' [serv] [] clnt, Read clnt 1 [char_of (length xs)]]\<rparr>
    = k (payload xs op @ drop (4 * length xs + 1) opinfo) \<lparr>answers = as,
        trace = tr @ [Sys ''accept'' [serv] [] clnt, Read clnt 1 [char_of (length xs)]] @ chunk_events clnt cs
          @ [Write clnt (int_bytes v) (min (max (- 1) n) 4), Sys ''close'' [clnt] [] (max (- 1) m)]\<rparr>"
    using assms(6)
    by (simp add: answer_client_def nth_append sys_write_def close_def call0_def call_def syscall_def log_def)
  then show ?thesis
    using assms(5) oc by (simp add: serve_def accept_def call_def sys_read_def syscall_def log_def Let_def)
qed

lemma calculate_prefix:
  assumes "xs \<noteq> []" and "\<forall>x \<in> set xs. int_range x"
  shows "calculate (int (length xs)) (map c_int xs @ r) op = calculate (int (length xs)) xs op"
proof -
  have "map c_int xs = xs"
    using assms(2) by (intro map_idI) (auto simp: int_range_def c_int_id)
  moreover obtain y ys where "xs = y # ys" using assms(1) by (cases xs) auto
  ultimately show ?thesis by (simp add: calculate_def)
qed

text \<open>The operands typed by the user, one by one.\<close>

definition typed :: "int \<Rightarrow> answer" where
  "typed x = Ans 1 0 (show_int x) []"

lemma scan_typed: "int_range x \<Longrightarrow> atoi (show_int x) = x"
  using atol_show_int [of "[]" x] by (simp add: atoi_def digit_stop_def int_range_def c_int_id)

lemma put_operand:
  "length pre = nat off \<Longrightarrow> 0 \<le> off \<Longrightarrow> 4 \<le> length rest \<Longrightarrow>
     put_int (pre @ rest) off x k = k (pre @ int_bytes x @ drop 4 rest)"
  by (simp add: put_int_def deliver_at_def)

definition asked :: "nat \<Rightarrow> int \<Rightarrow> event list" where
  "asked i x = [Out (''Operand '' @ show_int (int i + 1) @ '': ''), Sys ''scanf'' [] (show_int x) 1]"

lemma ask_typed:
  assumes "int_range x" and "length pre = 4 * i + 1" and "4 \<le> length rest"
  shows "ask_operand i (pre @ rest) k \<lparr>answers = typed x # as, trace = tr\<rparr>
    = k (pre @ int_bytes x @ drop 4 rest) \<lparr>answers = as, trace = tr @ asked i x\<rparr>"
proof -
  have "nat (int i * OPSZ + 1) = 4 * i + 1" by (simp add: OPSZ_def nat_add_distrib nat_mult_distrib)
  then have "put_int (pre @ rest) (int i * OPSZ + 1) x k = k (pre @ int_bytes x @ drop 4 rest)"
    by (intro put_operand) (use assms in \<open>auto simp: OPSZ_def\<close>)
  then show ?thesis
    using assms(1)
    by (simp add: ask_operand_def printf_def emit_def scanf_int_def syscall_def log_def typed_def
        scan_typed asked_def)
qed

lemma operands_typed:
  assumes "\<forall>x \<in> set xs. int_range x" and "length pre = 4 * i + 1" and "4 * length xs \<le> length rest"
  shows "\<exists>us. sent sock us = [] \<and>
    for_each [i..<i + length xs] ask_operand (pre @ rest) k \<lparr>answers = map typed xs @ as, trace = tr\<rparr>
    = k (pre @ concat (map int_bytes xs) @ drop (4 * length xs) rest) \<lparr>answers = as, trace = tr @ us\<rparr>"
  using assms
proof (induction xs arbitrary: i pre rest tr)
  case Nil
  then show ?case by (intro exI [of _ "[]"]) simp
next
  case (Cons x xs)
  have "\<exists>us. sent sock us = [] \<and>
      for_each [Suc i..<Suc i + length xs] ask_operand ((pre @ int_bytes x) @ drop 4 rest) k
         \<lparr>answers = map typed xs @ as, trace = tr @ asked i x\<rparr>
    = k ((pre @ int_bytes x) @ concat (map int_bytes xs) @ drop (4 * length xs) (drop 4 rest))
       \<lparr>answers = as, trace = (tr @ asked i x) @ us\<rparr>"
    by (rule Cons.IH) (use Cons.prems in auto)
  then obtain us where us: "sent sock us = []"
      "for_each [Suc i..<Suc i + length xs] ask_operand ((pre @ int_bytes x) @ drop 4 rest) k
         \<lparr>answers = map typed xs @ as, trace = tr @ asked i x\<rparr>
    = k ((pre @ int_bytes x) @ concat (map int_bytes xs) @ drop (4 * length xs) (drop 4 rest))
       \<lparr>answers = as, trace = (tr @ asked i x) @ us\<rparr>"
    by blast
  have u: "[i..<i + length (x # xs)] = i # [Suc i..<Suc i + length xs]"
    by (subst upt_rec) simp
  have "sent sock (asked i x @ us) = []" using us(1) by (simp add: asked_def)
  moreover have "for_each [i..<i + length (x # xs)] ask_operand (pre @ rest) k
       \<lparr>answers = map typed (x # xs) @ as, trace = tr\<rparr>
    = k (pre @ concat (map int_bytes (x # xs)) @ drop (4 * length (x # xs)) rest)
       \<lparr>answers = as, trace = tr @ asked i x @ us\<rparr>"
    unfolding u for_each.simps
    using us(2) Cons.prems by (simp add: ask_typed add.commute)
  ultimately show ?case by blast
qed

lemma request_sent:
  assumes "length m = 4 * N + 1" and "1 \<le> length rest"
  shows "sent sock (trace (snd (send_request sock (int N) result0 (m @ rest)
     \<lparr>answers = [Ans 10 0 [] [], Ans 1 0 [c] [], Ans n 0 [] []], trace = tr\<rparr>))) = sent sock tr @ m @ [c]"
proof -
  have i: "nat (int N * OPSZ + 1) = 4 * N + 1" "nat (int N * OPSZ + 2) = 4 * N + 2"
    by (simp_all add: OPSZ_def nat_add_distrib nat_mult_distrib)
  obtain y ys where rest: "rest = y # ys" using assms(2) by (cases rest) auto
  have "(m @ rest)[4 * N + 1 := c] = m @ c # ys"
    using assms(1) rest by (simp add: list_update_append)
  moreover have "take (4 * N + 2) (m @ c # ys) = m @ [c]"
    using assms(1) by simp
  ultimately show ?thesis
    using assms i rest
    by (simp add: send_request_def prog_defs scanf_char_def syscall_def log_def buf_put_def OPSZ_def)
qed

section \<open>What the calculator computes\<close>

definition reference :: "char \<Rightarrow> int list \<Rightarrow> int" where
  "reference op xs = (if op = CHR ''+'' then sum_list xs else if op = CHR ''-'' then hd xs - sum_list (tl xs)
     else if op = CHR ''*'' then prod_list xs else hd xs)"

lemma accumulate_foldl:
  "accumulate f a ys = (if \<forall>k<length ys. int_range (foldl f a (take (Suc k) ys)) then Some (foldl f a ys) else None)"
proof (induction ys arbitrary: a)
  case (Cons y ys)
  have "(\<forall>k<length (y # ys). int_range (foldl f a (take (Suc k) (y # ys)))) \<longleftrightarrow>
    int_range (f a y) \<and> (\<forall>k<length ys. int_range (foldl f (f a y) (take (Suc k) ys)))"
    by (simp add: All_less_Suc2)
  then show ?case using Cons.IH [of "f a y"] by simp
qed simp

lemma foldl_int_ops:
  "foldl (\<lambda>a b. a + b) a ys = a + sum_list ys" "foldl (\<lambda>a b. a - b) a ys = a - sum_list ys"
  "foldl (\<lambda>a b. a * b) a ys = a * prod_list ys" for a :: int
  by (induction ys arbitrary: a) simp_all

text \<open>
  C10. The loops of \<open>calculate\<close> are equivalent to the reference: the sum, the first operand less the sum of the others, the product,
  or, for any other operator, the first operand. The result is defined exactly when the value for every prefix of at least
  two operands fits into an \<open>int\<close>; what follows the operands in the buffer does not matter.
\<close>

theorem calculate_equivalent:
  assumes "xs \<noteq> []" and "int_range (hd xs)"
  shows "calculate (int (length xs)) (xs @ r) op =
    (if \<forall>k\<in>{2..length xs}. int_range (reference op (take k xs)) then Some (reference op xs) else None)"
proof -
  obtain y ys where xs: "xs = y # ys" using assms(1) by (cases xs) auto
  have shift: "(\<forall>k\<in>{2..length xs}. P k) \<longleftrightarrow> (\<forall>k<length ys. P (Suc (Suc k)))" for P
  proof
    assume h: "\<forall>k<length ys. P (Suc (Suc k))"
    show "\<forall>k\<in>{2..length xs}. P k"
    proof
      fix k assume "k \<in> {2..length xs}"
      then obtain j where "k = Suc (Suc j)" "j < length ys" using xs by (cases k; cases "k - 1") auto
      then show "P k" using h by simp
    qed
  qed (simp add: xs)
  have "calculate (int (length xs)) (xs @ r) op = (if op = CHR ''+'' then accumulate (\<lambda>a b. a + b) y ys
    else if op = CHR ''-'' then accumulate (\<lambda>a b. a - b) y ys else if op = CHR ''*'' then accumulate (\<lambda>a b. a * b) y ys else Some y)"
    by (simp add: calculate_def xs)
  moreover have "reference op (take (Suc (Suc k)) xs) = (if op = CHR ''+'' then foldl (\<lambda>a b. a + b) y (take (Suc k) ys)
    else if op = CHR ''-'' then foldl (\<lambda>a b. a - b) y (take (Suc k) ys)
    else if op = CHR ''*'' then foldl (\<lambda>a b. a * b) y (take (Suc k) ys) else y)" for k
    by (simp add: reference_def xs foldl_int_ops)
  moreover have "reference op xs = (if op = CHR ''+'' then foldl (\<lambda>a b. a + b) y ys
    else if op = CHR ''-'' then foldl (\<lambda>a b. a - b) y ys else if op = CHR ''*'' then foldl (\<lambda>a b. a * b) y ys else y)"
    by (simp add: reference_def xs foldl_int_ops)
  ultimately show ?thesis using assms(2) unfolding shift by (simp add: accumulate_foldl xs)
qed

theorem calculate_equivalent_witness:
  "calculate 3 [10, - 3, 4, 99] (CHR ''-'') = Some 9 \<and> calculate 2 [2147483647, 1] (CHR ''+'') = None"
proof -
  have "{2..length [10, - 3, 4 :: int]} = {2, 3}" by auto
  then have "calculate (int (length [10, - 3, 4 :: int])) ([10, - 3, 4] @ [99]) (CHR ''-'') = Some 9"
    by (subst calculate_equivalent) (simp_all only: , simp_all add: reference_def int_range_def INT_MAX_def)
  moreover have "calculate (int (length [2147483647, 1 :: int])) ([2147483647, 1] @ []) (CHR ''+'') = None"
    by (subst calculate_equivalent) (auto simp: reference_def int_range_def INT_MAX_def)
  ultimately show ?thesis by simp
qed

section \<open>Properties\<close>

text \<open>
  C27. op\_server answers every well-formed request correctly: for 1 to 255 operands that fit into an
  \<open>int\<close>, however the request is cut into chunks, the server writes the four bytes of the value
  that \<open>calculate\<close> gives, and goes on with the next client.
\<close>

theorem op_server_replies:
  assumes "xs \<noteq> []" and "length xs \<le> 255" and "\<forall>x \<in> set xs. int_range x"
    and "\<forall>c \<in> set cs. c \<noteq> []" and "concat cs = payload xs op" and "length opinfo = 1024"
    and "0 \<le> clnt" and "calculate (int (length xs)) xs op = Some v"
  shows "serve serv opinfo k \<lparr>answers = Ans clnt 0 [] [] # Ans 1 0 [char_of (length xs)] [] # chunk_answers cs
        @ [Ans n 0 [] [], Ans m 0 [] []] @ as, trace = tr\<rparr>
     = k (payload xs op @ drop (4 * length xs + 1) opinfo) \<lparr>answers = as,
        trace = tr @ [Sys ''accept'' [serv] [] clnt, Read clnt 1 [char_of (length xs)]] @ chunk_events clnt cs
          @ [Write clnt (int_bytes v) (min (max (- 1) n) 4), Sys ''close'' [clnt] [] (max (- 1) m)]\<rparr>"
  using serve_message [OF assms(2,4-7)] calculate_prefix [OF assms(1,3)] assms(8) by simp

theorem op_server_replies_witness:
  "serve 3 (replicate 1024 NUL) (\<lambda>_. exit 0) \<lparr>answers = Ans 4 0 [] [] # Ans 1 0 [CHR 0x02] []
       # chunk_answers [int_bytes 30, int_bytes (- 7) @ ''*''] @ [Ans 4 0 [] [], Ans 0 0 [] []], trace = []\<rparr>
   = (Exit 0, \<lparr>answers = [], trace = [Sys ''accept'' [3] [] 4, Read 4 1 [CHR 0x02]]
       @ chunk_events 4 [int_bytes 30, int_bytes (- 7) @ ''*'']
       @ [Write 4 (int_bytes (- 210)) 4, Sys ''close'' [4] [] 0]\<rparr>)"
proof -
  have v: "calculate (int (length [30, - 7])) [30, - 7] (CHR ''*'') = Some (- 210)" by code_simp
  have r: "\<forall>x \<in> set [30, - 7]. int_range x" by (simp add: int_range_def INT_MAX_def)
  have c: "\<forall>c \<in> set [int_bytes 30, int_bytes (- 7) @ ''*'']. c \<noteq> []" by code_simp
  have d: "concat [int_bytes 30, int_bytes (- 7) @ ''*''] = payload [30, - 7] (CHR ''*'')"
    by (simp add: payload_def)
  have n: "(char_of (length [30, - 7 :: int]) :: char) = CHR 0x02" by code_simp
  from op_server_replies [of "[30, - 7]" "[int_bytes 30, int_bytes (- 7) @ ''*'']" "CHR ''*''"
      "replicate 1024 NUL" 4 "- 210" 3 "\<lambda>_. exit 0" 4 0 "[]" "[]"] v r c d n
  show ?thesis by (simp add: exit_def)
qed

text \<open>
  op\_client sends exactly the message that the server expects: the count, the operands in order
  and the operator, for 0 to 255 operands typed by the user.
\<close>

theorem op_client_sends:
  assumes "length xs \<le> 255" and "\<forall>x \<in> set xs. int_range x" and "0 \<le> sock" and "0 \<le> r"
  shows "sent sock (trace (snd (op_client_main g cnt0 result0 [prog, ip, port]
    (boot ([Ans sock 0 [] [], Ans r 0 [] [], typed (int (length xs))] @ map typed xs
       @ [Ans 10 0 [] [], Ans 1 0 [c] [], Ans n 0 [] []])))))
    = message xs c"
proof -
  let ?N = "length xs" and ?c = "char_of (length xs) :: char"
  let ?tr = "[Sys ''socket'' [PF_INET, SOCK_STREAM, 0] [] sock,
    Sys ''connect'' [sock] (sockaddr_bytes (client_addr ip port)) r, Out ''Operand count: '',
    Sys ''scanf'' [] (show_int (int ?N)) 1]"
  let ?w = "\<lparr>answers = map typed xs @ [Ans 10 0 [] [], Ans 1 0 [c] [], Ans n 0 [] []], trace = ?tr\<rparr>"
  have N: "atoi (show_int (int ?N)) = int ?N" "nat (int ?N mod 256) = ?N"
    using assms(1) by (simp_all add: scan_typed int_range_def INT_MAX_def)
  obtain y ys where u: "uninit g 1024 = y # ys" by (cases "uninit g 1024") (auto simp: uninit_def)
  then have ys: "length ys = 1023" using length_uninit [of g 1024] by simp
  have main: "op_client_main g cnt0 result0 [prog, ip, port]
    (boot ([Ans sock 0 [] [], Ans r 0 [] [], typed (int ?N)] @ map typed xs
       @ [Ans 10 0 [] [], Ans 1 0 [c] [], Ans n 0 [] []]))
    = for_each [0..<?N] ask_operand ([?c] @ ys) (send_request sock (int ?N) result0) ?w"
    using assms(3,4) N u
    by (simp add: op_client_main_def open_client_def call_def syscall_def log_def boot_def printf_def
        emit_def scanf_int_def typed_def store_def buf_put_def BUF_SIZE_def)
  have pre: "length [?c] = 4 * 0 + 1" and room: "4 * ?N \<le> length ys"
    using assms(1) ys by simp_all
  obtain us where us: "sent sock us = []"
    "for_each [0..<0 + ?N] ask_operand ([?c] @ ys) (send_request sock (int ?N) result0) ?w
      = send_request sock (int ?N) result0 ([?c] @ concat (map int_bytes xs) @ drop (4 * ?N) ys)
         \<lparr>answers = [Ans 10 0 [] [], Ans 1 0 [c] [], Ans n 0 [] []], trace = ?tr @ us\<rparr>"
    using operands_typed [OF assms(2) pre room] by blast
  have l: "length ([?c] @ concat (map int_bytes xs)) = 4 * ?N + 1"
    using length_payload [of xs c] by (simp add: payload_def)
  from request_sent [OF l, of "drop (4 * ?N) ys" sock result0 c n "?tr @ us"] us main assms(1) ys
  show ?thesis by (simp add: message_def payload_def)
qed

theorem op_client_sends_witness:
  "sent 3 (trace (snd (op_client_main (\<lambda>_. NUL) 0 0 [''c'', ''127.0.0.1'', ''9190'']
    (boot ([Ans 3 0 [] [], Ans 0 0 [] [], typed (int (length [5, 6 :: int]))] @ map typed [5, 6]
       @ [Ans 10 0 [] [], Ans 1 0 ''+'' [], Ans 0 0 [] []])))))
    = [CHR 0x02] @ int_bytes 5 @ int_bytes 6 @ ''+''"
proof -
  have "message [5, 6] (CHR ''+'') = [CHR 0x02] @ int_bytes 5 @ int_bytes 6 @ ''+''" by code_simp
  moreover have "\<forall>x \<in> set [5, 6]. int_range x" by (simp add: int_range_def INT_MAX_def)
  ultimately show ?thesis
    using op_client_sends [of "[5, 6]" 3 0 "\<lambda>_. NUL" 0 0 "''c''" "''127.0.0.1''" "''9190''" "CHR ''+''" 0]
    by simp
qed

definition junk :: "nat \<Rightarrow> string" where
  "junk n = replicate n NUL"

text \<open>
  C32. A request longer than the buffer overruns it: the receive loop offers the kernel \<open>BUF_SIZE - 1\<close>
  bytes at every offset, so two reads of a client that announces 255 operands can write past the end
  of \<open>opinfo\<close>.
\<close>

lemma length_junk [simp]: "length (junk n) = n"
  by (simp add: junk_def)

definition long_request :: "answer list" where
  "long_request = [Ans 4 0 [] [], Ans 1 0 [CHR 0xFF] [], Ans 1 0 (junk 1000) [], Ans 1 0 (junk 1000) []]"

theorem op_server_overflow:
  assumes "length opinfo = 1024"
  shows "fst (serve 3 opinfo k (boot long_request)) = Undefined"
  using assms
  by (simp add: serve_def long_request_def accept_def call_def sys_read_def syscall_def log_def boot_def
      receive_def OPSZ_def BUF_SIZE_def Let_def;
    subst loop.simps; simp add: sys_read_def syscall_def log_def deliver_at_def;
    subst loop.simps; simp add: sys_read_def syscall_def log_def deliver_at_def undef_def)

theorem op_server_overflow_witness:
  "fst (serve 3 (replicate 1024 NUL) (\<lambda>_. exit 0) (boot long_request)) = Undefined"
  using op_server_overflow [of "replicate 1024 NUL" "\<lambda>_. exit 0"] by simp

end
