(* ===== verification/Stream_Clients.thy ===== *)
theory Stream_Clients
  imports Socket_Setup
begin

text \<open>
  The stream clients and the servers that talk to them line by line or once, all in
  \<^verbatim>\<open>src/tcp-ip/socket/src\<close>: \<^verbatim>\<open>echo_client.c\<close>, \<^verbatim>\<open>echo_mpclient.c\<close>, \<^verbatim>\<open>echo_stdclient.c\<close>,
  \<^verbatim>\<open>echo_stdserver.c\<close>, \<^verbatim>\<open>hello_server.c\<close>, \<^verbatim>\<open>hello_client.c\<close>, \<^verbatim>\<open>tcp_server.c\<close>, \<^verbatim>\<open>tcp_client.c\<close>,
  \<^verbatim>\<open>sep_server.c\<close>, \<^verbatim>\<open>sep_client.c\<close>, \<^verbatim>\<open>oob_send.c\<close> and \<^verbatim>\<open>oob_recv.c\<close>.
\<close>

section \<open>Echo clients\<close>

definition is_quit :: "string \<Rightarrow> bool" where
  "is_quit s \<longleftrightarrow> s = ''q'' @ [NL] \<or> s = ''Q'' @ [NL]"

text \<open>
  \<^verbatim>\<open>echo_client.c\<close> reads a message from the standard input in pieces of 30 bytes, the last one
  shorter, and passes every piece on. The state is the buffer and \<open>msg_len\<close>; \<open>quit\<close> leaves the
  program.
\<close>

definition send_message :: "int \<Rightarrow> char list \<Rightarrow> (char list \<times> int \<Rightarrow> prog) \<Rightarrow> prog" where
  "send_message sock msg k = loop (\<lambda>(msg, msg_len) next break.
     sys_read 0 30 (\<lambda>recv_len bs. deliver msg bs (\<lambda>msg.
       if recv_len \<noteq> 30 then
         store msg recv_len NUL (\<lambda>msg. with_cstr msg (\<lambda>s.
           if is_quit s then close sock (exit 0)
           else write_buf sock msg recv_len (break (msg, msg_len + recv_len))))
       else write_buf sock msg recv_len (next (msg, msg_len + recv_len))))) (msg, 0) k"

definition print_reply :: "int \<Rightarrow> char list \<Rightarrow> int \<Rightarrow> (char list \<Rightarrow> prog) \<Rightarrow> prog" where
  "print_reply sock msg msg_len k = (if 0 < msg_len then
     loop (\<lambda>(msg, recv_len) next break.
       sys_read sock 29 (\<lambda>recv_cnt bs. if recv_cnt = - 1 then error_handler ''read error'' else
       deliver msg bs (\<lambda>msg. store msg recv_cnt NUL (\<lambda>msg. with_cstr msg (\<lambda>s. printf s (
         if recv_len + recv_cnt < msg_len then next (msg, recv_len + recv_cnt)
         else break (msg, recv_len + recv_cnt))))))) (msg, 0) (\<lambda>(msg, recv_len). k msg)
     else k msg)"

definition echo_client_main :: "(nat \<Rightarrow> char) \<Rightarrow> string list \<Rightarrow> prog" where
  "echo_client_main g argv = (if length argv \<noteq> 3 then usage argv '' <IP> <PORT>'' 1 else
     open_client (argv ! 1) (argv ! 2) ''socket error'' ''connect error'' (\<lambda>sock.
     loop (\<lambda>msg next break. puts ''input message(q to quit):'' (
         send_message sock msg (\<lambda>(msg, msg_len).
         puts ''message from server:'' (print_reply sock msg msg_len next))))
       (uninit g 30) (\<lambda>_. puts [] (close sock (exit 0)))))"

text \<open>
  \<^verbatim>\<open>echo_mpclient.c\<close>: the child writes, the parent reads. The loop of \<open>write_routine\<close> has no way
  out; \<open>fgets\<close> at the end of the input leaves the buffer as it is.
\<close>

definition read_routine :: "int \<Rightarrow> char list \<Rightarrow> prog \<Rightarrow> prog" where
  "read_routine sock buf k = loop (\<lambda>buf next break.
     sys_read sock 30 (\<lambda>msg_len bs. deliver buf bs (\<lambda>buf.
       if msg_len = 0 then break buf else
       store buf msg_len NUL (\<lambda>buf. with_cstr buf (\<lambda>s.
         puts (''message from server: '' @ s) (next buf)))))) buf (\<lambda>_. k)"

definition write_routine :: "int \<Rightarrow> char list \<Rightarrow> prog \<Rightarrow> prog" where
  "write_routine sock buf k = loop (\<lambda>buf next break.
     fgets 0 30 (\<lambda>r. fgets_buf buf r (\<lambda>buf. with_cstr buf (\<lambda>s.
       let send = sys_write sock s (\<lambda>_. next buf) in
       if is_quit s then call0 ''shutdown'' [sock, 1] [] send else send)))) buf (\<lambda>_. k)"

definition echo_mpclient_main :: "(nat \<Rightarrow> char) \<Rightarrow> string list \<Rightarrow> prog" where
  "echo_mpclient_main g argv = (if length argv \<noteq> 3 then usage argv '' <ip> <port>'' 1 else
     open_client (argv ! 1) (argv ! 2) ''socket() error'' ''connect() error'' (\<lambda>sock.
     call ''fork'' [] [] (\<lambda>pid. if pid = - 1 then error_handler ''fork() error''
       else (if pid = 0 then write_routine else read_routine) sock (uninit g 30) (close sock (exit 0)))))"

section \<open>Standard I/O on sockets\<close>

text \<open>
  Streams made with \<open>fdopen\<close> are named by the numbers it answers. \<open>fgets_eof\<close> also tells whether
  the end-of-file indicator of the stream is set afterwards.
\<close>

definition fgets_eof :: "int \<Rightarrow> nat \<Rightarrow> (string option \<Rightarrow> bool \<Rightarrow> prog) \<Rightarrow> prog" where
  "fgets_eof fp n k = syscall
     (\<lambda>a. if ret a < 0 \<or> data a = [] then Sys ''fgets'' [fp, int n] [] 0
          else Sys ''fgets'' [fp, int n] (line_of n (data a)) 1)
     (\<lambda>a. if ret a < 0 \<or> data a = [] then k None (extra a \<noteq> []) else k (Some (line_of n (data a))) (extra a \<noteq> []))"

definition BUFSIZ :: nat where "BUFSIZ = 8192"

definition echo_stdserver_main :: "(nat \<Rightarrow> char) \<Rightarrow> string list \<Rightarrow> prog" where
  "echo_stdserver_main g argv = (if length argv \<noteq> 2 then usage argv '' <port>'' 1 else
     open_server (argv ! 1) ''scoket() error'' ''bind() error'' ''listen() error'' (\<lambda>serv.
     accept serv (\<lambda>clnt. if clnt = - 1 then error_handler ''accept() error'' else
     call ''fdopen'' [clnt] ''r'' (\<lambda>readfp. call ''fdopen'' [clnt] ''w'' (\<lambda>writefp.
     loop (\<lambda>msg next break. fgets_eof readfp BUFSIZ (\<lambda>r eof. fgets_buf msg r (\<lambda>msg. with_cstr msg (\<lambda>s.
         call0 ''fputs'' [writefp] s (call0 ''fflush'' [writefp] [] (if eof then break msg else next msg))))))
       (uninit g 1024)
       (\<lambda>_. call0 ''fclose'' [readfp] [] (call0 ''fclose'' [writefp] [] (close serv (exit 0)))))))))"

definition echo_stdclient_main :: "(nat \<Rightarrow> char) \<Rightarrow> string list \<Rightarrow> prog" where
  "echo_stdclient_main g argv = (if length argv \<noteq> 3 then usage argv '' <ip> <port>'' 1 else
     open_client (argv ! 1) (argv ! 2) ''socket() error'' ''connect() error'' (\<lambda>sock.
     puts ''connected.......'' (
     call ''fdopen'' [sock] ''r'' (\<lambda>readfp. call ''fdopen'' [sock] ''w'' (\<lambda>writefp.
     loop (\<lambda>msg next break. printf ''input message(q to quit): '' (
         fgets 0 1024 (\<lambda>r. fgets_buf msg r (\<lambda>msg. with_cstr msg (\<lambda>s.
         if is_quit s then break msg else
         call0 ''fputs'' [writefp] s (call0 ''fflush'' [writefp] [] (
         fgets readfp 1024 (\<lambda>r. fgets_buf msg r (\<lambda>msg. with_cstr msg (\<lambda>s.
         printf (''message from server: '' @ s) (next msg)))))))))))
       (uninit g 1024) (\<lambda>_. call0 ''fclose'' [readfp] [] (call0 ''fclose'' [writefp] [] (exit 0))))))))"

text \<open>\<^verbatim>\<open>sep_server.c\<close> sends three lines, half-closes and prints the answer.\<close>

definition sep_server_main :: "(nat \<Rightarrow> char) \<Rightarrow> string list \<Rightarrow> prog" where
  "sep_server_main g argv = (if length argv \<noteq> 2 then usage argv '' <port>'' 1 else
     open_server (argv ! 1) ''scoket() error'' ''bind() error'' ''listen() error'' (\<lambda>serv.
     accept serv (\<lambda>clnt. if clnt = - 1 then error_handler ''accept() error'' else
     call ''fdopen'' [clnt] ''r'' (\<lambda>readfp. call ''dup'' [clnt] [] (\<lambda>fd. call ''fdopen'' [fd] ''w'' (\<lambda>writefp.
     call0 ''fputs'' [writefp] (''FROM SERVER: Hi~ client?'' @ [NL]) (
     call0 ''fputs'' [writefp] (''I love all of the world'' @ [NL]) (
     call0 ''fputs'' [writefp] (''You are awesome!'' @ [NL]) (
     call0 ''fflush'' [writefp] [] (
     call0 ''shutdown'' [fd, 1] [] (call0 ''fclose'' [writefp] [] (
     fgets readfp 1024 (\<lambda>r. fgets_buf (uninit g 1024) r (\<lambda>buf. with_cstr buf (\<lambda>s. printf s (
     call0 ''fclose'' [readfp] [] (exit 0)))))))))))))))))"

definition sep_client_main :: "(nat \<Rightarrow> char) \<Rightarrow> string list \<Rightarrow> prog" where
  "sep_client_main g argv = (if length argv \<noteq> 3 then usage argv '' <ip> <port>'' 1 else
     open_client (argv ! 1) (argv ! 2) ''scoket() error'' ''connect() error'' (\<lambda>sock.
     call ''fdopen'' [sock] ''r'' (\<lambda>readfp. call ''fdopen'' [sock] ''w'' (\<lambda>writefp.
     loop (\<lambda>buf next break. fgets readfp 1024 (\<lambda>r. case r of None \<Rightarrow> break buf
         | Some l \<Rightarrow> fgets_buf buf r (\<lambda>buf. with_cstr buf (\<lambda>s. printf s (next buf)))))
       (uninit g 1024) (\<lambda>_.
     call0 ''fputs'' [writefp] (''FROM CLIENT: Thank you?'' @ [NL]) (call0 ''fflush'' [writefp] [] (
     call0 ''fclose'' [writefp] [] (call0 ''fclose'' [readfp] [] (exit 0)))))))))"

section \<open>One message\<close>

text \<open>
  \<^verbatim>\<open>hello_server.c\<close> and \<^verbatim>\<open>tcp_server.c\<close> report errors on the input stream \<open>stdin\<close>, where writing
  fails, so nothing is shown.
\<close>

definition silent_error :: "string \<Rightarrow> prog" where
  "silent_error msg = exit 1"

definition greet :: "string \<Rightarrow> prog" where
  "greet port =
     call ''socket'' [PF_INET, SOCK_STREAM, 0] [] (\<lambda>serv. if serv = - 1 then silent_error ''socket() error'' else
     call ''bind'' [serv] (sockaddr_bytes (server_addr port)) (\<lambda>r. if r = - 1 then silent_error ''bind() error'' else
     call ''listen'' [serv, 5] [] (\<lambda>r. if r = - 1 then silent_error ''listen() error'' else
     accept serv (\<lambda>clnt. if clnt = - 1 then silent_error ''accept error'' else
     sys_write clnt (''hello world!'' @ [NUL]) (\<lambda>_. close clnt (close serv (exit 0)))))))"

definition hello_server_main :: "string list \<Rightarrow> prog" where
  "hello_server_main argv = (if length argv \<noteq> 2 then usage argv '' <port>'' 1 else greet (argv ! 1))"

definition tcp_server_main :: "string list \<Rightarrow> prog" where
  "tcp_server_main argv = (if length argv \<noteq> 2 then silent_error ''usage error!'' else greet (argv ! 1))"

text \<open>\<^verbatim>\<open>hello_client.c\<close> does not check \<open>socket\<close>, and prints whatever one read delivered.\<close>

definition hello_client_main :: "(nat \<Rightarrow> char) \<Rightarrow> string list \<Rightarrow> prog" where
  "hello_client_main g argv = (if length argv \<noteq> 3 then usage argv '' <IP> <port>'' 0 else
     call ''socket'' [PF_INET, SOCK_STREAM, 0] [] (\<lambda>sock.
     call ''connect'' [sock] (sockaddr_bytes (client_addr (argv ! 1) (argv ! 2))) (\<lambda>r.
       if r = - 1 then error_handler ''connect() error'' else
     sys_read sock 29 (\<lambda>str_len bs. if str_len = - 1 then error_handler ''read() error'' else
     deliver (uninit g 30) bs (\<lambda>msg. with_cstr msg (\<lambda>s.
     puts (''message from server: '' @ s) (close sock (exit 0))))))))"

text \<open>
  \<^verbatim>\<open>tcp_client.c\<close> reads byte by byte into \<open>msg[idx++]\<close> without a check against the size 128, and
  adds to \<open>msg_len\<close>, which starts uninitialised (\<open>len0\<close>).
\<close>

definition tcp_client_main :: "(nat \<Rightarrow> char) \<Rightarrow> int \<Rightarrow> string list \<Rightarrow> prog" where
  "tcp_client_main g len0 argv = (if length argv \<noteq> 3
     then printf (''uasge: '' @ argv ! 0 @ '' <IP> <PORT>'' @ [NL]) (exit 0) else
     open_client (argv ! 1) (argv ! 2) ''socket error'' ''connect error'' (\<lambda>sock.
     loop (\<lambda>(msg, idx, msg_len) next break. sys_read sock 1 (\<lambda>read_len bs.
         if read_len = 0 then break (msg, idx + 1, msg_len)
         else if read_len = - 1 then error_handler ''read error''
         else store msg idx (bs ! 0) (\<lambda>msg. next (msg, idx + 1, c_int (msg_len + read_len)))))
       (uninit g 128, 0, len0) (\<lambda>(msg, idx, msg_len). with_cstr msg (\<lambda>s.
     puts (''message from server: '' @ s) (
     puts (''function read call count: '' @ show_int msg_len) (
     close sock (exit 0)))))))"

section \<open>Urgent data\<close>

text \<open>\<open>MSG_OOB\<close> is 1; \<open>F_SETOWN\<close> 8 and \<open>SIGURG\<close> 23.\<close>

definition oob_send_main :: "string list \<Rightarrow> prog" where
  "oob_send_main argv = (if length argv \<noteq> 3 then usage argv '' <ip> <port>'' 1 else
     open_client (argv ! 1) (argv ! 2) ''socket() error'' ''connect() error'' (\<lambda>sock.
     sys_write sock ''123'' (\<lambda>_. call0 ''send'' [sock, 1] ''4'' (
     sys_write sock ''567'' (\<lambda>_. call0 ''send'' [sock, 1] ''890'' (
     close sock (exit 0)))))))"

definition urg_handler :: "(nat \<Rightarrow> char) \<Rightarrow> int \<Rightarrow> prog \<Rightarrow> prog" where
  "urg_handler g clnt k = sys_read clnt 29 (\<lambda>str_len bs. deliver (uninit g 30) bs (\<lambda>buf.
     store buf str_len NUL (\<lambda>buf. with_cstr buf (\<lambda>s. puts (''urgent message: '' @ s) k))))"

text \<open>The address of \<^verbatim>\<open>oob_recv.c\<close> is not cleared; its padding bytes are ignored by \<open>bind\<close>.\<close>

definition oob_recv_main :: "(nat \<Rightarrow> char) \<Rightarrow> string list \<Rightarrow> prog" where
  "oob_recv_main g argv = (if length argv \<noteq> 2 then usage argv '' <port>'' 1 else
     open_server (argv ! 1) ''socket() error'' ''bind() error'' ''listen() error'' (\<lambda>serv.
     accept serv (\<lambda>clnt. if clnt = - 1 then error_handler ''accept() error'' else
     call ''getpid'' [] [] (\<lambda>pid. call0 ''fcntl'' [clnt, 8, pid] [] (
     call0 ''sigaction'' [23] ''urg_handler'' (
     loop (\<lambda>buf next break. sys_read clnt 30 (\<lambda>str_len bs. deliver buf bs (\<lambda>buf.
         if str_len = 0 then break buf
         else if str_len = - 1 then next buf
         else store buf str_len NUL (\<lambda>buf. with_cstr buf (\<lambda>s. puts s (next buf))))))
       (uninit g 30) (\<lambda>_. close clnt (close serv (exit 0)))))))))"

section \<open>Reasoning\<close>

text \<open>A read that failed, or that filled the whole space it was given.\<close>

fun overrun :: "event list \<Rightarrow> bool" where
  "overrun [] = False"
| "overrun (Read fd n bs # tr) = (length bs = n \<or> overrun tr)"
| "overrun (Sys name args bs r # tr) = (name = ''read'' \<and> r = - 1 \<or> overrun tr)"
| "overrun (_ # tr) = overrun tr"

lemma overrun_append [simp]: "overrun (xs @ ys) \<longleftrightarrow> overrun xs \<or> overrun ys"
  by (induction xs rule: overrun.induct) auto

definition undef_iff_overrun :: "outcome \<times> world \<Rightarrow> bool" where
  "undef_iff_overrun r \<longleftrightarrow> (fst r = Undefined \<longleftrightarrow> overrun (trace (snd r))) \<and> fst r \<noteq> Spinning"

lemma put_NUL: "0 \<le> i \<Longrightarrow> i < int (length b) \<Longrightarrow> NUL \<in> set (b[nat i := NUL])"
  by (rule set_update_memI) auto

lemma read_routine_post:
  assumes "length buf = 30" and "\<not> overrun (trace w)"
    and "\<And>w'. \<not> overrun (trace w') \<Longrightarrow> undef_iff_overrun (k w')"
  shows "undef_iff_overrun (read_routine sock buf k w)"
  unfolding read_routine_def
proof (rule loop_rule [where I = "\<lambda>buf w. length buf = 30 \<and> \<not> overrun (trace w)"])
  fix buf :: "char list" and w :: world and c :: "char list \<Rightarrow> prog"
  assume i: "length buf = 30 \<and> \<not> overrun (trace w)"
    and c: "\<And>a' w'. length a' = 30 \<and> \<not> overrun (trace w') \<Longrightarrow>
      length (answers w') < length (answers w) \<Longrightarrow> undef_iff_overrun (c a' w')"
  show "undef_iff_overrun (sys_read sock 30 (\<lambda>msg_len bs. deliver buf bs (\<lambda>buf.
       if msg_len = 0 then k else store buf msg_len NUL (\<lambda>buf. with_cstr buf (\<lambda>s.
         puts (''message from server: '' @ s) (c buf))))) w)"
    unfolding sys_read_def
  proof (rule syscall_rule [where Q = undef_iff_overrun])
    fix a as assume w: "answers w = a # as"
    show "undef_iff_overrun ((if ret a < 0
        then deliver buf [] (\<lambda>buf. if - 1 = (0::int) then k else store buf (- 1) NUL (\<lambda>buf. with_cstr buf (\<lambda>s.
           puts (''message from server: '' @ s) (c buf))))
        else deliver buf (take 30 (data a)) (\<lambda>buf. if int (length (take 30 (data a))) = 0 then k
          else store buf (int (length (take 30 (data a)))) NUL (\<lambda>buf. with_cstr buf (\<lambda>s.
           puts (''message from server: '' @ s) (c buf)))))
       (log (if ret a < 0 then Sys ''read'' [sock, int 30] [] (- 1) else Read sock 30 (take 30 (data a)))
         (w\<lparr>answers := as\<rparr>)))"
      using i w put_NUL [of "int (length (take 30 (data a)))" "take 30 (data a) @ drop (length (take 30 (data a))) buf"]
      by (cases "ret a < 0"; cases "data a = []")
        (auto simp: deliver_def buf_copy_def store_def buf_put_def with_cstr_def undef_def puts_def emit_def
          undef_iff_overrun_def [of "(Undefined, _)"] intro!: assms(3) c)
  qed (use i in \<open>simp add: undef_iff_overrun_def\<close>)
qed (use assms in auto)

section \<open>Properties\<close>

text \<open>
  The reading process of echo\_mpclient stays within its buffer exactly as long as no read fails
  and no read fills the buffer: a message of 30 bytes or more from the server makes it write the
  terminating NUL past the end.
\<close>

theorem mpclient_reader_overrun:
  assumes "length buf = 30"
  shows "fst (read_routine sock buf (close sock (exit 0)) (boot as)) = Undefined \<longleftrightarrow>
    overrun (trace (snd (read_routine sock buf (close sock (exit 0)) (boot as))))"
proof -
  have "undef_iff_overrun (close sock (exit 0) w)" if "\<not> overrun (trace w)" for w
    using that by (auto simp: prog_defs syscall_def undef_iff_overrun_def split: list.splits)
  then have "undef_iff_overrun (read_routine sock buf (close sock (exit 0)) (boot as))"
    using assms by (intro read_routine_post) auto
  then show ?thesis by (simp add: undef_iff_overrun_def)
qed

theorem mpclient_reader_overrun_witness:
  "fst (read_routine 3 (replicate 30 NUL) (close 3 (exit 0)) (boot [Ans 1 0 (replicate 30 (CHR ''x'')) []])) = Undefined"
proof -
  have "overrun (trace (snd (read_routine 3 (replicate 30 NUL) (close 3 (exit 0)) (boot [Ans 1 0 (replicate 30 (CHR ''x'')) []]))))"
    by code_simp
  moreover have "length (replicate 30 NUL) = 30" by (simp only: length_replicate)
  ultimately show ?thesis using mpclient_reader_overrun by blast
qed

text \<open>The reading loop of tcp\_client on a message that arrives byte by byte.\<close>

definition byte_answer :: "char \<Rightarrow> answer" where
  "byte_answer c = Ans 1 0 [c] []"

definition byte_event :: "int \<Rightarrow> char \<Rightarrow> event" where
  "byte_event sock c = Read sock 1 [c]"

lemma c_int_add: "c_int (c_int x + y) = c_int (x + y)" "c_int (y + c_int x) = c_int (y + x)"
proof -
  have "c_int x + y + 2147483648 = (x + 2147483648) mod 4294967296 + y" by (simp add: c_int_def)
  then have "c_int (c_int x + y) = ((x + 2147483648) mod 4294967296 + y) mod 4294967296 - 2147483648"
    by (simp only: c_int_def [of "c_int x + y"])
  also have "\<dots> = (x + 2147483648 + y) mod 4294967296 - 2147483648"
    by (simp only: mod_add_left_eq)
  also have "\<dots> = c_int (x + y)" by (simp add: c_int_def algebra_simps)
  finally show "c_int (c_int x + y) = c_int (x + y)" .
  then show "c_int (y + c_int x) = c_int (y + x)" by (simp only: add.commute)
qed

definition tcp_body :: "int \<Rightarrow> char list \<times> int \<times> int \<Rightarrow> (char list \<times> int \<times> int \<Rightarrow> prog) \<Rightarrow>
    (char list \<times> int \<times> int \<Rightarrow> prog) \<Rightarrow> prog" where
  "tcp_body sock = (\<lambda>(msg, idx, msg_len) next break. sys_read sock 1 (\<lambda>read_len bs.
     if read_len = 0 then break (msg, idx + 1, msg_len)
     else if read_len = - 1 then error_handler ''read error''
     else store msg idx (bs ! 0) (\<lambda>msg. next (msg, idx + 1, c_int (msg_len + read_len)))))"

lemma tcp_loop:
  assumes "length bs \<le> length rest"
  shows "loop (tcp_body sock) (acc @ rest, int (length acc), c_int m) k
       \<lparr>answers = map byte_answer bs @ Ans 0 0 [] [] # as, trace = tr\<rparr>
     = k (acc @ bs @ drop (length bs) rest, int (length acc + length bs) + 1, c_int (m + int (length bs)))
       \<lparr>answers = as, trace = tr @ map (byte_event sock) bs @ [Read sock 1 []]\<rparr>"
  using assms
proof (induction bs arbitrary: acc rest m tr)
  case Nil
  show ?case
    by (subst loop.simps) (simp add: tcp_body_def sys_read_def syscall_def log_def)
next
  case (Cons c bs)
  obtain y ys where rest: "rest = y # ys" using Cons.prems by (cases rest) auto
  have IH: "loop (tcp_body sock) ((acc @ [c]) @ ys, int (length (acc @ [c])), c_int (m + 1)) k
       \<lparr>answers = map byte_answer bs @ Ans 0 0 [] [] # as, trace = tr @ [byte_event sock c]\<rparr>
     = k ((acc @ [c]) @ bs @ drop (length bs) ys, int (length (acc @ [c]) + length bs) + 1, c_int (m + 1 + int (length bs)))
       \<lparr>answers = as, trace = (tr @ [byte_event sock c]) @ map (byte_event sock) bs @ [Read sock 1 []]\<rparr>"
    by (rule Cons.IH) (use Cons.prems rest in auto)
  show ?case
    by (subst loop.simps, subst tcp_body_def)
      (use IH rest in \<open>simp add: sys_read_def syscall_def log_def byte_answer_def byte_event_def store_def
        buf_put_def list_update_append c_int_add algebra_simps\<close>)
qed

text \<open>
  tcp\_client, when the server's string arrives byte by byte: it prints the string, and a count that
  is off by whatever the uninitialised variable \<open>msg_len\<close> held.
\<close>

theorem tcp_client_prints:
  assumes "NUL \<notin> set s" and "length s < 128" and "0 \<le> sock" and "0 \<le> r"
  shows "printed (trace (snd (tcp_client_main g (c_int len0) [prog, ip, port]
      (boot ([Ans sock 0 [] [], Ans r 0 [] []] @ map byte_answer (s @ [NUL]) @ [Ans 0 0 [] []])))))
    = ''message from server: '' @ s @ [NL] @ ''function read call count: ''
      @ show_int (c_int (len0 + int (length s) + 1)) @ [NL]"
proof -
  let ?tr = "[Sys ''socket'' [PF_INET, SOCK_STREAM, 0] [] sock,
    Sys ''connect'' [sock] (sockaddr_bytes (client_addr ip port)) r]"
  have p: "printed (map (byte_event sock) bs) = []" for bs
    by (induction bs) (simp_all add: byte_event_def)
  have l: "length (s @ [NUL]) \<le> length (uninit g 128)" using assms(2) by simp
  have n: "NUL \<in> set ((s @ [NUL]) @ rest)" "cstr ((s @ [NUL]) @ rest) = s" for rest
    using assms(1) by simp_all
  have "tcp_client_main g (c_int len0) [prog, ip, port]
      (boot ([Ans sock 0 [] [], Ans r 0 [] []] @ map byte_answer (s @ [NUL]) @ [Ans 0 0 [] []]))
    = loop (tcp_body sock) ([] @ uninit g 128, int (length ([] :: char list)), c_int len0)
       (\<lambda>(msg, idx, msg_len). with_cstr msg (\<lambda>s.
         puts (''message from server: '' @ s) (
         puts (''function read call count: '' @ show_int msg_len) (close sock (exit 0)))))
       \<lparr>answers = map byte_answer (s @ [NUL]) @ Ans 0 0 [] [] # [], trace = ?tr\<rparr>"
    using assms(3,4)
    by (simp add: tcp_client_main_def tcp_body_def open_client_def call_def syscall_def log_def boot_def)
  also note tcp_loop [OF l, of sock "[]"]
  finally show ?thesis
    using n [of "drop (length (s @ [NUL])) (uninit g 128)"] p
    by (simp add: with_cstr_def puts_def emit_def close_def call0_def call_def syscall_def log_def
        byte_event_def algebra_simps)
qed

theorem tcp_client_prints_witness:
  "printed (trace (snd (tcp_client_main (\<lambda>_. NUL) (c_int 1000) [''c'', ''127.0.0.1'', ''9190'']
      (boot ([Ans 3 0 [] [], Ans 0 0 [] []] @ map byte_answer (''hi'' @ [NUL]) @ [Ans 0 0 [] []])))))
    = ''message from server: hi'' @ [NL] @ ''function read call count: 1003'' @ [NL]"
proof -
  have "show_int (c_int (1000 + int (length ''hi'') + 1)) = ''1003''" by code_simp
  moreover have "NUL \<notin> set ''hi''" by simp
  ultimately show ?thesis
    using tcp_client_prints [of "''hi''" 3 0 "\<lambda>_. NUL" 1000 "''c''" "''127.0.0.1''" "''9190''"] by simp
qed

definition one_line :: "answer list" where
  "one_line = [Ans 3 0 [] [], Ans 0 0 [] [], Ans 0 0 [] [], Ans 4 0 [] [], Ans 5 0 [] [], Ans 6 0 [] [],
     Ans 0 0 (''hi'' @ [NL]) [], Ans 0 0 [] [], Ans 0 0 [] [],
     Ans 0 0 [] ''eof'', Ans 0 0 [] [], Ans 0 0 [] [], Ans 0 0 [] [], Ans 0 0 [] [], Ans 0 0 [] []]"

text \<open>
  echo\_stdserver repeats the last line: its loop tests \<open>feof\<close> before the read that meets the end
  of the stream, and then writes the old contents of the buffer once more.
\<close>

theorem echo_stdserver_repeats:
  "case echo_stdserver_main (\<lambda>_. NUL) [''s'', ''9190''] (boot one_line) of (r, w) \<Rightarrow>
     r = Exit 0 \<and> filter (\<lambda>e. case e of Sys f _ _ _ \<Rightarrow> f = ''fputs'' | _ \<Rightarrow> False) (trace w)
       = replicate 2 (Sys ''fputs'' [6] (''hi'' @ [NL]) 0)"
  by (simp add: echo_stdserver_main_def one_line_def prog_defs syscall_def buf_copy_def fgets_eof_def line_of_def
      loop.simps [where 'a = string] min_def BUFSIZ_def cstr_def numeral_2_eq_2)

end
