(* ===== verification/Datagrams.thy ===== *)
theory Datagrams
  imports Stream_Clients
begin

text \<open>
  The UDP programs of \<^verbatim>\<open>src/tcp-ip/socket/src\<close>: \<^verbatim>\<open>uecho_server.c\<close>, \<^verbatim>\<open>uecho_client.c\<close>,
  \<^verbatim>\<open>uecho_con_client.c\<close>, \<^verbatim>\<open>bound_host1.c\<close>, \<^verbatim>\<open>bound_host2.c\<close>, \<^verbatim>\<open>news_sender.c\<close>,
  \<^verbatim>\<open>news_sender_brd.c\<close> and \<^verbatim>\<open>news_receiver.c\<close>. Datagrams keep their boundaries; an event has the
  peer's address among its arguments.
\<close>

section \<open>Calls\<close>

definition addr_ints :: "string \<Rightarrow> int list" where
  "addr_ints addr = map (\<lambda>c. int (of_char c)) addr"

text \<open>\<open>recvfrom\<close> delivers at most \<open>n\<close> bytes of one datagram, and where it came from.\<close>

definition recvfrom :: "int \<Rightarrow> nat \<Rightarrow> (int \<Rightarrow> string \<Rightarrow> string \<Rightarrow> prog) \<Rightarrow> prog" where
  "recvfrom fd n k = syscall
     (\<lambda>a. if ret a < 0 then Sys ''recvfrom_failed'' [fd] [] (- 1)
          else Sys ''recvfrom'' (fd # addr_ints (extra a)) (take n (data a)) (int (length (take n (data a)))))
     (\<lambda>a. if ret a < 0 then k (- 1) [] [] else k (int (length (take n (data a)))) (take n (data a)) (extra a))"

definition sendto :: "int \<Rightarrow> string \<Rightarrow> string \<Rightarrow> prog \<Rightarrow> prog" where
  "sendto fd bs addr k = call0 ''sendto'' (fd # addr_ints addr) bs k"

definition sendto_buf :: "int \<Rightarrow> char list \<Rightarrow> int \<Rightarrow> string \<Rightarrow> prog \<Rightarrow> prog" where
  "sendto_buf fd buf n addr k = (if 0 \<le> n \<and> n \<le> int (length buf)
     then sendto fd (take (nat n) buf) addr k else undef)"

definition udp_socket :: "string \<Rightarrow> (int \<Rightarrow> prog) \<Rightarrow> prog" where
  "udp_socket msg k = call ''socket'' [PF_INET, SOCK_DGRAM, 0] [] (\<lambda>s. if s = - 1 then error_handler msg else k s)"

section \<open>Echo\<close>

definition uecho_loop :: "int \<Rightarrow> char list \<Rightarrow> prog \<Rightarrow> prog" where
  "uecho_loop serv buf k = loop (\<lambda>msg next break. recvfrom serv 30 (\<lambda>msg_len bs addr.
     if msg_len = - 1 then error_handler ''recvfrom error'' else
     deliver msg bs (\<lambda>msg. sendto_buf serv msg msg_len addr (next msg)))) buf (\<lambda>_. k)"

definition uecho_server_main :: "(nat \<Rightarrow> char) \<Rightarrow> string list \<Rightarrow> prog" where
  "uecho_server_main g argv = (if length argv \<noteq> 2
     then printf (''uasge: '' @ argv ! 0 @ '' <port>'' @ [NL]) (exit 1) else
     udp_socket ''socket error'' (\<lambda>serv.
     call ''bind'' [serv] (sockaddr_bytes (server_addr (argv ! 1))) (\<lambda>r. if r = - 1 then error_handler ''bind error'' else
     uecho_loop serv (uninit g 30) (close serv (exit 0)))))"

text \<open>\<^verbatim>\<open>uecho_client.c\<close> offers \<open>BUFSIZ\<close> bytes of a buffer of 30.\<close>

definition uecho_client_main :: "(nat \<Rightarrow> char) \<Rightarrow> string list \<Rightarrow> prog" where
  "uecho_client_main g argv = (if length argv \<noteq> 3 then usage argv '' <IP> <port>'' 1 else
     udp_socket ''socket error'' (\<lambda>sock.
     loop (\<lambda>msg next break. printf ''Input message(q to quit): '' (
         fgets 0 30 (\<lambda>r. fgets_buf msg r (\<lambda>msg. with_cstr msg (\<lambda>s.
         if is_quit s then break msg else
         sendto sock s (sockaddr_bytes (client_addr (argv ! 1) (argv ! 2))) (
         recvfrom sock BUFSIZ (\<lambda>msg_len bs addr. deliver msg bs (\<lambda>msg.
         store msg msg_len NUL (\<lambda>msg. with_cstr msg (\<lambda>s. printf s (next msg)))))))))))
       (uninit g 30) (\<lambda>_. close sock (exit 0))))"

definition uecho_con_client_main :: "(nat \<Rightarrow> char) \<Rightarrow> string list \<Rightarrow> prog" where
  "uecho_con_client_main g argv = (if length argv \<noteq> 3 then usage argv '' <ip> <port>'' 1 else
     udp_socket ''socket() error'' (\<lambda>sock.
     call0 ''connect'' [sock] (sockaddr_bytes (client_addr (argv ! 1) (argv ! 2))) (
     loop (\<lambda>msg next break. printf ''input message (q to quite): '' (
         fgets 0 30 (\<lambda>r. fgets_buf msg r (\<lambda>msg. with_cstr msg (\<lambda>s.
         if is_quit s then break msg else
         sys_write sock s (\<lambda>_.
         sys_read sock 29 (\<lambda>msg_len bs. deliver msg bs (\<lambda>msg.
         store msg msg_len NUL (\<lambda>msg. with_cstr msg (\<lambda>s.
         printf (''message from server: '' @ s) (next msg)))))))))))
       (uninit g 30) (\<lambda>_. close sock (exit 0)))))"

section \<open>Message boundaries\<close>

definition bound_host1_main :: "(nat \<Rightarrow> char) \<Rightarrow> string list \<Rightarrow> prog" where
  "bound_host1_main g argv = (if length argv \<noteq> 2 then usage argv '' <port>'' 1 else
     udp_socket ''socket() error'' (\<lambda>sock.
     call ''bind'' [sock] (sockaddr_bytes (server_addr (argv ! 1))) (\<lambda>r. if r = - 1 then error_handler ''bind() error'' else
     for_each [0..<3] (\<lambda>i msg next. call0 ''sleep'' [5] [] (
         recvfrom sock 30 (\<lambda>msg_len bs addr. deliver msg bs (\<lambda>msg. with_cstr msg (\<lambda>s.
         puts (''message '' @ show_int (int i + 1) @ '': '' @ s) (next msg))))))
       (uninit g 30) (\<lambda>_. close sock (exit 0)))))"

definition bound_host2_main :: "string list \<Rightarrow> prog" where
  "bound_host2_main argv = (if length argv \<noteq> 3 then usage argv '' <ip> <port>'' 1 else
     udp_socket ''socket() error'' (\<lambda>sock.
     let addr = sockaddr_bytes (client_addr (argv ! 1) (argv ! 2)) in
     sendto sock (''Hi!'' @ [NUL]) addr (
     sendto sock (''I'' @ [CHR 0x27] @ ''m another UDP host!'' @ [NUL]) addr (
     sendto sock (''Nice to meet you'' @ [NUL]) addr (
     close sock (exit 0))))))"

section \<open>News\<close>

text \<open>
  The sender reads a file line by line; \<open>feof\<close> is tested before each read. The two senders
  differ in the option they set: \<open>IP_MULTICAST_TTL\<close> (33) of \<open>IPPROTO_IP\<close> (0) with the value 64, or
  \<open>SO_BROADCAST\<close> (6) with 1.
\<close>

definition send_news :: "int \<Rightarrow> int \<Rightarrow> string \<Rightarrow> char list \<Rightarrow> prog \<Rightarrow> prog" where
  "send_news fp sock addr buf k = loop (\<lambda>buf next break.
     fgets_eof fp 64 (\<lambda>r eof. fgets_buf buf r (\<lambda>buf. with_cstr buf (\<lambda>s.
     sendto sock s addr (call0 ''sleep'' [2] [] (if eof then break buf else next buf)))))) buf (\<lambda>_. k)"

definition news_sender :: "int list \<Rightarrow> int \<Rightarrow> string \<Rightarrow> (nat \<Rightarrow> char) \<Rightarrow> string list \<Rightarrow> prog" where
  "news_sender opt val form g argv = (if length argv \<noteq> 3 then usage argv form 1 else
     udp_socket ''socket() error'' (\<lambda>sock.
     call ''setsockopt'' (sock # opt) (int_bytes val) (\<lambda>r. if r = - 1 then error_handler ''setsockopt() error'' else
     call ''fopen'' [] ''news.txt'' (\<lambda>fp. if fp = - 1 then error_handler ''fopen() error'' else
     send_news fp sock (sockaddr_bytes (client_addr (argv ! 1) (argv ! 2))) (uninit g 64) (
     call0 ''fclose'' [fp] [] (close sock (exit 0)))))))"

definition news_sender_main :: "(nat \<Rightarrow> char) \<Rightarrow> string list \<Rightarrow> prog" where
  "news_sender_main = news_sender [0, 33] 64 '' <GroupIp> <PORT>''"

definition news_sender_brd_main :: "(nat \<Rightarrow> char) \<Rightarrow> string list \<Rightarrow> prog" where
  "news_sender_brd_main = news_sender [SOL_SOCKET, 6] 1 ''<BroadcaseIP> <PORT>''"

text \<open>\<open>IP_ADD_MEMBERSHIP\<close> is 35; its argument has the group's address and the wildcard interface.\<close>

definition receive_news :: "int \<Rightarrow> char list \<Rightarrow> prog \<Rightarrow> prog" where
  "receive_news sock buf k = loop (\<lambda>buf next break. recvfrom sock 29 (\<lambda>str_len bs addr.
     if str_len \<le> 0 then break buf else
     deliver buf bs (\<lambda>buf. store buf str_len NUL (\<lambda>buf. with_cstr buf (\<lambda>s. printf s (next buf)))))) buf (\<lambda>_. k)"

definition news_receiver_main :: "(nat \<Rightarrow> char) \<Rightarrow> string list \<Rightarrow> prog" where
  "news_receiver_main g argv = (if length argv \<noteq> 3 then usage argv '' <GroupIp> <PORT>'' 1 else
     udp_socket ''socket() error'' (\<lambda>sock.
     call ''bind'' [sock] (sockaddr_bytes (server_addr (argv ! 2))) (\<lambda>r. if r = - 1 then error_handler ''bind() error'' else
     call ''setsockopt'' [sock, 0, 35] (le_bytes 4 (inet_addr (argv ! 1)) @ le_bytes 4 (htonl INADDR_ANY)) (\<lambda>r.
       if r = - 1 then error_handler ''setsockopt() error'' else
     receive_news sock (uninit g 30) (close sock (exit 0))))))"

section \<open>Reasoning\<close>

fun datagrams :: "string \<Rightarrow> event list \<Rightarrow> (int list \<times> string) list" where
  "datagrams f [] = []"
| "datagrams f (Sys name args bs r # tr) = (if name = f then [(args, bs)] else []) @ datagrams f tr"
| "datagrams f (_ # tr) = datagrams f tr"

lemma datagrams_append [simp]: "datagrams f (xs @ ys) = datagrams f xs @ datagrams f ys"
  by (induction f xs rule: datagrams.induct) auto

text \<open>Every datagram answered in order, to the address and from the socket it came in on.\<close>

definition answered :: "event list \<Rightarrow> bool" where
  "answered tr \<longleftrightarrow> datagrams ''sendto'' tr = datagrams ''recvfrom'' tr"

definition answering :: "event list \<Rightarrow> bool" where
  "answering tr \<longleftrightarrow> answered tr \<or> (\<exists>d. datagrams ''recvfrom'' tr = datagrams ''sendto'' tr @ [d])"

definition udp_post :: "outcome \<times> world \<Rightarrow> bool" where
  "udp_post r \<longleftrightarrow> answering (trace (snd r)) \<and> fst r \<noteq> Undefined \<and> fst r \<noteq> Spinning"

lemma udp_post_stop [simp]:
  "udp_post (Blocked, w) = answering (trace w)" "udp_post (Exit c, w) = answering (trace w)"
  by (simp_all add: udp_post_def)

lemma uecho_loop_post:
  assumes "answered (trace w)" and "length buf = 30"
  shows "udp_post (uecho_loop serv buf k w)"
  unfolding uecho_loop_def
proof (rule loop_rule [where I = "\<lambda>buf w. length buf = 30 \<and> answered (trace w)"])
  fix buf :: "char list" and w :: world and c :: "char list \<Rightarrow> prog"
  assume i: "length buf = 30 \<and> answered (trace w)"
    and c: "\<And>a' w'. length a' = 30 \<and> answered (trace w') \<Longrightarrow> length (answers w') < length (answers w) \<Longrightarrow>
      udp_post (c a' w')"
  show "udp_post (recvfrom serv 30 (\<lambda>msg_len bs addr. if msg_len = - 1 then error_handler ''recvfrom error'' else
         deliver buf bs (\<lambda>msg. sendto_buf serv msg msg_len addr (c msg))) w)"
    unfolding recvfrom_def
  proof (rule syscall_rule [where Q = udp_post])
    fix a as assume w: "answers w = a # as"
    define bs where "bs = take 30 (data a)"
    have l: "length bs \<le> 30" by (simp add: bs_def)
    have "udp_post (sendto serv bs (extra a) (c (bs @ drop (length bs) buf))
      (log (Sys ''recvfrom'' (serv # addr_ints (extra a)) bs (int (length bs))) (w\<lparr>answers := as\<rparr>)))"
      unfolding sendto_def call0_def call_def
      by (rule syscall_rule [where Q = udp_post])
        (use i w l c in \<open>auto simp: answered_def answering_def\<close>)
    then show "udp_post ((if ret a < 0
        then if - 1 = (- 1 :: int) then error_handler ''recvfrom error''
          else deliver buf [] (\<lambda>msg. sendto_buf serv msg (- 1) [] (c msg))
        else if int (length (take 30 (data a))) = - 1 then error_handler ''recvfrom error''
          else deliver buf (take 30 (data a)) (\<lambda>msg. sendto_buf serv msg (int (length (take 30 (data a)))) (extra a) (c msg)))
       (log (if ret a < 0 then Sys ''recvfrom_failed'' [serv] [] (- 1)
          else Sys ''recvfrom'' (serv # addr_ints (extra a)) (take 30 (data a)) (int (length (take 30 (data a)))))
         (w\<lparr>answers := as\<rparr>)))"
      using i l
      by (auto simp: bs_def [symmetric] deliver_def buf_copy_def sendto_buf_def error_handler_def emit_def exit_def
          answered_def answering_def)
  qed (use i in \<open>simp add: answering_def\<close>)
qed (use assms in auto)

text \<open>The receiver of the news prints every datagram.\<close>

definition news_post :: "outcome \<times> world \<Rightarrow> bool" where
  "news_post r \<longleftrightarrow> printed (trace (snd r)) = concat (map (cstr \<circ> snd) (datagrams ''recvfrom'' (trace (snd r))))
     \<and> fst r \<noteq> Undefined \<and> fst r \<noteq> Spinning"

lemma news_post_stop [simp]:
  "news_post (Blocked, w) \<longleftrightarrow> printed (trace w) = concat (map (cstr \<circ> snd) (datagrams ''recvfrom'' (trace w)))"
  "news_post (Exit c, w) \<longleftrightarrow> printed (trace w) = concat (map (cstr \<circ> snd) (datagrams ''recvfrom'' (trace w)))"
  by (simp_all add: news_post_def)

lemma NUL_terminated:
  assumes "length bs < length buf"
  shows "buf_put (bs @ drop (length bs) buf) (int (length bs)) NUL = Some (bs @ NUL # drop (Suc (length bs)) buf)"
proof -
  have "drop (length bs) buf = buf ! length bs # drop (Suc (length bs)) buf"
    using assms by (simp add: Cons_nth_drop_Suc)
  then show ?thesis using assms by (simp add: buf_put_def)
qed

lemma cstr_prefix: "cstr (bs @ NUL # r) = cstr bs"
  unfolding cstr_def by (induction bs) auto

lemma receive_news_post:
  assumes "printed (trace w) = concat (map (cstr \<circ> snd) (datagrams ''recvfrom'' (trace w)))" and "length buf = 30"
    and "\<And>w'. printed (trace w') = concat (map (cstr \<circ> snd) (datagrams ''recvfrom'' (trace w'))) \<Longrightarrow> news_post (k w')"
  shows "news_post (receive_news sock buf k w)"
  unfolding receive_news_def
proof (rule loop_rule [where I = "\<lambda>buf w. length buf = 30 \<and>
    printed (trace w) = concat (map (cstr \<circ> snd) (datagrams ''recvfrom'' (trace w)))"])
  fix buf :: "char list" and w :: world and c :: "char list \<Rightarrow> prog"
  assume i: "length buf = 30 \<and> printed (trace w) = concat (map (cstr \<circ> snd) (datagrams ''recvfrom'' (trace w)))"
    and c: "\<And>a' w'. length a' = 30 \<and> printed (trace w') = concat (map (cstr \<circ> snd) (datagrams ''recvfrom'' (trace w'))) \<Longrightarrow>
      length (answers w') < length (answers w) \<Longrightarrow> news_post (c a' w')"
  show "news_post (recvfrom sock 29 (\<lambda>str_len bs addr. if str_len \<le> 0 then k else
     deliver buf bs (\<lambda>buf. store buf str_len NUL (\<lambda>buf. with_cstr buf (\<lambda>s. printf s (c buf))))) w)"
    unfolding recvfrom_def
  proof (rule syscall_rule [where Q = news_post])
    fix a as assume w: "answers w = a # as"
    define bs where "bs = take 29 (data a)"
    have l: "length bs < length buf" "length bs \<le> length buf" using i by (simp_all add: bs_def)
    from NUL_terminated [OF l(1)] show "news_post ((if ret a < 0
        then if - 1 \<le> (0 :: int) then k else deliver buf [] (\<lambda>buf. store buf (- 1) NUL (\<lambda>buf. with_cstr buf (\<lambda>s. printf s (c buf))))
        else if int (length (take 29 (data a))) \<le> 0 then k
          else deliver buf (take 29 (data a)) (\<lambda>buf. store buf (int (length (take 29 (data a)))) NUL (\<lambda>buf.
            with_cstr buf (\<lambda>s. printf s (c buf)))))
       (log (if ret a < 0 then Sys ''recvfrom_failed'' [sock] [] (- 1)
          else Sys ''recvfrom'' (sock # addr_ints (extra a)) (take 29 (data a)) (int (length (take 29 (data a)))))
         (w\<lparr>answers := as\<rparr>)))"
      using i l w
      by (cases "bs = []")
        (auto simp: bs_def [symmetric] deliver_def buf_copy_def store_def with_cstr_def printf_def emit_def
          cstr_prefix cstr_def [of "[]"] intro!: assms(3) c)
  qed (use i in simp)
qed (use assms in auto)

section \<open>Properties\<close>

text \<open>
  uecho\_server answers every datagram, in order, with the same bytes and to the address it came
  from; only the last one received may be unanswered yet. It has no undefined behaviour.
\<close>

theorem uecho_server_answers:
  "case uecho_server_main g argv (boot as) of (r, w) \<Rightarrow> answering (trace w) \<and> r \<noteq> Undefined \<and> r \<noteq> Spinning"
proof -
  have "udp_post (uecho_server_main g argv (boot as))"
    unfolding uecho_server_main_def udp_socket_def call_def
    by (auto intro!: syscall_rule [where Q = udp_post] uecho_loop_post
        simp: printf_def error_handler_def emit_def exit_def answered_def answering_def)
  then show ?thesis by (auto simp: udp_post_def split: prod.splits)
qed

definition long_reply :: "string \<Rightarrow> answer list" where
  "long_reply d = [Ans 3 0 [] [], Ans 0 0 (''hi'' @ [NL]) [], Ans 3 0 [] [], Ans 0 0 d []]"

text \<open>
  A reply of 30 bytes or more overruns the buffer of uecho\_client, whatever it holds and
  whatever was typed: the client offers the kernel more space than the buffer has.
\<close>

theorem uecho_client_overflow:
  assumes "30 \<le> length d"
  shows "fst (uecho_client_main g [prog, ip, port] (boot (long_reply d))) = Undefined"
proof -
  show ?thesis
    using assms
    by (simp add: uecho_client_main_def long_reply_def udp_socket_def call_def syscall_def log_def boot_def;
      subst loop.simps;
      simp add: printf_def emit_def fgets_def syscall_def log_def line_of_def fgets_buf_def deliver_def
        buf_copy_def with_cstr_def is_quit_def cstr_def sendto_def call0_def call_def recvfrom_def store_def
        buf_put_def undef_def BUFSIZ_def)
qed

theorem uecho_client_overflow_witness:
  "fst (uecho_client_main (\<lambda>_. NUL) [''c'', ''127.0.0.1'', ''9190''] (boot (long_reply (replicate 30 NUL)))) = Undefined"
  using uecho_client_overflow [of "replicate 30 NUL"] by (simp only: length_replicate)

definition host1_answers :: "string list \<Rightarrow> answer list" where
  "host1_answers ds = [Ans 3 0 [] [], Ans 0 0 [] []]
     @ concat (map (\<lambda>d. [Ans 0 0 [] [], Ans 0 0 d []]) ds) @ [Ans 0 0 [] []]"

definition host2_datagrams :: "string list \<Rightarrow> string list" where
  "host2_datagrams argv = map snd (datagrams ''sendto''
     (trace (snd (bound_host2_main argv (boot (replicate 5 (Ans 3 0 [] [])))))))"

text \<open>
  Message boundaries: bound\_host2 sends three datagrams, each a terminated string, and bound\_host1
  receiving them prints one line for each.
\<close>

theorem bound_hosts_boundaries:
  "printed (trace (snd (bound_host1_main g [p1, port1] (boot (host1_answers (host2_datagrams [p2, ip, port2]))))))
    = ''message 1: Hi!'' @ [NL] @ ''message 2: I'' @ [CHR 0x27] @ ''m another UDP host!'' @ [NL]
      @ ''message 3: Nice to meet you'' @ [NL]"
proof -
  have ds: "host2_datagrams [p2, ip, port2] = [''Hi!'' @ [NUL],
      ''I'' @ [CHR 0x27] @ ''m another UDP host!'' @ [NUL], ''Nice to meet you'' @ [NUL]]"
    by (simp add: host2_datagrams_def bound_host2_main_def udp_socket_def sendto_def call0_def call_def
        syscall_def log_def boot_def Let_def close_def exit_def eval_nat_numeral)
  have n: "show_int 1 = ''1''" "show_int 2 = ''2''" "show_int 3 = ''3''" by code_simp+
  show ?thesis
    unfolding ds
    by (simp add: n host1_answers_def bound_host1_main_def udp_socket_def call_def call0_def syscall_def log_def
        boot_def eval_nat_numeral recvfrom_def deliver_def buf_copy_def with_cstr_def cstr_def puts_def emit_def
        close_def exit_def)
qed

text \<open>
  The receiver of the news prints exactly the text of the datagrams it received, in order, and
  stays within its buffer.
\<close>

theorem news_receiver_prints:
  "case news_receiver_main g [p, ip, port] (boot as) of (r, w) \<Rightarrow> r \<noteq> Undefined \<and> r \<noteq> Spinning \<and>
     printed (trace w) = concat (map (cstr \<circ> snd) (datagrams ''recvfrom'' (trace w)))"
proof -
  have k: "news_post (close sock (exit 0) w)"
    if "printed (trace w) = concat (map (cstr \<circ> snd) (datagrams ''recvfrom'' (trace w)))" for sock w
    using that by (auto simp: prog_defs syscall_def split: list.splits)
  have "news_post (news_receiver_main g [p, ip, port] (boot as))"
    unfolding news_receiver_main_def udp_socket_def call_def
    by (auto intro!: syscall_rule [where Q = news_post] receive_news_post k
        simp: error_handler_def emit_def exit_def)
  then show ?thesis by (auto simp: news_post_def split: prod.splits)
qed

text \<open>The senders repeat the last line of the file, like the server above.\<close>

lemma news_sender_repeats:
  "case news_sender_main (\<lambda>_. NUL) [''s'', ''224.1.1.2'', ''9190''] (boot [Ans 3 0 [] [], Ans 0 0 [] [], Ans 7 0 [] [],
       Ans 0 0 (''news'' @ [NL]) [], Ans 5 0 [] [], Ans 0 0 [] [], Ans 0 0 [] ''eof'', Ans 5 0 [] [], Ans 0 0 [] [],
       Ans 0 0 [] [], Ans 0 0 [] []]) of (r, w) \<Rightarrow>
     r = Exit 0 \<and> map snd (datagrams ''sendto'' (trace w)) = replicate 2 (''news'' @ [NL])"
  by code_simp

end
