(* ===== verification/Pipe_Fifo.thy ===== *)
theory Pipe_Fifo
  imports Socket_Setup
begin

text \<open>
  The file service of \<^verbatim>\<open>src/ipc/src\<close>: a client sends a path name and prints what the server sends
  back, over two pipes (\<^verbatim>\<open>pipe/pipe.c\<close>), over two FIFOs (\<^verbatim>\<open>fifo/fifo.c\<close>), and over one
  well-known FIFO for several clients (\<^verbatim>\<open>fifo/fifo_server.c\<close>, \<^verbatim>\<open>fifo/fifo_client.c\<close>). The texts of
  \<open>strerror\<close> belong to the C library: \<open>se\<close> is a parameter.
\<close>

section \<open>Calls\<close>

definition MAXSIZE :: nat where "MAXSIZE = 256"

definition EEXIST :: int where "EEXIST = 17"

text \<open>A call together with \<open>errno\<close>.\<close>

definition call_errno :: "string \<Rightarrow> int list \<Rightarrow> string \<Rightarrow> (int \<Rightarrow> int \<Rightarrow> prog) \<Rightarrow> prog" where
  "call_errno name args bs k =
     syscall (\<lambda>a. Sys name args bs (max (- 1) (ret a))) (\<lambda>a. k (max (- 1) (ret a)) (errno a))"

definition open_file :: "string \<Rightarrow> (int \<Rightarrow> int \<Rightarrow> prog) \<Rightarrow> prog" where
  "open_file path k = call_errno ''open'' [0] path k"

definition open_write :: "string \<Rightarrow> (int \<Rightarrow> prog) \<Rightarrow> prog" where
  "open_write path k = call ''open'' [1] path k"

text \<open>
  \<open>snprintf(buf + off, sizeof(buf) - off, ...)\<close>: at most \<open>sizeof(buf) - off - 1\<close> characters of
  the text and a NUL.
\<close>

definition snprintf_at :: "char list \<Rightarrow> nat \<Rightarrow> nat \<Rightarrow> string \<Rightarrow> (char list \<Rightarrow> prog) \<Rightarrow> prog" where
  "snprintf_at buf off size' s k = (if length buf < off + size' then undef
     else if size' = 0 then k buf
     else let t = take (size' - 1) s @ [NUL] in k (take off buf @ t @ drop (off + length t) buf))"

text \<open>\<open>while((n = read(fd, buf, MAXSIZE)) > 0) write(writefd, buf, n);\<close>\<close>

definition relay :: "int \<Rightarrow> int \<Rightarrow> char list \<Rightarrow> (char list \<Rightarrow> prog) \<Rightarrow> prog" where
  "relay fd writefd buf k = loop (\<lambda>buf next break. sys_read fd MAXSIZE (\<lambda>n bs. deliver buf bs (\<lambda>buf.
     if n > 0 then write_buf writefd buf n (next buf) else break buf))) buf k"

text \<open>\<open>while((n = read(readfd, buf, MAXSIZE)) > 0) { buf[n] = 0; fputs(buf, stdout); }\<close>\<close>

definition show_reply :: "int \<Rightarrow> char list \<Rightarrow> prog \<Rightarrow> prog" where
  "show_reply readfd buf k = loop (\<lambda>buf next break. sys_read readfd MAXSIZE (\<lambda>n bs. deliver buf bs (\<lambda>buf.
     if n > 0 then store buf n NUL (\<lambda>buf. with_cstr buf (\<lambda>s. printf s (next buf))) else break buf))) buf (\<lambda>_. k)"

section \<open>pipe.c\<close>

text \<open>
  The client drops the last character of the line it read. An empty line would make the length
  wrap around to the largest \<open>size_t\<close>.
\<close>

definition client :: "(nat \<Rightarrow> char) \<Rightarrow> int \<Rightarrow> int \<Rightarrow> prog \<Rightarrow> prog" where
  "client g readfd writefd k = printf ''input pathname: '' (
     fgets 0 MAXSIZE (\<lambda>r. fgets_buf (uninit g MAXSIZE) r (\<lambda>buf. with_cstr buf (\<lambda>s.
     write_buf writefd buf (int (length s) - 1) (show_reply readfd buf k)))))"

definition server :: "(int \<Rightarrow> string) \<Rightarrow> (nat \<Rightarrow> char) \<Rightarrow> int \<Rightarrow> int \<Rightarrow> prog \<Rightarrow> prog" where
  "server se g readfd writefd k = sys_read readfd MAXSIZE (\<lambda>n bs.
     if n = 0 then error_handler ''end-of-file while reading pathname'' else
     deliver (uninit g (MAXSIZE + 1)) bs (\<lambda>buf. store buf n NUL (\<lambda>buf.
     open_file (cstr buf) (\<lambda>fd e. if fd = - 1 then
         snprintf_at buf (nat n) (MAXSIZE + 1 - nat n) ('': can'' @ [CHR 0x27] @ ''t open, '' @ se e @ [NL]) (\<lambda>buf.
         with_cstr buf (\<lambda>s. sys_write writefd s (\<lambda>_. k)))
       else sys_write writefd (''context of file: '' @ [NL, NUL]) (\<lambda>_.
         relay fd writefd buf (\<lambda>_. sys_write writefd [NL] (\<lambda>_. close fd k)))))))"

text \<open>\<open>pipe\<close> delivers two descriptors; the bytes of the array are arbitrary when it fails.\<close>

definition pipe_fds :: "string \<Rightarrow> (int \<Rightarrow> int \<Rightarrow> prog) \<Rightarrow> prog" where
  "pipe_fds msg k = syscall (\<lambda>a. Sys ''pipe'' [] (data a) (max (- 1) (ret a)))
     (\<lambda>a. if max (- 1) (ret a) = - 1 then error_handler msg
          else case ints_of (data a) of r # w # _ \<Rightarrow> k r w | _ \<Rightarrow> k (- 1) (- 1))"

definition pipe_main :: "(int \<Rightarrow> string) \<Rightarrow> (nat \<Rightarrow> char) \<Rightarrow> prog" where
  "pipe_main se g = pipe_fds ''pipe() error'' (\<lambda>s2c_r s2c_w. pipe_fds ''pipe() error'' (\<lambda>c2s_r c2s_w.
     call ''fork'' [] [] (\<lambda>pid. if pid < 0 then error_handler ''fork() error''
       else if pid = 0 then close c2s_w (close s2c_r (server se g c2s_r s2c_w (exit 0)))
       else close s2c_w (close c2s_r (client g s2c_r c2s_w (call0 ''wait'' [] [] (exit 0)))))))"

section \<open>fifo.c\<close>

text \<open>This server sends \<open>strlen(buf)\<close> bytes after each read, whatever the read delivered.\<close>

definition relay_strlen :: "int \<Rightarrow> int \<Rightarrow> char list \<Rightarrow> (char list \<Rightarrow> prog) \<Rightarrow> prog" where
  "relay_strlen fd writefd buf k = loop (\<lambda>buf next break. sys_read fd MAXSIZE (\<lambda>n bs. deliver buf bs (\<lambda>buf.
     if n > 0 then with_cstr buf (\<lambda>s. sys_write writefd s (\<lambda>_. next buf)) else break buf))) buf k"

definition fifo_server_child :: "(int \<Rightarrow> string) \<Rightarrow> (nat \<Rightarrow> char) \<Rightarrow> int \<Rightarrow> int \<Rightarrow> prog \<Rightarrow> prog" where
  "fifo_server_child se g readfd writefd k = sys_read readfd MAXSIZE (\<lambda>n bs.
     if n = 0 then error_handler ''end-of-file while reading pathname'' else
     deliver (uninit g (MAXSIZE + 1)) bs (\<lambda>buf. store buf n NUL (\<lambda>buf.
     open_file (cstr buf) (\<lambda>fd e. if fd = - 1 then
         snprintf_at buf (nat n) (MAXSIZE + 1 - nat n) ('': can'' @ [CHR 0x27] @ ''t open, '' @ se e @ [NL]) (\<lambda>buf.
         with_cstr buf (\<lambda>s. sys_write writefd s (\<lambda>_. k)))
       else snprintf_at buf 0 (MAXSIZE + 1) (''context of file: '' @ [NL]) (\<lambda>buf. with_cstr buf (\<lambda>s.
         sys_write writefd s (\<lambda>_. relay_strlen fd writefd buf (\<lambda>_. sys_write writefd [NL] (\<lambda>_. close fd k)))))))))"

definition mkfifo :: "string \<Rightarrow> prog \<Rightarrow> prog \<Rightarrow> prog" where
  "mkfifo path fail k = call_errno ''mkfifo'' [] path (\<lambda>r e. if r = - 1 \<and> e \<noteq> EEXIST then fail else k)"

definition fifo_main :: "(int \<Rightarrow> string) \<Rightarrow> (nat \<Rightarrow> char) \<Rightarrow> prog" where
  "fifo_main se g = mkfifo ''/tmp/fifo.1'' (error_handler ''mkfifo(FIFO1) error'') (
     mkfifo ''/tmp/fifo.2'' (call0 ''unlink'' [] ''/tmp/fifo.1'' (error_handler ''mkfifo(FIFO2) error'')) (
     call ''fork'' [] [] (\<lambda>pid. if pid = - 1 then error_handler ''fork() error''
       else if pid = 0 then
         open_file ''/tmp/fifo.1'' (\<lambda>readfd _. if readfd = - 1 then error_handler ''child open(FIFO1, R) error'' else
         open_write ''/tmp/fifo.2'' (\<lambda>writefd. if writefd = - 1 then error_handler ''chidl open(FIFO2, W) error'' else
         fifo_server_child se g readfd writefd (exit 0)))
       else
         open_write ''/tmp/fifo.1'' (\<lambda>writefd. if writefd = - 1 then error_handler ''parent open(FIFO1, W) error'' else
         open_file ''/tmp/fifo.2'' (\<lambda>readfd _. if readfd = - 1 then error_handler ''parent open(FIFO2, R) error'' else
         client g readfd writefd (call0 ''wait'' [] [] (close readfd (close writefd (
         call0 ''unlink'' [] ''/tmp/fifo.1'' (call0 ''unlink'' [] ''/tmp/fifo.2'' (exit 0)))))))))))"

section \<open>fifo\_client.c and fifo\_server.c\<close>

definition fifoname :: "int \<Rightarrow> string" where
  "fifoname pid = ''/tmp/fifo.'' @ show_int pid"

text \<open>The client sends its whole buffer, so that the server gets one request per read.\<close>

definition fifo_client_main :: "(nat \<Rightarrow> char) \<Rightarrow> prog" where
  "fifo_client_main g = call ''getpid'' [] [] (\<lambda>pid.
     mkfifo (fifoname pid) (error_handler (''can'' @ [CHR 0x27] @ ''t create clente fifo file'')) (
     snprintf_at (uninit g MAXSIZE) 0 MAXSIZE (show_int pid @ '' '') (\<lambda>buf.
     let len = strlen buf in
     printf ''input pathname: '' (
     fgets 0 (MAXSIZE - len) (\<lambda>r. fgets_buf (drop len buf) r (\<lambda>b. let buf = take len buf @ b in
     open_write ''/tmp/fifo.serv'' (\<lambda>writefd. if writefd = - 1 then error_handler (''can'' @ [CHR 0x27] @ ''t open server fifo file'') else
     sys_write writefd buf (\<lambda>_.
     open_file (fifoname pid) (\<lambda>readfd _. if readfd = - 1 then error_handler ''cannot open client fifo to read'' else
     show_reply readfd buf (close readfd (call0 ''unlink'' [] (fifoname pid) (close writefd (exit 0)))))))))))))"

text \<open>
  One request in the server's buffer, from \<open>n = strlen(buf)\<close> on: strip the newline, split at the
  first blank, open the client's FIFO and the file. \<open>next\<close> goes on with the next request.
\<close>

definition send_contents :: "int \<Rightarrow> int \<Rightarrow> char list \<Rightarrow> (char list \<Rightarrow> prog) \<Rightarrow> prog" where
  "send_contents fd writefd buf next = sys_write writefd (''the context of file: '' @ [NL, NUL]) (\<lambda>_.
     relay fd writefd buf (\<lambda>buf. close fd (close writefd (next buf))))"

definition handle_request :: "(int \<Rightarrow> string) \<Rightarrow> char list \<Rightarrow> (char list \<Rightarrow> prog) \<Rightarrow> prog" where
  "handle_request se buf next = with_cstr buf (\<lambda>s. if s = [] then undef else
     let buf = (if last s = NL then buf[length s - 1 := NUL] else buf);
         n = (if last s = NL then length s - 1 else length s) in
     case strchr (take n buf) (CHR '' '') of
       None \<Rightarrow> printf (''bogus request: '' @ take n buf) (next buf)
     | Some p \<Rightarrow> let buf = buf[p := NUL]; pid = c_int (atol (take p buf)); ptr = drop (p + 1) (take n buf) in
       open_write (fifoname pid) (\<lambda>writefd. if writefd = - 1 then error_handler ''cannot open client file to write'' else
       open_file ptr (\<lambda>fd e. if fd = - 1 then
           snprintf_at buf n (MAXSIZE - n) ('': cannot open, '' @ se e @ [NL]) (\<lambda>buf.
           sys_write writefd (cstr (drop (p + 1) buf)) (\<lambda>_. close writefd (next buf)))
         else send_contents fd writefd buf next)))"

definition fifo_server_main :: "(int \<Rightarrow> string) \<Rightarrow> (nat \<Rightarrow> char) \<Rightarrow> prog" where
  "fifo_server_main se g = mkfifo ''/tmp/fifo.serv'' (error_handler ''mkfifo() error'') (
     open_file ''/tmp/fifo.serv'' (\<lambda>readfd _. if readfd = - 1 then error_handler ''cannot open server fifo to read'' else
     loop (\<lambda>buf next break. sys_read readfd MAXSIZE (\<lambda>r bs. deliver buf bs (\<lambda>buf.
         if r > 0 then handle_request se buf next else break buf)))
       (uninit g (MAXSIZE + 1)) (\<lambda>_. exit 0)))"

section \<open>Reasoning\<close>

text \<open>The buffer of a client after it has composed its request.\<close>

lemma request_buffer:
  assumes "length s + 1 \<le> length buf"
  shows "snprintf_at buf 0 (length buf) s k = k (s @ NUL # drop (length s + 1) buf)"
proof -
  have "buf \<noteq> []" using assms by auto
  then show ?thesis using assms by (simp add: snprintf_at_def Let_def)
qed

lemma line_of_short: "NL \<notin> set l \<Longrightarrow> length l + 1 < n \<Longrightarrow> line_of n (l @ [NL]) = l @ [NL]"
  by (simp add: line_of_def strchr_append)

lemma strlen_NUL: "NUL \<notin> set s \<Longrightarrow> strlen (s @ NUL # r) = length s"
  by (simp add: strlen_def)

lemma client_request:
  assumes "NUL \<notin> set path" and "NL \<notin> set path" and "length (show_int pid) + length path \<le> 252" and "0 \<le> pid"
    and "0 \<le> m" and "0 \<le> wfd"
  shows "\<exists>rest. length (show_int pid @ '' '' @ path @ [NL, NUL] @ rest) = MAXSIZE \<and>
    sent wfd (trace (snd (fifo_client_main g (boot [Ans pid 0 [] [], Ans m 0 [] [], Ans 0 0 (path @ [NL]) [],
       Ans wfd 0 [] [], Ans n 0 [] []])))) = show_int pid @ '' '' @ path @ [NL, NUL] @ rest"
proof -
  let ?s = "show_int pid @ '' ''"
  let ?b = "drop (length ?s + 1) (uninit g MAXSIZE)"
  have s: "length ?s + 1 \<le> length (uninit g MAXSIZE)" "NUL \<notin> set ?s"
    using assms(3) by (auto simp: MAXSIZE_def)
  have buf: "snprintf_at (uninit g MAXSIZE) 0 MAXSIZE ?s k = k (?s @ NUL # ?b)" for k
    using request_buffer [OF s(1)] by simp
  have line: "line_of (MAXSIZE - length ?s) (path @ [NL]) = path @ [NL]"
    using assms by (intro line_of_short) (auto simp: MAXSIZE_def)
  have fit: "length ((path @ [NL]) @ [NUL]) \<le> length (NUL # ?b)"
    using assms(3) by (simp add: MAXSIZE_def)
  define rest where "rest = drop (length ((path @ [NL]) @ [NUL])) (NUL # ?b)"
  have del: "deliver (NUL # ?b) ((path @ [NL]) @ [NUL]) k = k (((path @ [NL]) @ [NUL]) @ rest)" for k
    using fit by (simp only: deliver_def buf_copy_def if_True option.case rest_def)
  have len: "strlen (?s @ NUL # ?b) = length ?s" using strlen_NUL [OF s(2)] .
  have "length (?s @ ((path @ [NL]) @ [NUL]) @ rest) = MAXSIZE"
    using fit s(1) by (simp add: rest_def)
  moreover have "sent wfd (trace (snd (fifo_client_main g (boot [Ans pid 0 [] [], Ans m 0 [] [],
      Ans 0 0 (path @ [NL]) [], Ans wfd 0 [] [], Ans n 0 [] []])))) = ?s @ ((path @ [NL]) @ [NUL]) @ rest"
    using assms(4-6) line del len
    by (simp add: fifo_client_main_def mkfifo_def call_errno_def call_def syscall_def log_def boot_def buf
        Let_def printf_def emit_def fgets_def fgets_buf_def open_write_def open_file_def sys_write_def del: append_assoc)
  ultimately show ?thesis by (intro exI [of _ rest]) simp
qed

lemma server_parses:
  assumes "NUL \<notin> set path" and "NL \<notin> set path" and "- 2147483648 \<le> pid" and "pid \<le> INT_MAX" and "0 \<le> w" and "0 \<le> fd"
  shows "handle_request se (show_int pid @ '' '' @ path @ [NL, NUL] @ rest) next
      (boot [Ans w 0 [] [], Ans fd 0 [] []])
    = (Blocked, \<lparr>answers = [], trace = [Sys ''open'' [1] (fifoname pid) w, Sys ''open'' [0] path fd]\<rparr>)"
proof -
  let ?s = "show_int pid @ '' '' @ path"
  let ?buf = "show_int pid @ '' '' @ path @ [NL, NUL] @ rest"
  have buf: "?buf = (?s @ [NL]) @ NUL # rest" by simp
  have c: "NUL \<in> set ?buf" "cstr ?buf = ?s @ [NL]"
    unfolding buf using assms(1) by (auto simp del: append_assoc simp: cstr_append_NUL)
  have upd: "?buf[length ?s := NUL] = ?s @ [NUL, NUL] @ rest"
    by (simp add: list_update_append)
  have blank: "strchr ?s (CHR '' '') = Some (length (show_int pid))"
    using strchr_append [OF show_int_no_blank, of pid path] by simp
  have pid: "c_int (atol (show_int pid)) = pid"
    using atol_show_int [of "[]" pid] assms(3,4) by (simp add: digit_stop_def c_int_id)
  have upd2: "(?s @ r)[length (show_int pid) := NUL] = show_int pid @ NUL # path @ r" for r
    by (simp add: list_update_append)
  show ?thesis
    using assms(5,6) c upd blank pid
    by (simp add: handle_request_def with_cstr_def Let_def upd2 [of "NUL # NUL # rest", simplified]
        open_write_def open_file_def call_def call_errno_def syscall_def log_def boot_def
        send_contents_def sys_write_def)
qed

section \<open>Properties\<close>

text \<open>
  C33. The requests of fifo\_client reach fifo\_server unharmed: for every process number and every path
  that fits, the 256 bytes that the client writes make the server open the FIFO of that client
  for writing and then that path for reading.
\<close>

theorem fifo_request_roundtrip:
  assumes "NUL \<notin> set path" and "NL \<notin> set path" and "length (show_int pid) + length path \<le> 252"
    and "0 \<le> pid" and "pid \<le> INT_MAX" and "0 \<le> m" and "0 \<le> wfd" and "0 \<le> w" and "0 \<le> fd"
  shows "handle_request se (sent wfd (trace (snd (fifo_client_main g (boot [Ans pid 0 [] [], Ans m 0 [] [],
       Ans 0 0 (path @ [NL]) [], Ans wfd 0 [] [], Ans n 0 [] []])))) @ [c]) next (boot [Ans w 0 [] [], Ans fd 0 [] []])
    = (Blocked, \<lparr>answers = [], trace = [Sys ''open'' [1] (fifoname pid) w, Sys ''open'' [0] path fd]\<rparr>)"
proof -
  from client_request [OF assms(1-4,6,7)] obtain rest where
    "sent wfd (trace (snd (fifo_client_main g (boot [Ans pid 0 [] [], Ans m 0 [] [], Ans 0 0 (path @ [NL]) [],
       Ans wfd 0 [] [], Ans n 0 [] []])))) = show_int pid @ '' '' @ path @ [NL, NUL] @ rest" by blast
  then show ?thesis
    using server_parses [OF assms(1,2) _ assms(5,8,9), of se "rest @ [c]"] assms(4) by simp
qed

theorem fifo_request_roundtrip_witness:
  "handle_request (\<lambda>_. []) (sent 5 (trace (snd (fifo_client_main (\<lambda>_. NUL) (boot [Ans 42 0 [] [], Ans 0 0 [] [],
       Ans 0 0 (''/etc/motd'' @ [NL]) [], Ans 5 0 [] [], Ans 256 0 [] []])))) @ [NUL]) (\<lambda>_. exit 0)
       (boot [Ans 4 0 [] [], Ans 6 0 [] []])
    = (Blocked, \<lparr>answers = [], trace = [Sys ''open'' [1] ''/tmp/fifo.42'' 4, Sys ''open'' [0] ''/etc/motd'' 6]\<rparr>)"
proof -
  have "show_int 42 = ''42''" by code_simp
  then show ?thesis
    using fifo_request_roundtrip [of "''/etc/motd''" 42 0 5 4 6 "\<lambda>_. []" "\<lambda>_. NUL" 256 NUL "\<lambda>_. exit 0"]
    by (simp add: fifoname_def INT_MAX_def)
qed

text \<open>Copying a file to a descriptor, for every answer of the kernel.\<close>

definition relay_post :: "int \<Rightarrow> int \<Rightarrow> string \<Rightarrow> outcome \<times> world \<Rightarrow> bool" where
  "relay_post fd wfd h r \<longleftrightarrow> fst r \<noteq> Undefined \<and> fst r \<noteq> Spinning \<and>
     (fst r = Exit 0 \<longrightarrow> sent wfd (trace (snd r)) = h @ received fd (trace (snd r)))"

lemma relay_post_Blocked [simp]: "relay_post fd wfd h (Blocked, w)"
  by (simp add: relay_post_def)

lemma relay_copies:
  assumes "sent wfd (trace w) = h @ received fd (trace w)" and "MAXSIZE \<le> length buf"
    and "\<And>buf w'. sent wfd (trace w') = h @ received fd (trace w') \<Longrightarrow> relay_post fd wfd h (k buf w')"
  shows "relay_post fd wfd h (relay fd wfd buf k w)"
  unfolding relay_def
proof (rule loop_rule [where I = "\<lambda>buf w. MAXSIZE \<le> length buf \<and> sent wfd (trace w) = h @ received fd (trace w)"])
  fix buf :: "char list" and w :: world and c :: "char list \<Rightarrow> prog"
  assume i: "MAXSIZE \<le> length buf \<and> sent wfd (trace w) = h @ received fd (trace w)"
    and c: "\<And>a' w'. MAXSIZE \<le> length a' \<and> sent wfd (trace w') = h @ received fd (trace w') \<Longrightarrow>
      length (answers w') < length (answers w) \<Longrightarrow> relay_post fd wfd h (c a' w')"
  show "relay_post fd wfd h (sys_read fd MAXSIZE (\<lambda>n bs. deliver buf bs (\<lambda>buf.
     if n > 0 then write_buf wfd buf n (c buf) else k buf)) w)"
    unfolding sys_read_def
  proof (rule syscall_rule [where Q = "relay_post fd wfd h"])
    fix a as assume w: "answers w = a # as"
    define bs where "bs = take MAXSIZE (data a)"
    have l: "length bs \<le> length buf" using i by (simp add: bs_def min.coboundedI2)
    have "relay_post fd wfd h (sys_write wfd bs (\<lambda>_. c (bs @ drop (length bs) buf)) (log (Read fd MAXSIZE bs) (w\<lparr>answers := as\<rparr>)))"
      unfolding sys_write_def
      by (rule syscall_rule [where Q = "relay_post fd wfd h"]) (use i w l c in auto)
    then show "relay_post fd wfd h ((if ret a < 0
        then deliver buf [] (\<lambda>b. if - 1 > (0 :: int) then write_buf wfd b (- 1) (c b) else k b)
        else deliver buf (take MAXSIZE (data a)) (\<lambda>b. if int (length (take MAXSIZE (data a))) > 0
          then write_buf wfd b (int (length (take MAXSIZE (data a)))) (c b) else k b))
       (log (if ret a < 0 then Sys ''read'' [fd, int MAXSIZE] [] (- 1) else Read fd MAXSIZE (take MAXSIZE (data a)))
         (w\<lparr>answers := as\<rparr>)))"
      using i l assms(3)
      by (cases "bs = []") (auto simp: bs_def [symmetric] deliver_def buf_copy_def write_buf_def)
  qed simp
qed (use assms in auto)

text \<open>
  fifo\_server sends the whole file: whatever the kernel answers, once the contents have been sent
  the client's FIFO has been given the heading and then exactly the bytes read from the file.
\<close>

theorem fifo_server_sends_file:
  assumes "MAXSIZE \<le> length buf"
  shows "case send_contents fd wfd buf (\<lambda>_. exit 0) (boot as) of (r, w) \<Rightarrow>
    r \<noteq> Undefined \<and> r \<noteq> Spinning \<and>
    (r = Exit 0 \<longrightarrow> sent wfd (trace w) = ''the context of file: '' @ [NL, NUL] @ received fd (trace w))"
proof -
  let ?h = "''the context of file: '' @ [NL, NUL]"
  have "relay_post fd wfd ?h (close fd (close wfd (exit 0)) w)"
    if "sent wfd (trace w) = ?h @ received fd (trace w)" for w
    using that by (auto simp: prog_defs syscall_def relay_post_def split: list.splits)
  then have "relay_post fd wfd ?h (relay fd wfd buf (\<lambda>_. close fd (close wfd (exit 0))) w)"
    if "sent wfd (trace w) = ?h @ received fd (trace w)" for w
    using that assms by (intro relay_copies) auto
  then have "relay_post fd wfd ?h (send_contents fd wfd buf (\<lambda>_. exit 0) (boot as))"
    unfolding send_contents_def sys_write_def
    by (intro syscall_rule [where Q = "relay_post fd wfd ?h"]) auto
  then show ?thesis by (auto simp: relay_post_def split: prod.splits)
qed

theorem fifo_server_sends_file_witness:
  "case send_contents 6 4 (uninit (\<lambda>_. NUL) 257) (\<lambda>_. exit 0) (boot [Ans 23 0 [] [], Ans 0 0 ''motd'' [], Ans 4 0 [] [],
      Ans 0 0 [] [], Ans 0 0 [] [], Ans 0 0 [] []]) of (r, w) \<Rightarrow>
    r = Exit 0 \<and> sent 4 (trace w) = ''the context of file: '' @ [NL, NUL] @ ''motd''"
proof -
  let ?as = "[Ans 23 0 [] [], Ans 0 0 ''motd'' [], Ans 4 0 [] [], Ans 0 0 [] [], Ans 0 0 [] [], Ans 0 0 [] []]"
  have "case send_contents 6 4 (uninit (\<lambda>_. NUL) 257) (\<lambda>_. exit 0) (boot ?as) of (r, w) \<Rightarrow>
      r = Exit 0 \<and> received 6 (trace w) = ''motd''"
    by code_simp
  with fifo_server_sends_file [where buf = "uninit (\<lambda>_. NUL) 257" and fd = 6 and wfd = 4 and as = ?as] show ?thesis
    by (auto simp: MAXSIZE_def)
qed

text \<open>
  The heading is sent with its NUL, and the clients print each chunk as a string: a client that
  gets the heading and the contents in one read shows the heading only.
\<close>

theorem reply_loses_contents:
  assumes "NUL \<notin> set h" and "length h + length contents < 255" and "length buf = MAXSIZE"
  shows "printed (trace (snd (show_reply readfd buf k (boot [Ans 0 0 (h @ NUL # contents) []])))) = h"
proof -
  let ?d = "h @ NUL # contents"
  have t: "take MAXSIZE ?d = ?d" "?d \<noteq> []" "length ?d < length buf" "length ?d \<le> length buf"
    using assms(2,3) by (simp_all add: MAXSIZE_def)
  obtain b where b: "buf_put (?d @ drop (length ?d) buf) (int (length ?d)) NUL = Some b"
    using t(3) by (simp add: buf_put_def)
  then have "NUL \<in> set b \<and> cstr b = h"
    using assms(1) t(3)
    by (auto simp: buf_put_def list_update_append split: if_splits nat.splits)
  then show ?thesis
    unfolding show_reply_def
    using t b by (subst loop.simps)
      (simp add: sys_read_def syscall_def log_def deliver_def buf_copy_def store_def with_cstr_def printf_def emit_def
        loop.simps del: take_append)
qed

theorem reply_loses_contents_witness:
  "printed (trace (snd (show_reply 3 (uninit (\<lambda>_. NUL) MAXSIZE) (exit 0) (boot [Ans 0 0 (''head'' @ NUL # ''contents'') []])))) = ''head''"
  using reply_loses_contents [of "''head''" "''contents''" "uninit (\<lambda>_. NUL) MAXSIZE" 3 "exit 0"] by simp

text \<open>Two more defects of the clients and of the server of fifo.c, on concrete runs.\<close>

lemma full_chunk_overflow:
  "fst (show_reply 3 (uninit (\<lambda>_. NUL) MAXSIZE) (exit 0) (boot [Ans 0 0 (replicate 256 (CHR ''x'')) []])) = Undefined"
  by code_simp

lemma fifo_server_sends_stale:
  "case fifo_server_child (\<lambda>_. []) (\<lambda>_. NUL) 3 4 (exit 0) (boot [Ans 0 0 ''f'' [], Ans 5 0 [] [], Ans 18 0 [] [],
      Ans 0 0 ''hi'' [], Ans 18 0 [] [], Ans 0 0 [] [], Ans 1 0 [] [], Ans 0 0 [] []]) of (r, w) \<Rightarrow>
    r = Exit 0 \<and> received 5 (trace w) = ''hi'' \<and>
    sent 4 (trace w) = ''context of file: '' @ [NL] @ ''hintext of file: '' @ [NL, NL]"
  by code_simp

end
