(* ===== verification/Ipc_Tools.thy ===== *)
theory Ipc_Tools
  imports Socket_Setup
begin

text \<open>
  The command-line tools of \<^verbatim>\<open>src/ipc/src\<close>: creating, using and removing System V message queues,
  semaphores and shared memory (\<^verbatim>\<open>svmsg\<close>, \<^verbatim>\<open>svsem\<close>, \<^verbatim>\<open>svshm\<close>) and POSIX semaphores, shared memory and
  message queues (\<^verbatim>\<open>pxsem\<close>, \<^verbatim>\<open>pxshm\<close>, \<^verbatim>\<open>pxmsg\<close>). The \<open>error_handler\<close> of these programs prints one
  line and exits; the model keeps its message and leaves out the source position and the text
  of \<open>strerror\<close>.
\<close>

section \<open>Options\<close>

text \<open>
  \<open>getopt\<close> of the GNU C library. It collects the options wherever they stand and leaves the
  operands at the end of \<open>argv\<close>, so that \<open>optind\<close> is the index of the first operand. The result
  is the list of options with their arguments (\<open>?\<close> for an unknown option or a missing argument),
  the arguments of the command line that were used as options, and the operands.
\<close>

type_synonym opt_spec = "char \<Rightarrow> bool option"

fun opt_cluster :: "opt_spec \<Rightarrow> string \<Rightarrow> string list \<Rightarrow> (char \<times> string) list \<times> string list \<times> string list" where
  "opt_cluster spec [] as = ([], [], as)"
| "opt_cluster spec (c # cs) as = (case spec c of
     None \<Rightarrow> (case opt_cluster spec cs as of (os, used, rest) \<Rightarrow> ((CHR ''?'', []) # os, used, rest))
   | Some False \<Rightarrow> (case opt_cluster spec cs as of (os, used, rest) \<Rightarrow> ((c, []) # os, used, rest))
   | Some True \<Rightarrow> (if cs \<noteq> [] then ([(c, cs)], [], as)
       else case as of [] \<Rightarrow> ([(CHR ''?'', [])], [], []) | v # vs \<Rightarrow> ([(c, v)], [v], vs)))"

lemma opt_cluster_length: "opt_cluster spec cs as = (os, used, rest) \<Longrightarrow> length rest \<le> length as"
  by (induction spec cs as arbitrary: os used rest rule: opt_cluster.induct)
    (auto split: option.splits bool.splits prod.splits if_splits list.splits)

function getopt :: "opt_spec \<Rightarrow> string list \<Rightarrow> (char \<times> string) list \<times> string list \<times> string list" where
  "getopt spec [] = ([], [], [])"
| "getopt spec (a # as) =
     (if a = ''--'' then ([], [a], as)
      else if length a \<ge> 2 \<and> hd a = CHR ''-'' then
        (case opt_cluster spec (tl a) as of (os, used, rest) \<Rightarrow>
         case getopt spec rest of (os', used', ops) \<Rightarrow> (os @ os', a # used @ used', ops))
      else case getopt spec as of (os, used, ops) \<Rightarrow> (os, used, a # ops))"
  by pat_completeness auto
termination
  by (relation "measure (length \<circ> snd)") (auto dest!: opt_cluster_length [OF sym] simp: less_Suc_eq_le)

definition flags_only :: "string \<Rightarrow> opt_spec" where
  "flags_only fs c = (if c \<in> set fs then Some False else None)"

definition has_opt :: "char \<Rightarrow> (char \<times> string) list \<Rightarrow> bool" where
  "has_opt c os \<longleftrightarrow> (\<exists>o' \<in> set os. fst o' = c)"

fun last_arg :: "char \<Rightarrow> 'a \<Rightarrow> (string \<Rightarrow> 'a) \<Rightarrow> (char \<times> string) list \<Rightarrow> 'a" where
  "last_arg c v f [] = v"
| "last_arg c v f ((d, s) # os) = last_arg c (if d = c then f s else v) f os"

text \<open>Reports.\<close>

definition report :: "string \<Rightarrow> prog" where
  "report msg = emit (Out (msg @ [NL])) (exit 1)"

definition need :: "int \<Rightarrow> string \<Rightarrow> prog \<Rightarrow> prog" where
  "need r msg k = (if r = - 1 then report msg else k)"

definition say :: "string \<Rightarrow> prog" where
  "say s = printf (s @ [NL]) (exit 0)"

lemmas [prog_defs] = report_def need_def say_def

definition IPC_CREAT :: int where "IPC_CREAT = 512"
definition IPC_EXCL :: int where "IPC_EXCL = 1024"
definition IPC_NOWAIT :: int where "IPC_NOWAIT = 2048"
definition IPC_RMID :: int where "IPC_RMID = 0"
definition IPC_STAT :: int where "IPC_STAT = 2"
definition SEM_UNDO :: int where "SEM_UNDO = 4096"
definition GETALL :: int where "GETALL = 13"
definition SETALL :: int where "SETALL = 17"
definition O_CREAT :: int where "O_CREAT = 64"
definition O_EXCL :: int where "O_EXCL = 128"
definition O_RDWR :: int where "O_RDWR = 2"
definition O_NONBLOCK :: int where "O_NONBLOCK = 2048"
definition FILE_MODE :: int where "FILE_MODE = 420"

section \<open>System V\<close>

text \<open>\<open>ftok(path, 0)\<close> followed by the \<open>get\<close> call of the kind.\<close>

definition with_key :: "string \<Rightarrow> (int \<Rightarrow> prog) \<Rightarrow> prog" where
  "with_key path k = call ''ftok'' [0] path (\<lambda>key. need key ''ftok error'' (k key))"

definition msgcreate_main :: "string list \<Rightarrow> prog" where
  "msgcreate_main argv = (case getopt (flags_only ''e'') (tl argv) of (os, used, ops) \<Rightarrow>
     if length ops \<noteq> 1 then usage argv '' [-e] <pathname>'' 1 else
     with_key (ops ! 0) (\<lambda>key.
     call ''msgget'' [key, 420 + IPC_CREAT + (if has_opt (CHR ''e'') os then IPC_EXCL else 0)] [] (\<lambda>mqid.
     need mqid ''msgget error'' (exit 0))))"

text \<open>
  \<open>calloc(sizeof(long) + len, 1)\<close> with a \<open>size_t\<close> sum that wraps around: for a \<open>len\<close> from -8 to -1 the
  block is smaller than the \<open>long\<close> that is stored into it.
\<close>

definition msgsnd_main :: "string list \<Rightarrow> prog" where
  "msgsnd_main argv = (if length argv \<noteq> 4 then usage argv '' <pathname> <#bytes> <type>'' 1 else
     let len = atoi (argv ! 2); mtype = atoi (argv ! 3); sz = (8 + len) mod 2 ^ 64 in
     with_key (argv ! 1) (\<lambda>key.
     call ''msgget'' [key, 256] [] (\<lambda>mqid. need mqid ''msgget error'' (
     call ''calloc'' [sz, 1] [] (\<lambda>ptr. need ptr ''malloc error'' (
     if sz < 8 then undef else
     call ''msgsnd'' [mqid, mtype, len mod 2 ^ 64] (replicate (nat (sz - 8)) NUL) (\<lambda>r.
     need r ''msgsend error'' (exit 0)))))))) "

text \<open>\<open>msgrcv\<close> delivers a message; its type is the second output.\<close>

definition msgrcv :: "int \<Rightarrow> int \<Rightarrow> int \<Rightarrow> int \<Rightarrow> (int \<Rightarrow> string \<Rightarrow> int \<Rightarrow> prog) \<Rightarrow> prog" where
  "msgrcv mqid n mtype flag k = syscall
     (\<lambda>a. Sys ''msgrcv'' [mqid, mtype, flag] (if ret a < 0 then [] else take (nat n) (data a))
        (if ret a < 0 then - 1 else int (length (take (nat n) (data a)))))
     (\<lambda>a. if ret a < 0 then k (- 1) [] 0 else k (int (length (take (nat n) (data a)))) (take (nat n) (data a)) (le_val (extra a)))"

definition msgrcv_main :: "string list \<Rightarrow> prog" where
  "msgrcv_main argv = (case getopt (\<lambda>c. if c = CHR ''n'' then Some False else if c = CHR ''t'' then Some True else None) (tl argv)
     of (os, used, ops) \<Rightarrow>
     if length ops \<noteq> 1 then usage argv '' [-n] [-t type] <pathname>'' 1 else
     with_key (ops ! 0) (\<lambda>key.
     call ''msgget'' [key, 0] [] (\<lambda>mqid. need mqid ''msgget error'' (
     call ''malloc'' [8200] [] (\<lambda>buf. need buf ''malloc error'' (
     msgrcv mqid 8200 (last_arg (CHR ''t'') 0 atol os) (if has_opt (CHR ''n'') os then IPC_NOWAIT else 0) (\<lambda>n bs mtype.
     need n ''msgrcv error'' (
     if 8192 < n then undef else say (''read '' @ show_int n @ '' bytes, type = '' @ show_int mtype)))))))))"

definition msgrmid_main :: "string list \<Rightarrow> prog" where
  "msgrmid_main argv = (if length argv \<noteq> 2 then usage argv '' <pathname>'' 1 else
     with_key (argv ! 1) (\<lambda>key.
     call ''msgget'' [key, 0] [] (\<lambda>mqid. need mqid ''msgget error'' (
     call0 ''msgctl'' [mqid, IPC_RMID] [] (exit 0)))))"

subsection \<open>Semaphores\<close>

definition svsem_semcreate_main :: "string list \<Rightarrow> prog" where
  "svsem_semcreate_main argv = (case getopt (flags_only ''e'') (tl argv) of (os, used, ops) \<Rightarrow>
     if length ops \<noteq> 2 then usage argv '' [-e] <pathname> <nsems>'' 1 else
     with_key (ops ! 0) (\<lambda>key.
     call ''semget'' [key, atoi (ops ! 1), FILE_MODE + IPC_CREAT + (if has_opt (CHR ''e'') os then IPC_EXCL else 0)] [] (\<lambda>semid.
     need semid ''semget error'' (exit 0))))"

definition semrmid_main :: "string list \<Rightarrow> prog" where
  "semrmid_main argv = (if length argv \<noteq> 2 then usage argv '' <pathname>'' 1 else
     with_key (argv ! 1) (\<lambda>key.
     call ''semget'' [key, 0, 0] [] (\<lambda>semid. need semid ''semget seeor'' (
     call ''semctl'' [semid, 0, IPC_RMID] [] (\<lambda>r. need r ''semctl error'' (exit 0))))))"

text \<open>\<open>semctl(semid, 0, IPC_STAT, arg)\<close> delivers the number of semaphores.\<close>

definition sem_stat :: "int \<Rightarrow> (int \<Rightarrow> prog) \<Rightarrow> prog" where
  "sem_stat semid k = syscall (\<lambda>a. Sys ''semctl'' [semid, 0, IPC_STAT] [] (max (- 1) (ret a)))
     (\<lambda>a. if ret a < 0 then report ''semctl error'' else k (le_val (data a)))"

definition ushorts :: "int list \<Rightarrow> string" where
  "ushorts vs = concat (map (\<lambda>v. le_bytes 2 (c_ushort v)) vs)"

definition semsetvalues_main :: "string list \<Rightarrow> prog" where
  "semsetvalues_main argv = (if length argv < 2 then usage argv '' <pathname> [values ...]'' 1 else
     with_key (argv ! 1) (\<lambda>key.
     call ''semget'' [key, 0, 0] [] (\<lambda>semid. need semid ''semget error'' (
     sem_stat semid (\<lambda>nsems.
     if int (length argv) \<noteq> nsems + 2 then
       printf (show_int nsems @ '' semaphores in set, '' @ show_int (int (length argv) - 2) @ '' values specified'' @ [NL]) (exit 1)
     else call ''calloc'' [nsems, 2] [] (\<lambda>ptr. need ptr ''calloc error'' (
     call ''semctl'' [semid, 0, SETALL] (ushorts (map atoi (drop 2 argv))) (\<lambda>r.
     need r ''semctl error'' (exit 0))))))))) "

fun ushorts_of :: "string \<Rightarrow> int list" where
  "ushorts_of (a # b # r) = le_val [a, b] # ushorts_of r"
| "ushorts_of _ = []"

definition value_line :: "nat \<Rightarrow> int \<Rightarrow> string" where
  "value_line i v = ''semval['' @ show_int (int i) @ ''] = '' @ show_int v @ [NL]"

definition print_value :: "nat \<times> int \<Rightarrow> unit \<Rightarrow> (unit \<Rightarrow> prog) \<Rightarrow> prog" where
  "print_value iv u next = printf (value_line (fst iv) (snd iv)) (next u)"

definition print_values :: "int list \<Rightarrow> prog \<Rightarrow> prog" where
  "print_values vs k = for_each (zip [0..<length vs] vs) print_value () (\<lambda>_. k)"

text \<open>The usage line of this program prints \<open>argv[1]\<close>, which a call without arguments does not have.\<close>

definition semgetvalues_main :: "string list \<Rightarrow> prog" where
  "semgetvalues_main argv = (if length argv \<noteq> 2
     then (if length argv < 2 then undef else printf (''usage: '' @ argv ! 1 @ '' <pathname>'' @ [NL]) (exit 1)) else
     with_key (argv ! 1) (\<lambda>key.
     call ''semget'' [key, 0, 0] [] (\<lambda>semid. need semid ''semget error'' (
     sem_stat semid (\<lambda>nsems.
     call ''calloc'' [nsems, 2] [] (\<lambda>ptr. need ptr ''calloc error'' (
     syscall (\<lambda>a. Sys ''semctl'' [semid, 0, GETALL] (data a) (max (- 1) (ret a))) (\<lambda>a.
       if ret a < 0 then report ''semctl error''
       else print_values (take (nat nsems) (ushorts_of (data a))) (exit 0)))))))))"

text \<open>
  \<^verbatim>\<open>semops.c\<close>: after \<open>--optind\<close> the index points at the element before the path name, and every
  operation is taken from that one element.
\<close>

definition sembuf :: "int \<Rightarrow> int \<Rightarrow> int \<Rightarrow> string" where
  "sembuf num sop flg = le_bytes 2 (c_ushort num) @ le_bytes 2 sop @ le_bytes 2 flg"

definition semops_main :: "string list \<Rightarrow> prog" where
  "semops_main argv = (case getopt (flags_only ''nu'') (tl argv) of (os, used, ops) \<Rightarrow>
     let args = hd argv # used @ ops; optind = length args - length ops;
         flag = (if has_opt (CHR ''n'') os then IPC_NOWAIT else 0) + (if has_opt (CHR ''u'') os then SEM_UNDO else 0) in
     if length args - optind < 2 then usage argv '' [-n] [-u] <pathname> operation ...'' 1 else
     with_key (args ! optind) (\<lambda>key.
     call ''semget'' [key, 0, 0] [] (\<lambda>semid. need semid ''semget error'' (
     let optind = optind - 1; nops = length args - optind in
     call ''calloc'' [int nops, 6] [] (\<lambda>ptr. need ptr ''calloc error'' (
     call ''semop'' [semid, int nops]
       (concat (map (\<lambda>i. sembuf (int i) (atoi (args ! optind)) flag) [0..<nops])) (\<lambda>r.
     need r ''semop error'' (exit 0))))))))"

section \<open>Shared memory\<close>

text \<open>
  The loops over a mapped segment, from index \<open>i\<close>, an \<open>int\<close>, and the bytes that \<open>ptr\<close> points to: \<open>*ptr++ = i % 256\<close>, and the check that prints
  every byte that differs. \<open>++i\<close> at \<open>INT_MAX\<close> is undefined. The event \<open>memory\<close> records the contents of the segment at the end of the program.
\<close>

fun write_bytes :: "int \<Rightarrow> string \<Rightarrow> (string \<Rightarrow> prog) \<Rightarrow> prog" where
  "write_bytes i [] k = k []"
| "write_bytes i (_ # m) k = (if i < INT_MAX then write_bytes (i + 1) m (\<lambda>bs. k (char_of (i mod 256) # bs)) else undef)"

fun check_bytes :: "(int \<Rightarrow> char \<Rightarrow> string) \<Rightarrow> int \<Rightarrow> string \<Rightarrow> prog \<Rightarrow> prog" where
  "check_bytes line i [] k = k"
| "check_bytes line i (c # m) k = (let next = (if i < INT_MAX then check_bytes line (i + 1) m k else undef)
     in if of_char c \<noteq> i mod 256 then printf (line i c) next else next)"

definition byte_line :: "string \<Rightarrow> string \<Rightarrow> string \<Rightarrow> int \<Rightarrow> char \<Rightarrow> string" where
  "byte_line pre mid post i c = pre @ show_int i @ mid @ show_int (of_char c) @ post"

definition memory :: "string \<Rightarrow> prog" where
  "memory m = emit (Sys ''memory'' [] m 0) (exit 0)"

text \<open>\<open>shmat\<close> or \<open>mmap\<close>, then the size: the answer has the contents of the segment.\<close>

definition svshm_attach :: "string list \<Rightarrow> (string \<Rightarrow> prog) \<Rightarrow> prog" where
  "svshm_attach argv k = (if length argv \<noteq> 2 then usage argv '' <pathname>'' 1 else
     with_key (argv ! 1) (\<lambda>key.
     call ''shmget'' [key, 0, 418] [] (\<lambda>shmid. need shmid ''shmget error'' (
     call ''shmat'' [shmid] [] (\<lambda>ptr. need ptr ''shmat error'' (
     syscall (\<lambda>a. Sys ''shmctl'' [shmid, IPC_STAT] [] (max (- 1) (ret a))) (\<lambda>a.
       if ret a < 0 then report ''shmctl error'' else k (data a))))))))"

definition svshm_write_main :: "string list \<Rightarrow> prog" where
  "svshm_write_main argv = svshm_attach argv (\<lambda>m. write_bytes 0 m memory)"

definition svshm_read_main :: "string list \<Rightarrow> prog" where
  "svshm_read_main argv = svshm_attach argv (\<lambda>m. check_bytes (byte_line ''ptr['' ''] = '' [NL]) 0 m (exit 0))"

definition shmget_main :: "string list \<Rightarrow> prog" where
  "shmget_main argv = (case getopt (flags_only ''e'') (tl argv) of (os, used, ops) \<Rightarrow>
     if length ops \<noteq> 2 then usage argv '' [-e] <pathname> <length>'' 1 else
     with_key (ops ! 0) (\<lambda>key.
     call ''shmget'' [key, atoi (ops ! 1) mod 2 ^ 64, 418 + IPC_CREAT + (if has_opt (CHR ''e'') os then IPC_EXCL else 0)] [] (\<lambda>shmid.
     need shmid ''shmget error'' (
     call ''shmat'' [shmid] [] (\<lambda>ptr. need ptr ''shmat error'' (exit 0)))))) "

definition shmrmid_main :: "string list \<Rightarrow> prog" where
  "shmrmid_main argv = (if length argv \<noteq> 2 then usage argv '' <pathname>'' 1 else
     with_key (argv ! 1) (\<lambda>key.
     call ''shmget'' [key, 0, 418] [] (\<lambda>shmid. need shmid ''shmget error'' (
     call ''shmctl'' [shmid, IPC_RMID] [] (\<lambda>r. need r ''shmctl error'' (exit 0))))))"

subsection \<open>POSIX shared memory\<close>

definition shmcreate_main :: "string list \<Rightarrow> prog" where
  "shmcreate_main argv = (case getopt (flags_only ''e'') (tl argv) of (os, used, ops) \<Rightarrow>
     if length ops \<noteq> 2 then usage argv '' [-e] <name> <length>'' 1 else
     call ''shm_open'' [O_RDWR + O_CREAT + (if has_opt (CHR ''e'') os then O_EXCL else 0), FILE_MODE] (ops ! 0) (\<lambda>fd.
     need fd ''shm_open error'' (
     call ''ftruncate'' [fd, atoi (ops ! 1)] [] (\<lambda>r. need r ''ftruncate error'' (
     call ''mmap'' [fd, atoi (ops ! 1)] [] (\<lambda>p. need p ''mmap error'' (exit 0)))))))"

definition pxshm_attach :: "int \<Rightarrow> string list \<Rightarrow> (string \<Rightarrow> prog) \<Rightarrow> prog" where
  "pxshm_attach oflag argv k = (if length argv \<noteq> 2 then usage argv '' <name>'' 1 else
     call ''shm_open'' [oflag, FILE_MODE] (argv ! 1) (\<lambda>fd. need fd ''shm_open error'' (
     syscall (\<lambda>a. Sys ''fstat'' [fd] [] (max (- 1) (ret a))) (\<lambda>a.
       if ret a < 0 then report ''fstat error'' else
       call ''mmap'' [fd, int (length (data a))] [] (\<lambda>p. need p ''mmap error'' (close fd (k (data a))))))))"

definition pxshm_write_main :: "string list \<Rightarrow> prog" where
  "pxshm_write_main argv = pxshm_attach O_RDWR argv (\<lambda>m. write_bytes 0 m memory)"

definition pxshm_read_main :: "string list \<Rightarrow> prog" where
  "pxshm_read_main argv = pxshm_attach 0 argv (\<lambda>m. check_bytes (byte_line ''*ptr['' ''] = '' []) 0 m (exit 0))"

definition shmunlink_main :: "string list \<Rightarrow> prog" where
  "shmunlink_main argv = (if length argv \<noteq> 2 then usage argv '' <name>'' 1 else
     call ''shm_unlink'' [] (argv ! 1) (\<lambda>r. need r ''shm_unlink error'' (exit 0)))"

section \<open>POSIX semaphores\<close>

text \<open>\<open>sem_open\<close> returns a pointer; \<open>-1\<close> is \<open>SEM_FAILED\<close>. \<open>sem_getvalue\<close> delivers the value.\<close>

definition sem_getvalue :: "int \<Rightarrow> (int \<Rightarrow> prog) \<Rightarrow> prog" where
  "sem_getvalue sem k = syscall (\<lambda>a. Sys ''sem_getvalue'' [sem] (data a) (max (- 1) (ret a)))
     (\<lambda>a. if ret a < 0 then report ''sem_getvalue error'' else k (int_val (data a)))"

definition pxsem_semcreate_main :: "string list \<Rightarrow> prog" where
  "pxsem_semcreate_main argv = (case getopt (\<lambda>c. if c = CHR ''e'' then Some False else if c = CHR ''i'' then Some True else None) (tl argv)
     of (os, used, ops) \<Rightarrow>
     if length ops \<noteq> 1 then usage argv '' [-e] [-i intivalue] <name>'' 1 else
     call ''sem_open'' [O_RDWR + O_CREAT + (if has_opt (CHR ''e'') os then O_EXCL else 0), FILE_MODE,
         last_arg (CHR ''i'') 1 (\<lambda>s. c_uint (atoi s)) os] (ops ! 0) (\<lambda>sem. need sem ''sem_open error'' (
     call ''sem_close'' [sem] [] (\<lambda>r. need r ''sem_close error'' (exit 0)))))"

definition semgetvalue_main :: "string list \<Rightarrow> prog" where
  "semgetvalue_main argv = (if length argv \<noteq> 2 then usage argv '' <name>'' 1 else
     call ''sem_open'' [0] (argv ! 1) (\<lambda>sem. need sem ''sem_open error'' (
     sem_getvalue sem (\<lambda>val. say (''value = '' @ show_int val)))))"

definition sempost_main :: "string list \<Rightarrow> prog" where
  "sempost_main argv = (if length argv \<noteq> 2 then usage argv '' <name>'' 1 else
     call ''sem_open'' [0] (argv ! 1) (\<lambda>sem. need sem ''sem_open error'' (
     call ''sem_post'' [sem] [] (\<lambda>r. need r ''sem_post error'' (
     sem_getvalue sem (\<lambda>val. say (''value = '' @ show_int val)))))))"

definition semwait_main :: "string list \<Rightarrow> prog" where
  "semwait_main argv = (if length argv \<noteq> 2 then usage argv '' <name>'' 1 else
     call ''sem_open'' [0] (argv ! 1) (\<lambda>sem. need sem ''sem_open error'' (
     call ''sem_wait'' [sem] [] (\<lambda>r. need r ''sem_wait error'' (
     sem_getvalue sem (\<lambda>val. call ''getpid'' [] [] (\<lambda>pid.
     printf (''pid '' @ show_int pid @ '' has semaphore, value = '' @ show_int val @ [NL]) (
     call0 ''pause'' [] [] (exit 0)))))))))"

definition semunlink_main :: "string list \<Rightarrow> prog" where
  "semunlink_main argv = (if length argv \<noteq> 2 then usage argv '' <name>'' 1 else
     call ''sem_unlink'' [] (argv ! 1) (\<lambda>r. need r ''sem_unlink error'' (exit 0)))"

section \<open>POSIX message queues\<close>

text \<open>
  \<open>mq_getattr\<close> delivers the attributes; the model keeps the maximal number of messages, the
  maximal size and the current number, as three \<open>long\<close>s.
\<close>

record mq_attr =
  mq_maxmsg :: int
  mq_msgsize :: int
  mq_curmsgs :: int

definition attr_of :: "string \<Rightarrow> mq_attr" where
  "attr_of bs = \<lparr>mq_maxmsg = le_val (take 8 bs), mq_msgsize = le_val (take 8 (drop 8 bs)),
     mq_curmsgs = le_val (take 8 (drop 16 bs))\<rparr>"

definition mq_getattr :: "int \<Rightarrow> (int \<Rightarrow> mq_attr \<Rightarrow> prog) \<Rightarrow> prog" where
  "mq_getattr mqd k = syscall (\<lambda>a. Sys ''mq_getattr'' [mqd] (data a) (max (- 1) (ret a)))
     (\<lambda>a. k (max (- 1) (ret a)) (attr_of (data a)))"

definition mq_receive :: "int \<Rightarrow> int \<Rightarrow> (int \<Rightarrow> int \<Rightarrow> int \<Rightarrow> prog) \<Rightarrow> prog" where
  "mq_receive mqd size' k = syscall
     (\<lambda>a. Sys ''mq_receive'' [mqd, size'] (if ret a < 0 then [] else take (nat size') (data a))
        (if ret a < 0 then - 1 else int (length (take (nat size') (data a)))))
     (\<lambda>a. if ret a < 0 then k (- 1) 0 (errno a) else k (int (length (take (nat size') (data a)))) (le_val (extra a)) 0)"

definition cannot_open :: "string \<Rightarrow> string \<Rightarrow> prog" where
  "cannot_open who sep = report (who @ sep @ ''can'' @ [CHR 0x27] @ ''t open'')"

definition mqcreate1_main :: "string list \<Rightarrow> prog" where
  "mqcreate1_main argv = (if length argv \<noteq> 2 then usage argv '' mqname'' 1 else
     call ''mq_open'' [O_RDWR + O_CREAT, FILE_MODE] (argv ! 1) (\<lambda>mqd.
     if mqd = - 1 then report (argv ! 0 @ '': can'' @ [CHR 0x09] @ '' open'') else close mqd (exit 0)))"

text \<open>Attributes are passed only when both are given.\<close>

definition mqcreate_main :: "string list \<Rightarrow> prog" where
  "mqcreate_main argv = (case getopt (\<lambda>c. if c = CHR ''e'' then Some False
       else if c \<in> {CHR ''m'', CHR ''z''} then Some True else None) (tl argv) of (os, used, ops) \<Rightarrow>
     if length ops \<noteq> 1 then usage argv '' [-e] [-m maxmsg -z msgsize] <name>'' 1 else
     let maxmsg = last_arg (CHR ''m'') 0 atol os; msgsize = last_arg (CHR ''z'') 0 atol os in
     if maxmsg \<noteq> 0 \<and> msgsize = 0 \<or> maxmsg = 0 \<and> msgsize \<noteq> 0 then
       printf (''must specify both -m maxmsg end -z msgsize'' @ [NL]) (exit 1) else
     call ''mq_open'' ([O_RDWR + O_CREAT + (if has_opt (CHR ''e'') os then O_EXCL else 0), FILE_MODE]
         @ (if maxmsg \<noteq> 0 then [maxmsg, msgsize] else [])) (ops ! 0) (\<lambda>mqd.
     if mqd = - 1 then cannot_open (argv ! 0) '': '' else close mqd (exit 0)))"

definition mqgetattr_main :: "string list \<Rightarrow> prog" where
  "mqgetattr_main argv = (if length argv \<noteq> 2 then usage argv '' <mqname>'' 1 else
     call ''mq_open'' [0] (argv ! 1) (\<lambda>mqd. if mqd = - 1 then cannot_open (argv ! 1) '' :'' else
     mq_getattr mqd (\<lambda>r attr. if r = - 1 then report ''mq_getarrt() error'' else
     printf (''max #msg = '' @ show_int (mq_maxmsg attr) @ '', max #bytes/msg = '' @ show_int (mq_msgsize attr)
       @ '', #currently on queue = '' @ show_int (mq_curmsgs attr) @ [NL]) (
     call ''mq_close'' [mqd] [] (\<lambda>r. if r = - 1 then report ''mq_close() error'' else exit 0)))))"

definition mqsend_main :: "string list \<Rightarrow> prog" where
  "mqsend_main argv = (if length argv \<noteq> 4 then usage argv '' <mq_name> <#nbytes> <priority>'' 1 else
     let len = atoi (argv ! 2); prio = c_uint (atoi (argv ! 3)) in
     call ''mq_open'' [1] (argv ! 1) (\<lambda>mqd. if mqd = - 1 then cannot_open (argv ! 1) '' :'' else
     call0 ''calloc'' [len mod 2 ^ 64, 1] [] (
     call ''mq_send'' [mqd, len mod 2 ^ 64, prio] (replicate (nat len) NUL) (\<lambda>r.
     if r = - 1 then report ''mq_send() error'' else exit 0))))"

definition mqreceive_main :: "string list \<Rightarrow> prog" where
  "mqreceive_main argv = (case getopt (flags_only ''n'') (tl argv) of (os, used, ops) \<Rightarrow>
     if length ops \<noteq> 1 then usage argv '' [-n] <mqname>'' 1 else
     call ''mq_open'' [if has_opt (CHR ''n'') os then O_NONBLOCK else 0] (ops ! 0) (\<lambda>mqd.
     if mqd = - 1 then cannot_open (argv ! 0) '' :'' else
     mq_getattr mqd (\<lambda>_ attr.
     call ''malloc'' [mq_msgsize attr] [] (\<lambda>buf. if buf = - 1 then report ''malloc error'' else
     mq_receive mqd (mq_msgsize attr) (\<lambda>n prio _. if n = - 1 then report ''mq_receive() error'' else
     say (''read '' @ show_int n @ '' bytes, priority='' @ show_int prio))))))"

definition mqunlink_main :: "string list \<Rightarrow> prog" where
  "mqunlink_main argv = (if length argv \<noteq> 2 then printf (''usage: '' @ argv ! 0 @ '' <mqname>'') (exit 1) else
     call ''mq_unlink'' [] (argv ! 1) (\<lambda>r. if r = - 1 then report (argv ! 1 @ '': can'' @ [CHR 0x27] @ ''t unlink'') else exit 0))"

section \<open>Reasoning\<close>

lemma getopt_operands:
  assumes "\<forall>a \<in> set as. \<not> (length a \<ge> 2 \<and> hd a = CHR ''-'')"
  shows "getopt spec as = ([], [], as)"
  using assms
proof (induction as)
  case (Cons a as)
  then have "a \<noteq> ''--''" by auto
  with Cons show ?case by auto
qed simp

text \<open>The contents shmwrite should leave: every byte is its index modulo 256.\<close>

definition pattern :: "nat \<Rightarrow> string" where
  "pattern n = map (\<lambda>i. char_of (i mod 256)) [0..<n]"

lemma length_pattern [simp]: "length (pattern n) = n"
  by (simp add: pattern_def)

lemma write_bytes_from:
  "write_bytes (int i) m k = (if m = [] \<or> int (i + length m) \<le> INT_MAX
     then k (map (\<lambda>j. char_of (j mod 256)) [i..<i + length m]) else undef)"
proof (induction m arbitrary: i k)
  case (Cons c m)
  have e: "(char_of (int i mod 256) :: char) = char_of (i mod 256)"
    by (metis char_of_nat of_nat_mod of_nat_numeral)
  have u: "[i..<i + length (c # m)] = i # [Suc i..<Suc i + length m]" by (simp add: upt_conv_Cons del: upt_Suc)
  show ?case using Cons.IH [of "Suc i"] unfolding u by (auto simp: e algebra_simps)
qed simp

lemma check_bytes_from:
  "m = [] \<or> int (i + length m) \<le> INT_MAX \<Longrightarrow> k = exit 0 \<Longrightarrow>
    fst (check_bytes line (int i) m k w) = Exit 0 \<and>
       printed (trace (snd (check_bytes line (int i) m k w))) = printed (trace w) @ concat (map (\<lambda>j. if of_char (m ! j) \<noteq> (i + j) mod 256 then line (int (i + j)) (m ! j) else []) [0..<length m])"
proof (induction m arbitrary: i w)
  case Nil
  then show ?case by (simp add: exit_def)
next
  case (Cons c m)
  have lt: "int i < INT_MAX" "m = [] \<or> int (Suc i + length m) \<le> INT_MAX" using Cons.prems by auto
  have e: "of_char c = int i mod 256 \<longleftrightarrow> of_char c = i mod 256"
    by (metis of_char_of of_nat_eq_iff of_nat_mod of_nat_numeral of_nat_of_char)
  have z: "map f [0..<length (c # m)] = f 0 # map (\<lambda>j. f (Suc j)) [0..<length m]" for f :: "nat \<Rightarrow> string"
    by (simp add: upt_conv_Cons map_Suc_upt [symmetric] del: upt_Suc)
  have n: "int i + 1 = int (Suc i)" "\<And>j. i + Suc j = Suc i + j" by simp_all
  show ?case
    using Cons.IH [OF lt(2) Cons.prems(2)] lt(1) unfolding z
    by (simp add: e n Let_def printf_def emit_def del: of_nat_Suc cong: if_cong)
qed

lemma check_bytes_overflow:
  "INT_MAX < int (i + length m) \<Longrightarrow> int i \<le> INT_MAX \<Longrightarrow> fst (check_bytes line (int i) m k w) = Undefined"
proof (induction m arbitrary: i w)
  case (Cons c m)
  then show ?case
    using Cons.IH [of "Suc i"] by (auto simp: Let_def printf_def emit_def undef_def algebra_simps)
qed simp

lemma concat_if_Nil:
  assumes "\<And>i. g i \<noteq> []"
  shows "concat (map (\<lambda>i. if P i then g i else []) xs) = [] \<longleftrightarrow> (\<forall>i \<in> set xs. \<not> P i)"
  using assms by (induction xs) auto

lemma bytes_pattern: "(\<forall>i < length m. of_char (m ! i) = i mod 256) \<longleftrightarrow> m = pattern (length m)"
proof -
  have "of_char (m ! i) = i mod 256 \<longleftrightarrow> m ! i = char_of (i mod 256)" for i
    by (metis char_of_char mod_mod_trivial of_char_of)
  then show ?thesis unfolding list_eq_iff_nth_eq [of m] by (simp add: pattern_def)
qed

text \<open>The segment as shmread sees it; \<open>w0\<close> is the world before the loop.\<close>

lemma check_bytes_pattern:
  assumes "int (length m) \<le> INT_MAX" and "pre \<noteq> []" and "printed (trace w) = []"
  shows "fst (check_bytes (byte_line pre mid post) 0 m (exit 0) w) = Exit 0 \<and>
    (printed (trace (snd (check_bytes (byte_line pre mid post) 0 m (exit 0) w))) = [] \<longleftrightarrow> m = pattern (length m))"
proof -
  have "byte_line pre mid post i c \<noteq> []" for i c using assms(2) by (simp add: byte_line_def)
  then have "concat (map (\<lambda>j. if of_char (m ! j) \<noteq> j mod 256 then byte_line pre mid post (int j) (m ! j) else []) [0..<length m]) = []
      \<longleftrightarrow> (\<forall>j \<in> set [0..<length m]. \<not> of_char (m ! j) \<noteq> j mod 256)" by (rule concat_if_Nil)
  also have "\<dots> \<longleftrightarrow> m = pattern (length m)" by (subst bytes_pattern [symmetric]) auto
  finally have c: "concat (map (\<lambda>j. if of_char (m ! j) \<noteq> j mod 256 then byte_line pre mid post (int j) (m ! j) else []) [0..<length m]) = []
      \<longleftrightarrow> m = pattern (length m)" .
  show ?thesis
    using check_bytes_from [where m = m and i = 0 and line = "byte_line pre mid post" and w = w] assms(1,3) c by (simp split: prod.splits)
qed

lemma ushorts_of_ushorts: "ushorts_of (ushorts vs) = map c_ushort vs"
proof (induction vs)
  case (Cons v vs)
  obtain a b where ab: "le_bytes 2 (c_ushort v) = [a, b]" by (simp add: eval_nat_numeral)
  then have "le_val [a, b] = c_ushort v"
    using le_val_bytes [of 2 "c_ushort v"] by (simp add: c_ushort_def)
  with ab Cons show ?case by (simp add: ushorts_def)
qed (simp add: ushorts_def)

lemma for_each_print_value:
  "printed (trace (snd (for_each (zip [i..<i + length vs] vs) print_value () (\<lambda>_. exit 0) w)))
    = printed (trace w) @ concat (map (\<lambda>j. value_line (i + j) (vs ! j)) [0..<length vs])"
proof (induction vs arbitrary: i w)
  case (Cons v vs)
  have "zip [i..<i + length (v # vs)] (v # vs) = (i, v) # zip [Suc i..<Suc i + length vs] vs"
    by (simp add: upt_conv_Cons del: upt_Suc)
  moreover have "[0..<length (v # vs)] = 0 # map Suc [0..<length vs]"
    by (simp add: upt_conv_Cons map_Suc_upt del: upt_Suc)
  ultimately show ?case
    using Cons.IH [of "Suc i"] by (simp add: print_value_def printf_def emit_def comp_def del: upt_Suc)
qed (simp add: exit_def)

lemma printed_print_values:
  "printed (trace (snd (print_values (map f vs) (exit 0) w)))
    = printed (trace w) @ concat (map (\<lambda>j. value_line j (f (vs ! j))) [0..<length vs])"
proof -
  have "map (\<lambda>j. value_line j (map f vs ! j)) [0..<length vs] = map (\<lambda>j. value_line j (f (vs ! j))) [0..<length vs]"
    by simp
  then show ?thesis
    using for_each_print_value [of 0 "map f vs" w] by (simp only: print_values_def length_map add_0)
qed

section \<open>Properties\<close>

text \<open>
  C35. The shared-memory tools agree, for the System V and for the POSIX pair and segments of at most \<open>INT_MAX\<close> bytes: shmwrite leaves every
  byte equal to its index modulo 256, and shmread, which always ends, prints nothing exactly for a segment with that contents. With a longer segment the
  index of all four loops overflows, which is undefined.
\<close>

theorem shm_write_read:
  assumes "length argv = 2" and "0 \<le> key" and "0 \<le> shmid" and "0 \<le> p" and "0 \<le> st"
  shows "case svshm_write_main argv (boot [Ans key 0 [] [], Ans shmid 0 [] [], Ans p 0 [] [], Ans st 0 m []]) of (r, w) \<Rightarrow>
     case pxshm_write_main argv (boot [Ans key 0 [] [], Ans st 0 m [], Ans p 0 [] [], Ans 0 0 [] []]) of (r', w') \<Rightarrow>
     case svshm_read_main argv (boot [Ans key 0 [] [], Ans shmid 0 [] [], Ans p 0 [] [], Ans st 0 m []]) of (q, v) \<Rightarrow>
     case pxshm_read_main argv (boot [Ans key 0 [] [], Ans st 0 m [], Ans p 0 [] [], Ans 0 0 [] []]) of (q', v') \<Rightarrow>
     if int (length m) \<le> INT_MAX then
       r = Exit 0 \<and> last (trace w) = Sys ''memory'' [] (pattern (length m)) 0 \<and>
       r' = Exit 0 \<and> last (trace w') = Sys ''memory'' [] (pattern (length m)) 0 \<and>
       q = Exit 0 \<and> (printed (trace v) = [] \<longleftrightarrow> m = pattern (length m)) \<and>
       q' = Exit 0 \<and> (printed (trace v') = [] \<longleftrightarrow> m = pattern (length m))
     else r = Undefined \<and> r' = Undefined \<and> q = Undefined \<and> q' = Undefined"
proof -
  have w: "write_bytes 0 m k = (if int (length m) \<le> INT_MAX then k (pattern (length m)) else undef)" for k
    using write_bytes_from [of 0 m k] by (cases m) (simp_all add: pattern_def INT_MAX_def)
  have ov: "fst (check_bytes line 0 m k v) = Undefined" if "\<not> int (length m) \<le> INT_MAX" for line k v
    using check_bytes_overflow [of 0 m line k v] that by (simp add: INT_MAX_def)
  have n: "max (- 1) key = key" "max (- 1) shmid = shmid" "max (- 1) p = p" "max (- 1) st = st" "key \<noteq> - 1" "shmid \<noteq> - 1" "p \<noteq> - 1" "st \<noteq> - 1" "\<not> st < 0"
    using assms by simp_all
  show ?thesis
  proof (cases "int (length m) \<le> INT_MAX")
    case True
    note ok = conjunct1 [OF check_bytes_pattern [OF True]] conjunct2 [OF check_bytes_pattern [OF True]]
    from True show ?thesis
      by (simp add: svshm_write_main_def pxshm_write_main_def svshm_read_main_def pxshm_read_main_def svshm_attach_def pxshm_attach_def
          with_key_def prog_defs syscall_def memory_def assms(1) n w ok prod.case_eq_if)
  next
    case False
    then show ?thesis
      by (simp add: svshm_write_main_def pxshm_write_main_def svshm_read_main_def pxshm_read_main_def svshm_attach_def pxshm_attach_def
          with_key_def prog_defs syscall_def assms(1) n w ov prod.case_eq_if)
  qed
qed

theorem shm_write_read_witness:
  "fst (svshm_read_main [''shmread'', ''/tmp''] (boot [Ans 1 0 [] [], Ans 2 0 [] [], Ans 3 0 [] [], Ans 0 0 (pattern 300) []])) = Exit 0 \<and>
   printed (trace (snd (svshm_read_main [''shmread'', ''/tmp''] (boot [Ans 1 0 [] [], Ans 2 0 [] [], Ans 3 0 [] [], Ans 0 0 (pattern 300) []])))) = []"
proof -
  have "length [''shmread'', ''/tmp''] = 2" "(0::int) \<le> 1" "(0::int) \<le> 2" "(0::int) \<le> 3" "(0::int) \<le> 0" by simp_all
  from shm_write_read [OF this, of "pattern 300"] show ?thesis
    by (simp only: length_pattern simp_thms INT_MAX_def split: prod.splits) (simp add: prod.split_asm)
qed

text \<open>
  Setting and reading back the values of a semaphore set of \<open>n\<close> semaphores: given \<open>n\<close> values,
  semsetvalues passes them to the kernel as unsigned shorts and exits with 0; semgetvalues, fed
  with what was passed, prints each value modulo 65536 with its index; given any other number of
  values, semsetvalues exits with 1 and sets nothing.
\<close>

theorem sem_values_roundtrip:
  assumes "0 \<le> n" and "n < 2 ^ 31" and "0 \<le> key" and "0 \<le> semid" and "0 \<le> p"
  shows "case semsetvalues_main ([prog, path] @ vs) (boot [Ans key 0 [] [], Ans semid 0 [] [],
       Ans 0 0 (le_bytes 8 n) [], Ans p 0 [] [], Ans 0 0 [] []]) of (r, w) \<Rightarrow>
      (if int (length vs) = n
       then r = Exit 0 \<and> last (trace w) = Sys ''semctl'' [semid, 0, SETALL] (ushorts (map atoi vs)) 0 \<and>
         printed (trace (snd (semgetvalues_main [prog, path] (boot [Ans key 0 [] [], Ans semid 0 [] [],
             Ans 0 0 (le_bytes 8 n) [], Ans p 0 [] [], Ans 0 0 (ushorts (map atoi vs)) []]))))
           = concat (map (\<lambda>j. value_line j (c_ushort (atoi (vs ! j)))) [0..<length vs])
       else r = Exit 1 \<and> (\<forall>a bs r. Sys ''semctl'' a bs r \<in> set (trace w) \<longrightarrow> a = [semid, 0, IPC_STAT]))"
proof -
  have n: "le_val (le_bytes 8 n) = n" using assms(1,2) by (simp add: le_val_bytes)
  show ?thesis
  proof (cases "int (length vs) = n")
    case True
    with True assms n show ?thesis
      by (auto simp add: semsetvalues_main_def semgetvalues_main_def with_key_def sem_stat_def prog_defs syscall_def ushorts_of_ushorts printed_print_values)
  next
    case False
    with assms n show ?thesis
      by (simp add: semsetvalues_main_def with_key_def sem_stat_def prog_defs syscall_def)
  qed
qed

theorem sem_values_roundtrip_witness:
  "last (trace (snd (semsetvalues_main ([''semsetvalues'', ''/tmp''] @ [''1'', ''65536'']) (boot [Ans 1 0 [] [], Ans 2 0 [] [],
       Ans 0 0 (le_bytes 8 2) [], Ans 3 0 [] [], Ans 0 0 [] []]))))
      = Sys ''semctl'' [2, 0, SETALL] (ushorts [1, 65536]) 0"
proof -
  have "map atoi [''1'', ''65536''] = [1, 65536]" by code_simp
  with sem_values_roundtrip [of 2 1 2 3 "[''1'', ''65536'']" "''semsetvalues''" "''/tmp''"] show ?thesis
    by (auto split: prod.splits)
qed

text \<open>
  semops ignores the operations it is given: for a command line without options, the array passed
  to \<open>semop\<close> has two elements more than there are operations, and each is the number that
  \<open>atoi\<close> makes of the program's own name.
\<close>

theorem semops_ignores_operations:
  assumes "ops \<noteq> []" and "\<forall>a \<in> set (path # ops). \<not> (length a \<ge> 2 \<and> hd a = CHR ''-'')"
    and "0 \<le> key" and "0 \<le> semid" and "0 \<le> p" and "0 \<le> r"
  shows "last (trace (snd (semops_main (prog # path # ops) (boot [Ans key 0 [] [], Ans semid 0 [] [], Ans p 0 [] [], Ans r 0 [] []]))))
    = Sys ''semop'' [semid, int (length ops + 2)]
        (concat (map (\<lambda>i. sembuf (int i) (atoi prog) 0) [0..<length ops + 2])) r"
proof -
  have "getopt (flags_only ''nu'') (path # ops) = ([], [], path # ops)"
    using assms(2) by (rule getopt_operands)
  moreover obtain x xs where "ops = x # xs" using assms(1) by (cases ops) auto
  ultimately show ?thesis
    using assms(3-6)
    by (simp add: semops_main_def with_key_def prog_defs syscall_def Let_def has_opt_def del: upt_Suc)
qed

theorem semops_ignores_operations_witness:
  "last (trace (snd (semops_main [''semops'', ''/tmp'', ''3''] (boot [Ans 1 0 [] [], Ans 2 0 [] [], Ans 4 0 [] [], Ans 0 0 [] []]))))
    = Sys ''semop'' [2, 3] (sembuf 0 0 0 @ sembuf 1 0 0 @ sembuf 2 0 0) 0"
proof -
  have "atoi ''semops'' = 0" by code_simp
  with semops_ignores_operations [of "[''3'']" "''/tmp''" 1 2 4 0 "''semops''"] show ?thesis
    by (simp add: eval_nat_numeral)
qed

end
