(* ===== verification/Clock.thy ===== *)
theory Clock
  imports Prelude "HOL-Library.Signed_Division"
begin

text \<open>
  The time types of \<^verbatim>\<open>src/ds/timer-heap\<close>: \<open>Timespan\<close>, a signed 64-bit number of microseconds, and
  \<open>Timestamp\<close>, an unsigned one counted from the epoch. A signed overflow is undefined in C++ and is
  \<open>None\<close> here; unsigned arithmetic wraps around. A call of a member function that ends without the
  \<open>return\<close> its type asks for is undefined too, whatever the function has computed: \<open>no_return\<close>.
\<close>

definition no_return :: "'a \<Rightarrow> 'b option" where
  "no_return computed = None"

section \<open>Timespan\<close>

type_synonym timespan = int

definition in_int64 :: "int \<Rightarrow> bool" where
  "in_int64 x \<longleftrightarrow> - (2 ^ 63) \<le> x \<and> x < 2 ^ 63"

definition int64 :: "int \<Rightarrow> int option" where
  "int64 x = (if in_int64 x then Some x else None)"

definition kMillseconds :: int where "kMillseconds = 1000"
definition kSeconds :: int where "kSeconds = 1000 * 1000"

definition Timespan_default :: timespan where "Timespan_default = 0"

definition Timespan_sec_usec :: "int \<Rightarrow> int \<Rightarrow> timespan option" where
  "Timespan_sec_usec sec usec = Option.bind (int64 (sec * kSeconds)) (\<lambda>p. int64 (p + usec))"

definition ToSeconds :: "timespan \<Rightarrow> int" where
  "ToSeconds span = span sdiv kSeconds"

definition ToMilliseconds :: "timespan \<Rightarrow> int" where
  "ToMilliseconds span = span sdiv kMillseconds"

definition ToMicroseconds :: "timespan \<Rightarrow> int" where
  "ToMicroseconds span = span"

text \<open>
  \<open>ToTimespec\<close> assigns \<open>tv_sec\<close> twice and never \<open>tv_nsec\<close>, which keeps what the stack held.
  \<open>ToTimeval\<close> fills in its result and does not return it.
\<close>

record timespec =
  tv_sec :: int
  tv_nsec :: int

definition ToTimespec :: "int \<Rightarrow> timespan \<Rightarrow> timespec" where
  "ToTimespec stack span = (let ts = \<lparr>tv_sec = ToSeconds span, tv_nsec = stack\<rparr>
     in ts\<lparr>tv_sec := (span smod kSeconds) * 1000\<rparr>)"

record timeval =
  tv_sec' :: int
  tv_usec :: int

definition ToTimeval :: "timespan \<Rightarrow> timeval option" where
  "ToTimeval span = no_return \<lparr>tv_sec' = ToSeconds span, tv_usec = span smod kSeconds\<rparr>"

definition Timespan_usec :: "int \<Rightarrow> timespan" where "Timespan_usec usec = usec"
definition Timespan_copy :: "timespan \<Rightarrow> timespan" where "Timespan_copy span = span"

text \<open>The assigning operators change the object and return it.\<close>

definition Timespan_add_to :: "timespan \<Rightarrow> timespan \<Rightarrow> timespan option" where
  "Timespan_add_to this span = int64 (this + span)"

definition Timespan_sub_from :: "timespan \<Rightarrow> timespan \<Rightarrow> timespan option" where
  "Timespan_sub_from this span = int64 (this - span)"

definition Timespan_plus :: "timespan \<Rightarrow> timespan \<Rightarrow> timespan option" where
  "Timespan_plus lhs rhs = int64 (lhs + rhs)"

definition Timespan_minus :: "timespan \<Rightarrow> timespan \<Rightarrow> timespan option" where
  "Timespan_minus lhs rhs = int64 (lhs - rhs)"

definition Timespan_swap :: "timespan \<Rightarrow> timespan \<Rightarrow> timespan \<times> timespan" where
  "Timespan_swap this other = (other, this)"

definition Timespan_assign :: "timespan \<Rightarrow> timespan \<Rightarrow> timespan" where
  "Timespan_assign this timespan = snd (Timespan_swap timespan this)"

definition span_less :: "timespan \<Rightarrow> timespan \<Rightarrow> bool" where "span_less lhs rhs \<longleftrightarrow> lhs < rhs"
definition span_le :: "timespan \<Rightarrow> timespan \<Rightarrow> bool" where "span_le lhs rhs \<longleftrightarrow> lhs \<le> rhs"
definition span_greater :: "timespan \<Rightarrow> timespan \<Rightarrow> bool" where "span_greater lhs rhs \<longleftrightarrow> \<not> span_le lhs rhs"
definition span_ge :: "timespan \<Rightarrow> timespan \<Rightarrow> bool" where "span_ge lhs rhs \<longleftrightarrow> \<not> span_less lhs rhs"

definition span_eq :: "timespan \<Rightarrow> timespan \<Rightarrow> bool" where "span_eq lhs rhs \<longleftrightarrow> lhs = rhs"
definition span_ne :: "timespan \<Rightarrow> timespan \<Rightarrow> bool" where "span_ne lhs rhs \<longleftrightarrow> \<not> span_eq lhs rhs"

section \<open>Timestamp\<close>

type_synonym timestamp = "64 word"

definition kResolution :: int where "kResolution = 1000 * 1000"

definition stamp_less :: "timestamp \<Rightarrow> timestamp \<Rightarrow> bool" where "stamp_less lhs rhs \<longleftrightarrow> lhs < rhs"
definition stamp_le :: "timestamp \<Rightarrow> timestamp \<Rightarrow> bool" where "stamp_le lhs rhs \<longleftrightarrow> lhs \<le> rhs"
definition stamp_greater :: "timestamp \<Rightarrow> timestamp \<Rightarrow> bool" where "stamp_greater lhs rhs \<longleftrightarrow> \<not> stamp_le lhs rhs"
definition stamp_eq :: "timestamp \<Rightarrow> timestamp \<Rightarrow> bool" where "stamp_eq lhs rhs \<longleftrightarrow> lhs = rhs"
definition stamp_ne :: "timestamp \<Rightarrow> timestamp \<Rightarrow> bool" where "stamp_ne lhs rhs \<longleftrightarrow> \<not> stamp_eq lhs rhs"
definition stamp_ge :: "timestamp \<Rightarrow> timestamp \<Rightarrow> bool" where "stamp_ge lhs rhs \<longleftrightarrow> \<not> stamp_less lhs rhs"

definition stamp_minus :: "timestamp \<Rightarrow> timestamp \<Rightarrow> timespan" where
  "stamp_minus lhs rhs = sint (lhs - rhs)"

definition Timestamp_usec :: "timestamp \<Rightarrow> timestamp" where "Timestamp_usec usec = usec"
definition Timestamp_copy :: "timestamp \<Rightarrow> timestamp" where "Timestamp_copy t = t"

text \<open>\<open>Swap\<close> is declared and used, and not defined anywhere; the assignment is what it would be with a swap of the members.\<close>

definition Timestamp_assign :: "timestamp \<Rightarrow> timestamp \<Rightarrow> timestamp" where
  "Timestamp_assign this t = Timestamp_copy t"

definition EpochMicroseconds :: "timestamp \<Rightarrow> timestamp" where "EpochMicroseconds epoch_usec = epoch_usec"

text \<open>\<open>AddTimespan\<close> changes the object as \<open>add_usec\<close> says and ends without a \<open>return\<close>.\<close>

definition add_usec :: "timestamp \<Rightarrow> timespan \<Rightarrow> timestamp" where
  "add_usec epoch_usec span =
    (let old_value = epoch_usec;
         epoch_usec = epoch_usec + word_of_int span;
         is_positive = span_greater span 0
     in if (is_positive \<and> old_value > epoch_usec) \<or> (\<not> is_positive \<and> old_value < epoch_usec)
        then 0 else epoch_usec)"

definition AddTimespan :: "timestamp \<Rightarrow> timespan \<Rightarrow> timestamp option" where
  "AddTimespan epoch_usec span = no_return (add_usec epoch_usec span)"

text \<open>\<open>Update\<close> with the seconds and microseconds that \<open>gettimeofday\<close> stores.\<close>

definition Update :: "int \<Rightarrow> int \<Rightarrow> timestamp option" where
  "Update sec usec = Option.bind (int64 (sec * kResolution)) (\<lambda>p. map_option word_of_int (int64 (p + usec)))"



definition TimespanFromNow :: "timestamp \<Rightarrow> timestamp \<Rightarrow> timespan" where
  "TimespanFromNow now when = stamp_minus when now"

definition EpochTime :: "timestamp \<Rightarrow> int" where
  "EpochTime epoch_usec = uint epoch_usec div kResolution"

section \<open>Properties\<close>

text \<open>
  The statements of \<open>AddTimespan\<close> do not wrap around: they give the sum when it fits into 64 bits, and otherwise, whether
  above or below, the epoch. But every call is undefined.
\<close>

lemma add_usec_saturates:
  assumes "in_int64 span"
  shows "uint (add_usec t span) =
    (if 0 \<le> uint t + span \<and> uint t + span < 2 ^ 64 then uint t + span else 0)"
proof -
  have t: "0 \<le> uint t" "uint t < 2 ^ 64" using uint_lt2p [of t] by simp_all
  have s: "- (2 ^ 63) \<le> span" "span < 2 ^ 63" using assms by (simp_all add: in_int64_def)
  have p: "(2::int) ^ 64 = 2 * 2 ^ 63" "(0::int) < 2 ^ 63" by simp_all
  have u: "uint (t + word_of_int span) = (uint t + span) mod 2 ^ 64"
    by (simp add: uint_word_ariths uint_word_of_int mod_add_right_eq)
  consider "0 \<le> uint t + span" "uint t + span < 2 ^ 64" | "uint t + span < 0" | "2 ^ 64 \<le> uint t + span"
    by linarith
  then show ?thesis
  proof cases
    case 1
    then have "uint (t + word_of_int span) = uint t + span" unfolding u by simp
    with 1 show ?thesis
      by (auto simp: add_usec_def Let_def span_greater_def span_le_def word_less_def)
  next
    case 2
    have "(uint t + span + 2 ^ 64) mod 2 ^ 64 = uint t + span + 2 ^ 64"
      by (rule mod_pos_pos_trivial) (use 2 t s p in linarith)+
    then have "uint (t + word_of_int span) = uint t + span + 2 ^ 64" using u by simp
    moreover have "span < 0" "\<not> 0 < span" using 2 t by linarith+
    ultimately show ?thesis using 2 s
      by (auto simp: add_usec_def Let_def span_greater_def span_le_def word_less_def)
  next
    case 3
    have "(uint t + span - 2 ^ 64) mod 2 ^ 64 = uint t + span - 2 ^ 64"
      by (rule mod_pos_pos_trivial) (use 3 t s p in linarith)+
    then have "uint (t + word_of_int span) = uint t + span - 2 ^ 64"
      using u by (simp add: mod_diff_right_eq [symmetric] del: mod_diff_right_eq)
    moreover have "0 < span" using 3 t by linarith
    ultimately show ?thesis using 3 s
      by (auto simp: add_usec_def Let_def span_greater_def span_le_def word_less_def)
  qed
qed

lemma AddTimespan_undefined: "AddTimespan t span = None" "ToTimeval span = None"
  by (simp_all add: AddTimespan_def ToTimeval_def no_return_def)






lemma Timespan_parts: "ToSeconds span * kSeconds + span smod kSeconds = span"
  by (simp add: ToSeconds_def sdiv_mult_smod_eq)

lemma span_compare:
  "span_ge a b \<longleftrightarrow> span_greater a b \<or> span_eq a b" "span_le a b \<longleftrightarrow> span_less a b \<or> span_eq a b" "span_ne a b \<longleftrightarrow> span_less a b \<or> span_greater a b"
  by (auto simp: span_ge_def span_greater_def span_eq_def span_le_def span_less_def span_ne_def)

lemma stamp_compare:
  "stamp_ge a b \<longleftrightarrow> stamp_greater a b \<or> stamp_eq a b" "stamp_le a b \<longleftrightarrow> stamp_less a b \<or> stamp_eq a b" "stamp_ne a b \<longleftrightarrow> stamp_less a b \<or> stamp_greater a b"
  by (auto simp: stamp_ge_def stamp_greater_def stamp_eq_def stamp_le_def stamp_less_def stamp_ne_def)

lemma span_add_sub: "Timespan_add_to a b = Some c \<Longrightarrow> in_int64 a \<Longrightarrow> Timespan_sub_from c b = Some a"
  by (auto simp: Timespan_add_to_def Timespan_sub_from_def int64_def split: if_splits)

end
