(* ===== verification/Timer_Heap.thy ===== *)
theory Timer_Heap
  imports Clock "HOL-Library.Multiset"
begin

text \<open>
  The timer heap of \<^verbatim>\<open>src/ds/timer-heap\<close>: a binary min-heap of timers, ordered by deadline, in which
  every timer knows its own position, so that a timer can be cancelled from the middle.

  Timers are shared objects. The model keeps them in a store: a reference is a number that is
  never used twice, the vector \<open>heap\<close> holds owning references, and a weak pointer can be locked as
  long as its object is in the store. \<open>None\<close> is undefined behaviour: an index outside the vector,
  \<open>front\<close> of an empty one.
\<close>

section \<open>Data\<close>

record 'c timer_obj =
  callback :: 'c
  deadline :: timestamp
  interval :: timespan
  tid :: "64 word"
  periodic :: bool
  heap_index :: nat

record timer_id =
  timer :: "nat option"
  uid :: "64 word"

record 'c timers =
  objs :: "nat \<Rightarrow> 'c timer_obj option"
  next_ref :: nat
  counter :: "64 word"
  heap :: "nat list"
  active_timers :: "64 word set"

definition TimerObj :: "'c \<Rightarrow> timestamp \<Rightarrow> timespan \<Rightarrow> 64 word \<Rightarrow> nat \<Rightarrow> 'c timer_obj" where
  "TimerObj cb dl iv new_id index = \<lparr>callback = cb, deadline = dl, interval = iv,
     tid = new_id, periodic = span_greater iv 0, heap_index = index\<rparr>"

text \<open>The call of \<open>AddTimespan\<close> is undefined.\<close>

definition Restart :: "timestamp \<Rightarrow> 'c timer_obj \<Rightarrow> 'c timer_obj option" where
  "Restart now ob = (if periodic ob
     then map_option (\<lambda>d. ob\<lparr>deadline := d\<rparr>) (AddTimespan now (interval ob))
     else Some (ob\<lparr>deadline := 0\<rparr>))"

definition UniqueID :: "64 word \<Rightarrow> 64 word" where
  "UniqueID c = c + 1"

section \<open>The heap\<close>

definition less_at :: "'c timers \<Rightarrow> nat \<Rightarrow> nat \<Rightarrow> bool option" where
  "less_at s i j = (if i < length (heap s) \<and> j < length (heap s)
     then case (objs s (heap s ! i), objs s (heap s ! j)) of
       (Some a, Some b) \<Rightarrow> Some (stamp_less (deadline a) (deadline b)) | _ \<Rightarrow> None
     else None)"

definition set_index :: "nat \<Rightarrow> nat \<Rightarrow> 'c timers \<Rightarrow> 'c timers" where
  "set_index r i s = s\<lparr>objs := (objs s)(r := map_option (heap_index_update (\<lambda>_. i)) (objs s r))\<rparr>"

definition SwapHeap :: "nat \<Rightarrow> nat \<Rightarrow> 'c timers \<Rightarrow> 'c timers option" where
  "SwapHeap index1 index2 s = (if index1 < length (heap s) \<and> index2 < length (heap s)
     then let h = (heap s)[index1 := heap s ! index2, index2 := heap s ! index1] in
       Some (set_index (h ! index2) index2 (set_index (h ! index1) index1 (s\<lparr>heap := h\<rparr>)))
     else None)"

lemma SwapHeap_length: "SwapHeap i j s = Some s' \<Longrightarrow> length (heap s') = length (heap s)"
  by (auto simp: SwapHeap_def set_index_def Let_def split: if_splits)

fun UpHeap :: "nat \<Rightarrow> 'c timers \<Rightarrow> 'c timers option" where
  "UpHeap index s = (if index > 0 then
     let parent = (index - 1) div 2 in
     case less_at s index parent of None \<Rightarrow> None
     | Some lt \<Rightarrow> if \<not> lt then Some s else
       (case SwapHeap index parent s of None \<Rightarrow> None | Some s' \<Rightarrow> UpHeap parent s')
     else Some s)"

definition min_child :: "'c timers \<Rightarrow> nat \<Rightarrow> nat option" where
  "min_child s child = (if child + 1 = length (heap s) then Some child
     else map_option (\<lambda>lt. if lt then child else child + 1) (less_at s child (child + 1)))"

function DownHeap :: "nat \<Rightarrow> 'c timers \<Rightarrow> 'c timers option" where
  "DownHeap index s = (let child = index * 2 + 1 in
     if child < length (heap s) then
       (case min_child s child of None \<Rightarrow> None
        | Some c \<Rightarrow> (case less_at s index c of None \<Rightarrow> None
          | Some lt \<Rightarrow> if lt then Some s else
            (case SwapHeap index c s of None \<Rightarrow> None | Some s' \<Rightarrow> DownHeap c s')))
     else Some s)"
  by pat_completeness auto
termination
  by (relation "measure (\<lambda>(i, s). length (heap s) - i)")
    (auto simp: min_child_def dest!: SwapHeap_length split: if_splits)

definition pop_back :: "'c timers \<Rightarrow> 'c timers" where
  "pop_back s = s\<lparr>heap := butlast (heap s)\<rparr>"

definition RemoveTimer :: "nat option \<Rightarrow> 'c timers \<Rightarrow> 'c timers option" where
  "RemoveTimer wptimer s = (case Option.bind wptimer (\<lambda>r. objs s r) of None \<Rightarrow> Some s
     | Some sptimer \<Rightarrow>
       let s = s\<lparr>active_timers := active_timers s - {tid sptimer}\<rparr>;
           index = heap_index sptimer in
       if heap s = [] then None
       else if index = length (heap s) - 1 then Some (pop_back s)
       else case SwapHeap index (length (heap s) - 1) s of None \<Rightarrow> None
         | Some s' \<Rightarrow> let s' = pop_back s'; parent = (index - 1) div 2 in
           if index > 0 then
             (case less_at s' index parent of None \<Rightarrow> None
              | Some lt \<Rightarrow> if lt then UpHeap index s' else DownHeap index s')
           else DownHeap index s')"

section \<open>The interface\<close>

definition TimerHeap :: "64 word \<Rightarrow> nat \<Rightarrow> 'c timers" where
  "TimerHeap c r = \<lparr>objs = Map.empty, next_ref = r, counter = c, heap = [], active_timers = {}\<rparr>"

definition AddTimer :: "'c \<Rightarrow> timestamp \<Rightarrow> timespan \<Rightarrow> 'c timers \<Rightarrow> (bool \<times> timer_id \<times> 'c timers) option" where
  "AddTimer cb dl iv s =
    (let index = length (heap s);
         new_id = UniqueID (counter s);
         r = next_ref s;
         first = (case heap s of [] \<Rightarrow> Some False
           | f # _ \<Rightarrow> map_option (\<lambda>ob. stamp_less dl (deadline ob)) (objs s f));
         s = s\<lparr>objs := (objs s)(r \<mapsto> TimerObj cb dl iv new_id index), next_ref := Suc r,
           counter := new_id, heap := heap s @ [r], active_timers := insert new_id (active_timers s)\<rparr>
     in case first of None \<Rightarrow> None
        | Some ret \<Rightarrow> map_option (\<lambda>s'. (ret, \<lparr>timer = Some r, uid = new_id\<rparr>, s')) (UpHeap (length (heap s) - 1) s))"

text \<open>A timer that left the heap has no owner after \<open>CancelTimer\<close>, and is destroyed.\<close>

definition drop_ref :: "nat option \<Rightarrow> 'c timers \<Rightarrow> 'c timers" where
  "drop_ref w s = (case w of None \<Rightarrow> s
     | Some r \<Rightarrow> if r \<in> set (heap s) then s else s\<lparr>objs := (objs s)(r := None)\<rparr>)"

definition CancelTimer :: "timer_id \<Rightarrow> 'c timers \<Rightarrow> (timer_id \<times> 'c timers) option" where
  "CancelTimer i s = (if heap s \<noteq> [] \<and> uid i \<in> active_timers s
     then map_option (\<lambda>s'. (\<lparr>timer = None, uid = 0\<rparr>, drop_ref (timer i) s')) (RemoveTimer (timer i) s)
     else Some (i, s))"

declare UpHeap.simps [simp del] DownHeap.simps [simp del]

text \<open>What every swap keeps, sifting keeps.\<close>

lemma UpHeap_keeps:
  assumes "UpHeap i s = Some s'" and "P s"
    and swap: "\<And>i j s s'. P s \<Longrightarrow> SwapHeap i j s = Some s' \<Longrightarrow> P s'"
  shows "P s'"
  using assms(1,2)
proof (induction i s rule: UpHeap.induct)
  case (1 i s)
  show ?case
  proof (cases "0 < i \<and> less_at s i ((i - 1) div 2) = Some True")
    case False
    then have "s' = s" using "1.prems"(1) by (subst (asm) UpHeap.simps) (auto simp: Let_def split: option.splits if_splits)
    then show ?thesis using "1.prems"(2) by simp
  next
    case True
    then obtain t where t: "SwapHeap i ((i - 1) div 2) s = Some t" "UpHeap ((i - 1) div 2) t = Some s'"
      using "1.prems"(1) by (subst (asm) UpHeap.simps) (auto simp: Let_def split: option.splits)
    have "P t" using swap [OF "1.prems"(2) t(1)] .
    then show ?thesis using "1.IH" [OF _ refl _ _ t(1) t(2)] True by simp
  qed
qed

lemma DownHeap_keeps:
  assumes "DownHeap i s = Some s'" and "P s"
    and swap: "\<And>i j s s'. P s \<Longrightarrow> SwapHeap i j s = Some s' \<Longrightarrow> P s'"
  shows "P s'"
  using assms(1,2)
proof (induction i s rule: DownHeap.induct)
  case (1 i s)
  show ?case
  proof (cases "i * 2 + 1 < length (heap s) \<and> (\<exists>c. min_child s (i * 2 + 1) = Some c \<and> less_at s i c = Some False)")
    case False
    then have "s' = s" using "1.prems"(1) by (subst (asm) DownHeap.simps) (auto simp: Let_def split: option.splits if_splits)
    then show ?thesis using "1.prems"(2) by simp
  next
    case True
    then obtain c where c: "min_child s (i * 2 + 1) = Some c" "less_at s i c = Some False" by blast
    then obtain t where t: "SwapHeap i c s = Some t" "DownHeap c t = Some s'"
      using "1.prems"(1) True by (subst (asm) DownHeap.simps) (auto simp: Let_def split: option.splits)
    have "P t" using swap [OF "1.prems"(2) t(1)] .
    then show ?thesis using "1.IH" [OF refl _ c _ t(1) t(2)] True by simp
  qed
qed

lemma UpHeap_length: "UpHeap i s = Some s' \<Longrightarrow> length (heap s') = length (heap s)"
  by (erule UpHeap_keeps [where P = "\<lambda>t. length (heap t) = length (heap s)"]) (auto dest: SwapHeap_length)

lemma DownHeap_length: "DownHeap i s = Some s' \<Longrightarrow> length (heap s') = length (heap s)"
  by (erule DownHeap_keeps [where P = "\<lambda>t. length (heap t) = length (heap s)"]) (auto dest: SwapHeap_length)

lemma RemoveTimer_length:
  assumes "RemoveTimer (Some r) s = Some s'" and "objs s r \<noteq> None"
  shows "length (heap s') < length (heap s)"
  using assms
  by (auto simp: RemoveTimer_def Let_def pop_back_def
      dest!: SwapHeap_length UpHeap_length DownHeap_length split: option.splits if_splits)

text \<open>The expired timers are owned by the vector that is returned, so they stay in the store.\<close>

function GetExpiredTimers :: "timestamp \<Rightarrow> 'c timers \<Rightarrow> (nat list \<times> 'c timers) option" where
  "GetExpiredTimers now s = (case heap s of [] \<Rightarrow> Some ([], s)
     | front # _ \<Rightarrow> (case objs s front of None \<Rightarrow> None
       | Some ob \<Rightarrow> if stamp_ge now (deadline ob) then
           (case RemoveTimer (Some front) s of None \<Rightarrow> None
            | Some s' \<Rightarrow> map_option (\<lambda>(expired, t). (front # expired, t)) (GetExpiredTimers now s'))
         else Some ([], s)))"
  by pat_completeness auto
termination
  by (relation "measure (\<lambda>(now, s). length (heap s))") (auto dest: RemoveTimer_length)

declare GetExpiredTimers.simps [simp del]

text \<open>The condition is inverted: \<open>front\<close> is taken of an empty vector.\<close>

definition GetNextExpire :: "'c timers \<Rightarrow> timestamp option" where
  "GetNextExpire s = (if heap s \<noteq> [] then Some 0
     else case heap s of [] \<Rightarrow> None | f # _ \<Rightarrow> map_option deadline (objs s f))"

end
