(* ===== verification/Timer_Heap_Correct.thy ===== *)
theory Timer_Heap_Correct
  imports Timer_Heap
begin

text \<open>
  Correctness of the timer heap: the heap order and the bookkeeping as an invariant of every
  operation, and the abstract view of the heap as a finite map from timer numbers to timers, which
  adding, cancelling and expiring implement.
\<close>

section \<open>Heap order\<close>

text \<open>
  The order on an array of \<open>n\<close> keys; the order up to a key that may be too small for its place, and
  up to one that may be too large.
\<close>

definition heap_ord :: "nat \<Rightarrow> (nat \<Rightarrow> 'a :: linorder) \<Rightarrow> bool" where
  "heap_ord n k \<longleftrightarrow> (\<forall>j. 0 < j \<and> j < n \<longrightarrow> k ((j - 1) div 2) \<le> k j)"

definition up_ord :: "nat \<Rightarrow> (nat \<Rightarrow> 'a :: linorder) \<Rightarrow> nat \<Rightarrow> bool" where
  "up_ord n k i \<longleftrightarrow> (\<forall>j. 0 < j \<and> j < n \<and> j \<noteq> i \<longrightarrow> k ((j - 1) div 2) \<le> k j) \<and>
     (\<forall>j. 0 < j \<and> j < n \<and> (j - 1) div 2 = i \<and> 0 < i \<longrightarrow> k ((i - 1) div 2) \<le> k j)"

definition down_ord :: "nat \<Rightarrow> (nat \<Rightarrow> 'a :: linorder) \<Rightarrow> nat \<Rightarrow> bool" where
  "down_ord n k i \<longleftrightarrow> (\<forall>j. 0 < j \<and> j < n \<and> (j - 1) div 2 \<noteq> i \<longrightarrow> k ((j - 1) div 2) \<le> k j) \<and>
     (\<forall>j. 0 < j \<and> j < n \<and> (j - 1) div 2 = i \<and> 0 < i \<longrightarrow> k ((i - 1) div 2) \<le> k j)"

lemma up_ord_done:
  assumes "up_ord n k i" and "i = 0 \<or> k ((i - 1) div 2) \<le> k i"
  shows "heap_ord n k"
  using assms unfolding heap_ord_def up_ord_def by (metis less_irrefl)

lemma up_ord_swap:
  assumes "up_ord n k i" and "0 < i" and "i < n" and "k i < k ((i - 1) div 2)"
  shows "up_ord n (k(i := k ((i - 1) div 2), (i - 1) div 2 := k i)) ((i - 1) div 2)"
proof -
  let ?p = "(i - 1) div 2" and ?k = "k(i := k ((i - 1) div 2), (i - 1) div 2 := k i)"
  have p: "?p < i" using assms(2) by linarith
  have a: "k ((j - 1) div 2) \<le> k j" if "0 < j" "j < n" "j \<noteq> i" for j
    using assms(1) that by (simp add: up_ord_def)
  have b: "k ?p \<le> k j" if "0 < j" "j < n" "(j - 1) div 2 = i" for j
    using assms(1,2) that by (simp add: up_ord_def)
  have "?k ((j - 1) div 2) \<le> ?k j" if "0 < j" "j < n" "j \<noteq> ?p" for j
  proof (cases "j = i")
    case True then show ?thesis using p assms(4) by simp
  next
    case False
    then show ?thesis using a [OF that(1,2) False] b [OF that(1,2)] that(3) p assms(4)
      by (cases "(j - 1) div 2 = i"; cases "(j - 1) div 2 = ?p") auto
  qed
  moreover have "?k ((?p - 1) div 2) \<le> ?k j" if "0 < j" "j < n" "(j - 1) div 2 = ?p" "0 < ?p" for j
  proof -
    have q: "(?p - 1) div 2 < ?p" using that(4) by linarith
    have j: "j \<noteq> ?p" using that by linarith
    have up: "k ((?p - 1) div 2) \<le> k ?p" using a [OF that(4)] p assms(3) by simp
    show ?thesis
      using up a [OF that(1,2)] that(3) j q p by (cases "j = i") auto
  qed
  ultimately show ?thesis unfolding up_ord_def by blast
qed

lemma down_ord_done:
  assumes "down_ord n k i" and "\<And>j. 0 < j \<Longrightarrow> j < n \<Longrightarrow> (j - 1) div 2 = i \<Longrightarrow> k i \<le> k j"
  shows "heap_ord n k"
  using assms unfolding heap_ord_def down_ord_def by metis

lemma down_ord_swap:
  assumes "down_ord n k i" and c: "0 < c" "c < n" "(c - 1) div 2 = i" and "k c \<le> k i"
    and least: "\<And>j. 0 < j \<Longrightarrow> j < n \<Longrightarrow> (j - 1) div 2 = i \<Longrightarrow> k c \<le> k j"
  shows "down_ord n (k(i := k c, c := k i)) c"
proof -
  let ?k = "k(i := k c, c := k i)"
  have ic: "i < c" using c by linarith
  have a: "k ((j - 1) div 2) \<le> k j" if "0 < j" "j < n" "(j - 1) div 2 \<noteq> i" for j
    using assms(1) that by (simp add: down_ord_def)
  have "?k ((j - 1) div 2) \<le> ?k j" if j: "0 < j" "j < n" "(j - 1) div 2 \<noteq> c" for j
  proof -
    consider "(j - 1) div 2 = i" | "(j - 1) div 2 \<noteq> i" "j = i" | "(j - 1) div 2 \<noteq> i" "j \<noteq> i" by blast
    then show ?thesis
    proof cases
      case 1
      then have "j \<noteq> i" using ic c by (metis j(1) div_le_dividend diff_less leD less_one order_le_less_trans)
      then show ?thesis using 1 least [OF j(1,2) 1] assms(5) ic by auto
    next
      case 2
      then have "k ((i - 1) div 2) \<le> k c" using assms(1) c j by (simp add: down_ord_def)
      then show ?thesis using 2 j ic by auto
    next
      case 3
      then have "j \<noteq> c" using c by auto
      then show ?thesis using 3 a [OF j(1,2) 3(1)] j(3) by simp
    qed
  qed
  moreover have "?k ((c - 1) div 2) \<le> ?k j" if "0 < j" "j < n" "(j - 1) div 2 = c" for j
  proof -
    have "k c \<le> k j" using a [OF that(1,2)] that(3) ic by simp
    moreover have "j \<noteq> c" "j \<noteq> i" using that ic by linarith+
    ultimately show ?thesis using c(3) ic by simp
  qed
  ultimately show ?thesis unfolding down_ord_def by blast
qed

text \<open>Replacing one key of a heap: the smaller key may have to go up, the other one down.\<close>

lemma replace_ord:
  assumes "heap_ord n k" and "m \<le> n" and "i < m" and same: "\<And>j. j < m \<Longrightarrow> j \<noteq> i \<Longrightarrow> k' j = k j"
  shows "0 < i \<Longrightarrow> k' i < k' ((i - 1) div 2) \<Longrightarrow> up_ord m k' i"
    and "\<not> (0 < i \<and> k' i < k' ((i - 1) div 2)) \<Longrightarrow> down_ord m k' i"
proof -
  have a: "k ((j - 1) div 2) \<le> k j" if "0 < j" "j < m" for j
    using assms(1,2) that by (simp add: heap_ord_def)
  have par: "(j - 1) div 2 < j" if "0 < j" for j :: nat using that by linarith
  have b: "k' ((i - 1) div 2) \<le> k' j" if "0 < i" "0 < j" "j < m" "(j - 1) div 2 = i" for j
    using a [OF that(2,3)] a [OF that(1) assms(3)] that same [of j] same [of "(i - 1) div 2"] par [of i] par [of j] assms(3)
    by simp
  have c: "k' ((j - 1) div 2) \<le> k' j" if "0 < j" "j < m" "(j - 1) div 2 \<noteq> i" "j \<noteq> i" for j
    using a [OF that(1,2)] that same [of j] same [of "(j - 1) div 2"] par [of j] by simp
  show "up_ord m k' i" if "0 < i" "k' i < k' ((i - 1) div 2)"
    unfolding up_ord_def using b c that by (metis order.strict_trans2 order_less_imp_le)
  show "down_ord m k' i" if "\<not> (0 < i \<and> k' i < k' ((i - 1) div 2))"
    unfolding down_ord_def using b c that assms(3) by (metis not_le)
qed

lemma heap_ord_root: "heap_ord n k \<Longrightarrow> i < n \<Longrightarrow> k 0 \<le> k i"
proof (induction i rule: less_induct)
  case (less i)
  show ?case
  proof (cases "i = 0")
    case False
    then have "(i - 1) div 2 < i" by linarith
    then have "k 0 \<le> k ((i - 1) div 2)" using less by simp
    also have "\<dots> \<le> k i" using less.prems False by (simp add: heap_ord_def)
    finally show ?thesis .
  qed simp
qed

section \<open>Positions\<close>

text \<open>Every timer of the heap is alive and knows its position.\<close>

definition indexed :: "'c timers \<Rightarrow> bool" where
  "indexed s \<longleftrightarrow> distinct (heap s) \<and>
     (\<forall>i < length (heap s). \<exists>ob. objs s (heap s ! i) = Some ob \<and> heap_index ob = i)"

definition key :: "'c timers \<Rightarrow> nat \<Rightarrow> timestamp" where
  "key s i = (if i < length (heap s) then deadline (the (objs s (heap s ! i))) else 0)"

text \<open>Two states that differ only in where the timers of the heap are.\<close>

definition strip :: "'c timer_obj \<Rightarrow> 'c timer_obj" where
  "strip ob = ob\<lparr>heap_index := 0\<rparr>"

definition shuffled :: "'c timers \<Rightarrow> 'c timers \<Rightarrow> bool" where
  "shuffled s s' \<longleftrightarrow> mset (heap s') = mset (heap s) \<and>
     (\<forall>r. map_option strip (objs s' r) = map_option strip (objs s r)) \<and>
     next_ref s' = next_ref s \<and> counter s' = counter s \<and> active_timers s' = active_timers s"

lemma shuffled_refl [simp]: "shuffled s s"
  by (simp add: shuffled_def)

lemma shuffled_trans: "shuffled s t \<Longrightarrow> shuffled t u \<Longrightarrow> shuffled s u"
  by (simp add: shuffled_def)

lemma shuffled_length: "shuffled s t \<Longrightarrow> length (heap t) = length (heap s)"
  unfolding shuffled_def by (metis mset_eq_length)

lemma shuffled_set: "shuffled s t \<Longrightarrow> set (heap t) = set (heap s)"
  unfolding shuffled_def by (metis mset_eq_setD)

lemma less_at_indexed:
  assumes "indexed s" and "i < length (heap s)" and "j < length (heap s)"
  shows "less_at s i j = Some (key s i < key s j)"
  using assms by (auto simp: indexed_def less_at_def key_def stamp_less_def split: option.splits)

lemma SwapHeap_ok:
  assumes ix: "indexed s" and i: "i < length (heap s)" and j: "j < length (heap s)" and ij: "i \<noteq> j"
  obtains s' where "SwapHeap i j s = Some s'" and "indexed s'" and "shuffled s s'"
    and "key s' = (key s)(i := key s j, j := key s i)" and "heap s' = (heap s)[i := heap s ! j, j := heap s ! i]"
proof -
  let ?h = "(heap s)[i := heap s ! j, j := heap s ! i]"
  let ?s = "set_index (?h ! j) j (set_index (?h ! i) i (s\<lparr>heap := ?h\<rparr>))"
  have sw: "SwapHeap i j s = Some ?s" using i j by (simp add: SwapHeap_def Let_def)
  have h: "heap ?s = ?h" by (simp add: set_index_def)
  have d: "distinct (heap s)" using ix by (simp add: indexed_def)
  have hij: "?h ! i = heap s ! j" "?h ! j = heap s ! i" using i j ij by simp_all
  have dist: "heap s ! i \<noteq> heap s ! j" using d i j ij by (simp add: nth_eq_iff_index_eq)
  have o: "objs ?s r = (if r = heap s ! i then map_option (heap_index_update (\<lambda>_. j)) (objs s r)
      else if r = heap s ! j then map_option (heap_index_update (\<lambda>_. i)) (objs s r) else objs s r)" for r
    using hij dist by (simp add: set_index_def)
  have oth: "?h ! k = heap s ! k" "heap s ! k \<noteq> heap s ! i" "heap s ! k \<noteq> heap s ! j"
    if "k < length (heap s)" "k \<noteq> i" "k \<noteq> j" for k
    using that d i j by (simp_all add: nth_eq_iff_index_eq)
  have ob: "\<exists>ob. objs s (heap s ! k) = Some ob \<and> heap_index ob = k" if "k < length (heap s)" for k
    using ix that by (simp add: indexed_def)
  have "indexed ?s"
    unfolding indexed_def h
  proof (intro conjI allI impI)
    show "distinct ?h" using d i j by (simp add: distinct_swap)
    fix k assume k: "k < length ?h"
    then show "\<exists>ob. objs ?s (?h ! k) = Some ob \<and> heap_index ob = k"
      using ob [of k] ob [OF i] ob [OF j] hij oth [of k] dist unfolding o by (cases "k = i"; cases "k = j") auto
  qed
  moreover have "shuffled s ?s"
    using i j h unfolding shuffled_def o
    by (auto simp: mset_swap set_index_def strip_def option.map_comp comp_def cong: option.map_cong)
  moreover have "key ?s k = ((key s)(i := key s j, j := key s i)) k" for k
    using ob [of k] ob [OF i] ob [OF j] hij oth [of k] i j unfolding key_def h o
    by (cases "k = i"; cases "k = j"; cases "k < length (heap s)") auto
  ultimately show ?thesis using that [OF sw] h by blast
qed

section \<open>Sifting\<close>

lemma UpHeap_ok:
  assumes "indexed s" and "i < length (heap s)" and "up_ord (length (heap s)) (key s) i"
  shows "\<exists>s'. UpHeap i s = Some s' \<and> indexed s' \<and> shuffled s s' \<and> heap_ord (length (heap s')) (key s')"
  using assms
proof (induction i arbitrary: s rule: less_induct)
  case (less i)
  let ?p = "(i - 1) div 2"
  show ?case
  proof (cases "0 < i \<and> key s i < key s ?p")
    case False
    then have "UpHeap i s = Some s"
      using less.prems by (subst UpHeap.simps) (auto simp: Let_def less_at_indexed)
    moreover have "heap_ord (length (heap s)) (key s)"
      using up_ord_done [OF less.prems(3)] False by fastforce
    ultimately show ?thesis using less.prems by simp
  next
    case True
    then have p: "?p < i" by linarith
    then have pl: "?p < length (heap s)" using less.prems by simp
    obtain t where t: "SwapHeap i ?p s = Some t" "indexed t" "shuffled s t"
        "key t = (key s)(i := key s ?p, ?p := key s i)"
      using SwapHeap_ok [OF less.prems(1,2) pl] p by (metis less_irrefl)
    have "up_ord (length (heap s)) (key t) ?p"
      unfolding t(4) using True less.prems by (intro up_ord_swap) auto
    moreover have "length (heap t) = length (heap s)" using t(3) by (rule shuffled_length)
    ultimately obtain u where u: "UpHeap ?p t = Some u" "indexed u" "shuffled t u" "heap_ord (length (heap u)) (key u)"
      using less.IH [OF p t(2)] pl by auto
    have "UpHeap i s = UpHeap ?p t"
      using True less.prems pl t(1) by (subst UpHeap.simps) (simp add: Let_def less_at_indexed)
    then show ?thesis using u shuffled_trans [OF t(3) u(3)] by auto
  qed
qed

lemma min_child_ok:
  assumes "indexed s" and "i * 2 + 1 < length (heap s)"
  obtains c where "min_child s (i * 2 + 1) = Some c" and "0 < c" and "c < length (heap s)" and "(c - 1) div 2 = i"
    and "i < c" and "\<And>j. 0 < j \<Longrightarrow> j < length (heap s) \<Longrightarrow> (j - 1) div 2 = i \<Longrightarrow> key s c \<le> key s j"
proof -
  have ch: "j = i * 2 + 1 \<or> j = i * 2 + 2" if "0 < j" "(j - 1) div 2 = i" for j
    using that by linarith
  consider "i * 2 + 2 = length (heap s)" | "i * 2 + 2 < length (heap s)" using assms(2) by linarith
  then show ?thesis
  proof cases
    case 1
    then have "min_child s (i * 2 + 1) = Some (i * 2 + 1)" by (simp add: min_child_def)
    moreover have "key s (i * 2 + 1) \<le> key s j" if "0 < j" "j < length (heap s)" "(j - 1) div 2 = i" for j
      using ch [OF that(1,3)] that(2) 1 by auto
    ultimately show ?thesis using that assms(2) by simp
  next
    case 2
    let ?c = "if key s (i * 2 + 1) < key s (i * 2 + 2) then i * 2 + 1 else i * 2 + 2"
    have "min_child s (i * 2 + 1) = Some ?c"
      using 2 assms by (simp add: min_child_def less_at_indexed)
    moreover have "key s ?c \<le> key s j" if "0 < j" "j < length (heap s)" "(j - 1) div 2 = i" for j
      using ch [OF that(1,3)] by auto
    moreover have "0 < ?c" "?c < length (heap s)" "(?c - 1) div 2 = i" "i < ?c" using 2 by auto
    ultimately show ?thesis using that by blast
  qed
qed

lemma DownHeap_ok:
  assumes "indexed s" and "down_ord (length (heap s)) (key s) i"
  shows "\<exists>s'. DownHeap i s = Some s' \<and> indexed s' \<and> shuffled s s' \<and> heap_ord (length (heap s')) (key s')"
  using assms
proof (induction "length (heap s) - i" arbitrary: i s rule: less_induct)
  case less
  show ?case
  proof (cases "i * 2 + 1 < length (heap s)")
    case False
    have "DownHeap i s = Some s" using False by (subst DownHeap.simps) (simp add: Let_def)
    moreover have "heap_ord (length (heap s)) (key s)"
      using False by (intro down_ord_done [OF less.prems(2)]) linarith
    ultimately show ?thesis using less.prems by simp
  next
    case True
    obtain c where c: "min_child s (i * 2 + 1) = Some c" "0 < c" "c < length (heap s)" "(c - 1) div 2 = i" "i < c"
      and least: "\<And>j. 0 < j \<Longrightarrow> j < length (heap s) \<Longrightarrow> (j - 1) div 2 = i \<Longrightarrow> key s c \<le> key s j"
      using min_child_ok [OF less.prems(1) True] by blast
    have i: "i < length (heap s)" using c by simp
    have down: "DownHeap i s = (if key s i < key s c then Some s else case SwapHeap i c s of None \<Rightarrow> None | Some t \<Rightarrow> DownHeap c t)"
      using True c i less.prems(1) by (subst DownHeap.simps) (simp add: Let_def less_at_indexed)
    show ?thesis
    proof (cases "key s i < key s c")
      case lt: True
      have "heap_ord (length (heap s)) (key s)"
        by (rule down_ord_done [OF less.prems(2)]) (rule order_trans [OF less_imp_le [OF lt] least])
      with lt show ?thesis using down less.prems by simp
    next
      case False
      obtain t where t: "SwapHeap i c s = Some t" "indexed t" "shuffled s t" "key t = (key s)(i := key s c, c := key s i)"
        using SwapHeap_ok [OF less.prems(1) i c(3)] c(5) by blast
      have len: "length (heap t) = length (heap s)" using t(3) by (rule shuffled_length)
      have "down_ord (length (heap t)) (key t) c"
        unfolding t(4) len using False least by (intro down_ord_swap [OF less.prems(2) c(2,3,4)]) auto
      then obtain u where u: "DownHeap c t = Some u" "indexed u" "shuffled t u" "heap_ord (length (heap u)) (key u)"
        using less.hyps [of t c] t(2) len c(3,5) i by fastforce
      show ?thesis using False down t(1) u shuffled_trans [OF t(3) u(3)] by auto
    qed
  qed
qed

section \<open>Removing\<close>

lemma pop_back_ok:
  assumes "indexed s"
  shows "indexed (pop_back s)" and "\<And>j. j < length (heap s) - 1 \<Longrightarrow> key (pop_back s) j = key s j"
  using assms by (auto simp: indexed_def pop_back_def key_def nth_butlast distinct_butlast)

lemma set_pop_back:
  assumes "distinct (heap s)" and "heap s \<noteq> []"
  shows "set (heap (pop_back s)) = set (heap s) - {last (heap s)}"
proof -
  have "heap s = butlast (heap s) @ [last (heap s)]" using assms(2) by simp
  then have "distinct (butlast (heap s) @ [last (heap s)])" "set (heap s) = insert (last (heap s)) (set (butlast (heap s)))"
    using assms(1) by (metis, metis list.simps(15) rotate1.simps(2) set_rotate1)
  then show ?thesis by (auto simp: pop_back_def)
qed

lemma heap_ord_mono: "heap_ord n k \<Longrightarrow> m \<le> n \<Longrightarrow> (\<And>j. j < m \<Longrightarrow> k' j = k j) \<Longrightarrow> heap_ord m k'"
  unfolding heap_ord_def by (metis diff_le_self div_le_dividend le_trans less_le_trans order_le_less_trans)

lemma RemoveTimer_ok:
  assumes ix: "indexed s" and ord: "heap_ord (length (heap s)) (key s)" and r: "r \<in> set (heap s)" "objs s r = Some ob"
  obtains s' where "RemoveTimer (Some r) s = Some s'" and "indexed s'" and "heap_ord (length (heap s')) (key s')"
    and "set (heap s') = set (heap s) - {r}" and "\<And>q. map_option strip (objs s' q) = map_option strip (objs s q)"
    and "active_timers s' = active_timers s - {tid ob}" and "next_ref s' = next_ref s" and "counter s' = counter s"
proof -
  let ?n = "length (heap s)" and ?s = "s\<lparr>active_timers := active_timers s - {tid ob}\<rparr>" and ?i = "heap_index ob"
  have i: "?i < ?n" "heap s ! ?i = r"
    using ix r by (auto simp: indexed_def in_set_conv_nth)
  then have ne: "heap s \<noteq> []" by auto
  have ixs: "indexed ?s" "key ?s = key s" using ix by (auto simp: indexed_def key_def)
  have d: "distinct (heap s)" using ix by (simp add: indexed_def)
  show ?thesis
  proof (cases "?i = ?n - 1")
    case True
    have "RemoveTimer (Some r) s = Some (pop_back ?s)" using r True ne by (simp add: RemoveTimer_def Let_def)
    moreover have "heap_ord (length (heap (pop_back ?s))) (key (pop_back ?s))"
      using pop_back_ok(2) [OF ixs(1)] by (intro heap_ord_mono [OF ord]) (auto simp: ixs(2) pop_back_def)
    moreover have "last (heap s) = r" using i ne True by (simp add: last_conv_nth)
    moreover have "objs (pop_back ?s) = objs s" by (simp add: pop_back_def)
    ultimately show ?thesis
      using that pop_back_ok(1) [OF ixs(1)] set_pop_back [of ?s] d ne by (simp add: pop_back_def)
  next
    case False
    then have i': "?i < ?n - 1" using i by linarith
    then have l: "?n - 1 < length (heap ?s)" by auto
    obtain t where t: "SwapHeap ?i (?n - 1) ?s = Some t" "indexed t" "shuffled ?s t"
        "key t = (key s)(?i := key s (?n - 1), ?n - 1 := key s ?i)" "heap t = (heap s)[?i := heap s ! (?n - 1), ?n - 1 := heap s ! ?i]"
      using SwapHeap_ok [OF ixs(1) _ l, of ?i] i False unfolding ixs(2) by auto
    let ?t = "pop_back t"
    have len: "length (heap ?t) = ?n - 1" using shuffled_length [OF t(3)] by (simp add: pop_back_def)
    have it: "indexed ?t" using pop_back_ok(1) [OF t(2)] .
    have keys: "key ?t j = key s j" if "j < ?n - 1" "j \<noteq> ?i" for j
      using pop_back_ok(2) [OF t(2), of j] shuffled_length [OF t(3)] that by (simp add: t(4))
    note rep = replace_ord [where n = ?n and m = "?n - 1" and k = "key s" and k' = "key ?t", OF ord diff_le_self i' keys]
    obtain u where u: "(if 0 < ?i \<and> key ?t ?i < key ?t ((?i - 1) div 2) then UpHeap ?i ?t else DownHeap ?i ?t) = Some u"
        "indexed u" "shuffled ?t u" "heap_ord (length (heap u)) (key u)"
      using UpHeap_ok [OF it, of ?i] DownHeap_ok [OF it, of ?i] rep i' unfolding len
      by (cases "0 < ?i \<and> key ?t ?i < key ?t ((?i - 1) div 2)") auto
    have "RemoveTimer (Some r) s = Some u"
      using r ne False t(1) u(1) i' len less_at_indexed [OF it, of ?i "(?i - 1) div 2"]
      by (auto simp: RemoveTimer_def Let_def split: if_splits)
    moreover have "set (heap u) = set (heap s) - {r}"
    proof -
      have "heap t \<noteq> []" using t(5) ne by auto
      moreover have "last (heap t) = r" using t(5) i i' ne by (simp add: last_conv_nth)
      moreover have "set (heap t) = set (heap s)" using t(3) by (auto simp: shuffled_def dest: mset_eq_setD)
      moreover have "distinct (heap t)" using t(2) by (simp add: indexed_def)
      ultimately show ?thesis
        using set_pop_back [of t] mset_eq_setD [of "heap u" "heap ?t"] u(3) by (simp add: shuffled_def)
    qed
    ultimately show ?thesis
      using that [of u] u(2-4) t(3) by (simp add: shuffled_def pop_back_def)
  qed
qed

section \<open>The invariant\<close>

definition tid_of :: "'c timers \<Rightarrow> nat \<Rightarrow> 64 word" where
  "tid_of s r = tid (the (objs s r))"

text \<open>
  The set of active numbers is that of the timers in the heap, which have different numbers;
  references and numbers in use have been given out before.
\<close>

definition booked :: "'c timers \<Rightarrow> bool" where
  "booked s \<longleftrightarrow> active_timers s = tid_of s ` set (heap s) \<and> inj_on (tid_of s) (set (heap s)) \<and>
     (\<forall>r ob. objs s r = Some ob \<longrightarrow> r < next_ref s \<and> 0 < tid ob \<and> tid ob \<le> counter s)"

definition timer_inv :: "'c timers \<Rightarrow> bool" where
  "timer_inv s \<longleftrightarrow> indexed s \<and> heap_ord (length (heap s)) (key s) \<and> booked s"

text \<open>The abstract view: the set of pending timers, without their positions.\<close>

definition entries :: "'c timers \<Rightarrow> 'c timer_obj set" where
  "entries s = (\<lambda>r. strip (the (objs s r))) ` set (heap s)"

lemma strip_simps [simp]:
  "deadline (strip ob) = deadline ob" "tid (strip ob) = tid ob" "strip (strip ob) = strip ob"
  by (simp_all add: strip_def)

lemma same_strip:
  fixes s t :: "'c timers"
  assumes "map_option strip (objs t r) = map_option strip (objs s r)"
  shows "strip (the (objs t r)) = strip (the (objs s r))" and "tid_of t r = tid_of s r"
    and "deadline (the (objs t r)) = deadline (the (objs s r))" and "objs t r = None \<longleftrightarrow> objs s r = None"
proof -
  show st: "strip (the (objs t r)) = strip (the (objs s r))"
    using assms by (cases "objs s r"; cases "objs t r") auto
  show "objs t r = None \<longleftrightarrow> objs s r = None" using assms by (cases "objs s r"; cases "objs t r") auto
  from arg_cong [OF st, of tid] arg_cong [OF st, of deadline]
  show "tid_of t r = tid_of s r" "deadline (the (objs t r)) = deadline (the (objs s r))" by (simp_all add: tid_of_def)
qed

lemma timer_inv_empty: "timer_inv (TimerHeap c r)" "entries (TimerHeap c r) = {}"
  by (simp_all add: timer_inv_def indexed_def heap_ord_def booked_def TimerHeap_def entries_def)

text \<open>Objects that differ only in their positions, with some of them gone from the heap.\<close>

lemma booked_less:
  assumes "booked s" and same: "\<And>q. map_option strip (objs t q) = map_option strip (objs s q)"
    and sub: "set (heap t) \<subseteq> set (heap s)" and act: "active_timers t = tid_of s ` set (heap t)"
    and "next_ref t = next_ref s" and "counter t = counter s"
  shows "booked t"
proof -
  have tids: "tid_of t q = tid_of s q" for q using same_strip(2) [OF same] .
  have "q < next_ref t \<and> 0 < tid ob \<and> tid ob \<le> counter t" if q: "objs t q = Some ob" for q ob
  proof -
    obtain ob' where ob': "objs s q = Some ob'" using q same_strip(4) [OF same, of q] by fastforce
    then have "tid ob = tid ob'" using tids [of q] q by (simp add: tid_of_def)
    with ob' assms show ?thesis by (auto simp: booked_def)
  qed
  then show ?thesis
    using assms(1) inj_on_subset [OF _ sub] unfolding booked_def act tids by auto
qed

lemma entries_less:
  fixes s t :: "'c timers"
  assumes "\<And>q. map_option strip (objs t q) = map_option strip (objs s q)"
  shows "entries t = (\<lambda>r. strip (the (objs s r))) ` set (heap t)"
  unfolding entries_def using same_strip(1) [OF assms] by simp

lemma timer_inv_obj:
  assumes "timer_inv s" and "r \<in> set (heap s)"
  obtains ob where "objs s r = Some ob"
  using assms by (auto simp: timer_inv_def indexed_def in_set_conv_nth)

lemma RemoveTimer_inv:
  assumes inv: "timer_inv s" and r: "r \<in> set (heap s)"
  obtains s' where "RemoveTimer (Some r) s = Some s'" and "timer_inv s'" and "set (heap s') = set (heap s) - {r}"
    and "\<And>q. map_option strip (objs s' q) = map_option strip (objs s q)" and "counter s' = counter s"
proof -
  obtain ob where ob: "objs s r = Some ob" using timer_inv_obj [OF inv r] .
  obtain s' where s': "RemoveTimer (Some r) s = Some s'" "indexed s'" "heap_ord (length (heap s')) (key s')"
      "set (heap s') = set (heap s) - {r}" "\<And>q. map_option strip (objs s' q) = map_option strip (objs s q)"
      "active_timers s' = active_timers s - {tid ob}" "next_ref s' = next_ref s" "counter s' = counter s"
    using RemoveTimer_ok [of s r ob] inv r ob unfolding timer_inv_def by metis
  have inj: "inj_on (tid_of s) (set (heap s))" and act: "active_timers s = tid_of s ` set (heap s)"
    using inv by (auto simp: timer_inv_def booked_def)
  have "active_timers s' = tid_of s ` set (heap s')"
    using inj_on_image_set_diff [OF inj, of "set (heap s)" "{r}"] r ob
    by (simp add: s'(4,6) act tid_of_def)
  then have "booked s'"
    using inv s' by (intro booked_less [OF _ s'(5)]) (auto simp: timer_inv_def)
  with s' that show ?thesis by (simp add: timer_inv_def)
qed

section \<open>The operations\<close>

lemma front_least:
  assumes "timer_inv s" and "heap s = f # fs" and "objs s f = Some ob"
  shows "\<forall>e \<in> entries s. deadline ob \<le> deadline e"
proof -
  have least: "key s 0 \<le> key s i" if "i < length (heap s)" for i
    using assms(1) that heap_ord_root [of "length (heap s)" "key s" i] by (simp add: timer_inv_def)
  have "deadline ob \<le> deadline (the (objs s (heap s ! i)))" if "i < length (heap s)" for i
    using least [OF that] assms(2,3) that by (simp add: key_def)
  then show ?thesis by (auto simp: entries_def in_set_conv_nth)
qed

lemma less_inc: "c \<noteq> - 1 \<Longrightarrow> c < c + 1" for c :: "64 word"
  using inc_less_eq_self_iff_eq [of c] by (auto simp: not_le [symmetric])

lemma AddTimer_first:
  assumes inv: "timer_inv s"
  shows "(case heap s of [] \<Rightarrow> Some False | f # _ \<Rightarrow> map_option (\<lambda>ob. stamp_less dl (deadline ob)) (objs s f))
    = Some (entries s \<noteq> {} \<and> (\<forall>e \<in> entries s. dl < deadline e))"
proof (cases "heap s")
  case (Cons f fs)
  obtain ob where ob: "objs s f = Some ob" using timer_inv_obj [OF inv, of f] Cons by auto
  moreover have "strip ob \<in> entries s" using Cons ob by (auto simp: entries_def image_iff intro: bexI [of _ f])
  ultimately show ?thesis using front_least [OF inv Cons ob] Cons by (force simp: stamp_less_def)
next
  case Nil
  then show ?thesis by (simp add: entries_def)
qed

lemma AddTimer_ok:
  assumes inv: "timer_inv s" and c: "counter s \<noteq> - 1"
  obtains ret i s' where "AddTimer cb dl iv s = Some (ret, i, s')" and "timer_inv s'"
    and "ret \<longleftrightarrow> entries s \<noteq> {} \<and> (\<forall>e \<in> entries s. dl < deadline e)"
    and "entries s' = insert (strip (TimerObj cb dl iv (counter s + 1) 0)) (entries s)"
    and "i = \<lparr>timer = Some (next_ref s), uid = counter s + 1\<rparr>" and "counter s' = counter s + 1"
    and "set (heap s') = insert (next_ref s) (set (heap s))" and "next_ref s \<notin> set (heap s)"
    and "\<And>q. q \<in> set (heap s) \<Longrightarrow> tid_of s' q = tid_of s q" and "tid_of s' (next_ref s) = counter s + 1"
proof -
  let ?n = "length (heap s)" and ?u = "counter s + 1" and ?r = "next_ref s"
  let ?ob = "TimerObj cb dl iv ?u ?n"
  let ?s = "s\<lparr>objs := (objs s)(?r \<mapsto> ?ob), next_ref := Suc ?r, counter := ?u, heap := heap s @ [?r],
      active_timers := insert ?u (active_timers s)\<rparr>"
  have ix: "indexed s" and ord: "heap_ord ?n (key s)" and bk: "booked s" using inv by (auto simp: timer_inv_def)
  have lt: "q < ?r" "0 < tid ob" "tid ob \<le> counter s" if "objs s q = Some ob" for q ob
    using bk that by (auto simp: booked_def)
  have heap_lt: "q < ?r" "tid_of s q \<le> counter s" "objs s q \<noteq> None" if "q \<in> set (heap s)" for q
    by (rule timer_inv_obj [OF inv that]; use lt in \<open>auto simp: tid_of_def\<close>)+
  have u: "counter s < ?u" "0 < ?u" using less_inc [OF c] le_less_trans [OF word_zero_le less_inc [OF c]] by blast+
  have new: "?r \<notin> set (heap s)" using heap_lt(1) by blast
  have ix': "indexed ?s"
    using ix new unfolding indexed_def by (auto simp: nth_append less_Suc_eq TimerObj_def dest: nth_mem)
  have key': "key ?s j = key s j" if "j < ?n" for j
    using that new by (auto simp: key_def nth_append dest: nth_mem)
  have "up_ord (length (heap ?s)) (key ?s) ?n"
    unfolding up_ord_def
  proof (intro conjI allI impI)
    fix j assume j: "0 < j \<and> j < length (heap ?s) \<and> j \<noteq> ?n"
    then have "(j - 1) div 2 < ?n" by auto
    with j show "key ?s ((j - 1) div 2) \<le> key ?s j" using ord key' by (simp add: heap_ord_def)
  qed auto
  then obtain s' where s': "UpHeap ?n ?s = Some s'" "indexed s'" "shuffled ?s s'" "heap_ord (length (heap s')) (key s')"
    using UpHeap_ok [OF ix', of ?n] by auto
  have same: "\<And>q. map_option strip (objs s' q) = map_option strip (objs ?s q)"
    and set: "set (heap s') = insert ?r (set (heap s))"
    using s'(3) shuffled_set [OF s'(3)] by (auto simp: shuffled_def)
  have tids: "tid_of ?s ?r = ?u" "\<And>q. q \<in> set (heap s) \<Longrightarrow> tid_of ?s q = tid_of s q"
    using new by (auto simp: tid_of_def TimerObj_def)
  have fresh: "?u \<notin> tid_of s ` set (heap s)" using heap_lt(2) u(1) by (auto simp: not_le [symmetric])
  have "booked ?s"
    unfolding booked_def
  proof (intro conjI allI impI)
    show "active_timers ?s = tid_of ?s ` set (heap ?s)"
      using bk tids by (auto simp: booked_def image_iff)
    show "inj_on (tid_of ?s) (set (heap ?s))"
      using bk tids fresh new by (auto simp: booked_def inj_on_def image_iff)
    fix q ob assume "objs ?s q = Some ob"
    then have "q = ?r \<and> ob = ?ob \<or> objs s q = Some ob" by (simp split: if_splits)
    then show "q < next_ref ?s" "0 < tid ob" "tid ob \<le> counter ?s"
      using lt [of q ob] u by (auto simp: TimerObj_def intro: order.trans [OF _ less_imp_le])
  qed
  then have "booked s'"
    using s'(3) by (intro booked_less [OF _ same]) (auto simp: shuffled_def set booked_def)
  then have inv': "timer_inv s'" using s' by (simp add: timer_inv_def)
  have ent: "entries s' = insert (strip (TimerObj cb dl iv ?u 0)) (entries s)"
  proof -
    have "(\<lambda>r. strip (the (objs ?s r))) ` set (heap s) = entries s"
      unfolding entries_def by (rule image_cong [OF refl]) (use new in auto)
    then show ?thesis unfolding entries_less [OF same] set by (simp add: TimerObj_def strip_def)
  qed
  obtain ret where ret: "(case heap s of [] \<Rightarrow> Some False | f # _ \<Rightarrow> map_option (\<lambda>ob. stamp_less dl (deadline ob)) (objs s f)) = Some ret"
      "ret \<longleftrightarrow> entries s \<noteq> {} \<and> (\<forall>e \<in> entries s. dl < deadline e)"
    using AddTimer_first [OF inv] by blast
  have add: "AddTimer cb dl iv s = Some (ret, \<lparr>timer = Some ?r, uid = ?u\<rparr>, s')"
    using ret(1) s'(1) by (simp add: AddTimer_def UniqueID_def Let_def)
  have cnt: "counter s' = ?u" using s'(3) by (simp add: shuffled_def)
  show ?thesis
    by (rule that [OF add inv' ret(2) ent refl cnt set new]) (use tids same_strip(2) [OF same] in simp_all)
qed

text \<open>A number given out: when its timer is pending, the weak pointer is that timer.\<close>

definition linked :: "'c timers \<Rightarrow> timer_id \<Rightarrow> bool" where
  "linked s i \<longleftrightarrow> uid i \<le> counter s \<and> (\<forall>r \<in> set (heap s). tid_of s r = uid i \<longrightarrow> timer i = Some r)"

lemma linked_less:
  assumes "linked s i" and "\<And>q. map_option strip (objs t q) = map_option strip (objs s q)"
    and "set (heap t) \<subseteq> set (heap s)" and "counter t = counter s"
  shows "linked t i"
  using assms(1,3,4) same_strip(2) [OF assms(2)] unfolding linked_def by auto

lemma drop_dead:
  fixes s :: "'c timers"
  assumes inv: "timer_inv s" and r: "r \<notin> set (heap s)"
  defines "t \<equiv> s\<lparr>objs := (objs s)(r := None)\<rparr>"
  shows "timer_inv t" and "entries t = entries s" and "\<And>j. linked t j \<longleftrightarrow> linked s j"
proof -
  have o: "objs t q = objs s q" if "q \<in> set (heap s)" for q using that r by (auto simp: t_def)
  have h: "heap t = heap s" by (simp add: t_def)
  have tids: "tid_of t q = tid_of s q" if "q \<in> set (heap s)" for q using o [OF that] by (simp add: tid_of_def)
  have "indexed t" using inv o unfolding timer_inv_def indexed_def h by simp
  moreover have "key t = key s" using o by (simp add: fun_eq_iff key_def h)
  moreover have "booked t"
    using inv tids inj_on_cong [of "set (heap s)" "tid_of t" "tid_of s"] image_cong [of "set (heap s)" _ "tid_of t" "tid_of s"]
    unfolding timer_inv_def booked_def h by (auto simp: t_def split: if_splits)
  ultimately show "timer_inv t" using inv by (simp add: timer_inv_def h)
  show "entries t = entries s" unfolding entries_def h by (rule image_cong) (simp_all add: o)
  show "linked t j \<longleftrightarrow> linked s j" for j unfolding linked_def h using tids by (auto simp: t_def)
qed

lemma CancelTimer_ok:
  assumes inv: "timer_inv s" and l: "linked s i"
  obtains s' where "CancelTimer i s = Some (if \<exists>e \<in> entries s. tid e = uid i then \<lparr>timer = None, uid = 0\<rparr> else i, s')"
    and "timer_inv s'" and "entries s' = {e \<in> entries s. tid e \<noteq> uid i}" and "counter s' = counter s"
    and "\<And>j. linked s j \<Longrightarrow> linked s' j"
proof (cases "uid i \<in> active_timers s")
  case False
  moreover have "tid e \<in> active_timers s" if "e \<in> entries s" for e
    using inv that by (auto simp: timer_inv_def booked_def entries_def tid_of_def)
  ultimately have "\<forall>e \<in> entries s. tid e \<noteq> uid i" by metis
  then show ?thesis using that [of s] inv False by (auto simp: CancelTimer_def)
next
  case True
  have inj: "inj_on (tid_of s) (set (heap s))" and act: "active_timers s = tid_of s ` set (heap s)"
    using inv by (auto simp: timer_inv_def booked_def)
  obtain r where r: "r \<in> set (heap s)" "tid_of s r = uid i" using True act by auto
  then have tr: "timer i = Some r" using l by (simp add: linked_def)
  obtain t where t: "RemoveTimer (Some r) s = Some t" "timer_inv t" "set (heap t) = set (heap s) - {r}"
      "\<And>q. map_option strip (objs t q) = map_option strip (objs s q)" "counter t = counter s"
    using RemoveTimer_inv [OF inv r(1)] by metis
  let ?t = "drop_ref (Some r) t"
  have d: "?t = t\<lparr>objs := (objs t)(r := None)\<rparr>" using t(3) by (simp add: drop_ref_def)
  have rt: "r \<notin> set (heap t)" using t(3) by simp
  note dead = drop_dead [OF t(2) rt, folded d]
  have "entries t = (\<lambda>r. strip (the (objs s r))) ` (set (heap s) - {r})"
    unfolding entries_less [OF t(4)] t(3) ..
  also have "\<dots> = {e \<in> entries s. tid e \<noteq> uid i}"
  proof -
    have "tid (the (objs s q)) = uid i \<longleftrightarrow> q = r" if "q \<in> set (heap s)" for q
      using inj_onD [OF inj _ that r(1)] r(2) by (auto simp: tid_of_def)
    then show ?thesis by (auto simp: entries_def)
  qed
  finally have ent: "entries ?t = {e \<in> entries s. tid e \<noteq> uid i}" by (simp add: dead(2))
  have "\<exists>e \<in> entries s. tid e = uid i" using r by (auto simp: entries_def tid_of_def)
  then have "CancelTimer i s = Some (if \<exists>e \<in> entries s. tid e = uid i then \<lparr>timer = None, uid = 0\<rparr> else i, ?t)"
    using True r(1) tr t(1) by (auto simp: CancelTimer_def)
  moreover have "linked ?t j" if "linked s j" for j
    unfolding dead(3) using linked_less [OF that t(4)] t(3,5) by auto
  ultimately show ?thesis using that dead(1) ent t(5) by (simp add: d)
qed

lemma GetExpiredTimers_ok:
  assumes "timer_inv s"
  shows "\<exists>ex s'. GetExpiredTimers now s = Some (ex, s') \<and> timer_inv s' \<and>
    entries s' = {e \<in> entries s. now < deadline e} \<and> counter s' = counter s \<and>
    set ex = {r \<in> set (heap s). deadline (the (objs s r)) \<le> now} \<and> distinct ex \<and>
    sorted (map (\<lambda>r. deadline (the (objs s r))) ex) \<and> set (heap s') \<subseteq> set (heap s) \<and>
    (\<forall>q. map_option strip (objs s' q) = map_option strip (objs s q))"
  using assms
proof (induction "length (heap s)" arbitrary: s rule: less_induct)
  case less
  note inv = less.prems
  show ?case
  proof (cases "heap s")
    case Nil
    then show ?thesis using inv by (subst GetExpiredTimers.simps) (simp add: entries_def)
  next
    case (Cons f fs)
    obtain ob where ob: "objs s f = Some ob" using timer_inv_obj [OF inv, of f] Cons by auto
    have least: "deadline ob \<le> deadline (the (objs s r))" if "r \<in> set (heap s)" for r
      using front_least [OF inv Cons ob] that by (auto simp: entries_def)
    show ?thesis
    proof (cases "deadline ob \<le> now")
      case False
      then have "GetExpiredTimers now s = Some ([], s)"
        using Cons ob by (subst GetExpiredTimers.simps) (simp add: stamp_ge_def stamp_less_def not_le)
      moreover have "now < deadline (the (objs s r))" if "r \<in> set (heap s)" for r
        using least [OF that] False by simp
      ultimately show ?thesis using inv by (force simp: entries_def)
    next
      case True
      have f: "f \<in> set (heap s)" using Cons by simp
      obtain t where t: "RemoveTimer (Some f) s = Some t" "timer_inv t" "set (heap t) = set (heap s) - {f}"
          "\<And>q. map_option strip (objs t q) = map_option strip (objs s q)" "counter t = counter s"
        using RemoveTimer_inv [OF inv f] by metis
      have dl: "deadline (the (objs t q)) = deadline (the (objs s q))" for q using same_strip(3) [OF t(4)] .
      have "length (heap t) < length (heap s)" using RemoveTimer_length [OF t(1)] ob by simp
      then obtain ex u where u: "GetExpiredTimers now t = Some (ex, u)" "timer_inv u"
          "entries u = {e \<in> entries t. now < deadline e}" "counter u = counter t"
          "set ex = {r \<in> set (heap t). deadline (the (objs t r)) \<le> now}" "distinct ex"
          "sorted (map (\<lambda>r. deadline (the (objs t r))) ex)" "set (heap u) \<subseteq> set (heap t)"
          "\<forall>q. map_option strip (objs u q) = map_option strip (objs t q)"
        using less.hyps [OF _ t(2)] by blast
      have "GetExpiredTimers now s = Some (f # ex, u)"
        using Cons ob True t(1) u(1) by (subst GetExpiredTimers.simps) (simp add: stamp_ge_def stamp_less_def)
      moreover have "entries u = {e \<in> entries s. now < deadline e}"
        unfolding u(3) entries_less [OF t(4)] t(3) using ob True by (auto simp: entries_def)
      moreover have "sorted (map (\<lambda>r. deadline (the (objs s r))) (f # ex))"
        using u(5,7) least ob t(3) by (auto simp: dl)
      moreover have "set (f # ex) = {r \<in> set (heap s). deadline (the (objs s r)) \<le> now}"
        unfolding list.set u(5) dl t(3) using f ob True by auto
      moreover have "distinct (f # ex)" using u(5,6) t(3) by simp
      ultimately show ?thesis using u t by auto
    qed
  qed
qed

section \<open>Clients\<close>

text \<open>
  A client keeps the numbers it was given. It adds timers, cancels one of its numbers, or asks for
  the timers that are due; a number it does not have is that of a default \<open>TimerID\<close>.
\<close>

datatype 'c timer_op = Add 'c timestamp timespan | Cancel nat | Expire timestamp

datatype 'c timer_reply = Added bool | Cancelled | Expired "'c timer_obj list"

definition TimerID :: timer_id where
  "TimerID = \<lparr>timer = None, uid = 0\<rparr>"

definition timer_call :: "'c timer_op \<Rightarrow> timer_id list \<times> 'c timers \<Rightarrow> ('c timer_reply \<times> timer_id list \<times> 'c timers) option" where
  "timer_call c st = (case st of (ids, s) \<Rightarrow> (case c of
     Add cb dl iv \<Rightarrow> map_option (\<lambda>(ret, i, s'). (Added ret, ids @ [i], s')) (AddTimer cb dl iv s)
   | Cancel k \<Rightarrow> map_option (\<lambda>(i, s'). (Cancelled, ids[k := i], s')) (CancelTimer (if k < length ids then ids ! k else TimerID) s)
   | Expire now \<Rightarrow> map_option (\<lambda>(ex, s'). (Expired (map (\<lambda>r. strip (the (objs s' r))) ex), ids, s')) (GetExpiredTimers now s)))"

fun timer_calls :: "'c timer_op list \<Rightarrow> timer_id list \<times> 'c timers \<Rightarrow> ('c timer_reply list \<times> timer_id list \<times> 'c timers) option" where
  "timer_calls [] st = Some ([], st)"
| "timer_calls (c # cs) st = (case timer_call c st of None \<Rightarrow> None
     | Some (r, st') \<Rightarrow> map_option (\<lambda>(rs, st''). (r # rs, st'')) (timer_calls cs st'))"

text \<open>
  The specification: a set of timers. Adding tells whether the new timer is due before all pending
  ones, if there are any; cancelling removes the timer with that number, and only it; the due
  timers are removed and come in the order of their deadlines.
\<close>

inductive timer_spec :: "'c timer_op \<Rightarrow> 64 word list \<times> 64 word \<times> 'c timer_obj set \<Rightarrow> 'c timer_reply \<Rightarrow>
    64 word list \<times> 64 word \<times> 'c timer_obj set \<Rightarrow> bool" where
  spec_add: "timer_spec (Add cb dl iv) (us, c, E) (Added (E \<noteq> {} \<and> (\<forall>e \<in> E. dl < deadline e)))
     (us @ [c + 1], c + 1, insert (strip (TimerObj cb dl iv (c + 1) 0)) E)"
| spec_cancel: "u = (if k < length us then us ! k else 0) \<Longrightarrow>
     timer_spec (Cancel k) (us, c, E) Cancelled
       (us[k := if \<exists>e \<in> E. tid e = u then 0 else u], c, {e \<in> E. tid e \<noteq> u})"
| spec_expire: "sorted (map deadline es) \<Longrightarrow> distinct es \<Longrightarrow> set es = {e \<in> E. deadline e \<le> now} \<Longrightarrow>
     timer_spec (Expire now) (us, c, E) (Expired es) (us, c, {e \<in> E. now < deadline e})"

inductive timer_specs :: "'c timer_op list \<Rightarrow> 64 word list \<times> 64 word \<times> 'c timer_obj set \<Rightarrow> 'c timer_reply list \<Rightarrow>
    64 word list \<times> 64 word \<times> 'c timer_obj set \<Rightarrow> bool" where
  specs_Nil: "timer_specs [] a [] a"
| specs_Cons: "timer_spec c a r b \<Longrightarrow> timer_specs cs b rs d \<Longrightarrow> timer_specs (c # cs) a (r # rs) d"

definition timer_abs :: "timer_id list \<times> 'c timers \<Rightarrow> 64 word list \<times> 64 word \<times> 'c timer_obj set" where
  "timer_abs st = (map uid (fst st), counter (snd st), entries (snd st))"

definition client_inv :: "timer_id list \<times> 'c timers \<Rightarrow> bool" where
  "client_inv st \<longleftrightarrow> timer_inv (snd st) \<and> (\<forall>i \<in> set (fst st). linked (snd st) i)"

lemma tid_bounds:
  assumes "timer_inv s" and "q \<in> set (heap s)"
  shows "0 < tid_of s q" and "tid_of s q \<le> counter s"
  by (rule timer_inv_obj [OF assms]; use assms(1) in \<open>simp add: timer_inv_def booked_def tid_of_def\<close>)+

lemma linked_TimerID: "timer_inv s \<Longrightarrow> linked s \<lparr>timer = None, uid = 0\<rparr>"
  using tid_bounds(1) unfolding linked_def by fastforce

lemma timer_call_refines:
  assumes inv: "client_inv st" and c: "counter (snd st) \<noteq> - 1"
  shows "\<exists>r st'. timer_call op st = Some (r, st') \<and> client_inv st' \<and> timer_spec op (timer_abs st) r (timer_abs st') \<and>
    counter (snd st') \<in> {counter (snd st), counter (snd st) + 1}"
proof -
  obtain ids s where st: "st = (ids, s)" by (cases st)
  have inv': "timer_inv s" "\<And>i. i \<in> set ids \<Longrightarrow> linked s i" using inv by (auto simp: client_inv_def st)
  show ?thesis
  proof (cases op)
    case (Add cb dl iv)
    obtain ret i s' where a: "AddTimer cb dl iv s = Some (ret, i, s')" "timer_inv s'"
        "ret \<longleftrightarrow> entries s \<noteq> {} \<and> (\<forall>e \<in> entries s. dl < deadline e)"
        "entries s' = insert (strip (TimerObj cb dl iv (counter s + 1) 0)) (entries s)"
        "i = \<lparr>timer = Some (next_ref s), uid = counter s + 1\<rparr>" "counter s' = counter s + 1"
        "set (heap s') = insert (next_ref s) (set (heap s))" "next_ref s \<notin> set (heap s)"
        "\<And>q. q \<in> set (heap s) \<Longrightarrow> tid_of s' q = tid_of s q" "tid_of s' (next_ref s) = counter s + 1"
      using AddTimer_ok [OF inv'(1), of cb dl iv] c unfolding st by (metis snd_conv)
    have lt: "counter s < counter s + 1" using less_inc c st by simp
    have "linked s' j" if "linked s j" for j
      using that a(6-10) lt unfolding linked_def by (auto simp: not_le [symmetric] intro: less_imp_le order_trans)
    moreover have "linked s' i"
    proof -
      have "tid_of s' r \<noteq> counter s + 1" if "r \<in> set (heap s)" for r
        using tid_bounds(2) [OF inv'(1) that] lt a(9) [OF that] by (metis not_le)
      then show ?thesis unfolding linked_def a(5,6,7) by auto
    qed
    ultimately have "client_inv (ids @ [i], s')" using a(2) inv'(2) by (auto simp: client_inv_def)
    moreover have "timer_spec op (timer_abs st) (Added ret) (timer_abs (ids @ [i], s'))"
      using spec_add [of cb dl iv "map uid ids" "counter s" "entries s"] a(3-6) by (simp add: Add timer_abs_def st)
    ultimately show ?thesis using a(1,6) by (simp add: Add timer_call_def st)
  next
    case (Cancel k)
    define i where "i = (if k < length ids then ids ! k else TimerID)"
    define j where "j = (if \<exists>e \<in> entries s. tid e = uid i then \<lparr>timer = None, uid = 0\<rparr> else i)"
    have l: "linked s i" using inv'(2) linked_TimerID [OF inv'(1)] by (simp add: i_def TimerID_def)
    obtain s' where a: "CancelTimer i s = Some (j, s')" "timer_inv s'" "entries s' = {e \<in> entries s. tid e \<noteq> uid i}"
        "counter s' = counter s" "\<And>j. linked s j \<Longrightarrow> linked s' j"
      by (rule CancelTimer_ok [OF inv'(1) l, folded j_def]) (rule that; assumption)
    have "linked s' j" using a(5) l linked_TimerID [OF a(2)] by (simp add: j_def)
    then have "client_inv (ids[k := j], s')"
      using a(2,5) inv'(2) set_update_subset_insert [of ids k j] by (fastforce simp: client_inv_def)
    moreover have "timer_spec op (timer_abs st) Cancelled (timer_abs (ids[k := j], s'))"
      using spec_cancel [of "uid i" k "map uid ids" "counter s" "entries s"] a(3,4)
      by (simp add: Cancel timer_abs_def st map_update i_def TimerID_def j_def if_distrib [of uid] cong: if_cong)
    ultimately show ?thesis using a(1,4) by (simp add: Cancel timer_call_def st i_def)
  next
    case (Expire now)
    obtain ex s' where a: "GetExpiredTimers now s = Some (ex, s')" "timer_inv s'" "entries s' = {e \<in> entries s. now < deadline e}"
        "counter s' = counter s" "set ex = {r \<in> set (heap s). deadline (the (objs s r)) \<le> now}" "distinct ex"
        "sorted (map (\<lambda>r. deadline (the (objs s r))) ex)" "set (heap s') \<subseteq> set (heap s)"
        "\<And>q. map_option strip (objs s' q) = map_option strip (objs s q)"
      using GetExpiredTimers_ok [OF inv'(1), of now] by blast
    let ?es = "map (\<lambda>r. strip (the (objs s' r))) ex"
    have es: "?es = map (\<lambda>r. strip (the (objs s r))) ex" using same_strip(1) [OF a(9)] by simp
    have "client_inv (ids, s')" using a(2) linked_less [OF _ a(9) a(8,4)] inv'(2) by (auto simp: client_inv_def)
    moreover have "inj_on (\<lambda>r. strip (the (objs s r))) (set ex)"
    proof (rule inj_onI)
      fix q r assume "q \<in> set ex" "r \<in> set ex" and e: "strip (the (objs s q)) = strip (the (objs s r))"
      then have "q \<in> set (heap s)" "r \<in> set (heap s)" using a(5) by auto
      moreover have "tid_of s q = tid_of s r" using arg_cong [OF e, of tid] by (simp only: strip_simps tid_of_def)
      moreover have "inj_on (tid_of s) (set (heap s))" using inv'(1) by (simp add: timer_inv_def booked_def)
      ultimately show "q = r" by (auto dest: inj_onD)
    qed
    then have "timer_spec op (timer_abs st) (Expired ?es) (timer_abs (ids, s'))"
      unfolding es Expire st timer_abs_def fst_conv snd_conv a(3,4) using a(5,6,7)
      by (intro spec_expire) (auto simp: distinct_map entries_def comp_def)
    ultimately show ?thesis using a(1,4) by (simp add: Expire timer_call_def st)
  qed
qed

section \<open>Properties\<close>

text \<open>
  C2. The timer heap implements its specification: whatever a client does with a new heap, with fewer
  than \<open>2 ^ 64\<close> calls from the start of the counter, no call is undefined, the invariant holds at the
  end, and the replies and the pending timers are those of the set of timers.
\<close>

theorem timer_heap_refines:
  assumes "unat c + length ops < 2 ^ 64"
  shows "\<exists>rs st. timer_calls ops ([], TimerHeap c r) = Some (rs, st) \<and> timer_inv (snd st) \<and>
    timer_specs ops ([], c, {}) rs (timer_abs st)"
proof -
  have "\<exists>rs st'. timer_calls ops st = Some (rs, st') \<and> client_inv st' \<and> timer_specs ops (timer_abs st) rs (timer_abs st')"
    if "client_inv st" "unat (counter (snd st)) + length ops < 2 ^ 64" for st :: "timer_id list \<times> 'a timers"
    using that
  proof (induction ops arbitrary: st)
    case (Cons op ops)
    have "unat (- 1 :: 64 word) = 2 ^ 64 - 1" by (simp add: unsigned_minus_1_eq_mask mask_eq_exp_minus_1)
    then have c: "counter (snd st) \<noteq> - 1" using Cons.prems(2) by auto
    obtain r st' where r: "timer_call op st = Some (r, st')" "client_inv st'" "timer_spec op (timer_abs st) r (timer_abs st')"
        "counter (snd st') \<in> {counter (snd st), counter (snd st) + 1}"
      using timer_call_refines [OF Cons.prems(1) c] by blast
    have "unat (counter (snd st')) + length ops < 2 ^ 64"
      using r(4) Cons.prems(2) unatSuc [of "counter (snd st)"] c by (auto simp: add.commute eq_neg_iff_add_eq_0)
    from Cons.IH [OF r(2) this] obtain rs st'' where "timer_calls ops st' = Some (rs, st'')" "client_inv st''"
        "timer_specs ops (timer_abs st') rs (timer_abs st'')" by blast
    with r(1,3) show ?case by (auto intro: specs_Cons)
  qed (auto intro: specs_Nil)
  note run = this
  define s where "s = (TimerHeap c r :: 'a timers)"
  have "client_inv ([], s)" "counter s = c" "timer_abs ([], s) = ([], c, {})"
    by (simp_all add: client_inv_def timer_abs_def timer_inv_empty s_def) (simp_all add: TimerHeap_def)
  with run [of "([], s)"] assms show ?thesis unfolding s_def [symmetric] by (auto simp: client_inv_def)
qed

theorem timer_heap_refines_witness:
  "\<exists>rs st. timer_calls [Add () 5 0, Add () 3 0, Cancel 0, Expire 9] ([], TimerHeap 0 0) = Some (rs, st) \<and> timer_inv (snd st) \<and>
    timer_specs [Add () 5 0, Add () 3 0, Cancel 0, Expire 9] ([], 0, {}) rs (timer_abs st)"
  by (rule timer_heap_refines) simp

text \<open>
  \<open>GetNextExpire\<close> never gives a deadline: it answers 0 for a heap with timers, and takes the front of
  an empty one. \<open>Restart\<close> of a periodic timer is undefined.
\<close>

lemma GetNextExpire_inverted: "GetNextExpire s = (if heap s = [] then None else Some 0)"
  by (simp add: GetNextExpire_def)

lemma Restart_periodic: "periodic ob \<Longrightarrow> Restart now ob = None"
  by (simp add: Restart_def AddTimespan_undefined)

end
