(* ===== verification/Loser_Tree.thy ===== *)
theory Loser_Tree
  imports Prelude "HOL-Library.Multiset"
begin

text \<open>
  The k-way merge with a tree of losers of \<^verbatim>\<open>src/ds/loser-tree/loser-tree.hpp\<close>. A linked list of
  \<open>ListNode\<close>s is the list of its values. The two vectors of the object keep their contents between
  calls, so they are arguments of the model; \<open>None\<close> is an access outside a vector or through a null
  pointer.
\<close>

section \<open>The code\<close>

definition INT_MIN :: int where "INT_MIN = - 2147483648"

text \<open>\<open>for (p = (s + kWays) / 2; p > 0; p /= 2)\<close> with the exchange of \<open>s\<close> and \<open>loser_[p]\<close>.\<close>

fun adjust_loop :: "nat \<Rightarrow> nat \<Rightarrow> int list \<Rightarrow> nat list \<Rightarrow> nat \<times> nat list" where
  "adjust_loop p s leaf loser = (if p = 0 then (s, loser)
     else if leaf ! s > leaf ! (loser ! p) then adjust_loop (p div 2) (loser ! p) leaf (loser[p := s])
     else adjust_loop (p div 2) s leaf loser)"

declare adjust_loop.simps [simp del]

definition Adjust :: "nat \<Rightarrow> int list \<Rightarrow> nat list \<Rightarrow> nat list" where
  "Adjust s leaf loser = (case adjust_loop ((s + length loser) div 2) s leaf loser of (s', ls) \<Rightarrow> ls[0 := s'])"

definition CreateLoserTree :: "int list \<Rightarrow> nat list \<Rightarrow> int list \<times> nat list" where
  "CreateLoserTree leaf loser = (let k = length loser; leaf = leaf[k := INT_MIN] in
     (leaf, fold (\<lambda>i. Adjust i leaf) (rev [0..<k]) (map (\<lambda>_. k) loser)))"

definition input :: "int list list \<Rightarrow> nat \<Rightarrow> int list \<Rightarrow> int list" where
  "input ws i leaf = leaf[i := (case ws ! i of [] \<Rightarrow> INT_MAX | v # _ \<Rightarrow> v)]"

text \<open>
  \<open>output\<close> hangs the winning list behind the tail and moves on by one node: the result is the value
  of that node, what now hangs behind the tail, and the lists.
\<close>

definition output_node :: "int list list \<Rightarrow> nat \<Rightarrow> (int \<times> int list \<times> int list list) option" where
  "output_node ws w = (if w < length ws
     then case ws ! w of [] \<Rightarrow> None | v # vs \<Rightarrow> Some (v, vs, ws[w := vs]) else None)"

lemma output_node_shrinks:
  "output_node ws w = Some (v, vs, ws') \<Longrightarrow> sum_list (map length ws') < sum_list (map length ws)"
proof -
  assume "output_node ws w = Some (v, vs, ws')"
  then have w: "w < length ws" "ws ! w = v # vs" "ws' = ws[w := vs]"
    by (auto simp: output_node_def split: if_splits list.splits)
  then have "Suc (length vs) \<le> sum_list (map length ws)"
    using elem_le_sum_list [of w "map length ws"] by simp
  then show ?thesis using w by (simp add: map_update sum_list_update)
qed

function merge_loop :: "int list list \<Rightarrow> int list \<Rightarrow> nat list \<Rightarrow> int list \<Rightarrow> int list option" where
  "merge_loop ws leaf loser tail = (if leaf ! (loser ! 0) \<noteq> INT_MAX then
     (case output_node ws (loser ! 0) of None \<Rightarrow> None
      | Some (v, tail', ws') \<Rightarrow>
        let leaf' = input ws' (loser ! 0) leaf; loser' = Adjust (loser ! 0) leaf' loser
        in map_option ((#) v) (merge_loop ws' leaf' loser' tail'))
     else Some tail)"
  by pat_completeness auto
termination
  by (relation "measure (\<lambda>(ws, _). sum_list (map length ws))") (auto dest: output_node_shrinks)

declare merge_loop.simps [simp del]

definition resize :: "nat \<Rightarrow> 'a \<Rightarrow> 'a list \<Rightarrow> 'a list" where
  "resize n d xs = take n xs @ replicate (n - length xs) d"

definition mergeKLists :: "int list list \<Rightarrow> int list \<Rightarrow> nat list \<Rightarrow> int list option" where
  "mergeKLists ws leaf loser = (if ws = [] then Some [] else
     let k = length ws;
         loser = resize k 0 loser;
         leaf = resize (k + 1) 0 leaf;
         leaf = fold (input ws) [0..<k] leaf
     in case CreateLoserTree leaf loser of (leaf, loser) \<Rightarrow> merge_loop ws leaf loser [])"

section \<open>Paths\<close>

text \<open>
  The nodes of the tree are 1, 2, ..., \<open>2 k - 1\<close>: node \<open>n\<close> has the children \<open>2 n\<close> and \<open>2 n + 1\<close>, and list \<open>j\<close>
  plays at the leaf \<open>j + k\<close>.
\<close>

definition on_path :: "nat \<Rightarrow> nat \<Rightarrow> bool" where
  "on_path d c \<longleftrightarrow> (\<exists>m. d = c div 2 ^ m)"

definition sib :: "nat \<Rightarrow> nat" where
  "sib d = (if even d then d + 1 else d - 1)"

lemma on_path_refl [simp]: "on_path c c"
  unfolding on_path_def by (rule exI [of _ 0]) simp

lemma on_path_up: "on_path d c \<Longrightarrow> on_path (d div 2) c"
  unfolding on_path_def by (metis div_mult2_eq power_Suc2)

lemma on_path_cases: "on_path d c \<Longrightarrow> d = c \<or> on_path d (c div 2)"
  unfolding on_path_def by (metis div_by_1 div_mult2_eq not0_implies_Suc power_0 power_Suc)

lemma on_path_half: "on_path d (c div 2) \<Longrightarrow> on_path d c"
  unfolding on_path_def by (metis div_mult2_eq power_Suc)

lemma on_path_le: "on_path d c \<Longrightarrow> d \<le> c"
  by (auto simp: on_path_def)

lemma on_path_less: "on_path d c \<Longrightarrow> d \<noteq> c \<Longrightarrow> d \<le> c div 2"
  using on_path_cases on_path_le by blast

lemma sib_simps: "0 < d \<Longrightarrow> sib d \<noteq> d" "sib d div 2 = d div 2" "sib d = 2 * (d div 2) \<or> sib d = 2 * (d div 2) + 1"
  by (auto simp: sib_def elim!: evenE oddE)

lemma sib_not_on_path:
  assumes "on_path d c" and "1 < d"
  shows "\<not> on_path (sib d) c"
proof
  assume "on_path (sib d) c"
  then obtain m m' where m: "d = c div 2 ^ m" "sib d = c div 2 ^ m'" using assms by (auto simp: on_path_def)
  have pos: "0 < sib d" using assms(2) sib_simps(2) [of d] by (cases "sib d") auto
  have half: "b \<le> a div 2" if "a = c div 2 ^ i" "b = c div 2 ^ j" "i < j" for a b i j
  proof -
    have "b = a div 2 ^ (j - i)" using that by (simp add: div_mult2_eq [symmetric] power_add [symmetric])
    also have "\<dots> \<le> a div 2 ^ 1" using that(3) by (intro div_le_mono2 power_increasing) auto
    finally show ?thesis by simp
  qed
  have ne: "m \<noteq> m'" using m sib_simps(1) [of d] assms(2) by auto
  consider "m < m'" | "m' < m" using ne by linarith
  then show False
  proof cases
    case 1 then show False using half [OF m 1] sib_simps(2) [of d] pos by linarith
  next
    case 2 then show False using half [OF m(2,1) 2] sib_simps(2) [of d] assms(2) by linarith
  qed
qed

section \<open>Tournaments\<close>

text \<open>
  \<open>W n\<close> is the winner of the subtree of node \<open>n\<close>. At an inner node one of the winners of the two
  children goes on, and the other one, which is not smaller, is the recorded loser.
\<close>

definition played :: "nat \<Rightarrow> (nat \<Rightarrow> nat) \<Rightarrow> int list \<Rightarrow> nat list \<Rightarrow> bool" where
  "played n W leaf loser \<longleftrightarrow>
     (W n = W (2 * n) \<and> loser ! n = W (2 * n + 1) \<or> W n = W (2 * n + 1) \<and> loser ! n = W (2 * n)) \<and>
     leaf ! (W n) \<le> leaf ! (loser ! n)"

definition tournament :: "nat \<Rightarrow> (nat \<Rightarrow> nat) \<Rightarrow> int list \<Rightarrow> nat list \<Rightarrow> (nat \<Rightarrow> nat) \<Rightarrow> bool" where
  "tournament k A leaf loser W \<longleftrightarrow> length loser = k \<and> (\<forall>j < k. W (j + k) = A j) \<and>
     (\<forall>n. 0 < n \<and> n < k \<longrightarrow> played n W leaf loser)"

lemma played_cong:
  assumes "V n = W n" and "V (2 * n) = W (2 * n)" and "V (2 * n + 1) = W (2 * n + 1)" and "ls ! n = ls' ! n"
    and "leaf ! (W n) = leaf' ! (W n)" and "leaf ! (ls' ! n) = leaf' ! (ls' ! n)"
  shows "played n V leaf ls \<longleftrightarrow> played n W leaf' ls'"
  using assms by (simp add: played_def)

lemma child_cases: "2 * n = d \<or> 2 * n + 1 = d \<longleftrightarrow> n = d div 2" for n d :: nat
  by linarith

text \<open>Replaying the matches on the way from node \<open>c\<close>, whose winner is \<open>q\<close>, to the root.\<close>

lemma adjust_loop_ok:
  assumes "0 < c" and "c < 2 * k" and "length ls = k" and "V c = q"
    and "\<And>n. 0 < n \<Longrightarrow> n < k \<Longrightarrow> \<not> (on_path n c \<and> n \<noteq> c) \<Longrightarrow> played n V leaf ls"
    and "\<And>d. on_path d c \<Longrightarrow> 1 < d \<Longrightarrow> ls ! (d div 2) = V (sib d)"
  shows "\<exists>V' ls'. adjust_loop (c div 2) q leaf ls = (V' 1, ls') \<and> length ls' = k \<and>
    (\<forall>n. 0 < n \<and> n < k \<longrightarrow> played n V' leaf ls') \<and> (\<forall>n \<ge> k. V' n = V n)"
  using assms
proof (induction c arbitrary: ls V q rule: less_induct)
  case (less c)
  let ?p = "c div 2"
  show ?case
  proof (cases "?p = 0")
    case True
    then have "c = 1" using less.prems(1) by linarith
    then have "played n V leaf ls" if "0 < n" "n < k" for n
      using less.prems(5) [OF that] on_path_le [of n 1] that by fastforce
    then show ?thesis
      using True less.prems(3,4) \<open>c = 1\<close> by (subst adjust_loop.simps) auto
  next
    case False
    then have p: "0 < ?p" "?p < c" "?p < k" using less.prems(2) by auto
    have c1: "1 < c" using p by linarith
    have lp: "ls ! ?p = V (sib c)" using less.prems(6) [OF on_path_refl c1] .
    define win where "win = (if leaf ! q > leaf ! (V (sib c)) then V (sib c) else q)"
    define lose where "lose = (if leaf ! q > leaf ! (V (sib c)) then q else V (sib c))"
    have loop: "adjust_loop ?p q leaf ls = adjust_loop (?p div 2) win leaf (ls[?p := lose])"
      using False lp list_update_id [of ls ?p] by (subst adjust_loop.simps) (auto simp: win_def lose_def)
    have sc: "c = 2 * ?p \<and> sib c = 2 * ?p + 1 \<or> c = 2 * ?p + 1 \<and> sib c = 2 * ?p"
      by (auto simp: sib_def elim!: evenE oddE)
    have neq: "2 * ?p \<noteq> ?p" "2 * ?p + 1 \<noteq> ?p" using p by linarith+
    have others: "played n (V(?p := win)) leaf (ls[?p := lose])" if n: "0 < n" "n < k" "\<not> (on_path n ?p \<and> n \<noteq> ?p)" for n
    proof (cases "n = ?p")
      case True
      then show ?thesis
        using sc neq less.prems(4) p(3) less.prems(3) by (auto simp: played_def win_def lose_def)
    next
      case False
      then have "\<not> (on_path n c \<and> n \<noteq> c)" using n(3) on_path_cases by blast
      then have old: "played n V leaf ls" using less.prems(5) n by blast
      have "n \<noteq> ?p div 2" using n(3) False on_path_up [OF on_path_refl, of ?p] by blast
      then have "2 * n \<noteq> ?p" "2 * n + 1 \<noteq> ?p" using child_cases [of n ?p] by auto
      then show ?thesis using old False by (simp add: played_def)
    qed
    have path: "ls[?p := lose] ! (d div 2) = (V(?p := win)) (sib d)" if d: "on_path d ?p" "1 < d" for d
    proof -
      have dc: "d \<le> ?p" using on_path_le [OF d(1)] .
      have "d div 2 < ?p" using dc d(2) by linarith
      moreover have "sib d \<noteq> ?p" using sib_not_on_path [OF d] by auto
      ultimately show ?thesis using less.prems(6) [OF on_path_half [OF d(1)] d(2)] by simp
    qed
    obtain V' ls' where
      "adjust_loop (?p div 2) win leaf (ls[?p := lose]) = (V' 1, ls')" "length ls' = k"
      "\<forall>n. 0 < n \<and> n < k \<longrightarrow> played n V' leaf ls'" "\<forall>n \<ge> k. V' n = (V(?p := win)) n"
      using less.IH [OF p(2,1) _ _ _ others path] p less.prems(2,3) by (auto simp del: fun_upd_apply simp: fun_upd_same)
    moreover then have "\<forall>n \<ge> k. V' n = V n" using p(3) by auto
    ultimately show ?thesis unfolding loop by blast
  qed
qed

text \<open>
  \<open>Adjust s\<close> after list \<open>s\<close> has come to its leaf: it is correct when the player that was there
  before had won all its matches, and no match elsewhere is changed by the new values.
\<close>

lemma Adjust_ok:
  assumes t: "tournament k A leaf ls W" and s: "s < k"
    and won: "\<And>d. on_path d (s + k) \<Longrightarrow> 0 < d \<Longrightarrow> W d = A s"
    and same: "\<And>n. 0 < n \<Longrightarrow> n < k \<Longrightarrow> \<not> on_path n (s + k) \<Longrightarrow>
      leaf' ! (W n) = leaf ! (W n) \<and> leaf' ! (ls ! n) = leaf ! (ls ! n)"
  obtains W' where "tournament k (A(s := s)) leaf' (Adjust s leaf' ls) W'" and "Adjust s leaf' ls ! 0 = W' 1"
proof -
  let ?x = "s + k" and ?V = "W(s + k := s)"
  have len: "length ls = k" and lv: "\<And>j. j < k \<Longrightarrow> W (j + k) = A j" using t by (auto simp: tournament_def)
  have pl: "played n W leaf ls" if "0 < n" "n < k" for n using t that by (simp add: tournament_def)
  have "played n ?V leaf' ls" if n: "0 < n" "n < k" "\<not> (on_path n ?x \<and> n \<noteq> ?x)" for n
  proof -
    have np: "\<not> on_path n ?x" using n by auto
    then have "n \<noteq> ?x div 2" using on_path_up [OF on_path_refl, of ?x] by auto
    then have "2 * n \<noteq> ?x" "2 * n + 1 \<noteq> ?x" using child_cases [of n ?x] by auto
    then show ?thesis
      using pl [OF n(1,2)] same [OF n(1,2) np] n(2) by (simp add: played_def)
  qed
  moreover have "ls ! (d div 2) = ?V (sib d)" if d: "on_path d ?x" "1 < d" for d
  proof -
    have "d div 2 < k" "0 < d div 2" using on_path_le [OF d(1)] d(2) s by linarith+
    from pl [OF this(2,1)] have "ls ! (d div 2) = W (sib d)"
      using won [OF d(1)] won [OF on_path_up [OF d(1)]] d(2)
      by (cases "even d") (auto simp: played_def sib_def elim!: evenE oddE)
    moreover have "sib d \<noteq> ?x" using sib_not_on_path [OF d] by auto
    ultimately show ?thesis by simp
  qed
  ultimately obtain V' ls' where v: "adjust_loop (?x div 2) s leaf' ls = (V' 1, ls')" "length ls' = k"
      "\<forall>n. 0 < n \<and> n < k \<longrightarrow> played n V' leaf' ls'" "\<forall>n \<ge> k. V' n = ?V n"
    using adjust_loop_ok [of ?x k ls ?V s leaf'] s len by auto
  have adj: "Adjust s leaf' ls = ls'[0 := V' 1]" using v(1) len by (simp add: Adjust_def)
  have "tournament k (A(s := s)) leaf' (Adjust s leaf' ls) V'"
    unfolding tournament_def adj using v(2-4) lv by (auto simp: played_def)
  then show ?thesis using that adj v(2) s by auto
qed

section \<open>Building the tree\<close>

text \<open>Winners are players, and the champion is a smallest one.\<close>

lemma tournament_range:
  assumes t: "tournament k A leaf ls W" and A: "\<And>j. j < k \<Longrightarrow> A j \<le> k" and n: "0 < n" "n < 2 * k"
  shows "W n \<le> k"
  using n
proof (induction "2 * k - n" arbitrary: n rule: less_induct)
  case less
  show ?case
  proof (cases "n < k")
    case True
    then have "played n W leaf ls" using t less.prems by (simp add: tournament_def)
    then have "W n = W (2 * n) \<or> W n = W (2 * n + 1)" by (auto simp: played_def)
    moreover have "W (2 * n) \<le> k" "W (2 * n + 1) \<le> k"
      using less.hyps [of "2 * n"] less.hyps [of "2 * n + 1"] True less.prems by auto
    ultimately show ?thesis by auto
  next
    case False
    then have j: "n - k < k" using less.prems by linarith
    then have "W ((n - k) + k) = A (n - k)" using t unfolding tournament_def by blast
    then show ?thesis using A [OF j] False by simp
  qed
qed

lemma played_least:
  assumes "tournament k A leaf ls W" and "1 < d" and "d < 2 * k"
  shows "leaf ! (W (d div 2)) \<le> leaf ! (W d)"
proof -
  have "played (d div 2) W leaf ls" using assms by (auto simp: tournament_def)
  then show ?thesis by (cases "even d") (auto simp: played_def elim!: evenE oddE)
qed

lemma champion_least:
  assumes t: "tournament k A leaf ls W" and d: "0 < d" "d < 2 * k"
  shows "leaf ! (W 1) \<le> leaf ! (W d)"
  using d
proof (induction d rule: less_induct)
  case (less d)
  show ?case
  proof (cases "d = 1")
    case False
    then have "leaf ! (W 1) \<le> leaf ! (W (d div 2))" using less by auto
    also have "\<dots> \<le> leaf ! (W d)" using played_least [OF t] False less.prems by simp
    finally show ?thesis .
  qed simp
qed

text \<open>The tree when the lists from \<open>i\<close> on have entered; the others are represented by \<open>k\<close>, with the least value.\<close>

definition entered :: "nat \<Rightarrow> nat \<Rightarrow> nat \<Rightarrow> nat" where
  "entered k i j = (if i \<le> j then j else k)"

lemma enter_next:
  assumes t: "tournament k (entered k (Suc i)) leaf ls W" and i: "i < k"
    and least: "\<And>j. j < k \<Longrightarrow> leaf ! k < leaf ! j"
  obtains W' where "tournament k (entered k i) leaf (Adjust i leaf ls) W'" and "Adjust i leaf ls ! 0 = W' 1"
proof -
  have "W d = k" if d: "on_path d (i + k)" "0 < d" for d
  proof -
    obtain m where m: "d = (i + k) div 2 ^ m" using d(1) unfolding on_path_def by blast
    show ?thesis using m d(2)
    proof (induction m arbitrary: d)
      case 0 then show ?case using t i by (simp add: tournament_def entered_def)
    next
      case (Suc m)
      let ?c = "(i + k) div 2 ^ m"
      have d: "d = ?c div 2" using Suc.prems by (simp add: div_mult2_eq mult.commute [of 2])
      have c: "1 < ?c" "?c < 2 * k" using d Suc.prems i by (linarith, metis add_less_mono1 div_le_dividend le_less_trans mult_2)
      have "leaf ! (W d) \<le> leaf ! k"
        using played_least [OF t c] Suc.IH [OF refl] c d by simp
      moreover have "W d \<le> k" using tournament_range [OF t] Suc.prems c d by (simp add: entered_def)
      ultimately show ?case using least [of "W d"] by fastforce
    qed
  qed
  then have won: "\<And>d. on_path d (i + k) \<Longrightarrow> 0 < d \<Longrightarrow> W d = entered k (Suc i) i" by (simp add: entered_def)
  have "(entered k (Suc i))(i := i) = entered k i" by (auto simp: entered_def fun_eq_iff)
  with Adjust_ok [OF t i won, of leaf] that show ?thesis by auto
qed

lemma CreateLoserTree_ok:
  assumes k: "length ls = k" "0 < k" and lf: "length leaf = k + 1" "\<And>j. j < k \<Longrightarrow> INT_MIN < leaf ! j"
  obtains W ls' where "CreateLoserTree leaf ls = (leaf[k := INT_MIN], ls')" and
    "tournament k (\<lambda>j. j) (leaf[k := INT_MIN]) ls' W" and "ls' ! 0 = W 1"
proof -
  let ?lf = "leaf[k := INT_MIN]"
  have least: "?lf ! k < ?lf ! j" if "j < k" for j using lf that by simp
  have "\<exists>W. tournament k (entered k (k - m)) ?lf (fold (\<lambda>i. Adjust i ?lf) (rev [k - m..<k]) (map (\<lambda>_. k) ls)) W \<and>
      (0 < m \<longrightarrow> fold (\<lambda>i. Adjust i ?lf) (rev [k - m..<k]) (map (\<lambda>_. k) ls) ! 0 = W 1)" if "m \<le> k" for m
    using that
  proof (induction m)
    case 0
    have "tournament k (entered k k) ?lf (map (\<lambda>_. k) ls) (\<lambda>_. k)"
      using k by (auto simp: tournament_def played_def entered_def)
    then show ?case by auto
  next
    case (Suc m)
    let ?i = "k - Suc m"
    have e: "Suc ?i = k - m" "rev [?i..<k] = rev [k - m..<k] @ [?i]"
      using Suc.prems by (simp_all add: upt_conv_Cons [of ?i] Suc_diff_Suc)
    obtain W where "tournament k (entered k (Suc ?i)) ?lf (fold (\<lambda>i. Adjust i ?lf) (rev [k - m..<k]) (map (\<lambda>_. k) ls)) W"
      using Suc e(1) by auto
    from enter_next [OF this _ least] Suc.prems show ?case unfolding e(2) by auto
  qed
  from this [of k] obtain W where
    "tournament k (entered k 0) ?lf (fold (\<lambda>i. Adjust i ?lf) (rev [0..<k]) (map (\<lambda>_. k) ls)) W"
    "fold (\<lambda>i. Adjust i ?lf) (rev [0..<k]) (map (\<lambda>_. k) ls) ! 0 = W 1"
    using k(2) by auto
  moreover have "entered k 0 = (\<lambda>j. j)" by (simp add: entered_def fun_eq_iff)
  ultimately show ?thesis using that k(1) by (simp add: CreateLoserTree_def Let_def)
qed

section \<open>Merging\<close>

text \<open>With one player per list, a winner comes from the subtree of its node.\<close>

lemma winner_origin:
  assumes t: "tournament k (\<lambda>j. j) leaf ls W" and n: "0 < n" "n < 2 * k"
  shows "W n < k \<and> on_path n (W n + k)"
  using n
proof (induction "2 * k - n" arbitrary: n rule: less_induct)
  case less
  show ?case
  proof (cases "n < k")
    case True
    then have "played n W leaf ls" using t less.prems by (simp add: tournament_def)
    then have "W n = W (2 * n) \<or> W n = W (2 * n + 1)" by (auto simp: played_def)
    moreover have "W (2 * n) < k \<and> on_path (2 * n) (W (2 * n) + k)" "W (2 * n + 1) < k \<and> on_path (2 * n + 1) (W (2 * n + 1) + k)"
      using less.hyps [of "2 * n"] less.hyps [of "2 * n + 1"] True less.prems by auto
    ultimately show ?thesis using on_path_up [of "2 * n"] on_path_up [of "2 * n + 1"] by auto
  next
    case False
    then have j: "n - k < k" using less.prems by linarith
    then have "W ((n - k) + k) = n - k" using t unfolding tournament_def by blast
    then show ?thesis using j False by simp
  qed
qed

lemma champion_path:
  assumes t: "tournament k (\<lambda>j. j) leaf ls W" and d: "on_path d (W 1 + k)" "0 < d" and k: "0 < k"
  shows "W d = W 1"
  using d
proof (induction d rule: less_induct)
  case (less d)
  show ?case
  proof (cases "d = 1")
    case False
    then have d1: "1 < d" using less.prems by linarith
    have up: "W (d div 2) = W 1" using less.IH [of "d div 2"] on_path_up [OF less.prems(1)] d1 by auto
    have "W 1 < k" using winner_origin [OF t, of 1] k by simp
    then have dk: "d < 2 * k" using on_path_le [OF less.prems(1)] by linarith
    then have "played (d div 2) W leaf ls" using t d1 by (auto simp: tournament_def)
    then have "W d = W 1 \<or> W (sib d) = W 1"
      using up by (cases "even d") (auto simp: played_def sib_def elim!: evenE oddE)
    moreover have "W (sib d) \<noteq> W 1"
    proof
      assume e: "W (sib d) = W 1"
      have "0 < sib d" "sib d < 2 * k" using sib_simps(3) [of d] d1 dk by (auto simp: sib_def elim!: evenE oddE)
      with winner_origin [OF t, of "sib d"] e sib_not_on_path [OF less.prems(1) d1] show False by simp
    qed
    ultimately show ?thesis by simp
  qed simp
qed

text \<open>The next value of the champion's list: the tree is correct again.\<close>

lemma replay_champion:
  assumes t: "tournament k (\<lambda>j. j) leaf ls W" and k: "0 < k"
  obtains W' where "tournament k (\<lambda>j. j) (leaf[W 1 := v]) (Adjust (W 1) (leaf[W 1 := v]) ls) W'"
    and "Adjust (W 1) (leaf[W 1 := v]) ls ! 0 = W' 1"
proof -
  let ?w = "W 1"
  have w: "?w < k" using winner_origin [OF t, of 1] k by simp
  have "leaf[?w := v] ! (W n) = leaf ! (W n) \<and> leaf[?w := v] ! (ls ! n) = leaf ! (ls ! n)"
    if n: "0 < n" "n < k" "\<not> on_path n (?w + k)" for n
  proof -
    have a: "W n \<noteq> ?w" using winner_origin [OF t, of n] n by auto
    have "W (2 * n) \<noteq> ?w" "W (2 * n + 1) \<noteq> ?w"
      using winner_origin [OF t, of "2 * n"] winner_origin [OF t, of "2 * n + 1"] n
        on_path_up [of "2 * n" "?w + k"] on_path_up [of "2 * n + 1" "?w + k"] by auto
    moreover have "ls ! n = W (2 * n) \<or> ls ! n = W (2 * n + 1)" using t n by (auto simp: tournament_def played_def)
    ultimately have "ls ! n \<noteq> ?w" by auto
    with a show ?thesis by simp
  qed
  moreover have "W d = ?w" if "on_path d (?w + k)" "0 < d" for d using champion_path [OF t that k] .
  ultimately show ?thesis using Adjust_ok [OF t w, of "leaf[?w := v]"] that by (auto simp: fun_upd_idem)
qed

definition head_or_max :: "int list \<Rightarrow> int" where
  "head_or_max l = (case l of [] \<Rightarrow> INT_MAX | v # _ \<Rightarrow> v)"

text \<open>The loop, from any state in which the leaves show the heads of the lists.\<close>

lemma merge_loop_ok:
  assumes "tournament k (\<lambda>j. j) leaf ls W" and "ls ! 0 = W 1" and "0 < k" and "length ws = k" and "k < length leaf"
    and "\<And>j. j < k \<Longrightarrow> leaf ! j = head_or_max (ws ! j)"
    and "\<forall>l \<in> set ws. sorted l \<and> (\<forall>x \<in> set l. x < INT_MAX)" and "tail = [] \<or> tail \<in> set ws"
  shows "\<exists>ys. merge_loop ws leaf ls tail = Some ys \<and> sorted ys \<and> mset ys = (\<Sum>l \<in># mset ws. mset l)"
  using assms
proof (induction "sum_list (map length ws)" arbitrary: ws leaf ls W tail rule: less_induct)
  case less
  let ?w = "W 1"
  note t = less.prems(1)
  have w: "?w < k" using winner_origin [OF t, of 1] less.prems(3) by simp
  have least: "head_or_max (ws ! ?w) \<le> head_or_max (ws ! j)" if "j < k" for j
    using champion_least [OF t, of "j + k"] t that less.prems(6) w by (simp add: tournament_def)
  show ?case
  proof (cases "leaf ! ?w = INT_MAX")
    case True
    have "ws ! j = []" if "j < k" for j
      using least [OF that] less.prems(4,6,7) True w that
      by (cases "ws ! j") (auto simp: head_or_max_def dest!: nth_mem [of j ws])
    then have e: "\<forall>l \<in> set ws. l = []" using less.prems(4) by (auto simp: in_set_conv_nth)
    then have "(\<Sum>l \<in># mset ws. mset l) = {#}" by (simp add: sum_mset.neutral)
    moreover have "merge_loop ws leaf ls tail = Some tail"
      using True less.prems(2) by (subst merge_loop.simps) simp
    moreover have "tail = []" using less.prems(8) e by auto
    ultimately show ?thesis by simp
  next
    case False
    obtain v vs where v: "ws ! ?w = v # vs"
      using False less.prems(6) [OF w] by (cases "ws ! ?w") (auto simp: head_or_max_def)
    have out: "output_node ws ?w = Some (v, vs, ws[?w := vs])" using v w less.prems(4) by (simp add: output_node_def)
    let ?ws = "ws[?w := vs]" and ?leaf = "leaf[?w := head_or_max vs]"
    have inp: "input ?ws ?w leaf = ?leaf" using w less.prems(4) by (simp add: input_def head_or_max_def)
    obtain W' where W': "tournament k (\<lambda>j. j) ?leaf (Adjust ?w ?leaf ls) W'" "Adjust ?w ?leaf ls ! 0 = W' 1"
      using replay_champion [OF t less.prems(3)] .
    have mem: "v # vs \<in> set ws" using v w less.prems(4) by (metis nth_mem)
    have ok: "\<forall>l \<in> set ?ws. sorted l \<and> (\<forall>x \<in> set l. x < INT_MAX)"
    proof
      fix l assume "l \<in> set ?ws"
      then have "l = vs \<or> l \<in> set ws" using set_update_subset_insert [of ws ?w vs] by auto
      then show "sorted l \<and> (\<forall>x \<in> set l. x < INT_MAX)" using less.prems(7) bspec [OF less.prems(7) mem] by auto
    qed
    have "?leaf ! j = head_or_max (?ws ! j)" if "j < k" for j
      using less.prems(4,5,6) that by (cases "j = ?w") auto
    then obtain ys where ys: "merge_loop ?ws ?leaf (Adjust ?w ?leaf ls) vs = Some ys" "sorted ys"
        "mset ys = (\<Sum>l \<in># mset ?ws. mset l)"
      using less.hyps [OF output_node_shrinks [OF out] W' less.prems(3) _ _ _ ok, of vs] less.prems(4,5) w
      by (auto simp: set_update_memI)
    have "merge_loop ws leaf ls tail = Some (v # ys)"
      using False less.prems(2) out inp ys(1) by (subst merge_loop.simps) simp
    moreover have ms: "mset (v # ys) = (\<Sum>l \<in># mset ws. mset l)"
    proof -
      let ?M = "mset ws - {#v # vs#}"
      have m: "add_mset (v # vs) ?M = mset ws" using mem by simp
      have "mset ?ws = add_mset vs ?M" using w less.prems(4) v by (simp add: mset_update)
      then have "mset ys = mset vs + (\<Sum>l \<in># ?M. mset l)" using ys(3) by simp
      then have "mset (v # ys) = (\<Sum>l \<in># add_mset (v # vs) ?M. mset l)" by simp
      then show ?thesis unfolding m .
    qed
    moreover have "v \<le> y" if "y \<in> set ys" for y
    proof -
      have "y \<in># (\<Sum>l \<in># mset ws. mset l)" using ms that by (metis set_mset_mset list.set_intros(2))
      then obtain l where l: "l \<in> set ws" "y \<in> set l" by auto
      then obtain j where j: "j < k" "l = ws ! j" using less.prems(4) by (auto simp: in_set_conv_nth)
      have "v \<le> head_or_max l" using least [OF j(1)] v j(2) by (simp add: head_or_max_def)
      also have "\<dots> \<le> y" using l bspec [OF less.prems(7) l(1)] by (auto simp: head_or_max_def split: list.split)
      finally show ?thesis .
    qed
    ultimately show ?thesis using ys(2) by auto
  qed
qed

lemma length_resize [simp]: "length (resize n d xs) = n"
  by (simp add: resize_def)

lemma inputs_ok:
  "n \<le> length leaf \<Longrightarrow> length (fold (input ws) [0..<n] leaf) = length leaf \<and>
    (\<forall>j < n. fold (input ws) [0..<n] leaf ! j = head_or_max (ws ! j))"
  by (induction n) (auto simp: input_def head_or_max_def nth_list_update)

section \<open>Properties\<close>

text \<open>
  C3. Merging: for any number of sorted lists whose values lie strictly between \<open>INT_MIN\<close> and \<open>INT_MAX\<close>,
  and whatever an earlier call left in the object, the result is sorted and has exactly the values of
  the lists.
\<close>

theorem mergeKLists_sorts:
  assumes "\<forall>l \<in> set ws. sorted l" and "\<forall>l \<in> set ws. \<forall>x \<in> set l. INT_MIN < x \<and> x < INT_MAX"
  shows "\<exists>ys. mergeKLists ws leaf loser = Some ys \<and> sorted ys \<and> mset ys = (\<Sum>l \<in># mset ws. mset l)"
proof (cases "ws = []")
  case False
  let ?k = "length ws"
  let ?leaf = "fold (input ws) [0..<?k] (resize (?k + 1) 0 leaf)"
  have leaf: "length ?leaf = ?k + 1" "\<And>j. j < ?k \<Longrightarrow> ?leaf ! j = head_or_max (ws ! j)"
    using inputs_ok [of ?k "resize (?k + 1) 0 leaf" ws] by auto
  have low: "INT_MIN < ?leaf ! j" if "j < ?k" for j
    using leaf(2) [OF that] assms(2) that
    by (cases "ws ! j") (auto simp: head_or_max_def INT_MIN_def INT_MAX_def dest!: nth_mem [of j ws])
  have k: "0 < ?k" using False by simp
  obtain W ls where c: "CreateLoserTree ?leaf (resize ?k 0 loser) = (?leaf[?k := INT_MIN], ls)"
      "tournament ?k (\<lambda>j. j) (?leaf[?k := INT_MIN]) ls W" "ls ! 0 = W 1"
    using CreateLoserTree_ok [OF length_resize [of ?k 0 loser] k leaf(1) low] by metis
  have "\<exists>ys. merge_loop ws (?leaf[?k := INT_MIN]) ls [] = Some ys \<and> sorted ys \<and> mset ys = (\<Sum>l \<in># mset ws. mset l)"
    using assms False leaf by (intro merge_loop_ok [OF c(2,3)]) auto
  then show ?thesis using False c(1) by (simp add: mergeKLists_def Let_def)
qed (simp add: mergeKLists_def)

theorem mergeKLists_sorts_witness:
  "\<exists>ys. mergeKLists [[1, 4], [], [2, 3, 9]] [] [] = Some ys \<and> sorted ys \<and> mset ys = {#1, 2, 3, 4, 9#}"
proof -
  have "\<exists>ys. mergeKLists [[1, 4], [], [2, 3, 9]] [] [] = Some ys \<and> sorted ys \<and>
      mset ys = (\<Sum>l \<in># mset [[1, 4], [], [2, 3, 9]]. mset l)"
    by (rule mergeKLists_sorts) (simp_all add: INT_MIN_def INT_MAX_def)
  then show ?thesis by (simp add: add_mset_commute)
qed

text \<open>
  The two extreme values are not handled, as they double as sentinels: with an \<open>INT_MIN\<close> the
  sentinel wins and the merge reads a list that does not exist, and an \<open>INT_MAX\<close> at the head of every
  list that is left ends the merge and is lost.
\<close>

theorem mergeKLists_sentinels:
  "mergeKLists [[0], [INT_MIN]] [] [] = None \<and> mergeKLists [[1], [INT_MAX]] [] [] = Some [1]"
  by code_simp

end
