(* ===== verification/Mutex_Prodcons.thy ===== *)
theory Mutex_Prodcons
  imports Posix_Sync
begin

text \<open>
  \<^verbatim>\<open>src/ipc/src/mutex/mutex_prodcons1.c\<close> and \<^verbatim>\<open>mutex_prodcons2.c\<close>: several producers fill an array
  under a mutex. In the first program the consumer checks the array after all producers have
  been joined; in the second it runs at the same time and polls the position of the producers.
  The producers are the same.
\<close>

section \<open>Model\<close>

definition MAXNITEMS :: int where "MAXNITEMS = 1000000"
definition MAXNTHREADS :: int where "MAXNTHREADS = 100"

datatype main_pc = M_args | M_create nat | M_create_consumer | M_join nat | M_join_consumer | M_exit int | M_undef

datatype producer_pc =
  P_none | P_lock | P_test | P_full_unlock | P_store | P_inc_nput | P_inc_nval | P_unlock | P_count | P_return

datatype consumer_pc =
  C_none | C_for | C_lock | C_test | C_ready_unlock | C_retry_unlock | C_check | C_inc | C_return

datatype who = Prod nat | Cons

datatype line = Usage | Count nat int | Mismatch int int

record shared =
  nitems :: int
  nthreads :: int
  mutex :: "who option"
  buf :: "nat \<Rightarrow> int"
  nput :: int
  nval :: int
  count :: "nat \<Rightarrow> int"
  mpc :: main_pc
  ppc :: "nat \<Rightarrow> producer_pc"
  cpc :: consumer_pc
  c_i :: int
  printed :: "line list"

definition start :: "(nat \<Rightarrow> int) \<Rightarrow> shared" where
  "start garbage = \<lparr>nitems = 0, nthreads = 0, mutex = None, buf = (\<lambda>_. 0), nput = 0, nval = 0, count = garbage,
     mpc = M_args, ppc = (\<lambda>_. P_none), cpc = C_none, c_i = 0, printed = []\<rparr>"

fun exited :: "main_pc \<Rightarrow> bool" where
  "exited (M_exit _) = True"
| "exited M_undef = True"
| "exited _ = False"

text \<open>A store outside the array is undefined.\<close>

definition producer :: "nat \<Rightarrow> shared \<Rightarrow> shared option" where
  "producer t s = (let goto = (\<lambda>pc u. u\<lparr>ppc := (ppc u)(t := pc)\<rparr>) in case ppc s t of
     P_lock \<Rightarrow> map_option (\<lambda>m. goto P_test (s\<lparr>mutex := m\<rparr>)) (mutex_lock (Prod t) (mutex s))
   | P_test \<Rightarrow> Some (if nput s \<ge> nitems s then goto P_full_unlock s else goto P_store s)
   | P_full_unlock \<Rightarrow> Some (goto P_return (s\<lparr>mutex := mutex_unlock (mutex s)\<rparr>))
   | P_store \<Rightarrow> Some (if 0 \<le> nput s \<and> nput s < MAXNITEMS
        then goto P_inc_nput (s\<lparr>buf := (buf s)(nat (nput s) := nval s)\<rparr>) else s\<lparr>mpc := M_undef\<rparr>)
   | P_inc_nput \<Rightarrow> Some (goto P_inc_nval (s\<lparr>nput := nput s + 1\<rparr>))
   | P_inc_nval \<Rightarrow> Some (goto P_unlock (s\<lparr>nval := nval s + 1\<rparr>))
   | P_unlock \<Rightarrow> Some (goto P_count (s\<lparr>mutex := mutex_unlock (mutex s)\<rparr>))
   | P_count \<Rightarrow> Some (goto P_lock (s\<lparr>count := (count s)(t := count s t + 1)\<rparr>))
   | P_none \<Rightarrow> None
   | P_return \<Rightarrow> None)"

definition check :: "shared \<Rightarrow> shared" where
  "check s = (if buf s (nat (c_i s)) \<noteq> c_i s
     then s\<lparr>printed := printed s @ [Mismatch (c_i s) (buf s (nat (c_i s)))], cpc := C_inc\<rparr> else s\<lparr>cpc := C_inc\<rparr>)"

definition consumer1 :: "shared \<Rightarrow> shared option" where
  "consumer1 s = (case cpc s of
     C_for \<Rightarrow> Some (if c_i s < nitems s then s\<lparr>cpc := C_check\<rparr> else s\<lparr>cpc := C_return\<rparr>)
   | C_check \<Rightarrow> Some (check s)
   | C_inc \<Rightarrow> Some (s\<lparr>c_i := c_i s + 1, cpc := C_for\<rparr>)
   | _ \<Rightarrow> None)"

text \<open>\<open>consumer_wait\<close> of the second program: from \<open>C_lock\<close> until \<open>C_ready_unlock\<close> has been left.\<close>

definition consumer_wait :: "shared \<Rightarrow> shared option" where
  "consumer_wait s = (case cpc s of
     C_lock \<Rightarrow> map_option (\<lambda>m. s\<lparr>mutex := m, cpc := C_test\<rparr>) (mutex_lock Cons (mutex s))
   | C_test \<Rightarrow> Some (if c_i s < nput s then s\<lparr>cpc := C_ready_unlock\<rparr> else s\<lparr>cpc := C_retry_unlock\<rparr>)
   | C_ready_unlock \<Rightarrow> Some (s\<lparr>mutex := mutex_unlock (mutex s), cpc := C_check\<rparr>)
   | C_retry_unlock \<Rightarrow> Some (s\<lparr>mutex := mutex_unlock (mutex s), cpc := C_lock\<rparr>)
   | _ \<Rightarrow> None)"

definition consumer2 :: "shared \<Rightarrow> shared option" where
  "consumer2 s = (case cpc s of
     C_for \<Rightarrow> Some (if c_i s < nitems s then s\<lparr>cpc := C_lock\<rparr> else s\<lparr>cpc := C_return\<rparr>)
   | C_check \<Rightarrow> Some (check s)
   | C_inc \<Rightarrow> Some (s\<lparr>c_i := c_i s + 1, cpc := C_for\<rparr>)
   | C_none \<Rightarrow> None
   | C_return \<Rightarrow> None
   | _ \<Rightarrow> consumer_wait s)"

text \<open>
  The statements that both \<open>main\<close> functions have; \<open>ok\<close> says whether \<open>pthread_create\<close> succeeds, which
  they do not check. Joining a thread that was not created is undefined.
\<close>

definition main_args :: "string list \<Rightarrow> shared \<Rightarrow> shared" where
  "main_args argv s = (if length argv \<noteq> 3 then s\<lparr>printed := [Usage], mpc := M_exit 1\<rparr>
     else s\<lparr>nitems := min (atoi (argv ! 1)) MAXNITEMS, nthreads := min (atoi (argv ! 2)) MAXNTHREADS, mpc := M_create 0\<rparr>)"

definition main_create :: "nat \<Rightarrow> main_pc \<Rightarrow> bool \<Rightarrow> shared \<Rightarrow> shared" where
  "main_create i then_pc ok s = (if int i < nthreads s
     then s\<lparr>count := (count s)(i := 0), ppc := (if ok then (ppc s)(i := P_lock) else ppc s), mpc := M_create (Suc i)\<rparr>
     else s\<lparr>mpc := then_pc\<rparr>)"

definition main_join :: "nat \<Rightarrow> main_pc \<Rightarrow> shared \<Rightarrow> shared option" where
  "main_join i then_pc s = (if int i < nthreads s
     then (case ppc s i of
         P_return \<Rightarrow> Some (s\<lparr>printed := printed s @ [Count i (count s i)], mpc := M_join (Suc i)\<rparr>)
       | P_none \<Rightarrow> Some (s\<lparr>mpc := M_undef\<rparr>)
       | _ \<Rightarrow> None)
     else Some (s\<lparr>mpc := then_pc\<rparr>))"

definition main_create_consumer :: "main_pc \<Rightarrow> bool \<Rightarrow> shared \<Rightarrow> shared" where
  "main_create_consumer then_pc ok s = (if ok then s\<lparr>cpc := C_for, c_i := 0, mpc := then_pc\<rparr> else s\<lparr>mpc := then_pc\<rparr>)"

definition main_join_consumer :: "shared \<Rightarrow> shared option" where
  "main_join_consumer s = (case cpc s of C_return \<Rightarrow> Some (s\<lparr>mpc := M_exit 0\<rparr>)
     | C_none \<Rightarrow> Some (s\<lparr>mpc := M_undef\<rparr>) | _ \<Rightarrow> None)"

definition main1 :: "string list \<Rightarrow> bool \<Rightarrow> shared \<Rightarrow> shared option" where
  "main1 argv ok s = (case mpc s of
     M_args \<Rightarrow> Some (main_args argv s)
   | M_create i \<Rightarrow> Some (main_create i (M_join 0) ok s)
   | M_join i \<Rightarrow> main_join i M_create_consumer s
   | M_create_consumer \<Rightarrow> Some (main_create_consumer M_join_consumer ok s)
   | M_join_consumer \<Rightarrow> main_join_consumer s
   | _ \<Rightarrow> None)"

definition main2 :: "string list \<Rightarrow> bool \<Rightarrow> shared \<Rightarrow> shared option" where
  "main2 argv ok s = (case mpc s of
     M_args \<Rightarrow> Some (main_args argv s)
   | M_create i \<Rightarrow> Some (main_create i M_create_consumer ok s)
   | M_create_consumer \<Rightarrow> Some (main_create_consumer (M_join 0) ok s)
   | M_join i \<Rightarrow> main_join i M_join_consumer s
   | M_join_consumer \<Rightarrow> main_join_consumer s
   | _ \<Rightarrow> None)"

datatype act = Main bool | Producer nat | Consumer

fun step1 :: "string list \<Rightarrow> act \<Rightarrow> shared \<Rightarrow> shared option" where
  "step1 argv (Main ok) s = main1 argv ok s"
| "step1 argv (Producer t) s = (if exited (mpc s) then None else producer t s)"
| "step1 argv Consumer s = (if exited (mpc s) then None else consumer1 s)"

fun step2 :: "string list \<Rightarrow> act \<Rightarrow> shared \<Rightarrow> shared option" where
  "step2 argv (Main ok) s = main2 argv ok s"
| "step2 argv (Producer t) s = (if exited (mpc s) then None else producer t s)"
| "step2 argv Consumer s = (if exited (mpc s) then None else consumer2 s)"

section \<open>What the producers keep\<close>

fun p_crit :: "producer_pc \<Rightarrow> bool" where
  "p_crit P_none = False" | "p_crit P_lock = False" | "p_crit P_count = False" | "p_crit P_return = False"
| "p_crit _ = True"

fun c_crit :: "consumer_pc \<Rightarrow> bool" where
  "c_crit C_test = True" | "c_crit C_ready_unlock = True" | "c_crit C_retry_unlock = True" | "c_crit _ = False"

fun p_lag :: "producer_pc \<Rightarrow> int" where
  "p_lag P_inc_nval = 1" | "p_lag _ = 0"

fun p_uncounted :: "producer_pc \<Rightarrow> int" where
  "p_uncounted P_inc_nval = 1" | "p_uncounted P_unlock = 1" | "p_uncounted P_count = 1" | "p_uncounted _ = 0"

fun p_ok :: "int \<Rightarrow> int \<Rightarrow> (nat \<Rightarrow> int) \<Rightarrow> producer_pc \<Rightarrow> bool" where
  "p_ok n k b P_store = (k < n)"
| "p_ok n k b P_inc_nput = (k < n \<and> b (nat k) = k)"
| "p_ok n k b P_full_unlock = (n \<le> k)"
| "p_ok n k b P_return = (n \<le> k)"
| "p_ok n k b _ = True"

definition live_count :: "shared \<Rightarrow> nat \<Rightarrow> int" where
  "live_count s t = (if ppc s t = P_none then 0 else count s t)"

definition lock_ok :: "shared \<Rightarrow> bool" where
  "lock_ok s \<longleftrightarrow> (\<forall>t. mutex s = Some (Prod t) \<longleftrightarrow> p_crit (ppc s t)) \<and> (mutex s = Some Cons \<longleftrightarrow> c_crit (cpc s))"

definition fill_ok :: "nat \<Rightarrow> shared \<Rightarrow> bool" where
  "fill_ok T s \<longleftrightarrow> 0 \<le> nput s \<and> nput s \<le> max 0 (nitems s) \<and> nitems s \<le> MAXNITEMS \<and>
     (\<forall>j < nat (nput s). buf s j = int j) \<and> (\<forall>t. p_ok (nitems s) (nput s) (buf s) (ppc s t)) \<and>
     (\<forall>t \<ge> T. ppc s t = P_none) \<and> nval s + tot p_lag (ppc s) T = nput s"

definition counts_ok :: "nat \<Rightarrow> shared \<Rightarrow> bool" where
  "counts_ok T s \<longleftrightarrow> tot (\<lambda>c. c) (live_count s) T + tot p_uncounted (ppc s) T = nput s"

lemma mp_producerE:
  assumes "producer t s = Some s'"
  obtains (lock) "ppc s t = P_lock" "mutex s = None" "s' = s\<lparr>mutex := Some (Prod t), ppc := (ppc s)(t := P_test)\<rparr>"
  | (full) "ppc s t = P_test" "nitems s \<le> nput s" "s' = s\<lparr>ppc := (ppc s)(t := P_full_unlock)\<rparr>"
  | (room) "ppc s t = P_test" "nput s < nitems s" "s' = s\<lparr>ppc := (ppc s)(t := P_store)\<rparr>"
  | (done') "ppc s t = P_full_unlock" "s' = s\<lparr>mutex := None, ppc := (ppc s)(t := P_return)\<rparr>"
  | (store) "ppc s t = P_store" "0 \<le> nput s" "nput s < MAXNITEMS"
      "s' = s\<lparr>buf := (buf s)(nat (nput s) := nval s), ppc := (ppc s)(t := P_inc_nput)\<rparr>"
  | (outside) "ppc s t = P_store" "\<not> (0 \<le> nput s \<and> nput s < MAXNITEMS)" "s' = s\<lparr>mpc := M_undef\<rparr>"
  | (nput) "ppc s t = P_inc_nput" "s' = s\<lparr>nput := nput s + 1, ppc := (ppc s)(t := P_inc_nval)\<rparr>"
  | (nval) "ppc s t = P_inc_nval" "s' = s\<lparr>nval := nval s + 1, ppc := (ppc s)(t := P_unlock)\<rparr>"
  | (unlock) "ppc s t = P_unlock" "s' = s\<lparr>mutex := None, ppc := (ppc s)(t := P_count)\<rparr>"
  | (count) "ppc s t = P_count" "s' = s\<lparr>count := (count s)(t := count s t + 1), ppc := (ppc s)(t := P_lock)\<rparr>"
proof (cases "ppc s t")
  case P_lock then show ?thesis using lock assms by (auto simp: producer_def)
next
  case P_test then show ?thesis using full room assms by (cases "nitems s \<le> nput s") (auto simp: producer_def)
next
  case P_full_unlock then show ?thesis using done' assms by (auto simp: producer_def mutex_unlock_def)
next
  case P_store then show ?thesis using store outside assms by (cases "0 \<le> nput s \<and> nput s < MAXNITEMS") (auto simp: producer_def)
next
  case P_inc_nput then show ?thesis using nput assms by (auto simp: producer_def)
next
  case P_inc_nval then show ?thesis using nval assms by (auto simp: producer_def)
next
  case P_unlock then show ?thesis using unlock assms by (auto simp: producer_def mutex_unlock_def)
next
  case P_count then show ?thesis using count assms by (auto simp: producer_def)
next
  case P_none then show ?thesis using assms by (simp add: producer_def)
next
  case P_return then show ?thesis using assms by (simp add: producer_def)
qed

lemma mp_producer_frame:
  assumes "producer t s = Some s'"
  shows "mpc s' = mpc s \<or> mpc s' = M_undef" and "cpc s' = cpc s" and "c_i s' = c_i s" and "nitems s' = nitems s"
    and "nthreads s' = nthreads s" and "printed s' = printed s" and "ppc s' = (ppc s)(t := ppc s' t)"
    and "ppc s t \<noteq> P_none" and "ppc s t \<noteq> P_return" and "ppc s' t \<noteq> P_none" and "u \<noteq> t \<Longrightarrow> count s' u = count s u"
    and "nput s \<le> nput s'"
  using assms by (elim mp_producerE; simp add: fun_eq_iff)+

lemma mp_lock_excl: "lock_ok s \<Longrightarrow> p_crit (ppc s t) \<Longrightarrow> p_crit (ppc s u) \<Longrightarrow> u = t"
  unfolding lock_ok_def by (metis option.inject who.inject)

lemma mp_holder: "lock_ok s \<Longrightarrow> p_crit (ppc s t) \<Longrightarrow> mutex s = Some (Prod t)"
  by (simp add: lock_ok_def)

lemma mp_producer_lock:
  assumes "lock_ok s" and "producer t s = Some s'"
  shows "lock_ok s'"
  using assms(2) mp_holder [OF assms(1), of t] assms(1) by (elim mp_producerE) (auto simp: lock_ok_def)

lemma p_ok_mono: "p_ok n k b pc \<Longrightarrow> \<not> p_crit pc \<Longrightarrow> k \<le> k' \<Longrightarrow> p_ok n k' b' pc"
  by (cases pc) auto

lemma mp_producer_fill:
  assumes fill: "fill_ok T s" and lock: "lock_ok s" and p: "producer t s = Some s'" and m: "\<not> exited (mpc s)"
  shows "fill_ok T s' \<and> mpc s' = mpc s"
proof -
  have tT: "t < T" using fill mp_producer_frame(8) [OF p] unfolding fill_ok_def by (meson not_le)
  have ok: "p_ok (nitems s) (nput s) (buf s) (ppc s t)" using fill by (simp add: fill_ok_def)
  have lag: "nval s = nput s" if "p_crit (ppc s t)" "ppc s t \<noteq> P_inc_nval"
  proof -
    have "tot p_lag (ppc s) T = 0"
    proof (rule tot_zero)
      fix u assume "u < T"
      show "p_lag (ppc s u) = 0"
        using mp_lock_excl [OF lock that(1), of u] that(2) by (cases "ppc s u") auto
    qed
    with fill show ?thesis by (simp add: fill_ok_def)
  qed
  have others: "p_ok (nitems s) k b (ppc s u)" if "u \<noteq> t" "nput s \<le> k" "p_crit (ppc s t) \<or> k = nput s \<and> b = buf s" for u k b
  proof (cases "k = nput s \<and> b = buf s")
    case True then show ?thesis using fill by (simp add: fill_ok_def)
  next
    case False
    then have "\<not> p_crit (ppc s u)" using that mp_lock_excl [OF lock] by blast
    then show ?thesis using p_ok_mono that(2) fill unfolding fill_ok_def by blast
  qed
  from p show ?thesis
  proof (cases rule: mp_producerE)
    case store
    have "p_ok (nitems s) (nput s) ((buf s)(nat (nput s) := nval s)) (ppc s u)" if "u \<noteq> t" for u
      using others [OF that order_refl] store by simp
    then show ?thesis
      using store fill tT lag ok unfolding fill_ok_def by simp
  next
    case nput
    then have "nput s < nitems s" "buf s (nat (nput s)) = nput s" using ok by simp_all
    moreover have "p_ok (nitems s) (nput s + 1) (buf s) (ppc s u)" if "u \<noteq> t" for u
      using others [OF that, of "nput s + 1"] nput by simp
    moreover have "nat (nput s + 1) = Suc (nat (nput s))" using fill unfolding fill_ok_def by linarith
    ultimately show ?thesis
      using nput fill tT lag unfolding fill_ok_def by (simp add: less_Suc_eq all_conj_distrib)
  next
    case outside
    then show ?thesis using fill ok unfolding fill_ok_def by simp
  qed (use fill tT ok lag in \<open>simp_all add: fill_ok_def\<close>)
qed

lemma mp_producer_counts:
  assumes "counts_ok T s" and "t < T" and "producer t s = Some s'"
  shows "counts_ok T s'"
proof -
  obtain pc where pc: "ppc s' = (ppc s)(t := pc)" "pc \<noteq> P_none"
    using mp_producer_frame(7,10) [OF assms(3)] by blast
  then have "live_count s' = (live_count s)(t := count s' t)" "live_count s t = count s t"
    using mp_producer_frame(8,11) [OF assms(3)] by (auto simp: live_count_def fun_eq_iff)
  then have "tot (\<lambda>c. c) (live_count s') T = tot (\<lambda>c. c) (live_count s) T - count s t + count s' t"
    using assms(2) by simp
  moreover from assms(3) have "count s' t + p_uncounted (ppc s' t) - nput s' = count s t + p_uncounted (ppc s t) - nput s"
    by (cases rule: mp_producerE) simp_all
  moreover have "tot p_uncounted (ppc s') T = tot p_uncounted (ppc s) T - p_uncounted (ppc s t) + p_uncounted (ppc s' t)"
    using mp_producer_frame(7) [OF assms(3)] tot_upd [OF assms(2)] by metis
  ultimately show ?thesis using assms(1) by (simp add: counts_ok_def)
qed

section \<open>Invariant\<close>

definition wanted :: "string list \<Rightarrow> int" where
  "wanted argv = max 0 (min (atoi (argv ! 1)) MAXNITEMS)"

definition threads :: "string list \<Rightarrow> nat" where
  "threads argv = nat (min (atoi (argv ! 2)) MAXNTHREADS)"

fun created :: "nat \<Rightarrow> main_pc \<Rightarrow> nat" where
  "created T M_args = 0" | "created T (M_create i) = i" | "created T _ = T"

text \<open>How many producers have been joined; \<open>late\<close> is the first program, which starts the consumer after that.\<close>

fun joined :: "bool \<Rightarrow> nat \<Rightarrow> main_pc \<Rightarrow> nat" where
  "joined late T (M_join i) = i" | "joined late T M_join_consumer = T" | "joined late T (M_exit c) = (if c = 0 then T else 0)"
| "joined late T M_create_consumer = (if late then T else 0)" | "joined late T _ = 0"

fun c_range :: "int \<Rightarrow> consumer_pc \<Rightarrow> int \<Rightarrow> bool" where
  "c_range n C_none i = True"
| "c_range n C_for i = (0 \<le> i \<and> i \<le> max 0 n)"
| "c_range n C_return i = (i = max 0 n)"
| "c_range n _ i = (0 \<le> i \<and> i < n)"

definition args_ok :: "string list \<Rightarrow> shared \<Rightarrow> bool" where
  "args_ok argv s \<longleftrightarrow> (case mpc s of M_args \<Rightarrow> nitems s = 0 \<and> (\<forall>t. ppc s t = P_none) \<and> nput s = 0
     | M_exit c \<Rightarrow> if c = 0 then length argv = 3 \<and> nitems s = min (atoi (argv ! 1)) MAXNITEMS else nput s = 0
     | _ \<Rightarrow> length argv = 3 \<and> nitems s = min (atoi (argv ! 1)) MAXNITEMS \<and> nthreads s = min (atoi (argv ! 2)) MAXNTHREADS)"

definition main_ok :: "bool \<Rightarrow> nat \<Rightarrow> shared \<Rightarrow> bool" where
  "main_ok late T s \<longleftrightarrow> created T (mpc s) \<le> T \<and> joined late T (mpc s) \<le> T \<and>
     (\<forall>t \<ge> created T (mpc s). ppc s t = P_none) \<and> (\<forall>t < joined late T (mpc s). ppc s t = P_return)"

definition c_allowed :: "bool \<Rightarrow> main_pc \<Rightarrow> consumer_pc \<Rightarrow> bool" where
  "c_allowed late m pc = (case m of M_join i \<Rightarrow> late \<longrightarrow> pc = C_none | M_join_consumer \<Rightarrow> True | M_undef \<Rightarrow> True
      | M_exit c \<Rightarrow> pc = (if c = 0 then C_return else C_none) | _ \<Rightarrow> pc = C_none)"

definition consumer_ok :: "bool \<Rightarrow> nat \<Rightarrow> shared \<Rightarrow> bool" where
  "consumer_ok late T s \<longleftrightarrow> c_range (nitems s) (cpc s) (c_i s) \<and>
     c_allowed late (mpc s) (cpc s) \<and>
     (cpc s \<noteq> C_none \<and> late \<longrightarrow> (\<forall>t < T. ppc s t = P_return)) \<and>
     (late \<longrightarrow> cpc s \<in> {C_none, C_for, C_check, C_inc, C_return}) \<and>
     (cpc s \<in> {C_ready_unlock, C_check} \<and> (late \<longrightarrow> 0 < T) \<longrightarrow> c_i s < nput s)"

definition lines_ok :: "bool \<Rightarrow> nat \<Rightarrow> shared \<Rightarrow> bool" where
  "lines_ok late T s \<longleftrightarrow> T = 0 \<or> mpc s = M_exit 1 \<and> printed s = [Usage] \<or> (\<exists>k. printed s = map (\<lambda>i. Count i (count s i)) [0..<k] \<and> (\<forall>t < k. ppc s t = P_return) \<and>
     (mpc s \<noteq> M_undef \<longrightarrow> k = joined late T (mpc s)))"

definition inv :: "bool \<Rightarrow> string list \<Rightarrow> shared \<Rightarrow> bool" where
  "inv late argv s \<longleftrightarrow> lock_ok s \<and> fill_ok (threads argv) s \<and> counts_ok (threads argv) s \<and> args_ok argv s \<and>
     main_ok late (threads argv) s \<and> consumer_ok late (threads argv) s \<and> lines_ok late (threads argv) s \<and>
     (\<forall>c. mpc s = M_exit c \<longrightarrow> c = 0 \<or> c = 1)"

lemma mp_start_inv: "inv late argv (start g)"
  by (simp add: inv_def start_def lock_ok_def fill_ok_def counts_ok_def args_ok_def main_ok_def consumer_ok_def
      lines_ok_def c_allowed_def MAXNITEMS_def tot_zero live_count_def)

lemma mp_producer_inv:
  assumes i: "inv late argv s" and m: "\<not> exited (mpc s)" and p: "producer t s = Some s'"
  shows "inv late argv s'"
proof -
  let ?T = "threads argv"
  note f = mp_producer_frame [OF p]
  have pc: "ppc s' u = ppc s u" if "u \<noteq> t" for u using f(7) that by (metis fun_upd_other)
  have fill: "fill_ok ?T s'" "mpc s' = mpc s" using mp_producer_fill [OF _ _ p m] i by (auto simp: inv_def)
  have tT: "t < ?T" using i f(8) unfolding inv_def fill_ok_def by (meson not_le)
  have ret: "ppc s' u = P_return" if "ppc s u = P_return" for u using that pc f(9) by (cases "u = t") auto
  have cnt: "count s' u = count s u" if "ppc s u = P_return" for u using that f(9,11) by metis
  have cr: "t < created ?T (mpc s)" using i f(8) unfolding inv_def main_ok_def by (meson not_le)
  have "args_ok argv s'"
    using i f(4,5,8) fill(2) m unfolding inv_def args_ok_def by (auto split: main_pc.splits)
  moreover have "main_ok late ?T s'"
    using i pc ret cr unfolding inv_def main_ok_def fill(2) by (metis leD)
  moreover have "consumer_ok late ?T s'"
    using i f(2,3,4,12) ret unfolding inv_def consumer_ok_def fill(2) by auto
  moreover have "lines_ok late ?T s'"
  proof -
    consider "?T = 0" | "mpc s = M_exit 1" "printed s = [Usage]" | k where "printed s = map (\<lambda>i. Count i (count s i)) [0..<k]" "\<forall>t < k. ppc s t = P_return"
        "mpc s \<noteq> M_undef \<longrightarrow> k = joined late ?T (mpc s)" using i by (auto simp: inv_def lines_ok_def)
    then show ?thesis
    proof cases
      case 3
      then have "printed s' = map (\<lambda>i. Count i (count s' i)) [0..<k]" "\<forall>t < k. ppc s' t = P_return"
        using f(6) cnt ret by auto
      then show ?thesis using 3(3) fill(2) unfolding lines_ok_def by metis
    qed (simp_all add: lines_ok_def fill(2) f(6))
  qed
  ultimately show ?thesis
    using i mp_producer_lock [OF _ p] mp_producer_counts [OF _ tT p] fill unfolding inv_def by auto
qed

text \<open>A step of the consumer leaves the rest of the state alone.\<close>

lemma mp_consumer_frame_inv:
  assumes "inv late argv s" and "nitems s' = nitems s" and "nthreads s' = nthreads s" and "buf s' = buf s"
    and "nput s' = nput s" and "nval s' = nval s" and "count s' = count s" and "mpc s' = mpc s" and "ppc s' = ppc s"
    and "lock_ok s'" and "consumer_ok late (threads argv) s'" and "printed s' = printed s \<or> threads argv = 0"
  shows "inv late argv s'"
proof -
  have "live_count s' = live_count s" using assms(7,9) by (simp add: live_count_def fun_eq_iff)
  note eqs = this assms(2-9)
  have "fill_ok T s' = fill_ok T s" "counts_ok T s' = counts_ok T s" "args_ok argv s' = args_ok argv s"
      "main_ok late T s' = main_ok late T s" for T
    unfolding fill_ok_def counts_ok_def args_ok_def main_ok_def eqs by (rule refl)+
  moreover have "lines_ok late (threads argv) s'"
    using assms(1,12) unfolding inv_def lines_ok_def eqs by metis
  ultimately show ?thesis
    using assms(1,10,11) unfolding inv_def assms(8) by blast
qed

lemma mp_consumer1E:
  assumes "consumer1 s = Some s'"
  obtains (enter) "cpc s = C_for" "c_i s < nitems s" "s' = s\<lparr>cpc := C_check\<rparr>"
  | (leave) "cpc s = C_for" "nitems s \<le> c_i s" "s' = s\<lparr>cpc := C_return\<rparr>"
  | (check) "cpc s = C_check" "s' = check s"
  | (inc) "cpc s = C_inc" "s' = s\<lparr>c_i := c_i s + 1, cpc := C_for\<rparr>"
  using assms unfolding consumer1_def by (cases "cpc s"; cases "c_i s < nitems s") (auto intro: that)

lemma mp_consumer2E:
  assumes "consumer2 s = Some s'"
  obtains (enter) "cpc s = C_for" "c_i s < nitems s" "s' = s\<lparr>cpc := C_lock\<rparr>"
  | (leave) "cpc s = C_for" "nitems s \<le> c_i s" "s' = s\<lparr>cpc := C_return\<rparr>"
  | (lock) "cpc s = C_lock" "mutex s = None" "s' = s\<lparr>mutex := Some Cons, cpc := C_test\<rparr>"
  | (ready) "cpc s = C_test" "c_i s < nput s" "s' = s\<lparr>cpc := C_ready_unlock\<rparr>"
  | (retry) "cpc s = C_test" "nput s \<le> c_i s" "s' = s\<lparr>cpc := C_retry_unlock\<rparr>"
  | (go) "cpc s = C_ready_unlock" "s' = s\<lparr>mutex := None, cpc := C_check\<rparr>"
  | (again) "cpc s = C_retry_unlock" "s' = s\<lparr>mutex := None, cpc := C_lock\<rparr>"
  | (check) "cpc s = C_check" "s' = check s"
  | (inc) "cpc s = C_inc" "s' = s\<lparr>c_i := c_i s + 1, cpc := C_for\<rparr>"
proof (cases "cpc s")
  case C_for
  then have "s' = (if c_i s < nitems s then s\<lparr>cpc := C_lock\<rparr> else s\<lparr>cpc := C_return\<rparr>)"
    using assms by (simp add: consumer2_def split: if_splits)
  then show ?thesis using enter [OF C_for] leave [OF C_for] by (cases "c_i s < nitems s") (simp_all only: if_True if_False not_less)
next
  case C_lock
  then have "mutex s = None" "s' = s\<lparr>mutex := Some Cons, cpc := C_test\<rparr>"
    using assms by (auto simp: consumer2_def consumer_wait_def)
  then show ?thesis by (rule lock [OF C_lock])
next
  case C_test
  then have "s' = (if c_i s < nput s then s\<lparr>cpc := C_ready_unlock\<rparr> else s\<lparr>cpc := C_retry_unlock\<rparr>)"
    using assms by (simp add: consumer2_def consumer_wait_def split: if_splits)
  then show ?thesis using ready [OF C_test] retry [OF C_test] by (cases "c_i s < nput s") (simp_all only: if_True if_False not_less)
next
  case C_ready_unlock
  with assms have "s' = s\<lparr>mutex := None, cpc := C_check\<rparr>" by (simp add: consumer2_def consumer_wait_def mutex_unlock_def)
  then show ?thesis by (rule go [OF C_ready_unlock])
next
  case C_retry_unlock
  with assms have "s' = s\<lparr>mutex := None, cpc := C_lock\<rparr>" by (simp add: consumer2_def consumer_wait_def mutex_unlock_def)
  then show ?thesis by (rule again [OF C_retry_unlock])
next
  case C_check
  with assms have "s' = check s" by (simp add: consumer2_def)
  then show ?thesis by (rule check [OF C_check])
next
  case C_inc
  with assms have "s' = s\<lparr>c_i := c_i s + 1, cpc := C_for\<rparr>" by (simp add: consumer2_def)
  then show ?thesis by (rule inc [OF C_inc])
qed (use assms in \<open>simp_all add: consumer2_def\<close>)

lemma mp_check:
  assumes "inv late argv s" and "cpc s = C_check" and "late \<longrightarrow> 0 < threads argv"
  shows "check s = s\<lparr>cpc := C_inc\<rparr>"
proof -
  have "0 \<le> c_i s" "c_i s < nput s" using assms by (auto simp: inv_def consumer_ok_def)
  then have "buf s (nat (c_i s)) = c_i s" using assms(1) unfolding inv_def fill_ok_def by (metis int_nat_eq nat_less_eq_zless)
  then show ?thesis by (simp add: check_def)
qed

lemma mp_all_returned:
  assumes "inv late argv s" and "\<forall>t < threads argv. ppc s t = P_return" and "0 < threads argv"
  shows "nitems s \<le> nput s"
proof -
  have "p_ok (nitems s) (nput s) (buf s) (ppc s 0)" using assms(1) by (simp add: inv_def fill_ok_def)
  then show ?thesis using assms(2,3) by simp
qed

lemma mp_check_frame: "check s = s\<lparr>printed := printed (check s), cpc := C_inc\<rparr>"
  by (simp add: check_def)

lemma mp_consumer1_inv:
  assumes i: "inv True argv s" and m: "\<not> exited (mpc s)" and c: "consumer1 s = Some s'"
  shows "inv True argv s'"
proof -
  have ck: "lock_ok s" "consumer_ok True (threads argv) s" using i by (auto simp: inv_def)
  have late: "mpc s = M_join_consumer" "\<forall>t < threads argv. ppc s t = P_return"
  proof -
    have "cpc s \<noteq> C_none" using c by (auto simp: consumer1_def)
    then show "mpc s = M_join_consumer" "\<forall>t < threads argv. ppc s t = P_return"
      using ck(2) m by (auto simp: consumer_ok_def c_allowed_def split: main_pc.splits)
  qed
  note ret = mp_all_returned [OF i late(2)]
  from c show ?thesis
  proof (cases rule: mp_consumer1E)
    case check
    have "printed s' = printed s \<or> threads argv = 0" using mp_check [OF i check(1)] check(2) by auto
    then show ?thesis
      by (rule mp_consumer_frame_inv [OF i, rotated -1])
        (use check ck late mp_check_frame [of s] in \<open>auto simp: check_def lock_ok_def consumer_ok_def c_allowed_def\<close>)
  qed (rule mp_consumer_frame_inv [OF i]; use ck late ret in \<open>auto simp: lock_ok_def consumer_ok_def c_allowed_def\<close>)+
qed

lemma mp_consumer2_inv:
  assumes i: "inv False argv s" and m: "\<not> exited (mpc s)" and c: "consumer2 s = Some s'"
  shows "inv False argv s'"
proof -
  have ck: "lock_ok s" "consumer_ok False (threads argv) s" using i by (auto simp: inv_def)
  have holder: "mutex s = Some Cons" if "c_crit (cpc s)" using ck(1) that by (simp add: lock_ok_def)
  have al: "c_allowed False (mpc s) pc" for pc
  proof -
    have "cpc s \<noteq> C_none" using c by (auto simp: consumer2_def consumer_wait_def)
    then show ?thesis using ck(2) m by (auto simp: consumer_ok_def c_allowed_def split: main_pc.splits)
  qed
  from c show ?thesis
  proof (cases rule: mp_consumer2E)
    case check
    show ?thesis
      by (rule mp_consumer_frame_inv [OF i])
        (use check ck al mp_check [OF i check(1)] in \<open>auto simp: lock_ok_def consumer_ok_def\<close>)
  qed (rule mp_consumer_frame_inv [OF i]; use ck al holder in \<open>auto simp: lock_ok_def consumer_ok_def\<close>)+
qed

section \<open>Steps of main\<close>

lemma mp_live_count_frame [simp]:
  "live_count (s\<lparr>mpc := m\<rparr>) = live_count s" "live_count (s\<lparr>printed := p\<rparr>) = live_count s"
  "live_count (s\<lparr>nitems := n\<rparr>) = live_count s" "live_count (s\<lparr>nthreads := n\<rparr>) = live_count s"
  "live_count (s\<lparr>cpc := c\<rparr>) = live_count s" "live_count (s\<lparr>c_i := n\<rparr>) = live_count s"
  by (simp_all add: live_count_def fun_eq_iff)

lemmas main_inv_defs = inv_def lock_ok_def fill_ok_def counts_ok_def args_ok_def main_ok_def consumer_ok_def
  c_allowed_def lines_ok_def

lemma mpc_frame [simp]:
  "lock_ok (s\<lparr>mpc := m\<rparr>) = lock_ok s" "fill_ok T (s\<lparr>mpc := m\<rparr>) = fill_ok T s" "counts_ok T (s\<lparr>mpc := m\<rparr>) = counts_ok T s"
  by (simp_all add: lock_ok_def fill_ok_def counts_ok_def)

lemma mp_goto_inv:
  assumes "inv late argv s" and "args_ok argv s \<Longrightarrow> args_ok argv (s\<lparr>mpc := m\<rparr>)"
    and "main_ok late (threads argv) s \<Longrightarrow> main_ok late (threads argv) (s\<lparr>mpc := m\<rparr>)"
    and "consumer_ok late (threads argv) s \<Longrightarrow> consumer_ok late (threads argv) (s\<lparr>mpc := m\<rparr>)"
    and "lines_ok late (threads argv) s \<Longrightarrow> lines_ok late (threads argv) (s\<lparr>mpc := m\<rparr>)"
    and "m = M_exit 0 \<or> (\<forall>c. m \<noteq> M_exit c)"
  shows "inv late argv (s\<lparr>mpc := m\<rparr>)"
  using assms unfolding inv_def by auto

lemma mp_threads: "inv late argv s \<Longrightarrow> \<not> exited (mpc s) \<Longrightarrow> mpc s \<noteq> M_args \<Longrightarrow> threads argv = nat (nthreads s)"
  by (cases "mpc s") (simp_all add: inv_def args_ok_def threads_def)

lemma mp_args_inv:
  assumes i: "inv late argv s" and m: "mpc s = M_args"
  shows "inv late argv (main_args argv s)"
proof -
  have c: "cpc s = C_none" "mutex s \<noteq> Some Cons" "printed s = [] \<or> threads argv = 0"
    using i m by (auto simp: main_inv_defs)
  then show ?thesis using i m by (auto simp: main_inv_defs main_args_def)
qed

lemma mp_create_inv:
  assumes i: "inv late argv s" and m: "mpc s = M_create k" and t: "pc = (if late then M_join 0 else M_create_consumer)"
  shows "inv late argv (main_create k pc ok s)"
proof (cases "int k < nthreads s")
  case True
  let ?s = "main_create k pc ok s"
  have T: "threads argv = nat (nthreads s)" using mp_threads [OF i] m by simp
  have k: "k < threads argv" using True T by linarith
  have none: "ppc s k = P_none" using i m by (auto simp: inv_def main_ok_def)
  have eq: "?s = s\<lparr>count := (count s)(k := 0), ppc := (if ok then (ppc s)(k := P_lock) else ppc s), mpc := M_create (Suc k)\<rparr>"
    using True by (simp add: main_create_def)
  have live: "live_count ?s = live_count s" using none unfolding eq by (auto simp: live_count_def fun_eq_iff)
  have "counts_ok (threads argv) ?s" using i none k unfolding counts_ok_def live inv_def by (simp add: eq)
  moreover have "fill_ok (threads argv) ?s" using i none k unfolding inv_def fill_ok_def by (simp add: eq)
  moreover have "lock_ok ?s" using i none unfolding inv_def lock_ok_def by (auto simp: eq)
  moreover have "lines_ok late (threads argv) ?s" using i m unfolding inv_def lines_ok_def by (auto simp: eq)
  moreover have "args_ok argv ?s" "main_ok late (threads argv) ?s" "consumer_ok late (threads argv) ?s"
    using i m k unfolding inv_def args_ok_def main_ok_def consumer_ok_def c_allowed_def by (auto simp: eq)
  ultimately show ?thesis unfolding inv_def by (simp add: eq)
next
  case False
  have T: "threads argv = nat (nthreads s)" using mp_threads [OF i] m by simp
  have k: "k = threads argv" using i m False T by (auto simp: inv_def main_ok_def)
  have eq: "main_create k pc ok s = s\<lparr>mpc := pc\<rparr>" using False by (simp add: main_create_def)
  show ?thesis
    unfolding eq
    by (rule mp_goto_inv [OF i]; use m t k in \<open>auto simp: args_ok_def main_ok_def consumer_ok_def c_allowed_def lines_ok_def\<close>)
qed

lemma mp_undef_inv:
  assumes i: "inv late argv s" and m: "mpc s = M_join k \<or> mpc s = M_join_consumer"
  shows "inv late argv (s\<lparr>mpc := M_undef\<rparr>)"
proof (rule mp_goto_inv [OF i])
  show "args_ok argv (s\<lparr>mpc := M_undef\<rparr>)" using i m unfolding inv_def args_ok_def by auto
  show "main_ok late (threads argv) (s\<lparr>mpc := M_undef\<rparr>)" using i m unfolding inv_def main_ok_def by auto
  show "consumer_ok late (threads argv) (s\<lparr>mpc := M_undef\<rparr>)"
    using i unfolding inv_def consumer_ok_def c_allowed_def by simp
  have "lines_ok late (threads argv) s" using i by (simp add: inv_def)
  then show "lines_ok late (threads argv) (s\<lparr>mpc := M_undef\<rparr>)" using m unfolding lines_ok_def by force
qed simp

lemma mp_join_inv:
  assumes i: "inv late argv s" and m: "mpc s = M_join k" and t: "pc = (if late then M_create_consumer else M_join_consumer)"
    and j: "main_join k pc s = Some s'"
  shows "inv late argv s'"
proof (cases "int k < nthreads s")
  case True
  have T: "threads argv = nat (nthreads s)" using mp_threads [OF i] m by simp
  have k: "k < threads argv" using True T by linarith
  show ?thesis
  proof (cases "ppc s k = P_return")
    case ret: True
    have eq: "s' = s\<lparr>printed := printed s @ [Count k (count s k)], mpc := M_join (Suc k)\<rparr>"
      using j True ret by (simp add: main_join_def)
    have "lines_ok late (threads argv) s'"
      using i m ret unfolding inv_def lines_ok_def by (auto simp: eq less_Suc_eq)
    moreover have "main_ok late (threads argv) s'"
      using i m ret k unfolding inv_def main_ok_def by (auto simp: eq less_Suc_eq)
    moreover have "lock_ok s'" "fill_ok (threads argv) s'" "counts_ok (threads argv) s'"
      using i unfolding inv_def lock_ok_def fill_ok_def counts_ok_def by (simp_all add: eq)
    moreover have "args_ok argv s" "consumer_ok late (threads argv) s" using i by (simp_all add: inv_def)
    then have "args_ok argv s'" "consumer_ok late (threads argv) s'"
      using m by (simp add: eq args_ok_def, auto simp: eq consumer_ok_def c_allowed_def)
    ultimately show ?thesis unfolding inv_def by (simp add: eq)
  next
    case False
    then have eq: "s' = s\<lparr>mpc := M_undef\<rparr>" using j True by (auto simp: main_join_def split: producer_pc.splits)
    show ?thesis unfolding eq using mp_undef_inv [OF i] m by blast
  qed
next
  case False
  have T: "threads argv = nat (nthreads s)" using mp_threads [OF i] m by simp
  have k: "k = threads argv" using i m False T by (auto simp: inv_def main_ok_def)
  have eq: "s' = s\<lparr>mpc := pc\<rparr>" using False j by (simp add: main_join_def)
  show ?thesis
    unfolding eq
    by (rule mp_goto_inv [OF i]; use m t k in \<open>auto simp: args_ok_def main_ok_def consumer_ok_def c_allowed_def lines_ok_def\<close>)
qed

lemma mp_create_consumer_inv:
  assumes i: "inv late argv s" and m: "mpc s = M_create_consumer" and t: "pc = (if late then M_join_consumer else M_join 0)"
  shows "inv late argv (main_create_consumer pc ok s)"
proof -
  have "inv late argv (s\<lparr>mpc := pc\<rparr>)"
    by (rule mp_goto_inv [OF i]; use m t in \<open>auto simp: args_ok_def main_ok_def consumer_ok_def c_allowed_def lines_ok_def\<close>)
  moreover have "inv late argv (s\<lparr>mpc := pc, cpc := C_for, c_i := 0\<rparr>)"
    by (rule mp_consumer_frame_inv [OF calculation])
      (use i m t in \<open>auto simp: inv_def lock_ok_def main_ok_def consumer_ok_def c_allowed_def\<close>)
  moreover have "s\<lparr>mpc := pc, cpc := C_for, c_i := 0\<rparr> = s\<lparr>cpc := C_for, c_i := 0, mpc := pc\<rparr>" by simp
  ultimately show ?thesis by (simp add: main_create_consumer_def)
qed

lemma mp_join_consumer_inv:
  assumes i: "inv late argv s" and m: "mpc s = M_join_consumer" and j: "main_join_consumer s = Some s'"
  shows "inv late argv s'"
proof -
  have "s' = s\<lparr>mpc := M_exit 0\<rparr> \<and> cpc s = C_return \<or> s' = s\<lparr>mpc := M_undef\<rparr>"
    using j by (auto simp: main_join_consumer_def split: consumer_pc.splits)
  then show ?thesis
  proof
    assume a: "s' = s\<lparr>mpc := M_exit 0\<rparr> \<and> cpc s = C_return"
    show ?thesis unfolding conjunct1 [OF a]
      by (rule mp_goto_inv [OF i]; use m a in \<open>auto simp: args_ok_def main_ok_def consumer_ok_def c_allowed_def lines_ok_def\<close>)
  next
    assume a: "s' = s\<lparr>mpc := M_undef\<rparr>"
    show ?thesis unfolding a using mp_undef_inv [OF i] m by blast
  qed
qed

lemma mp_main1_inv: "inv True argv s \<Longrightarrow> main1 argv ok s = Some s' \<Longrightarrow> inv True argv s'"
  by (cases "mpc s")
    (auto simp: main1_def mp_args_inv mp_create_inv mp_create_consumer_inv intro: mp_join_inv mp_join_consumer_inv)

lemma mp_main2_inv: "inv False argv s \<Longrightarrow> main2 argv ok s = Some s' \<Longrightarrow> inv False argv s'"
  by (cases "mpc s")
    (auto simp: main2_def mp_args_inv mp_create_inv mp_create_consumer_inv intro: mp_join_inv mp_join_consumer_inv)

lemma mp_step1_inv: "inv True argv s \<Longrightarrow> step1 argv a s = Some s' \<Longrightarrow> inv True argv s'"
  by (cases a) (auto intro: mp_main1_inv mp_producer_inv mp_consumer1_inv split: if_splits)

lemma mp_step2_inv: "inv False argv s \<Longrightarrow> step2 argv a s = Some s' \<Longrightarrow> inv False argv s'"
  by (cases a) (auto intro: mp_main2_inv mp_producer_inv mp_consumer2_inv split: if_splits)

section \<open>Termination of the first program\<close>

fun p_rank :: "producer_pc \<Rightarrow> int" where
  "p_rank P_none = 4" | "p_rank P_lock = 3" | "p_rank P_test = 2" | "p_rank P_store = 1" | "p_rank P_inc_nput = 0"
| "p_rank P_inc_nval = 6" | "p_rank P_unlock = 5" | "p_rank P_count = 4" | "p_rank P_full_unlock = 1" | "p_rank P_return = 0"

definition producers_rank :: "string list \<Rightarrow> shared \<Rightarrow> int" where
  "producers_rank argv s = tot p_rank (ppc s) (threads argv) + 7 * (wanted argv - nput s)"

fun c_rank1 :: "int \<Rightarrow> int \<Rightarrow> consumer_pc \<Rightarrow> int" where
  "c_rank1 N i C_none = 3 * N + 2" | "c_rank1 N i C_for = 3 * (N - i) + 1" | "c_rank1 N i C_check = 3 * (N - i)"
| "c_rank1 N i C_inc = 3 * (N - i) - 1" | "c_rank1 N i _ = 0"

fun m_rank1 :: "nat \<Rightarrow> main_pc \<Rightarrow> int" where
  "m_rank1 T M_args = 2 * int T + 6" | "m_rank1 T (M_create i) = 2 * int T + 5 - int i"
| "m_rank1 T (M_join i) = int T + 4 - int i" | "m_rank1 T M_create_consumer = 3" | "m_rank1 T M_join_consumer = 2"
| "m_rank1 T _ = 0"

definition rank1 :: "string list \<Rightarrow> shared \<Rightarrow> nat" where
  "rank1 argv s = nat (producers_rank argv s + c_rank1 (wanted argv) (c_i s) (cpc s) + m_rank1 (threads argv) (mpc s))"

lemma p_rank_nonneg: "0 \<le> p_rank pc"
  by (cases pc) auto

lemma mp_nitems_wanted:
  assumes "inv late argv s" and "mpc s \<notin> {M_args, M_exit 1}"
  shows "max 0 (nitems s) = wanted argv"
  using assms by (cases "mpc s") (auto simp: inv_def args_ok_def wanted_def)

lemma mp_nput_wanted:
  assumes "inv late argv s"
  shows "nput s \<le> wanted argv"
proof (cases "mpc s \<in> {M_args, M_exit 1}")
  case True then show ?thesis using assms by (auto simp: inv_def args_ok_def wanted_def)
next
  case False
  have "nput s \<le> max 0 (nitems s)" using assms by (simp add: inv_def fill_ok_def)
  with mp_nitems_wanted [OF assms False] show ?thesis by simp
qed

lemma mp_producers_rank_nonneg: "inv late argv s \<Longrightarrow> 0 \<le> producers_rank argv s"
  using mp_nput_wanted [of late argv s] tot_nonneg [of p_rank "ppc s" "threads argv"] p_rank_nonneg
  by (simp add: producers_rank_def)

lemma mp_producer_rank:
  assumes i: "inv late argv s" and m: "\<not> exited (mpc s)" and p: "producer t s = Some s'"
  shows "producers_rank argv s' < producers_rank argv s"
proof -
  have tT: "t < threads argv" using i mp_producer_frame(8) [OF p] unfolding inv_def fill_ok_def by (meson not_le)
  have "tot p_rank (ppc s') (threads argv) = tot p_rank (ppc s) (threads argv) - p_rank (ppc s t) + p_rank (ppc s' t)"
    using mp_producer_frame(7) [OF p] tot_upd [OF tT] by metis
  moreover have "p_rank (ppc s' t) - 7 * nput s' < p_rank (ppc s t) - 7 * nput s"
  proof -
    have "mpc s' = mpc s" using mp_producer_fill [OF _ _ p m] i by (auto simp: inv_def)
    with p m show ?thesis by (elim mp_producerE) auto
  qed
  ultimately show ?thesis by (simp add: producers_rank_def)
qed

lemma mp_c_range:
  assumes "inv late argv s" and "cpc s \<noteq> C_none"
  shows "c_range (wanted argv) (cpc s) (c_i s)" and "nitems s \<le> c_i s \<Longrightarrow> wanted argv \<le> c_i s"
proof -
  have "mpc s \<notin> {M_args, M_exit 1}" using assms by (auto simp: inv_def consumer_ok_def c_allowed_def)
  then have w: "wanted argv = max 0 (nitems s)" using mp_nitems_wanted [OF assms(1)] by simp
  have r: "c_range (nitems s) (cpc s) (c_i s)" using assms by (simp add: inv_def consumer_ok_def)
  then show "c_range (wanted argv) (cpc s) (c_i s)" unfolding w by (cases "cpc s") auto
  show "nitems s \<le> c_i s \<Longrightarrow> wanted argv \<le> c_i s" using r assms(2) unfolding w by (cases "cpc s") auto
qed

lemma c_rank1_nonneg: "inv late argv s \<Longrightarrow> 0 \<le> c_rank1 (wanted argv) (c_i s) (cpc s)"
  using mp_c_range(1) [of late argv s] by (cases "cpc s") (auto simp: wanted_def)

lemma m_rank1_nonneg: "inv late argv s \<Longrightarrow> 0 \<le> m_rank1 (threads argv) (mpc s)"
  by (cases "mpc s") (auto simp: inv_def main_ok_def)

lemma mp_consumer1_rank:
  assumes "inv True argv s" and "consumer1 s = Some s'"
  shows "c_rank1 (wanted argv) (c_i s') (cpc s') < c_rank1 (wanted argv) (c_i s) (cpc s)"
    and "mpc s' = mpc s" and "producers_rank argv s' = producers_rank argv s"
proof -
  have "cpc s \<noteq> C_none" using assms(2) by (auto simp: consumer1_def)
  note r = mp_c_range [OF assms(1) this]
  from assms(2) show "c_rank1 (wanted argv) (c_i s') (cpc s') < c_rank1 (wanted argv) (c_i s) (cpc s)"
    using r by (elim mp_consumer1E) (auto simp: check_def wanted_def)
  from assms(2) show "mpc s' = mpc s" "producers_rank argv s' = producers_rank argv s"
    by (elim mp_consumer1E; simp add: check_def producers_rank_def)+
qed

lemma mp_create_rank:
  assumes i: "inv late argv s" and m: "mpc s = M_create k" and "int k < nthreads s"
  shows "producers_rank argv (main_create k pc ok s) = producers_rank argv s - (if ok then 1 else 0)"
proof -
  have "k < threads argv" using mp_threads [OF i] m assms(3) by simp
  moreover have "ppc s k = P_none" using i m by (auto simp: inv_def main_ok_def)
  ultimately show ?thesis using assms(3) by (simp add: main_create_def producers_rank_def)
qed

lemma mp_main1_rank:
  assumes i: "inv True argv s" and j: "main1 argv ok s = Some s'"
  shows "producers_rank argv s' + c_rank1 (wanted argv) (c_i s') (cpc s') + m_rank1 (threads argv) (mpc s')
    < producers_rank argv s + c_rank1 (wanted argv) (c_i s) (cpc s) + m_rank1 (threads argv) (mpc s)"
proof -
  have le: "created (threads argv) (mpc s) \<le> threads argv" "joined True (threads argv) (mpc s) \<le> threads argv"
    using i by (auto simp: inv_def main_ok_def)
  show ?thesis
  proof (cases "mpc s")
    case M_args
    then show ?thesis using j by (auto simp: main1_def main_args_def producers_rank_def)
  next
    case (M_create k)
    show ?thesis
    proof (cases "int k < nthreads s")
      case True
      then show ?thesis
        using mp_create_rank [OF i M_create True, of "M_join 0" ok] M_create j by (auto simp: main1_def main_create_def)
    qed (use M_create j le in \<open>auto simp: main1_def main_create_def producers_rank_def\<close>)
  next
    case (M_join k)
    then show ?thesis
      using j le by (auto simp: main1_def main_join_def producers_rank_def split: if_splits producer_pc.splits)
  next
    case M_create_consumer
    then have "cpc s = C_none" using i by (auto simp: inv_def consumer_ok_def c_allowed_def)
    then show ?thesis using M_create_consumer j by (auto simp: main1_def main_create_consumer_def producers_rank_def)
  next
    case M_join_consumer
    then show ?thesis
      using j by (auto simp: main1_def main_join_consumer_def producers_rank_def split: consumer_pc.splits)
  qed (use j in \<open>simp_all add: main1_def\<close>)
qed

lemma mp_step1_rank:
  assumes i: "inv True argv s" and s: "step1 argv a s = Some s'"
  shows "rank1 argv s' < rank1 argv s"
proof -
  have "producers_rank argv s' + c_rank1 (wanted argv) (c_i s') (cpc s') + m_rank1 (threads argv) (mpc s')
    < producers_rank argv s + c_rank1 (wanted argv) (c_i s) (cpc s) + m_rank1 (threads argv) (mpc s)"
  proof (cases a)
    case (Main ok) then show ?thesis using mp_main1_rank [OF i] s by simp
  next
    case (Producer t)
    then have p: "\<not> exited (mpc s)" "producer t s = Some s'" using s by (auto split: if_splits)
    have "mpc s' = mpc s" using mp_producer_fill [OF _ _ p(2,1)] i by (auto simp: inv_def)
    then show ?thesis using mp_producer_rank [OF i p] mp_producer_frame(2,3) [OF p(2)] by simp
  next
    case Consumer
    then show ?thesis using mp_consumer1_rank [OF i, of s'] s by (auto split: if_splits)
  qed
  moreover have "0 \<le> producers_rank argv s' + c_rank1 (wanted argv) (c_i s') (cpc s') + m_rank1 (threads argv) (mpc s')"
    using mp_producers_rank_nonneg c_rank1_nonneg m_rank1_nonneg mp_step1_inv [OF i s] by (meson add_nonneg_nonneg)
  ultimately show ?thesis by (simp add: rank1_def)
qed

text \<open>The actions in which every \<open>pthread_create\<close> succeeds.\<close>

definition good :: "act set" where
  "good = - {Main False}"

lemma mp_crit_moves: "p_crit (ppc s t) \<Longrightarrow> \<exists>s'. producer t s = Some s'"
  by (cases "ppc s t") (auto simp: producer_def Let_def)

text \<open>As long as a producer that was created has not returned, some producer can move or the consumer has the lock.\<close>

lemma mp_producers_move:
  assumes "inv late argv s" and "ppc s t \<noteq> P_none" and "ppc s t \<noteq> P_return" and "mutex s \<noteq> Some Cons"
  shows "\<exists>u s'. producer u s = Some s'"
proof (cases "mutex s")
  case None
  have "\<not> p_crit (ppc s t)" using None assms(1) by (simp add: inv_def lock_ok_def)
  then have "ppc s t = P_lock \<or> ppc s t = P_count" using assms(2,3) by (cases "ppc s t") auto
  then show ?thesis using None by (intro exI [of _ t]) (auto simp: producer_def Let_def mutex_lock_def)
next
  case (Some w)
  then obtain u where "mutex s = Some (Prod u)" using assms(4) by (cases w) auto
  then have "p_crit (ppc s u)" using assms(1) unfolding inv_def lock_ok_def by blast
  then show ?thesis using mp_crit_moves by blast
qed

lemma mp_main_moves:
  assumes "\<not> exited (mpc s)" and "\<And>k. mpc s = M_join k \<Longrightarrow> ppc s k = P_none \<or> ppc s k = P_return"
    and "mpc s = M_join_consumer \<Longrightarrow> cpc s = C_none \<or> cpc s = C_return"
  shows "\<exists>s'. main1 argv ok s = Some s'" and "\<exists>s'. main2 argv ok s = Some s'"
proof -
  have j: "\<exists>s'. main_join k pc s = Some s'" if "mpc s = M_join k" for k pc
    using assms(2) [OF that] by (auto simp: main_join_def)
  have c: "\<exists>s'. main_join_consumer s = Some s'" if "mpc s = M_join_consumer"
    using assms(3) [OF that] by (auto simp: main_join_consumer_def)
  show "\<exists>s'. main1 argv ok s = Some s'" "\<exists>s'. main2 argv ok s = Some s'"
    by (cases "mpc s"; use assms(1) j c in \<open>simp add: main1_def main2_def\<close>)+
qed

lemma mp_progress1:
  assumes i: "inv True argv s" and m: "\<not> exited (mpc s)"
  shows "\<exists>a \<in> good. \<exists>s'. step1 argv a s = Some s'"
proof -
  have c: "cpc s \<in> {C_none, C_for, C_check, C_inc, C_return}" using i by (auto simp: inv_def consumer_ok_def)
  then have lock: "mutex s \<noteq> Some Cons" using i by (auto simp: inv_def lock_ok_def)
  consider "\<exists>s'. main1 argv True s = Some s'"
    | k where "mpc s = M_join k" "ppc s k \<noteq> P_none" "ppc s k \<noteq> P_return"
    | "mpc s = M_join_consumer" "cpc s \<in> {C_for, C_check, C_inc}"
    using mp_main_moves(1) [OF m, of argv True] c by blast
  then show ?thesis
  proof cases
    case 1 then show ?thesis by (auto simp: good_def intro: bexI [of _ "Main True"])
  next
    case 2
    then obtain u s' where "producer u s = Some s'" using mp_producers_move [OF i _ _ lock] by blast
    then show ?thesis using m by (intro bexI [of _ "Producer u"]) (auto simp: good_def)
  next
    case 3
    then have "\<exists>s'. consumer1 s = Some s'" by (auto simp: consumer1_def)
    then show ?thesis using m by (intro bexI [of _ Consumer]) (auto simp: good_def)
  qed
qed

interpretation mutex_prodcons1: terminating_system "step1 argv" "start g" "inv True argv" "rank1 argv"
  "\<lambda>s. exited (mpc s)" good for argv g
  by unfold_locales (rule mp_start_inv, erule (1) mp_step1_inv, erule (1) mp_step1_rank, erule (1) mp_progress1)

section \<open>The second program can always complete\<close>

fun c_rank2 :: "int \<Rightarrow> int \<Rightarrow> bool \<Rightarrow> consumer_pc \<Rightarrow> int" where
  "c_rank2 N i ready C_none = 10 * N + 2" | "c_rank2 N i ready C_for = 10 * (N - i) + 1"
| "c_rank2 N i ready C_test = 10 * (N - i) + (if ready then - 1 else 3)" | "c_rank2 N i ready C_retry_unlock = 10 * (N - i) + 2"
| "c_rank2 N i ready C_lock = 10 * (N - i)" | "c_rank2 N i ready C_ready_unlock = 10 * (N - i) - 2"
| "c_rank2 N i ready C_check = 10 * (N - i) - 3" | "c_rank2 N i ready C_inc = 10 * (N - i) - 4" | "c_rank2 N i ready C_return = 0"

fun m_rank2 :: "nat \<Rightarrow> main_pc \<Rightarrow> int" where
  "m_rank2 T M_args = 2 * int T + 6" | "m_rank2 T (M_create i) = 2 * int T + 5 - int i"
| "m_rank2 T M_create_consumer = int T + 4" | "m_rank2 T (M_join i) = int T + 3 - int i" | "m_rank2 T M_join_consumer = 2"
| "m_rank2 T _ = 0"

definition irank2 :: "string list \<Rightarrow> shared \<Rightarrow> int" where
  "irank2 argv s = producers_rank argv s + c_rank2 (wanted argv) (c_i s) (c_i s < nput s) (cpc s) + m_rank2 (threads argv) (mpc s)"

lemma irank2_nonneg: "inv False argv s \<Longrightarrow> 0 \<le> irank2 argv s"
proof -
  assume i: "inv False argv s"
  have "0 \<le> c_rank2 (wanted argv) (c_i s) (c_i s < nput s) (cpc s)"
    using mp_c_range(1) [OF i] by (cases "cpc s") (auto simp: wanted_def)
  moreover have "0 \<le> m_rank2 (threads argv) (mpc s)" using i by (cases "mpc s") (auto simp: inv_def main_ok_def)
  ultimately show ?thesis using mp_producers_rank_nonneg [OF i] by (simp add: irank2_def)
qed

lemma mp_main2_rank:
  assumes i: "inv False argv s" and j: "main2 argv True s = Some s'"
  shows "irank2 argv s' < irank2 argv s"
proof -
  have le: "created (threads argv) (mpc s) \<le> threads argv" "joined False (threads argv) (mpc s) \<le> threads argv"
    using i by (auto simp: inv_def main_ok_def)
  show ?thesis
  proof (cases "mpc s")
    case M_args
    then show ?thesis using j by (auto simp: main2_def main_args_def producers_rank_def irank2_def)
  next
    case (M_create k)
    show ?thesis
    proof (cases "int k < nthreads s")
      case True
      then show ?thesis
        using mp_create_rank [OF i M_create True, of M_create_consumer True] M_create j
        by (auto simp: main2_def main_create_def irank2_def)
    qed (use M_create j le in \<open>auto simp: main2_def main_create_def producers_rank_def irank2_def\<close>)
  next
    case (M_join k)
    then show ?thesis
      using j le by (auto simp: main2_def main_join_def producers_rank_def irank2_def split: if_splits producer_pc.splits)
  next
    case M_create_consumer
    then have "cpc s = C_none" using i by (auto simp: inv_def consumer_ok_def c_allowed_def)
    then show ?thesis using M_create_consumer j by (auto simp: main2_def main_create_consumer_def producers_rank_def irank2_def)
  next
    case M_join_consumer
    then show ?thesis
      using j by (auto simp: main2_def main_join_consumer_def producers_rank_def irank2_def split: consumer_pc.splits)
  qed (use j in \<open>simp_all add: main2_def\<close>)
qed

lemma mp_consumer2_rank:
  assumes i: "inv False argv s" and c: "consumer2 s = Some s'" and go: "cpc s = C_lock \<longrightarrow> c_i s < nput s"
  shows "irank2 argv s' < irank2 argv s"
proof -
  have "cpc s \<noteq> C_none" using c by (auto simp: consumer2_def)
  note r = mp_c_range [OF i this]
  from c r go show ?thesis
    by (elim mp_consumer2E) (auto simp: check_def irank2_def producers_rank_def wanted_def)
qed

lemma mp_producer2_rank:
  assumes i: "inv False argv s" and m: "\<not> exited (mpc s)" and p: "producer t s = Some s'" and c: "mutex s \<noteq> Some Cons"
  shows "irank2 argv s' < irank2 argv s"
proof -
  have "mpc s' = mpc s" using mp_producer_fill [OF _ _ p m] i by (auto simp: inv_def)
  moreover have "cpc s \<noteq> C_test" using i c by (auto simp: inv_def lock_ok_def)
  then have "c_rank2 (wanted argv) (c_i s) (c_i s < nput s') (cpc s) = c_rank2 (wanted argv) (c_i s) (c_i s < nput s) (cpc s)"
    by (cases "cpc s") auto
  ultimately show ?thesis
    using mp_producer_rank [OF i m p] unfolding irank2_def mp_producer_frame(2,3) [OF p] by simp
qed

lemma mp_descent2:
  assumes i: "inv False argv s" and m: "\<not> (exited (mpc s) \<or> threads argv = 0)"
  shows "\<exists>a \<in> good. \<exists>s'. step2 argv a s = Some s' \<and> nat (irank2 argv s') < nat (irank2 argv s)"
proof -
  have T: "0 < threads argv" and ne: "\<not> exited (mpc s)" using m by auto
  have ok: "\<exists>a \<in> good. \<exists>s'. step2 argv a s = Some s' \<and> nat (irank2 argv s') < nat (irank2 argv s)"
    if "step2 argv a s = Some s'" "irank2 argv s' < irank2 argv s" "a \<in> good" for a s'
  proof -
    have "0 \<le> irank2 argv s'" using irank2_nonneg [OF mp_step2_inv [OF i that(1)]] .
    with that show ?thesis by (intro bexI [of _ a] exI [of _ s']) auto
  qed
  have consumer: ?thesis if "consumer2 s = Some s'" "cpc s = C_lock \<longrightarrow> c_i s < nput s" for s'
    using ok [of Consumer s'] that ne mp_consumer2_rank [OF i that] by (simp add: good_def)
  show ?thesis
  proof (cases "mutex s = Some Cons")
    case True
    then have cr: "c_crit (cpc s)" using i unfolding inv_def lock_ok_def by blast
    then have "\<exists>s'. consumer2 s = Some s'" by (cases "cpc s") (auto simp: consumer2_def consumer_wait_def)
    then show ?thesis using consumer cr by fastforce
  next
    case free: False
    consider "\<exists>s'. main2 argv True s = Some s'"
      | k where "mpc s = M_join k" "ppc s k \<noteq> P_none" "ppc s k \<noteq> P_return"
      | "mpc s = M_join_consumer" "cpc s \<noteq> C_none" "cpc s \<noteq> C_return"
      using mp_main_moves(2) [OF ne, of argv True] by blast
    then show ?thesis
    proof cases
      case 1
      then obtain s' where "main2 argv True s = Some s'" ..
      then show ?thesis using ok [of "Main True" s'] mp_main2_rank [OF i] by (simp add: good_def)
    next
      case 2
      then obtain u s' where "producer u s = Some s'" using mp_producers_move [OF i _ _ free] by blast
      then show ?thesis using ok [of "Producer u" s'] mp_producer2_rank [OF i ne _ free] ne by (simp add: good_def)
    next
      case 3
      have "\<forall>t < threads argv. ppc s t = P_return" using i 3(1) by (auto simp: inv_def main_ok_def)
      then have n: "nitems s \<le> nput s" using mp_all_returned [OF i _ T] by blast
      show ?thesis
      proof (cases "mutex s = None")
        case True
        then have "\<not> c_crit (cpc s)" using i by (auto simp: inv_def lock_ok_def)
        then have "\<exists>s'. consumer2 s = Some s'"
          using 3 True by (cases "cpc s") (auto simp: consumer2_def consumer_wait_def mutex_lock_def)
        moreover have "c_i s < nput s" if "cpc s = C_lock"
          using i n that by (auto simp: inv_def consumer_ok_def)
        ultimately show ?thesis using consumer by blast
      next
        case False
        then obtain u where "mutex s = Some (Prod u)" using free by (metis not_None_eq who.exhaust)
        then have "p_crit (ppc s u)" using i unfolding inv_def lock_ok_def by blast
        then obtain s' where "producer u s = Some s'" using mp_crit_moves by blast
        then show ?thesis using ok [of "Producer u" s'] mp_producer2_rank [OF i ne _ free] ne by (simp add: good_def)
      qed
    qed
  qed
qed

interpretation mutex_prodcons2: completing_system "step2 argv" "start g" "inv False argv" "\<lambda>s. nat (irank2 argv s)"
  "\<lambda>s. exited (mpc s) \<or> threads argv = 0" good for argv g
  by unfold_locales (rule mp_start_inv, erule (1) mp_step2_inv, erule (1) mp_descent2)

section \<open>No undefined behaviour when every thread is created\<close>

fun consumer_started :: "bool \<Rightarrow> main_pc \<Rightarrow> bool" where
  "consumer_started late M_join_consumer = True" | "consumer_started late (M_join _) = (\<not> late)"
| "consumer_started late _ = False"

text \<open>The joins find their threads, and the exit status is 1 exactly for a wrong number of arguments.\<close>

definition created_ok :: "bool \<Rightarrow> string list \<Rightarrow> shared \<Rightarrow> bool" where
  "created_ok late argv s \<longleftrightarrow> mpc s \<noteq> M_undef \<and> (\<forall>c. mpc s = M_exit c \<longrightarrow> c = (if length argv = 3 then 0 else 1)) \<and>
     (\<not> exited (mpc s) \<longrightarrow> (\<forall>t < created (threads argv) (mpc s). ppc s t \<noteq> P_none) \<and>
        (consumer_started late (mpc s) \<longrightarrow> cpc s \<noteq> C_none))"

lemma mp_created_start: "created_ok late argv (start g)"
  by (simp add: created_ok_def start_def)

lemma mp_created_producer:
  assumes c: "created_ok late argv s" and i: "inv late argv s" and m: "\<not> exited (mpc s)" and p: "producer t s = Some s'"
  shows "created_ok late argv s'"
proof -
  note f = mp_producer_frame [OF p]
  have "mpc s' = mpc s" using mp_producer_fill [OF _ _ p m] i by (auto simp: inv_def)
  moreover have "ppc s' u \<noteq> P_none" if "ppc s u \<noteq> P_none" for u
    using that f(10) fun_cong [OF f(7), of u] by (cases "u = t") auto
  ultimately show ?thesis using c f(2) by (simp add: created_ok_def)
qed

lemma mp_created_consumer:
  assumes "created_ok late argv s" and "consumer1 s = Some s' \<or> consumer2 s = Some s'"
  shows "created_ok late argv s'"
  using assms(2)
proof
  assume "consumer1 s = Some s'"
  then show ?thesis using assms(1) by (elim mp_consumer1E) (auto simp: created_ok_def check_def)
next
  assume "consumer2 s = Some s'"
  then show ?thesis using assms(1) by (elim mp_consumer2E) (auto simp: created_ok_def check_def)
qed

lemma mp_created_main:
  assumes c: "created_ok late argv s" and i: "inv late argv s"
    and a: "mpc s = M_args \<Longrightarrow> s' = main_args argv s"
    and n: "\<And>k. mpc s = M_create k \<Longrightarrow> s' = main_create k (if late then M_join 0 else M_create_consumer) True s"
    and j: "\<And>k. mpc s = M_join k \<Longrightarrow> main_join k (if late then M_create_consumer else M_join_consumer) s = Some s'"
    and k: "mpc s = M_create_consumer \<Longrightarrow> s' = main_create_consumer (if late then M_join_consumer else M_join 0) True s"
    and l: "mpc s = M_join_consumer \<Longrightarrow> main_join_consumer s = Some s'" and m: "\<not> exited (mpc s)"
  shows "created_ok late argv s'"
proof -
  have T: "threads argv = nat (nthreads s)" if "mpc s \<noteq> M_args" using mp_threads [OF i m that] .
  have arg: "length argv = 3" if "mpc s \<noteq> M_args" using i m that by (cases "mpc s") (auto simp: inv_def args_ok_def)
  have none: "\<forall>t < created (threads argv) (mpc s). ppc s t \<noteq> P_none" using c m by (simp add: created_ok_def)
  show ?thesis
  proof (cases "mpc s")
    case M_args
    then show ?thesis using a by (simp add: main_args_def created_ok_def)
  next
    case (M_create q)
    then show ?thesis using n [OF M_create] T none by (auto simp: main_create_def created_ok_def less_Suc_eq)
  next
    case (M_join q)
    show ?thesis
    proof (cases "int q < nthreads s")
      case True
      then have "ppc s q \<noteq> P_none" using none M_join T by auto
      then show ?thesis using j [OF M_join] True M_join c m by (auto simp: main_join_def created_ok_def split: producer_pc.splits)
    next
      case False
      then show ?thesis using j [OF M_join] M_join c m arg by (cases late) (simp_all add: main_join_def created_ok_def, auto)
    qed
  next
    case M_create_consumer
    then show ?thesis using k none by (auto simp: main_create_consumer_def created_ok_def)
  next
    case M_join_consumer
    then have "cpc s \<noteq> C_none" using c by (simp add: created_ok_def)
    then show ?thesis using l M_join_consumer arg by (auto simp: main_join_consumer_def created_ok_def split: consumer_pc.splits)
  qed (use m in simp_all)
qed

lemma mp_created1:
  assumes "inv True argv s \<and> created_ok True argv s" and "only (\<lambda>a. a \<noteq> Main False) (step1 argv) a s = Some s'"
  shows "inv True argv s' \<and> created_ok True argv s'"
proof -
  have s: "step1 argv a s = Some s'" "a \<noteq> Main False" using assms(2) by (auto simp: only_def split: if_splits)
  have "created_ok True argv s'"
  proof (cases a)
    case (Main ok)
    then have m: "main1 argv True s = Some s'" using s by (cases ok) auto
    then have "\<not> exited (mpc s)" by (cases "mpc s") (auto simp: main1_def)
    note c = mp_created_main [OF conjunct2 [OF assms(1)] conjunct1 [OF assms(1)]]
    show ?thesis by (rule c; use m \<open>\<not> exited (mpc s)\<close> in \<open>simp add: main1_def\<close>)
  next
    case (Producer t)
    then have "\<not> exited (mpc s)" "producer t s = Some s'" using s(1) by (auto split: if_splits)
    then show ?thesis using mp_created_producer assms(1) by blast
  next
    case Consumer
    then have "consumer1 s = Some s'" using s(1) by (auto split: if_splits)
    then show ?thesis using mp_created_consumer assms(1) by blast
  qed
  then show ?thesis using mp_step1_inv [OF _ s(1)] assms(1) by blast
qed

lemma mp_created2:
  assumes "inv False argv s \<and> created_ok False argv s" and "only (\<lambda>a. a \<noteq> Main False) (step2 argv) a s = Some s'"
  shows "inv False argv s' \<and> created_ok False argv s'"
proof -
  have s: "step2 argv a s = Some s'" "a \<noteq> Main False" using assms(2) by (auto simp: only_def split: if_splits)
  have "created_ok False argv s'"
  proof (cases a)
    case (Main ok)
    then have m: "main2 argv True s = Some s'" using s by (cases ok) auto
    then have "\<not> exited (mpc s)" by (cases "mpc s") (auto simp: main2_def)
    note c = mp_created_main [OF conjunct2 [OF assms(1)] conjunct1 [OF assms(1)]]
    show ?thesis by (rule c; use m \<open>\<not> exited (mpc s)\<close> in \<open>simp add: main2_def\<close>)
  next
    case (Producer t)
    then have "\<not> exited (mpc s)" "producer t s = Some s'" using s(1) by (auto split: if_splits)
    then show ?thesis using mp_created_producer assms(1) by blast
  next
    case Consumer
    then have "consumer2 s = Some s'" using s(1) by (auto split: if_splits)
    then show ?thesis using mp_created_consumer assms(1) by blast
  qed
  then show ?thesis using mp_step2_inv [OF _ s(1)] assms(1) by blast
qed

interpretation mutex_created1: invariant_system "only (\<lambda>a. a \<noteq> Main False) (step1 argv)" "start g"
  "\<lambda>s. inv True argv s \<and> created_ok True argv s" for argv g
  by unfold_locales (simp add: mp_start_inv mp_created_start, erule (1) mp_created1)

interpretation mutex_created2: invariant_system "only (\<lambda>a. a \<noteq> Main False) (step2 argv)" "start g"
  "\<lambda>s. inv False argv s \<and> created_ok False argv s" for argv g
  by unfold_locales (simp add: mp_start_inv mp_created_start, erule (1) mp_created2)

lemma mp_created_run:
  assumes "Main False \<notin> set sched"
  shows "run (step1 argv) sched (start g) = Some s \<Longrightarrow> created_ok True argv s"
    and "run (step2 argv) sched (start g) = Some s \<Longrightarrow> created_ok False argv s"
proof -
  have o: "\<forall>a\<in>set sched. a \<noteq> Main False" using assms by auto
  show "created_ok True argv s" if "run (step1 argv) sched (start g) = Some s"
    using mutex_created1.run_inv [of argv sched g s] run_only [OF o, of "step1 argv"] that by simp
  show "created_ok False argv s" if "run (step2 argv) sched (start g) = Some s"
    using mutex_created2.run_inv [of argv sched g s] run_only [OF o, of "step2 argv"] that by simp
qed

lemma mp_created_exit:
  "created_ok late argv s \<Longrightarrow> exited (mpc s) \<Longrightarrow> mpc s = M_exit (if length argv = 3 then 0 else 1)"
  by (cases "mpc s") (auto simp: created_ok_def)

section \<open>Properties\<close>

lemma mp_outcome:
  assumes "inv late argv s" and "0 < threads argv"
  shows "(\<forall>i v. Mismatch i v \<notin> set (printed s)) \<and> (mpc s = M_exit 0 \<longrightarrow>
    printed s = map (\<lambda>i. Count i (count s i)) [0..<threads argv] \<and> (\<Sum>i<threads argv. count s i) = wanted argv)"
proof (intro conjI impI)
  let ?T = "threads argv"
  show "\<forall>i v. Mismatch i v \<notin> set (printed s)"
    using assms by (auto simp: inv_def lines_ok_def)
  assume e: "mpc s = M_exit 0"
  then show "printed s = map (\<lambda>i. Count i (count s i)) [0..<?T]"
    using assms by (auto simp: inv_def lines_ok_def)
  have ret: "\<forall>t < ?T. ppc s t = P_return" using assms e by (auto simp: inv_def main_ok_def)
  then have "tot p_uncounted (ppc s) ?T = 0" "tot (\<lambda>c. c) (live_count s) ?T = (\<Sum>i<?T. count s i)"
    by (auto simp: tot_zero tot_def live_count_def)
  moreover have "nput s = wanted argv"
    using mp_all_returned [OF assms(1) ret assms(2)] mp_nitems_wanted [OF assms(1)] e assms(1)
    by (auto simp: inv_def fill_ok_def)
  ultimately show "(\<Sum>i<?T. count s i) = wanted argv" using assms(1) by (simp add: inv_def counts_ok_def)
qed

text \<open>
  C9. mutex\_prodcons1 with at least one producer: whatever the scheduler does and whichever
  \<open>pthread_create\<close> fails, the consumer never reports a wrong value, every schedule is bounded by the
  number of items and threads, a schedule that cannot be extended has left the program, and at
  exit 0 the printed counts add up to the number of items. When no \<open>pthread_create\<close> fails there is no
  undefined behaviour, neither a store outside the array nor a join of a thread that does not exist, and the
  program ends with status 0, or 1 for a wrong number of arguments.
\<close>

theorem mutex_prodcons1_correct:
  assumes "run (step1 argv) sched (start g) = Some s" and "0 < threads argv"
  shows "(\<forall>i v. Mismatch i v \<notin> set (printed s)) \<and>
    int (length sched) \<le> 10 * wanted argv + 6 * int (threads argv) + 8 \<and>
    (stuck good (step1 argv) s \<longrightarrow> exited (mpc s)) \<and>
    (Main False \<notin> set sched \<longrightarrow> mpc s \<noteq> M_undef \<and>
       (stuck good (step1 argv) s \<longrightarrow> mpc s = M_exit (if length argv = 3 then 0 else 1))) \<and>
    (mpc s = M_exit 0 \<longrightarrow> printed s = map (\<lambda>i. Count i (count s i)) [0..<threads argv] \<and>
       (\<Sum>i<threads argv. count s i) = wanted argv)"
proof -
  have "int (rank1 argv (start g)) = 10 * wanted argv + 6 * int (threads argv) + 8"
    by (simp add: rank1_def producers_rank_def start_def wanted_def)
  moreover have "mpc s \<noteq> M_undef \<and> (stuck good (step1 argv) s \<longrightarrow> mpc s = M_exit (if length argv = 3 then 0 else 1))"
    if "Main False \<notin> set sched"
  proof -
    have c: "created_ok True argv s" by (rule mp_created_run(1) [OF that assms(1)])
    then have "mpc s \<noteq> M_undef" by (simp add: created_ok_def)
    with mp_created_exit [OF c] mutex_prodcons1.stuck_final [OF assms(1)] show ?thesis by blast
  qed
  ultimately show ?thesis
    using mutex_prodcons1.run_bounded [OF assms(1)] mutex_prodcons1.stuck_final [OF assms(1)]
      mp_outcome [OF mutex_prodcons1.run_inv [OF assms(1)] assms(2)] by simp
qed

definition one_item :: "act list" where
  "one_item = replicate 3 (Main True) @ replicate 10 (Producer 0) @ replicate 3 (Main True)
     @ replicate 4 Consumer @ [Main True]"

definition one_item_argv :: "string list" where
  "one_item_argv = [''prodcons'', ''1'', ''1'']"

theorem mutex_prodcons1_correct_witness:
  "\<exists>s. run (step1 one_item_argv) one_item (start (\<lambda>_. 7)) = Some s \<and>
     mpc s = M_exit 0 \<and> printed s = [Count 0 (count s 0)] \<and> count s 0 = 1"
proof -
  have "case run (step1 one_item_argv) one_item (start (\<lambda>_. 7)) of None \<Rightarrow> False | Some s \<Rightarrow> mpc s = M_exit 0"
    by code_simp
  then obtain s where s: "run (step1 one_item_argv) one_item (start (\<lambda>_. 7)) = Some s" "mpc s = M_exit 0"
    by (auto split: option.splits)
  have "threads one_item_argv = 1" "wanted one_item_argv = 1" by code_simp+
  with s mutex_prodcons1_correct [OF s(1)] show ?thesis by auto
qed

text \<open>
  C31. mutex\_prodcons2 with at least one producer: the consumer, which runs at the same time and polls,
  never reports a wrong value; from every state the program can still be left without a failing call; when no
  \<open>pthread_create\<close> has failed there has been no undefined behaviour and the program can still end with status 0, or 1 for
  a wrong number of arguments; and at exit 0 the printed counts add up to the number of items.
\<close>

theorem mutex_prodcons2_correct:
  assumes "run (step2 argv) sched (start g) = Some s" and "0 < threads argv"
  shows "(\<forall>i v. Mismatch i v \<notin> set (printed s)) \<and>
    (\<exists>more s'. set more \<subseteq> good \<and> run (step2 argv) (sched @ more) (start g) = Some s' \<and> exited (mpc s') \<and>
       (Main False \<notin> set sched \<longrightarrow> mpc s' = M_exit (if length argv = 3 then 0 else 1))) \<and>
    (Main False \<notin> set sched \<longrightarrow> mpc s \<noteq> M_undef) \<and>
    (mpc s = M_exit 0 \<longrightarrow> printed s = map (\<lambda>i. Count i (count s i)) [0..<threads argv] \<and>
       (\<Sum>i<threads argv. count s i) = wanted argv)"
proof -
  obtain more s' where m: "set more \<subseteq> good" "run (step2 argv) (sched @ more) (start g) = Some s'" "exited (mpc s')"
    using mutex_prodcons2.can_complete [OF assms(1)] assms(2) by auto
  have "mpc s' = M_exit (if length argv = 3 then 0 else 1)" if "Main False \<notin> set sched"
  proof -
    have "Main False \<notin> set (sched @ more)" using that m(1) by (auto simp: good_def)
    from mp_created_exit [OF mp_created_run(2) [OF this m(2)] m(3)] show ?thesis .
  qed
  moreover have "mpc s \<noteq> M_undef" if "Main False \<notin> set sched"
    using mp_created_run(2) [OF that assms(1)] by (simp add: created_ok_def)
  ultimately show ?thesis
    using m mp_outcome [OF mutex_prodcons2.run_inv [OF assms(1)] assms(2)] by blast
qed

definition polled_item :: "act list" where
  "polled_item = replicate 4 (Main True) @ replicate 4 Consumer @ replicate 10 (Producer 0) @ replicate 6 Consumer
     @ replicate 3 (Main True)"

theorem mutex_prodcons2_correct_witness:
  "\<exists>s. run (step2 one_item_argv) polled_item (start (\<lambda>_. 7)) = Some s \<and>
     mpc s = M_exit 0 \<and> printed s = [Count 0 (count s 0)] \<and> count s 0 = 1"
proof -
  have "case run (step2 one_item_argv) polled_item (start (\<lambda>_. 7)) of None \<Rightarrow> False | Some s \<Rightarrow> mpc s = M_exit 0"
    by code_simp
  then obtain s where s: "run (step2 one_item_argv) polled_item (start (\<lambda>_. 7)) = Some s" "mpc s = M_exit 0"
    by (auto split: option.splits)
  have "threads one_item_argv = 1" "wanted one_item_argv = 1" by code_simp+
  with s mutex_prodcons2_correct [OF s(1)] show ?thesis by auto
qed

end
