(* ===== verification/Msg_Queues.thy ===== *)
theory Msg_Queues
  imports Pipe_Fifo Ipc_Tools
begin

text \<open>
  File servers over System V message queues, \<^verbatim>\<open>src/ipc/src/svmsg\<close>: \<^verbatim>\<open>msgserver1q.c\<close> and
  \<^verbatim>\<open>msgclient1q.c\<close> share one queue and tell the clients apart by the message type; with
  \<^verbatim>\<open>msgservernq.c\<close> and \<^verbatim>\<open>msgclientnq.c\<close> every client has a queue of its own.

  The buffer is one block of \<open>MAXMSG\<close> bytes, the first eight of which are \<open>mtype\<close>: the text that
  follows has room for 8192 bytes, although the programs pass \<open>MAXMSG\<close> as its size. The model keeps
  the text, and writing past it is undefined.
\<close>

section \<open>Model\<close>

definition MAXMSG :: nat where "MAXMSG = 8200"
definition TEXT :: nat where "TEXT = 8192"
definition MQ_KEY :: int where "MQ_KEY = 1234"
definition SVMSG_MODE :: int where "SVMSG_MODE = 434"

text \<open>\<open>snprintf(buf->mtext + off, MAXMSG - off, ...)\<close>.\<close>

definition print_text :: "char list \<Rightarrow> nat \<Rightarrow> string \<Rightarrow> (char list \<Rightarrow> prog) \<Rightarrow> prog" where
  "print_text buf off s k = (let t = take (MAXMSG - off - 1) s @ [NUL] in
     if length buf < off + length t then undef else k (take off buf @ t @ drop (off + length t) buf))"

definition msgsnd :: "int \<Rightarrow> int \<Rightarrow> string \<Rightarrow> (int \<Rightarrow> prog) \<Rightarrow> prog" where
  "msgsnd mqid mtype text k = call ''msgsnd'' [mqid, mtype, int (length text)] text k"

definition fopen :: "string \<Rightarrow> (int \<Rightarrow> int \<Rightarrow> prog) \<Rightarrow> prog" where
  "fopen path k = call_errno ''fopen'' [] path k"

text \<open>\<open>while(fgets(buf->mtext, MAXMSG, fp) != NULL)\<close> with a message for every line.\<close>

definition send_lines :: "int \<Rightarrow> (string \<Rightarrow> prog \<Rightarrow> prog) \<Rightarrow> char list \<Rightarrow> (char list \<Rightarrow> prog) \<Rightarrow> prog" where
  "send_lines fp send buf k = loop (\<lambda>buf next break. fgets fp MAXMSG (\<lambda>r. case r of None \<Rightarrow> break buf
     | Some l \<Rightarrow> deliver buf (l @ [NUL]) (\<lambda>buf. send (cstr buf) (next buf)))) buf k"

text \<open>
  The part of both servers that takes a request apart. \<open>missing\<close> and \<open>bogus\<close> are the messages; \<open>serve\<close>
  gets the number before the blank, the buffer, the length of the request and the start of the path name.
\<close>

definition with_request :: "int \<Rightarrow> string \<Rightarrow> string \<Rightarrow> char list \<Rightarrow> (char list \<Rightarrow> prog) \<Rightarrow>
    (int \<Rightarrow> char list \<Rightarrow> nat \<Rightarrow> nat \<Rightarrow> prog) \<Rightarrow> prog" where
  "with_request readfd missing eol buf next serve = msgrcv readfd (int MAXMSG) 1 0 (\<lambda>n bs _.
     if n = 0 then printf missing (next buf) else
     deliver buf bs (\<lambda>buf. store buf n NUL (\<lambda>buf.
     case strchr (cstr buf) (CHR '' '') of None \<Rightarrow> printf (''bogus request: '' @ cstr buf @ eol) (next buf)
     | Some p \<Rightarrow> serve (atol (take p buf)) (buf[p := NUL]) (nat n) (p + 1))))"

text \<open>The error reply: the path name and the reason, moved to the start of the text.\<close>

definition with_error_reply :: "(int \<Rightarrow> string) \<Rightarrow> int \<Rightarrow> char list \<Rightarrow> nat \<Rightarrow> nat \<Rightarrow> (string \<Rightarrow> char list \<Rightarrow> prog) \<Rightarrow> prog" where
  "with_error_reply se e buf n ptr k = print_text buf n ('': can'' @ [CHR 0x27] @ ''t open, '' @ se e @ [NL]) (\<lambda>buf.
     let s = cstr (drop ptr buf) in k s (s @ drop (length s) buf))"

text \<open>
  The message that is to mark the end is sent from the literal \<open>""\<close>, one byte long, of which \<open>msgsnd\<close>
  reads the eight bytes of a message type.
\<close>

definition send_end_marker :: prog where
  "send_end_marker = undef"

definition server1q_reply :: "(int \<Rightarrow> string) \<Rightarrow> int \<Rightarrow> int \<Rightarrow> char list \<Rightarrow> nat \<Rightarrow> nat \<Rightarrow> prog" where
  "server1q_reply se writefd mtype buf n ptr = fopen (cstr (drop ptr buf)) (\<lambda>fp e.
     if fp = - 1 then with_error_reply se e buf n ptr (\<lambda>s buf.
       msgsnd writefd mtype s (\<lambda>r. need r ''msgsnd error'' send_end_marker))
     else send_lines fp (\<lambda>s k. msgsnd writefd mtype s (\<lambda>r. need r ''msgsnd error'' k)) buf (\<lambda>buf.
       call0 ''fclose'' [fp] [] send_end_marker))"

definition server1q :: "(int \<Rightarrow> string) \<Rightarrow> (nat \<Rightarrow> char) \<Rightarrow> int \<Rightarrow> int \<Rightarrow> prog \<Rightarrow> prog" where
  "server1q se g readfd writefd k = call ''malloc'' [int MAXMSG] [] (\<lambda>r. need r ''malloc error'' (
     for_each [0..<(5::nat)] (\<lambda>i buf next.
       with_request readfd (''msgrcv pathname missing'' @ [NL]) [] buf next (server1q_reply se writefd))
       (uninit g TEXT) (\<lambda>_. k)))"

definition msgserver1q_main :: "(int \<Rightarrow> string) \<Rightarrow> (nat \<Rightarrow> char) \<Rightarrow> prog" where
  "msgserver1q_main se g = call ''msgget'' [MQ_KEY, SVMSG_MODE + IPC_CREAT] [] (\<lambda>mqid. need mqid ''msgget error'' (
     server1q se g mqid mqid (exit 0)))"

text \<open>The request of a client: its number, a blank and the line it read, without the newline.\<close>

definition send_request :: "(nat \<Rightarrow> char) \<Rightarrow> int \<Rightarrow> int \<Rightarrow> (char list \<Rightarrow> prog) \<Rightarrow> prog" where
  "send_request g ident writefd k = print_text (uninit g TEXT) 0 (show_int ident @ '' '') (\<lambda>buf.
     let len = strlen buf in
     printf ''input pathname: '' (
     fgets 0 (MAXMSG - len) (\<lambda>r. fgets_buf (drop len buf) r (\<lambda>b. let buf = take len buf @ b in
     with_cstr buf (\<lambda>s. let s' = (if last s = NL then butlast s else s) in
     msgsnd writefd 1 s' (\<lambda>r. need r ''msgsnd error'' (k buf)))))))"

definition copy_replies :: "int \<Rightarrow> int \<Rightarrow> int \<Rightarrow> char list \<Rightarrow> prog \<Rightarrow> prog" where
  "copy_replies readfd mtype out buf k = loop (\<lambda>buf next break. msgrcv readfd (int MAXMSG) mtype 0 (\<lambda>n bs _.
     deliver buf bs (\<lambda>buf. if n > 0 then write_buf out buf n (next buf) else break buf))) buf (\<lambda>_. k)"

definition client1q :: "(nat \<Rightarrow> char) \<Rightarrow> int \<Rightarrow> int \<Rightarrow> prog \<Rightarrow> prog" where
  "client1q g readfd writefd k = call ''malloc'' [int MAXMSG] [] (\<lambda>r. need r ''malloc error'' (
     call ''getpid'' [] [] (\<lambda>pid. send_request g pid writefd (\<lambda>buf.
     call ''getpid'' [] [] (\<lambda>type. copy_replies readfd type 1 buf k)))))"

definition msgclient1q_main :: "(nat \<Rightarrow> char) \<Rightarrow> prog" where
  "msgclient1q_main g = call ''msgget'' [MQ_KEY, 0] [] (\<lambda>mqid. need mqid ''msgget error'' (
     client1q g mqid mqid (exit 0)))"

definition sig_chld :: "prog \<Rightarrow> prog" where
  "sig_chld k = loop (\<lambda>u next break. call ''waitpid'' [- 1, 1] [] (\<lambda>pid. if pid > 0 then next u else break u)) () (\<lambda>_. k)"

text \<open>A child serves the request; it sends no end marker, and the type of its messages is that of the request.\<close>

definition servernq_reply :: "(int \<Rightarrow> string) \<Rightarrow> (char list \<Rightarrow> prog) \<Rightarrow> int \<Rightarrow> char list \<Rightarrow> nat \<Rightarrow> nat \<Rightarrow> prog" where
  "servernq_reply se next mqid buf n ptr = (let writefd = c_int mqid in
     call ''fork'' [] [] (\<lambda>pid. if pid = 0 then
         fopen (cstr (drop ptr buf)) (\<lambda>fp e.
           if fp = - 1 then with_error_reply se e buf n ptr (\<lambda>s buf. msgsnd writefd 1 s (\<lambda>_. exit 0))
           else send_lines fp (\<lambda>s k. msgsnd writefd 1 s (\<lambda>_. k)) buf (\<lambda>buf. call0 ''fclose'' [fp] [] (exit 0)))
       else next buf))"

definition msgservernq_main :: "(int \<Rightarrow> string) \<Rightarrow> (nat \<Rightarrow> char) \<Rightarrow> prog" where
  "msgservernq_main se g = call0 ''signal'' [17] [] (
     call ''malloc'' [int MAXMSG] [] (\<lambda>r. need r ''malloc error'' (
     call ''msgget'' [MQ_KEY, SVMSG_MODE + IPC_CREAT] [] (\<lambda>readfd. need readfd ''msgget error'' (
     for_each [0..<(5::nat)] (\<lambda>i buf next.
       with_request readfd (''pathname missing'' @ [NL]) [NL] buf next (servernq_reply se next))
       (uninit g TEXT) (\<lambda>_. exit 0))))))"

text \<open>This client writes what it receives to descriptor 0.\<close>

definition msgclientnq_main :: "(nat \<Rightarrow> char) \<Rightarrow> prog" where
  "msgclientnq_main g = call ''msgget'' [MQ_KEY, 0] [] (\<lambda>writefd. need writefd ''msgget error'' (
     call ''msgget'' [0, SVMSG_MODE + IPC_CREAT] [] (\<lambda>readfd. need readfd ''msgget error'' (
     call ''malloc'' [int MAXMSG] [] (\<lambda>r. need r ''malloc error'' (
     send_request g readfd writefd (\<lambda>buf. copy_replies readfd 1 0 buf (exit 0))))))))"

section \<open>Reasoning\<close>

text \<open>The texts of the messages sent to a queue with a type.\<close>

fun messages :: "int \<Rightarrow> int \<Rightarrow> event list \<Rightarrow> string list" where
  "messages q t [] = []"
| "messages q t (Sys name args bs r # tr) =
     (if name = ''msgsnd'' \<and> args = [q, t, int (length bs)] then bs # messages q t tr else messages q t tr)"
| "messages q t (_ # tr) = messages q t tr"

lemma messages_append [simp]: "messages q t (xs @ ys) = messages q t xs @ messages q t ys"
  by (induction q t xs rule: messages.induct) auto

text \<open>A request as the clients compose it.\<close>

definition request :: "int \<Rightarrow> string \<Rightarrow> string" where
  "request ident path = show_int ident @ '' '' @ path"

lemma send_request_message:
  assumes "NUL \<notin> set path" and "NL \<notin> set path" and "length (request ident path) \<le> 8190" and "0 \<le> r"
    and w: "answers w = Ans 0 0 (path @ [NL]) [] # Ans r 0 [] [] # as"
  shows "\<exists>b. send_request g ident writefd k w = k b
    (w\<lparr>answers := as, trace := trace w @ [Out ''input pathname: '',
        Sys ''fgets'' [0, int (MAXMSG - length (show_int ident @ '' ''))] (path @ [NL]) 1,
        Sys ''msgsnd'' [writefd, 1, int (length (request ident path))] (request ident path) r]\<rparr>) \<and> length b = TEXT"
proof -
  let ?s = "show_int ident @ '' ''"
  let ?b = "drop (length ?s + 1) (uninit g TEXT)"
  have s: "NUL \<notin> set ?s" "length ?s + 1 \<le> TEXT" using assms(3) by (auto simp: request_def TEXT_def)
  have t: "take (MAXMSG - 0 - 1) ?s @ [NUL] = ?s @ [NUL]" using s(2) by (simp add: MAXMSG_def TEXT_def)
  have buf: "print_text (uninit g TEXT) 0 ?s c = c (?s @ NUL # ?b)" for c
    unfolding print_text_def t Let_def using s(2) by simp
  have len: "strlen (?s @ NUL # ?b) = length ?s" using strlen_NUL [OF s(1)] .
  have line: "line_of (MAXMSG - length ?s) (path @ [NL]) = path @ [NL]"
    using assms(2,3) by (intro line_of_short) (auto simp: MAXMSG_def request_def)
  define l where "l = path @ [NL]"
  have ne: "l \<noteq> []" by (simp add: l_def)
  define b where "b = (l @ [NUL]) @ drop (length (l @ [NUL])) (NUL # ?b)"
  have fit: "length (l @ [NUL]) \<le> length (NUL # ?b)"
    using assms(3) by (simp add: request_def TEXT_def l_def)
  have del: "deliver (NUL # ?b) (l @ [NUL]) c = c b" for c
    using fit by (simp only: deliver_def buf_copy_def if_True option.case b_def)
  have str: "cstr (?s @ b) = (?s @ path) @ [NL]" "NUL \<in> set (?s @ b)"
    using assms(1) s(1) cstr_append_NUL [of "(?s @ path) @ [NL]"] by (auto simp: b_def l_def)
  have lb: "length (?s @ b) = TEXT" using fit s(2) by (simp add: b_def)
  have req: "butlast ((?s @ path) @ [NL]) = request ident path" unfolding butlast_snoc by (simp add: request_def)
  have "send_request g ident writefd k w = k (?s @ b)
    (w\<lparr>answers := as, trace := trace w @ [Out ''input pathname: '', Sys ''fgets'' [0, int (MAXMSG - length ?s)] (path @ [NL]) 1,
        Sys ''msgsnd'' [writefd, 1, int (length (request ident path))] (request ident path) r]\<rparr>)"
    unfolding send_request_def buf Let_def len
    using line assms(4) del str req ne
    by (simp add: printf_def emit_def fgets_def syscall_def w log_def l_def [symmetric] fgets_buf_def with_cstr_def
        msgsnd_def call_def need_def del: append_assoc butlast_append) simp
  with lb show ?thesis by blast
qed

text \<open>A file whose lines fit: every line becomes one message.\<close>

definition plain_line :: "string \<Rightarrow> bool" where
  "plain_line l \<longleftrightarrow> l \<noteq> [] \<and> NUL \<notin> set l \<and> length l < TEXT \<and> line_of MAXMSG l = l"

definition line_answers :: "string list \<Rightarrow> answer list" where
  "line_answers ls = concat (map (\<lambda>l. [Ans 0 0 l [], Ans 0 0 [] []]) ls)"

lemma send_lines_all:
  assumes "\<forall>l \<in> set ls. plain_line l" and "length buf = TEXT" and "answers w = line_answers ls @ Ans (- 1) 0 [] [] # as"
    and ok: "\<And>k. chk 0 k = k"
  shows "\<exists>b w'. send_lines fp (\<lambda>s k. msgsnd q t s (\<lambda>r. chk r k)) buf k w = k b w' \<and>
    answers w' = as \<and> length b = TEXT \<and> messages q t (trace w') = messages q t (trace w) @ ls \<and>
    (\<exists>tr. trace w' = trace w @ tr)"
  using assms(1-3)
proof (induction ls arbitrary: buf w)
  case Nil
  then have "send_lines fp (\<lambda>s k. msgsnd q t s (\<lambda>r. chk r k)) buf k w
      = k buf (log (Sys ''fgets'' [fp, int MAXMSG] [] 0) (w\<lparr>answers := as\<rparr>))"
    unfolding send_lines_def by (subst loop.simps) (simp add: fgets_def syscall_def line_answers_def)
  then show ?case using Nil.prems(2) by (intro exI [of _ buf] exI) (auto simp: log_def)
next
  case (Cons l ls)
  let ?rest = "line_answers ls @ Ans (- 1) 0 [] [] # as"
  let ?w = "w\<lparr>answers := ?rest, trace := trace w @ [Sys ''fgets'' [fp, int MAXMSG] l 1, Sys ''msgsnd'' [q, t, int (length l)] l 0]\<rparr>"
  let ?b = "l @ NUL # drop (length l + 1) buf"
  have l: "l \<noteq> []" "NUL \<notin> set l" "length l < TEXT" "line_of MAXMSG l = l" using Cons.prems(1) by (auto simp: plain_line_def)
  have w: "answers w = Ans 0 0 l [] # Ans 0 0 [] [] # ?rest" using Cons.prems(3) by (simp add: line_answers_def)
  have del: "deliver buf (l @ [NUL]) c = c ?b" for c using l(3) Cons.prems(2) by (simp add: deliver_def buf_copy_def)
  have "send_lines fp (\<lambda>s k. msgsnd q t s (\<lambda>r. chk r k)) buf k w
      = send_lines fp (\<lambda>s k. msgsnd q t s (\<lambda>r. chk r k)) ?b k ?w"
    unfolding send_lines_def
    by (subst loop.simps) (simp add: fgets_def syscall_def w l del msgsnd_def call_def ok log_def)
  moreover have "length ?b = TEXT" using l(3) Cons.prems(2) by simp
  ultimately show ?case using Cons.IH [of ?b ?w] Cons.prems(1) by (fastforce simp: log_def)
qed

lemma with_request_parses:
  assumes "NUL \<notin> set path" and "length (request ident path) \<le> 8190" and "length buf = TEXT"
    and w: "answers w = Ans 0 0 (request ident path) [] # as"
  shows "\<exists>b. with_request rfd missing eol buf next serve w
      = serve ident b (length (request ident path)) (length (show_int ident) + 1)
        (log (Sys ''msgrcv'' [rfd, 1, 0] (request ident path) (int (length (request ident path)))) (w\<lparr>answers := as\<rparr>)) \<and>
    length b = TEXT \<and> cstr (drop (length (show_int ident) + 1) b) = path"
proof -
  let ?r = "request ident path"
  let ?d = "drop (Suc (length ?r)) buf"
  have r: "?r \<noteq> []" "NUL \<notin> set ?r" using assms(1) by (auto simp: request_def)
  have t: "take MAXMSG ?r = ?r" using assms(2) by (simp add: MAXMSG_def)
  have len: "length ?r < length buf" using assms(2,3) by (simp add: TEXT_def)
  have del: "deliver buf ?r c = c (?r @ drop (length ?r) buf)" for c using len by (simp add: deliver_def buf_copy_def)
  have st: "store (?r @ drop (length ?r) buf) (int (length ?r)) NUL c = c (?r @ NUL # ?d)" for c
    using len by (simp add: store_def buf_put_def list_update_append Cons_nth_drop_Suc [symmetric])
  have str: "cstr (?r @ NUL # ?d) = ?r" using r(2) by simp
  have blank: "strchr ?r (CHR '' '') = Some (length (show_int ident))"
    using strchr_append [OF show_int_no_blank, of ident path] by (simp add: request_def)
  have id: "atol (take (length (show_int ident)) (?r @ NUL # ?d)) = ident"
    using atol_show_int [of "[]" ident] by (simp add: request_def digit_stop_def)
  have upd: "(?r @ NUL # ?d)[length (show_int ident) := NUL] = show_int ident @ NUL # path @ NUL # ?d"
    by (simp add: request_def list_update_append)
  have "with_request rfd missing eol buf next serve w
      = serve ident (show_int ident @ NUL # path @ NUL # ?d) (length ?r) (length (show_int ident) + 1)
        (log (Sys ''msgrcv'' [rfd, 1, 0] ?r (int (length ?r))) (w\<lparr>answers := as\<rparr>))"
    unfolding with_request_def msgrcv_def using r(1)
    by (simp add: syscall_def w t del st str blank id upd del: take_append)
  moreover have "length (show_int ident @ NUL # path @ NUL # ?d) = TEXT"
    using assms(2,3) by (simp add: request_def TEXT_def)
  moreover have "cstr (drop (length (show_int ident) + 1) (show_int ident @ NUL # path @ NUL # ?d)) = path"
    using assms(1) by simp
  ultimately show ?thesis by blast
qed

lemma copy_replies_blocks: "answers w = [] \<Longrightarrow> copy_replies q t out buf k w = (Blocked, w)"
  unfolding copy_replies_def by (subst loop.simps) (simp add: msgrcv_def syscall_def)

lemma servernq_reply_sends:
  assumes "0 \<le> cq" and "cq \<le> INT_MAX" and "0 \<le> fp" and "\<forall>l \<in> set ls. plain_line l" and "length b = TEXT" and "cstr (drop ptr b) = path"
    and w: "answers w = Ans 0 0 [] [] # Ans fp 0 [] [] # line_answers ls @ [Ans (- 1) 0 [] [], Ans 0 0 [] []]"
  shows "case servernq_reply se c cq b n ptr w of (r, w') \<Rightarrow> r = Exit 0 \<and>
    Sys ''fopen'' [] path fp \<in> set (trace w') \<and> messages cq 1 (trace w') = messages cq 1 (trace w) @ ls"
proof -
  let ?v = "w\<lparr>answers := line_answers ls @ [Ans (- 1) 0 [] [], Ans 0 0 [] []], trace := trace w @ [Sys ''fork'' [] [] 0, Sys ''fopen'' [] path fp]\<rparr>"
  have id: "c_int cq = cq" using assms(1,2) by (intro c_int_id) auto
  obtain w' where w': "send_lines fp (\<lambda>s k. msgsnd cq 1 s (\<lambda>_. k)) b (\<lambda>buf. call0 ''fclose'' [fp] [] (exit 0)) ?v
      = call0 ''fclose'' [fp] [] (exit 0) w'" "answers w' = [Ans 0 0 [] []]"
      "messages cq 1 (trace w') = messages cq 1 (trace ?v) @ ls" "\<exists>tr. trace w' = trace ?v @ tr"
    using send_lines_all [OF assms(4,5), of ?v "[Ans 0 0 [] []]" "\<lambda>_ k. k" fp cq 1 "\<lambda>buf. call0 ''fclose'' [fp] [] (exit 0)"] by auto
  have "servernq_reply se c cq b n ptr w = call0 ''fclose'' [fp] [] (exit 0) w'"
    unfolding servernq_reply_def id assms(6) w'(1) [symmetric] using assms(3)
    by (simp add: w fopen_def call_errno_def call_def syscall_def log_def)
  then show ?thesis using w'(2-4) by (auto simp: call0_def call_def syscall_def log_def exit_def)
qed

lemma msgservernq_child:
  assumes "NUL \<notin> set path" and "length (request cq path) \<le> 8190" and "0 \<le> q" and "0 \<le> cq" and "cq \<le> INT_MAX"
    and "0 \<le> fp" and "\<forall>l \<in> set ls. plain_line l"
  shows "case msgservernq_main se g (boot ([Ans 0 0 [] [], Ans 0 0 [] [], Ans q 0 [] [], Ans 0 0 (request cq path) [], Ans 0 0 [] [], Ans fp 0 [] []]
         @ line_answers ls @ [Ans (- 1) 0 [] [], Ans 0 0 [] []])) of (r, w) \<Rightarrow>
       r = Exit 0 \<and> Sys ''fopen'' [] path fp \<in> set (trace w) \<and> messages cq 1 (trace w) = ls"
proof -
  let ?as = "Ans 0 0 [] [] # Ans fp 0 [] [] # line_answers ls @ [Ans (- 1) 0 [] [], Ans 0 0 [] []]"
  let ?w = "\<lparr>answers = Ans 0 0 (request cq path) [] # ?as, trace = [Sys ''signal'' [17] [] 0, Sys ''malloc'' [int MAXMSG] [] 0,
      Sys ''msgget'' [MQ_KEY, SVMSG_MODE + IPC_CREAT] [] q]\<rparr>"
  let ?step = "\<lambda>buf next. with_request q (''pathname missing'' @ [NL]) [NL] buf next (servernq_reply se next)"
  define rounds where "rounds = [0..<5::nat]"
  define later where "later = (\<lambda>buf. for_each [1..<5::nat] (\<lambda>i. ?step) buf (\<lambda>_. exit 0))"
  have five: "rounds = 0 # [1..<5]" unfolding rounds_def by (simp add: upt_conv_Cons)
  have "msgservernq_main se g (boot ([Ans 0 0 [] [], Ans 0 0 [] [], Ans q 0 [] [], Ans 0 0 (request cq path) []] @ ?as))
      = for_each rounds (\<lambda>i. ?step) (uninit g TEXT) (\<lambda>_. exit 0) ?w"
    unfolding msgservernq_main_def rounds_def [symmetric]
    using assms(3) by (simp add: call0_def call_def syscall_def need_def log_def boot_def)
  then have run: "msgservernq_main se g (boot ([Ans 0 0 [] [], Ans 0 0 [] [], Ans q 0 [] [], Ans 0 0 (request cq path) []] @ ?as))
      = with_request q (''pathname missing'' @ [NL]) [NL] (uninit g TEXT) later (servernq_reply se later) ?w"
    unfolding five for_each.simps later_def .
  have "answers ?w = Ans 0 0 (request cq path) [] # ?as" by simp
  from with_request_parses [OF assms(1,2) length_uninit this] obtain b where
    b: "msgservernq_main se g (boot ([Ans 0 0 [] [], Ans 0 0 [] [], Ans q 0 [] [], Ans 0 0 (request cq path) []] @ ?as))
      = servernq_reply se later cq b (length (request cq path)) (length (show_int cq) + 1)
          (log (Sys ''msgrcv'' [q, 1, 0] (request cq path) (int (length (request cq path)))) (?w\<lparr>answers := ?as\<rparr>))"
      "length b = TEXT" "cstr (drop (length (show_int cq) + 1) b) = path"
    unfolding run by blast
  from servernq_reply_sends [OF assms(4-7) b(2,3), of "log (Sys ''msgrcv'' [q, 1, 0] (request cq path) (int (length (request cq path)))) (?w\<lparr>answers := ?as\<rparr>)"]
  show ?thesis using b(1) by (simp add: log_def)
qed

text \<open>A concrete request and file.\<close>

lemma request_motd: "request 42 ''motd'' = ''42 motd''"
proof -
  have "show_int 42 = ''42''" by code_simp
  then show ?thesis by (simp add: request_def)
qed

lemma plain_hello: "\<forall>l \<in> set [''hello'' @ [NL]]. plain_line l"
  using line_of_short [of "''hello''" MAXMSG] by (simp add: plain_line_def TEXT_def MAXMSG_def)

section \<open>Properties\<close>

text \<open>
  C34. One queue for all: the request that msgclient1q sends makes msgserver1q open the path the user
  typed and send the lines of that file, in order, one message each and with the type that the client
  waits for; and then the server runs into undefined behaviour, as the message that should mark the end has
  no message type.
\<close>

theorem msgserver1q_serves:
  assumes "NUL \<notin> set path" and "NL \<notin> set path" and "length (request pid path) \<le> 8190" and "0 \<le> pid" and "0 \<le> q" and "0 \<le> fp"
    and "\<forall>l \<in> set ls. plain_line l"
  shows "messages q 1 (trace (snd (msgclient1q_main g (boot [Ans q 0 [] [], Ans 0 0 [] [], Ans pid 0 [] [],
       Ans 0 0 (path @ [NL]) [], Ans 0 0 [] []])))) = [request pid path] \<and>
    (case msgserver1q_main se g (boot ([Ans q 0 [] [], Ans 0 0 [] [], Ans 0 0 (request pid path) [], Ans fp 0 [] []]
         @ line_answers ls @ [Ans (- 1) 0 [] [], Ans 0 0 [] []])) of (r, w) \<Rightarrow>
       r = Undefined \<and> Sys ''fopen'' [] path fp \<in> set (trace w) \<and> messages q pid (trace w) = ls)"
proof
  let ?w = "\<lparr>answers = [Ans 0 0 (path @ [NL]) [], Ans 0 0 [] []],
      trace = [Sys ''msgget'' [MQ_KEY, 0] [] q, Sys ''malloc'' [int MAXMSG] [] 0, Sys ''getpid'' [] [] pid]\<rparr>"
  have "msgclient1q_main g (boot [Ans q 0 [] [], Ans 0 0 [] [], Ans pid 0 [] [], Ans 0 0 (path @ [NL]) [], Ans 0 0 [] []])
      = send_request g pid q (\<lambda>buf. call ''getpid'' [] [] (\<lambda>type. copy_replies q type 1 buf (exit 0))) ?w"
    using assms(4,5) by (simp add: msgclient1q_main_def client1q_def call_def syscall_def need_def log_def boot_def)
  with send_request_message [OF assms(1-3) order_refl, of ?w "[]" g q "\<lambda>buf. call ''getpid'' [] [] (\<lambda>type. copy_replies q type 1 buf (exit 0))"]
  show "messages q 1 (trace (snd (msgclient1q_main g (boot [Ans q 0 [] [], Ans 0 0 [] [], Ans pid 0 [] [],
       Ans 0 0 (path @ [NL]) [], Ans 0 0 [] []])))) = [request pid path]"
    by (auto simp: call_def syscall_def)
next
  let ?as = "line_answers ls @ [Ans (- 1) 0 [] [], Ans 0 0 [] []]"
  let ?w = "\<lparr>answers = Ans 0 0 (request pid path) [] # Ans fp 0 [] [] # ?as,
      trace = [Sys ''msgget'' [MQ_KEY, SVMSG_MODE + IPC_CREAT] [] q, Sys ''malloc'' [int MAXMSG] [] 0]\<rparr>"
  let ?step = "\<lambda>buf next. with_request q (''msgrcv pathname missing'' @ [NL]) [] buf next (server1q_reply se q)"
  define rounds where "rounds = [0..<5::nat]"
  have five: "rounds = 0 # [1..<5]" unfolding rounds_def by (simp add: upt_conv_Cons)
  have "msgserver1q_main se g (boot ([Ans q 0 [] [], Ans 0 0 [] [], Ans 0 0 (request pid path) [], Ans fp 0 [] []] @ ?as))
      = for_each rounds (\<lambda>i. ?step) (uninit g TEXT) (\<lambda>_. exit 0) ?w"
    unfolding msgserver1q_main_def server1q_def rounds_def [symmetric]
    using assms(5) by (simp add: call_def syscall_def need_def log_def boot_def)
  then have run: "msgserver1q_main se g (boot ([Ans q 0 [] [], Ans 0 0 [] [], Ans 0 0 (request pid path) [], Ans fp 0 [] []] @ ?as))
      = with_request q (''msgrcv pathname missing'' @ [NL]) [] (uninit g TEXT)
          (\<lambda>buf. for_each [1..<5::nat] (\<lambda>i. ?step) buf (\<lambda>_. exit 0)) (server1q_reply se q) ?w"
    unfolding five for_each.simps .
  have "answers ?w = Ans 0 0 (request pid path) [] # Ans fp 0 [] [] # ?as" by simp
  from with_request_parses [OF assms(1,3) length_uninit this] obtain b where
    b: "msgserver1q_main se g (boot ([Ans q 0 [] [], Ans 0 0 [] [], Ans 0 0 (request pid path) [], Ans fp 0 [] []] @ ?as))
      = server1q_reply se q pid b (length (request pid path)) (length (show_int pid) + 1)
          (log (Sys ''msgrcv'' [q, 1, 0] (request pid path) (int (length (request pid path)))) (?w\<lparr>answers := Ans fp 0 [] [] # ?as\<rparr>))"
      "length b = TEXT" "cstr (drop (length (show_int pid) + 1) b) = path"
    unfolding run by blast
  show "case msgserver1q_main se g (boot ([Ans q 0 [] [], Ans 0 0 [] [], Ans 0 0 (request pid path) [], Ans fp 0 [] []] @ ?as)) of (r, w) \<Rightarrow>
       r = Undefined \<and> Sys ''fopen'' [] path fp \<in> set (trace w) \<and> messages q pid (trace w) = ls"
  proof -
    let ?v = "\<lparr>answers = ?as, trace = trace ?w @ [Sys ''msgrcv'' [q, 1, 0] (request pid path) (int (length (request pid path))),
        Sys ''fopen'' [] path fp]\<rparr>"
    obtain b' w' where "send_lines fp (\<lambda>s k. msgsnd q pid s (\<lambda>r. need r ''msgsnd error'' k)) b (\<lambda>buf. call0 ''fclose'' [fp] [] send_end_marker) ?v
        = call0 ''fclose'' [fp] [] send_end_marker w'" "answers w' = [Ans 0 0 [] []]"
        "messages q pid (trace w') = ls" "\<exists>tr. trace w' = trace ?v @ tr"
      using send_lines_all [OF assms(7) b(2), of ?v "[Ans 0 0 [] []]" "\<lambda>r. need r ''msgsnd error''" fp q pid "\<lambda>buf. call0 ''fclose'' [fp] [] send_end_marker"]
      by (auto simp: need_def)
    then show ?thesis
      unfolding b(1) server1q_reply_def b(3) using assms(6)
      by (auto simp: fopen_def call_errno_def syscall_def log_def call0_def call_def send_end_marker_def undef_def)
  qed
qed

theorem msgserver1q_serves_witness:
  "messages 0 1 (trace (snd (msgclient1q_main (\<lambda>_. NUL) (boot [Ans 0 0 [] [], Ans 0 0 [] [], Ans 42 0 [] [],
       Ans 0 0 (''motd'' @ [NL]) [], Ans 0 0 [] []])))) = [''42 motd''] \<and>
    messages 0 42 (trace (snd (msgserver1q_main (\<lambda>_. []) (\<lambda>_. NUL) (boot ([Ans 0 0 [] [], Ans 0 0 [] [], Ans 0 0 ''42 motd'' [],
       Ans 3 0 [] []] @ line_answers [''hello'' @ [NL]] @ [Ans (- 1) 0 [] [], Ans 0 0 [] []]))))) = [''hello'' @ [NL]]"
  using msgserver1q_serves [of "''motd''" 42 0 3, OF _ _ _ _ _ _ plain_hello, of "\<lambda>_. NUL" "\<lambda>_. []"]
  by (simp only: request_motd) (auto simp: split_beta)

text \<open>
  A queue for every client: the number of the queue that msgclientnq created travels in its request, and
  the child that msgservernq forks sends the lines of the file to that queue, one message each, and
  exits. No message marks the end: the client has copied the lines and waits for another one.
\<close>

theorem msgservernq_serves:
  assumes "NUL \<notin> set path" and "NL \<notin> set path" and "length (request cq path) \<le> 8190" and "0 \<le> q" and "0 \<le> cq" and "cq \<le> INT_MAX"
    and "0 \<le> fp" and "\<forall>l \<in> set ls. plain_line l"
  shows "(case msgclientnq_main g (boot [Ans q 0 [] [], Ans cq 0 [] [], Ans 0 0 [] [], Ans 0 0 (path @ [NL]) [], Ans 0 0 [] []]) of (r, w) \<Rightarrow>
       r = Blocked \<and> messages q 1 (trace w) = [request cq path]) \<and>
    (case msgservernq_main se g (boot ([Ans 0 0 [] [], Ans 0 0 [] [], Ans q 0 [] [], Ans 0 0 (request cq path) [], Ans 0 0 [] [], Ans fp 0 [] []]
         @ line_answers ls @ [Ans (- 1) 0 [] [], Ans 0 0 [] []])) of (r, w) \<Rightarrow>
       r = Exit 0 \<and> Sys ''fopen'' [] path fp \<in> set (trace w) \<and> messages cq 1 (trace w) = ls)"
proof
  let ?w = "\<lparr>answers = [Ans 0 0 (path @ [NL]) [], Ans 0 0 [] []],
      trace = [Sys ''msgget'' [MQ_KEY, 0] [] q, Sys ''msgget'' [0, SVMSG_MODE + IPC_CREAT] [] cq, Sys ''malloc'' [int MAXMSG] [] 0]\<rparr>"
  have "msgclientnq_main g (boot [Ans q 0 [] [], Ans cq 0 [] [], Ans 0 0 [] [], Ans 0 0 (path @ [NL]) [], Ans 0 0 [] []])
      = send_request g cq q (\<lambda>buf. copy_replies cq 1 0 buf (exit 0)) ?w"
    using assms(4,5) by (simp add: msgclientnq_main_def call_def syscall_def need_def log_def boot_def)
  with send_request_message [OF assms(1-3) order_refl, of ?w "[]" g q "\<lambda>buf. copy_replies cq 1 0 buf (exit 0)"]
  show "case msgclientnq_main g (boot [Ans q 0 [] [], Ans cq 0 [] [], Ans 0 0 [] [], Ans 0 0 (path @ [NL]) [], Ans 0 0 [] []]) of (r, w) \<Rightarrow>
       r = Blocked \<and> messages q 1 (trace w) = [request cq path]"
    by (auto simp: copy_replies_blocks)
next
  show "case msgservernq_main se g (boot ([Ans 0 0 [] [], Ans 0 0 [] [], Ans q 0 [] [], Ans 0 0 (request cq path) [], Ans 0 0 [] [], Ans fp 0 [] []]
         @ line_answers ls @ [Ans (- 1) 0 [] [], Ans 0 0 [] []])) of (r, w) \<Rightarrow>
       r = Exit 0 \<and> Sys ''fopen'' [] path fp \<in> set (trace w) \<and> messages cq 1 (trace w) = ls"
    using msgservernq_child [OF assms(1,3-8)] .
qed

theorem msgservernq_serves_witness:
  "messages 0 1 (trace (snd (msgclientnq_main (\<lambda>_. NUL) (boot [Ans 0 0 [] [], Ans 42 0 [] [], Ans 0 0 [] [],
       Ans 0 0 (''motd'' @ [NL]) [], Ans 0 0 [] []])))) = [''42 motd''] \<and>
    messages 42 1 (trace (snd (msgservernq_main (\<lambda>_. []) (\<lambda>_. NUL) (boot ([Ans 0 0 [] [], Ans 0 0 [] [], Ans 0 0 [] [], Ans 0 0 ''42 motd'' [],
       Ans 0 0 [] [], Ans 3 0 [] []] @ line_answers [''hello'' @ [NL]] @ [Ans (- 1) 0 [] [], Ans 0 0 [] []]))))) = [''hello'' @ [NL]]"
  using msgservernq_serves [of "''motd''" 42 0 3, OF _ _ _ _ _ _ _ plain_hello, of "\<lambda>_. NUL" "\<lambda>_. []"]
  by (simp only: request_motd) (auto simp: split_beta INT_MAX_def)

end
