(* ===== verification/Syscall_Demos.thy ===== *)
theory Syscall_Demos
  imports Echo_Servers
begin

text \<open>
  The programs of \<^verbatim>\<open>src/tcp-ip/socket/src\<close> that each show one group of calls: files (\<^verbatim>\<open>low_open.c\<close>,
  \<^verbatim>\<open>low_read.c\<close>, \<^verbatim>\<open>desto.c\<close>, \<^verbatim>\<open>todes.c\<close>, \<^verbatim>\<open>dup.c\<close>), scattered buffers (\<^verbatim>\<open>readv.c\<close>, \<^verbatim>\<open>writev.c\<close>),
  socket options (\<^verbatim>\<open>get_buf.c\<close>, \<^verbatim>\<open>set_buf.c\<close>, \<^verbatim>\<open>sock_type.c\<close>), processes and signals (\<^verbatim>\<open>fork.c\<close>,
  \<^verbatim>\<open>wait.c\<close>, \<^verbatim>\<open>waitpid.c\<close>, \<^verbatim>\<open>remove_zombie.c\<close>, \<^verbatim>\<open>signal.c\<close>, \<^verbatim>\<open>sigaction.c\<close>, \<^verbatim>\<open>pipe1.c\<close>),
  \<^verbatim>\<open>select.c\<close>, and the resolver (\<^verbatim>\<open>gethostbyname.c\<close>, \<^verbatim>\<open>gethostbyaddr.c\<close>).
\<close>

section \<open>Files\<close>

definition O_CREAT_WRONLY_TRUNC :: int where "O_CREAT_WRONLY_TRUNC = 64 + 1 + 512"

text \<open>\<open>low_open.c\<close>: the array is written with its NUL.\<close>

definition low_open_text :: string where
  "low_open_text = ''Let'' @ [CHR 0x27] @ ''s go!'' @ [NL]"

definition low_open_main :: prog where
  "low_open_main = call ''open'' [O_CREAT_WRONLY_TRUNC] ''data.txt'' (\<lambda>fd. if fd = - 1 then error_handler ''open error'' else
     printf (''file descriptor: '' @ show_int fd @ [NL]) (
     sys_write fd (low_open_text @ [NUL]) (\<lambda>r. if r = - 1 then error_handler ''write error'' else
     close fd (exit 0))))"

definition low_read_main :: "(nat \<Rightarrow> char) \<Rightarrow> prog" where
  "low_read_main g = call ''open'' [0] ''data.txt'' (\<lambda>fd. if fd = - 1 then error_handler ''open error'' else
     sys_read fd 99 (\<lambda>n bs. if n = - 1 then error_handler ''read error'' else
     deliver (uninit g 100) bs (\<lambda>buf. with_cstr buf (\<lambda>s.
     printf (''file data: '' @ s @ [NL]) (close fd (exit 0))))))"

text \<open>\<open>fdopen\<close> is not checked; a null stream is undefined in \<open>fputs\<close>.\<close>

definition fdopen_write :: "int \<Rightarrow> string \<Rightarrow> (int \<Rightarrow> prog) \<Rightarrow> prog" where
  "fdopen_write fd text k = call ''fdopen'' [fd] ''w'' (\<lambda>fp. if fp = - 1 then undef else
     call0 ''fputs'' [fp] text (k fp))"

definition desto_main :: prog where
  "desto_main = call ''open'' [O_CREAT_WRONLY_TRUNC] ''data.dat'' (\<lambda>fd.
     if fd = - 1 then printf ''file open error'' (exit (- 1)) else
     fdopen_write fd (''network c programming'' @ [NL]) (\<lambda>fp. call0 ''fclose'' [fp] [] (exit 0)))"

text \<open>\<open>todes.c\<close> passes the descriptor to \<open>fileno\<close>, which takes a stream.\<close>

definition todes_main :: prog where
  "todes_main = call ''open'' [O_CREAT_WRONLY_TRUNC] ''data.dat'' (\<lambda>fd.
     if fd = - 1 then printf ''file open error'' (exit (- 1)) else
     printf (''first file descriptor: '' @ show_int fd @ [NL]) (
     fdopen_write fd (''tcp/ip socket programming'' @ [NL]) (\<lambda>fp. undef)))"

definition dup_main :: prog where
  "dup_main = (let str1 = ''Hi~ '' @ [NL, NUL]; str2 = ''It'' @ [CHR 0x27] @ ''s nice day~ '' @ [NL, NUL] in
     call ''dup'' [1] [] (\<lambda>cfd1. call ''dup2'' [cfd1, 7] [] (\<lambda>cfd2.
     printf (''cfd1 = '' @ show_int cfd1 @ '', cfd2 = '' @ show_int cfd2 @ [NL]) (
     sys_write cfd1 str1 (\<lambda>_. close cfd1 (printf (''cfd1 is closed'' @ [NL]) (
     sys_write cfd2 str2 (\<lambda>_. close cfd2 (printf (''cfd2 is closed'' @ [NL]) (
     sys_write 1 str1 (\<lambda>_. printf (''stdout is closed. and want to send str2'' @ [NL]) (
     close 1 (sys_write 1 str2 (\<lambda>_. exit 0))))))))))))))"

section \<open>Scattered buffers\<close>

text \<open>\<open>readv\<close> fills five bytes of the first and then a hundred of the second array, both zero before.\<close>

definition readv_main :: prog where
  "readv_main = sys_read 0 105 (\<lambda>n bs.
     let buf1 = take 5 bs @ replicate (100 - length (take 5 bs)) NUL;
         buf2 = drop 5 bs @ replicate (100 - length (drop 5 bs)) NUL in
     printf (''read bytes: '' @ show_int n @ [NL]) (
     with_cstr buf1 (\<lambda>s. printf (''first message: '' @ s @ [NL]) (
     with_cstr buf2 (\<lambda>s. printf (''second message: '' @ s @ [NL]) (exit 0))))))"

definition writev_main :: prog where
  "writev_main = sys_write 1 (take 3 ''ABCDEFG'' @ take 4 ''1234567'') (\<lambda>n.
     puts [] (printf (''write bytes: '' @ show_int n @ [NL]) (exit 0)))"

section \<open>Socket options\<close>

definition SO_TYPE :: int where "SO_TYPE = 3"
definition SO_SNDBUF :: int where "SO_SNDBUF = 7"
definition SO_RCVBUF :: int where "SO_RCVBUF = 8"

definition getsockopt :: "int \<Rightarrow> int \<Rightarrow> string \<Rightarrow> (int \<Rightarrow> prog) \<Rightarrow> prog" where
  "getsockopt sock opt msg k = syscall (\<lambda>a. Sys ''getsockopt'' [sock, SOL_SOCKET, opt] (take 4 (data a)) (max (- 1) (ret a)))
     (\<lambda>a. if max (- 1) (ret a) = - 1 then error_handler msg else k (int_val (take 4 (data a))))"

definition setsockopt :: "int \<Rightarrow> int \<Rightarrow> int \<Rightarrow> string \<Rightarrow> prog \<Rightarrow> prog" where
  "setsockopt sock opt v msg k = call ''setsockopt'' [sock, SOL_SOCKET, opt] (int_bytes v) (\<lambda>r.
     if r = - 1 then error_handler msg else k)"

definition get_buf_main :: prog where
  "get_buf_main = call ''socket'' [PF_INET, SOCK_STREAM, 0] [] (\<lambda>sock. if sock = - 1 then error_handler ''socket() error'' else
     getsockopt sock SO_SNDBUF ''getsockopt() error'' (\<lambda>snd_buf.
     getsockopt sock SO_RCVBUF ''getsockopt() error'' (\<lambda>rcv_buf.
     printf (''input buffer default size: '' @ show_int rcv_buf @ [NL]) (
     printf (''output buffer default size: '' @ show_int snd_buf @ [NL]) (exit 0)))))"

definition set_buf_main :: prog where
  "set_buf_main = call ''socket'' [PF_INET, SOCK_STREAM, 0] [] (\<lambda>sock. if sock = - 1 then error_handler ''socket() error'' else
     setsockopt sock SO_SNDBUF 2048 ''setsockopt() error'' (
     getsockopt sock SO_SNDBUF ''setsockopt error'' (\<lambda>snd_buf.
     setsockopt sock SO_RCVBUF 2048 ''setsockopt() error'' (
     getsockopt sock SO_RCVBUF ''getsockopt() error'' (\<lambda>rcv_buf.
     printf (''input buffer changed size: '' @ show_int rcv_buf @ [NL]) (
     printf (''output buffer changed size: '' @ show_int snd_buf @ [NL]) (exit 0)))))))"

definition sock_type_main :: prog where
  "sock_type_main = call ''socket'' [PF_INET, SOCK_STREAM, 0] [] (\<lambda>tcp_sock.
     if tcp_sock = - 1 then error_handler ''tcp socket() error'' else
     call ''socket'' [PF_INET, SOCK_DGRAM, 0] [] (\<lambda>udp_sock.
     if udp_sock = - 1 then error_handler ''udp socket() error'' else
     printf (''SOCK_STREAM: '' @ show_int SOCK_STREAM @ [NL]) (
     printf (''SOCK_DGRAM: '' @ show_int SOCK_DGRAM @ [NL]) (
     getsockopt tcp_sock SO_TYPE ''tcp getsockopt() error'' (\<lambda>t.
     printf (''Socket type one: '' @ show_int t @ [NL]) (
     getsockopt udp_sock SO_TYPE ''udp getsockopt() error'' (\<lambda>t.
     printf (''Socket type two: '' @ show_int t @ [NL]) (exit 0))))))))"

section \<open>Processes and signals\<close>

definition fork_main :: prog where
  "fork_main = (let gval = 10 + 1; lval = 20 + 5 in
     printf (''origin val: gval = '' @ show_int gval @ '', lval = '' @ show_int lval @ [NL]) (
     call ''fork'' [] [] (\<lambda>pid.
       let gval = (if pid = 0 then gval + 2 else gval - 2); lval = (if pid = 0 then lval + 2 else lval - 2) in
       printf ((if pid = 0 then ''child'' else ''parent'') @ '' process: gval = '' @ show_int gval @ '', lval = '' @ show_int lval @ [NL])
         (exit 0))))"

definition WIFEXITED :: "int \<Rightarrow> bool" where "WIFEXITED status \<longleftrightarrow> status mod 128 = 0"
definition WEXITSTATUS :: "int \<Rightarrow> int" where "WEXITSTATUS status = (status div 256) mod 256"

text \<open>\<open>wait\<close> and \<open>waitpid\<close> write the status only when they have a child to report.\<close>

definition wait_status :: "string \<Rightarrow> int list \<Rightarrow> int \<Rightarrow> (int \<Rightarrow> int \<Rightarrow> prog) \<Rightarrow> prog" where
  "wait_status name args status k = syscall (\<lambda>a. Sys name args (take 4 (data a)) (max (- 1) (ret a)))
     (\<lambda>a. let pid = max (- 1) (ret a) in k pid (if pid > 0 then int_val (take 4 (data a)) else status))"

definition sleep :: "int \<Rightarrow> prog \<Rightarrow> prog" where
  "sleep n k = call0 ''sleep'' [n] [] k"

definition wait_main :: "int \<Rightarrow> prog" where
  "wait_main status = call ''fork'' [] [] (\<lambda>pid. if pid = 0 then exit 3 else
     printf (''child pid: '' @ show_int pid @ [NL]) (
     call ''fork'' [] [] (\<lambda>pid. if pid = 0 then exit 7 else
       printf (''chile pid: '' @ show_int pid @ [NL]) (
       wait_status ''wait'' [] status (\<lambda>_ status.
       (if WIFEXITED status then printf (''child send one: '' @ show_int (WEXITSTATUS status) @ [NL]) else id) (
       wait_status ''wait'' [] status (\<lambda>_ status.
       (if WIFEXITED status then printf (''chile send two: '' @ show_int (WEXITSTATUS status) @ [NL]) else id) (
       sleep 30 (exit 0)))))))))"

definition waitpid_poll :: "int \<Rightarrow> (int \<Rightarrow> prog) \<Rightarrow> prog" where
  "waitpid_poll status k = loop (\<lambda>status next break. wait_status ''waitpid'' [- 1, 1] status (\<lambda>pid status.
     if pid = 0 then sleep 3 (puts ''sleep 3sec.'' (next status)) else break status)) status k"

definition waitpid_main :: "int \<Rightarrow> prog" where
  "waitpid_main status = call ''fork'' [] [] (\<lambda>pid. if pid = 0 then sleep 12 (exit 24) else
     waitpid_poll status (\<lambda>status.
       (if WIFEXITED status then printf (''child send '' @ show_int (WEXITSTATUS status) @ [NL]) else id) (exit 0)))"

text \<open>
  A sleep that a signal may cut short: the answer has the number of the signal in place of \<open>errno\<close>, and
  its handler runs before \<open>sleep\<close> returns.
\<close>

definition sleep_handling :: "(int \<Rightarrow> prog \<Rightarrow> prog) \<Rightarrow> int \<Rightarrow> prog \<Rightarrow> prog" where
  "sleep_handling handler n k = syscall (\<lambda>a. Sys ''sleep'' [n] [] (ret a)) (\<lambda>a. if errno a = 0 then k else handler (errno a) k)"

definition SIGINT :: int where "SIGINT = 2"
definition SIGALRM :: int where "SIGALRM = 14"
definition SIGCHLD :: int where "SIGCHLD = 17"

definition read_childproc_status :: "int \<Rightarrow> prog \<Rightarrow> prog" where
  "read_childproc_status status k = wait_status ''waitpid'' [- 1, 1] status (\<lambda>pid status.
     if WIFEXITED status then printf (''removed proc id: '' @ show_int pid @ [NL]) (
       printf (''child send: '' @ show_int (WEXITSTATUS status) @ [NL]) k) else k)"

definition remove_zombie_main :: "int \<Rightarrow> prog" where
  "remove_zombie_main status = call0 ''sigaction'' [SIGCHLD] ''read_childproc'' (
     call ''fork'' [] [] (\<lambda>pid. if pid = 0 then
         puts (''Hi! I'' @ [CHR 0x27] @ ''m child process'') (sleep 10 (exit 12))
       else printf (''child proc id: '' @ show_int pid @ [NL]) (
         call ''fork'' [] [] (\<lambda>pid. if pid = 0 then
             puts (''hi! I'' @ [CHR 0x27] @ ''m child process'') (sleep 10 (exit 24))
           else printf (''child proc id: '' @ show_int pid @ [NL]) (
             for_each [0..<(5::nat)] (\<lambda>i u next. puts ''wait...'' (
               sleep_handling (\<lambda>sig. if sig = SIGCHLD then read_childproc_status status else id) 5 (next u))) () (\<lambda>_. exit 0))))))"

definition timeout :: "int \<Rightarrow> prog \<Rightarrow> prog" where
  "timeout sig k = (if sig = SIGALRM then puts ''time out'' else id) (call0 ''alarm'' [2] [] k)"

definition keycontrol :: "int \<Rightarrow> prog \<Rightarrow> prog" where
  "keycontrol sig k = (if sig = SIGINT then puts ''ctrl+c pressed'' k else k)"

definition wait_thrice :: "(int \<Rightarrow> prog \<Rightarrow> prog) \<Rightarrow> int \<Rightarrow> prog" where
  "wait_thrice handler n = for_each [0..<(3::nat)] (\<lambda>i u next. puts ''wait...'' (sleep_handling handler n (next u))) () (\<lambda>_. exit 0)"

definition sigaction_main :: prog where
  "sigaction_main = call0 ''sigaction'' [SIGALRM] ''timeout'' (call0 ''alarm'' [2] [] (
     wait_thrice (\<lambda>sig. if sig = SIGALRM then timeout sig else id) 30))"

definition signal_main :: prog where
  "signal_main = call0 ''signal'' [SIGALRM] ''timeout'' (call0 ''signal'' [SIGINT] ''keycontrol'' (call0 ''alarm'' [2] [] (
     wait_thrice (\<lambda>sig. if sig = SIGALRM then timeout sig else if sig = SIGINT then keycontrol sig else id) 100)))"

text \<open>\<open>pipe1.c\<close> does not check \<open>pipe\<close>: the array of descriptors keeps what it held.\<close>

definition pipe1_main :: "int \<Rightarrow> int \<Rightarrow> (nat \<Rightarrow> char) \<Rightarrow> prog" where
  "pipe1_main f0 f1 g = syscall (\<lambda>a. Sys ''pipe'' [] (data a) (max (- 1) (ret a)))
     (\<lambda>a. let fds = (if ret a < 0 then [f0, f1] else ints_of (data a) @ [f0, f1]) in
     call ''fork'' [] [] (\<lambda>pid. if pid = 0 then
         printf (''child process write message: who are you'' @ [NL]) (
         sys_write (fds ! 1) (''who are you'' @ [NUL]) (\<lambda>_. exit 0))
       else printf ''parent process read message: '' (
         sys_read (fds ! 0) 30 (\<lambda>n bs. deliver (uninit g 30) bs (\<lambda>buf. with_cstr buf (\<lambda>s. puts s (exit 0)))))))"

section \<open>One descriptor under select\<close>

definition select_body :: "char list \<Rightarrow> (char list \<Rightarrow> prog) \<Rightarrow> (char list \<Rightarrow> prog) \<Rightarrow> prog" where
  "select_body buf next break = select 1 [0] (\<lambda>result temps.
     if result = - 1 then puts ''select() error!'' (break buf)
     else if result = 0 then puts ''time-out'' (next buf)
     else if 0 \<in> set temps then
       sys_read 0 30 (\<lambda>n bs. deliver buf bs (\<lambda>buf. store buf n NUL (\<lambda>buf. with_cstr buf (\<lambda>s.
         printf (''message from console: '' @ s) (next buf)))))
     else next buf)"

definition select_main :: "(nat \<Rightarrow> char) \<Rightarrow> prog" where
  "select_main g = loop select_body (uninit g 30) (\<lambda>_. exit 0)"

section \<open>The resolver\<close>

record hostent =
  h_name :: string
  h_aliases :: "string list"
  h_addrtype :: int
  h_addr_list :: "char list list"

text \<open>What both programs print of an entry; \<open>label\<close> differs.\<close>

definition print_hostent :: "string \<Rightarrow> string \<Rightarrow> hostent \<Rightarrow> prog \<Rightarrow> prog" where
  "print_hostent official label h k = printf (official @ '' name: '' @ h_name h @ [NL]) (
     for_each [0..<length (h_aliases h)] (\<lambda>i u next.
       printf (''aliases '' @ show_int (int i + 1) @ '': '' @ h_aliases h ! i @ [NL]) (next u)) () (\<lambda>_.
     printf (''address type: '' @ (if h_addrtype h = 2 then ''AF_INET'' else ''AF_INET6'') @ [NL]) (
     for_each [0..<length (h_addr_list h)] (\<lambda>i u next.
       printf (label @ show_int (int i + 1) @ '': '' @ inet_ntoa (le_val (take 4 (h_addr_list h ! i))) @ [NL]) (next u)) () (\<lambda>_. k))))"

definition gethostbyname_main :: "(string \<Rightarrow> hostent option) \<Rightarrow> string list \<Rightarrow> prog" where
  "gethostbyname_main resolve argv = (if length argv \<noteq> 2 then printf (''usage: '' @ argv ! 0 @ '' <domain_name>'') (exit 1) else
     case resolve (argv ! 1) of None \<Rightarrow> error_handler ''gethostbyname() error''
     | Some h \<Rightarrow> print_hostent ''official'' ''ip address '' h (exit 0))"

definition gethostbyaddr_main :: "(char list \<Rightarrow> hostent option) \<Rightarrow> string list \<Rightarrow> prog" where
  "gethostbyaddr_main resolve argv = (if length argv \<noteq> 2 then usage argv '' <ip>'' 1 else
     case resolve (le_bytes 4 (inet_addr (argv ! 1))) of None \<Rightarrow> error_handler ''gethostbyaddr() error''
     | Some h \<Rightarrow> print_hostent ''offical'' ''ip addr '' h (exit 0))"

section \<open>Properties\<close>

lemma cstr_padded: "NUL \<notin> set s \<Longrightarrow> n > 0 \<Longrightarrow> cstr (s @ replicate n NUL) = s"
  by (cases n) auto

text \<open>
  low_open and low_read fit together: when low_open wrote its array in full, low_read, given the bytes
  of that file, prints the text once and without bytes of its uninitialised buffer, as the NUL is in the file.
\<close>

theorem low_file_roundtrip:
  assumes "0 \<le> fd" and "11 \<le> n" and "0 \<le> fd'"
  shows "case low_read_main g (boot [Ans fd' 0 [] [], Ans 0 0 (taken fd (trace (snd (low_open_main
      (boot [Ans fd 0 [] [], Ans n 0 [] [], Ans 0 0 [] []]))))) [], Ans 0 0 [] []]) of (r, w) \<Rightarrow>
    r = Exit 0 \<and> printed (trace w) = ''file data: '' @ low_open_text @ [NL]"
proof -
  have letters: "length low_open_text = 10" "NUL \<notin> set low_open_text" by (simp_all add: low_open_text_def)
  have written: "taken fd (trace (snd (low_open_main (boot [Ans fd 0 [] [], Ans n 0 [] [], Ans 0 0 [] []])))) = low_open_text @ [NUL]"
    using assms(1,2) letters(1) by (simp add: low_open_main_def prog_defs syscall_def)
  show ?thesis
    unfolding written low_read_main_def using assms(3) letters
    by (simp add: prog_defs syscall_def buf_copy_def)
qed

theorem low_file_roundtrip_witness:
  "printed (trace (snd (low_read_main (\<lambda>_. CHR ''x'') (boot [Ans 3 0 [] [], Ans 0 0 (taken 4 (trace (snd (low_open_main
      (boot [Ans 4 0 [] [], Ans 11 0 [] [], Ans 0 0 [] []]))))) [], Ans 0 0 [] []])))) = ''file data: '' @ low_open_text @ [NL]"
  using low_file_roundtrip [of 4 11 3 "\<lambda>_. CHR ''x''"] by (simp add: split_beta)

text \<open>
  readv splits its input after five bytes; with 105 bytes or more the second array has no NUL, and
  printing it reads past its end.
\<close>

theorem readv_splits:
  assumes "NUL \<notin> set bs"
  shows "readv_main (boot [Ans 0 0 bs []]) =
    (let t = [Read 0 105 (take 105 bs), Out (''read bytes: '' @ show_int (min 105 (int (length bs))) @ [NL]), Out (''first message: '' @ take 5 bs @ [NL])] in
     if length bs < 105 then (Exit 0, \<lparr>answers = [], trace = t @ [Out (''second message: '' @ drop 5 bs @ [NL])]\<rparr>)
     else (Undefined, \<lparr>answers = [], trace = t\<rparr>))"
proof -
  define cs where "cs = take 105 bs"
  have cs: "NUL \<notin> set (take 5 cs)" "NUL \<notin> set (drop 5 cs)" "length cs = min 105 (length bs)"
    using assms by (auto simp: cs_def dest: in_set_takeD in_set_dropD)
  have first: "cstr (take 5 cs @ replicate (100 - length (take 5 cs)) NUL) = take 5 cs"
    "NUL \<in> set (take 5 cs @ replicate (100 - length (take 5 cs)) NUL)"
    using cstr_padded [OF cs(1)] by auto
  have five: "take 5 cs = take 5 bs" by (simp add: cs_def min_def)
  show ?thesis
  proof (cases "length bs < 105")
    case True
    then have "cs = bs" by (simp add: cs_def)
    moreover have "cstr (drop 5 cs @ replicate (100 - length (drop 5 cs)) NUL) = drop 5 cs"
      "NUL \<in> set (drop 5 cs @ replicate (100 - length (drop 5 cs)) NUL)"
      using True cs(3) cstr_padded [OF cs(2), of "100 - length (drop 5 cs)"] by auto
    ultimately show ?thesis
      using True first cs(3)
      unfolding readv_main_def sys_read_def cs_def [symmetric]
      by (simp add: syscall_def printf_def emit_def with_cstr_def exit_def log_def boot_def Let_def cs_def [symmetric] del: cstr_append_NUL)
  next
    case False
    then have "length cs = 105" using cs(3) by simp
    then show ?thesis
      using False first cs(2) five
      unfolding readv_main_def sys_read_def
      by (simp add: syscall_def printf_def emit_def with_cstr_def undef_def log_def boot_def Let_def cs_def [symmetric])
  qed
qed

theorem readv_splits_witness:
  "readv_main (boot [Ans 0 0 ''helloworld'' []]) = (Exit 0, \<lparr>answers = [], trace = [Read 0 105 ''helloworld'', Out (''read bytes: 10'' @ [NL]),
     Out (''first message: hello'' @ [NL]), Out (''second message: world'' @ [NL])]\<rparr>)"
proof -
  have "show_int 10 = ''10''" by code_simp
  then show ?thesis using readv_splits [of "''helloworld''"] by simp
qed

lemma waitpid_poll_rounds:
  assumes "0 < pid" and "answers w = concat (replicate n [Ans 0 0 [] [], Ans 0 0 [] []]) @ Ans pid 0 bs [] # as"
  shows "\<exists>w'. waitpid_poll st k w = k (int_val (take 4 bs)) w' \<and>
    printed (trace w') = printed (trace w) @ concat (replicate n (''sleep 3sec.'' @ [NL]))"
  using assms(2)
proof (induction n arbitrary: st w)
  case 0
  then have "waitpid_poll st k w = k (int_val (take 4 bs)) (log (Sys ''waitpid'' [- 1, 1] (take 4 bs) pid) (w\<lparr>answers := as\<rparr>))"
    unfolding waitpid_poll_def by (subst loop.simps) (use assms(1) in \<open>simp add: wait_status_def syscall_def\<close>)
  then show ?case by (auto simp: log_def)
next
  case (Suc n)
  let ?w = "w\<lparr>answers := concat (replicate n [Ans 0 0 [] [], Ans 0 0 [] []]) @ Ans pid 0 bs [] # as,
      trace := trace w @ [Sys ''waitpid'' [- 1, 1] [] 0, Sys ''sleep'' [3] [] 0, Out (''sleep 3sec.'' @ [NL])]\<rparr>"
  have "waitpid_poll st k w = waitpid_poll st k ?w"
    unfolding waitpid_poll_def using Suc.prems
    by (subst loop.simps) (simp add: wait_status_def syscall_def sleep_def call0_def call_def puts_def emit_def log_def)
  with Suc.IH [of ?w st] show ?case by simp
qed

text \<open>
  waitpid polls until the child is gone: after any number of unsuccessful polls it reports the
  exit status that the child passed, and exits.
\<close>

theorem waitpid_polls:
  assumes "0 < pid" and "0 \<le> c" and "c < 256"
  shows "case waitpid_main st (boot (Ans pid 0 [] [] # concat (replicate n [Ans 0 0 [] [], Ans 0 0 [] []]) @ [Ans pid 0 (int_bytes (256 * c)) []])) of (r, w) \<Rightarrow>
    r = Exit 0 \<and> printed (trace w) = concat (replicate n (''sleep 3sec.'' @ [NL])) @ ''child send '' @ show_int c @ [NL]"
proof -
  let ?k = "\<lambda>status. (if WIFEXITED status then printf (''child send '' @ show_int (WEXITSTATUS status) @ [NL]) else id) (exit 0)"
  let ?w = "\<lparr>answers = concat (replicate n [Ans 0 0 [] [], Ans 0 0 [] []]) @ [Ans pid 0 (int_bytes (256 * c)) []], trace = [Sys ''fork'' [] [] pid]\<rparr>"
  have st: "int_val (take 4 (int_bytes (256 * c))) = 256 * c"
    using assms(2,3) by (simp add: int_val_bytes c_int_id INT_MAX_def)
  obtain w' where w': "waitpid_poll st ?k ?w = ?k (256 * c) w'" "printed (trace w') = concat (replicate n (''sleep 3sec.'' @ [NL]))"
    using waitpid_poll_rounds [OF assms(1), of ?w n "int_bytes (256 * c)" "[]" st ?k] unfolding st by auto
  have "WIFEXITED (256 * c)" "WEXITSTATUS (256 * c) = c"
    using assms(2,3) by (simp_all add: WIFEXITED_def WEXITSTATUS_def mod_mult_right_eq)
  then show ?thesis
    using w' assms(1) by (simp add: waitpid_main_def call_def syscall_def log_def boot_def printf_def emit_def exit_def)
qed

theorem waitpid_polls_witness:
  "case waitpid_main 0 (boot (Ans 9 0 [] [] # concat (replicate 2 [Ans 0 0 [] [], Ans 0 0 [] []]) @ [Ans 9 0 (int_bytes (256 * 24)) []])) of (r, w) \<Rightarrow>
    r = Exit 0 \<and> printed (trace w) = concat (replicate 2 (''sleep 3sec.'' @ [NL])) @ ''child send '' @ show_int 24 @ [NL]"
  by (rule waitpid_polls) simp_all

end
