(* ===== verification/Chat_Room.thy ===== *)
theory Chat_Room
  imports Stream_Clients Posix_Sync
begin

text \<open>
  The chat room of \<^verbatim>\<open>src/tcp-ip/socket/src/mthread_server.c\<close> and \<^verbatim>\<open>mthread_client.c\<close>.

  The server has one thread that accepts clients and one thread for every client. What they share is the
  table of sockets with its count, and the variable \<open>clnt_sockfd\<close> of \<open>main\<close>, the address of which is
  the argument of every handler. The table is used only with the mutex held, so that a critical section
  is one step; \<open>clnt_sockfd\<close> is not protected, so that storing it, creating the thread and reading it there are
  steps of their own. An action carries what the kernel answers to the call.
\<close>

section \<open>Server\<close>

definition MAX_CLNT :: nat where "MAX_CLNT = 256"

datatype main_pc = M_accept | M_store | M_create | M_report

datatype handler = H_start | H_read int | H_send int "string option" | H_remove int | H_close int | H_done

record server =
  clnt_cnt :: int
  clnt_sockfdvec :: "int list"
  clnt_sockfd :: int
  mpc :: main_pc
  handlers :: "handler list"
  deliveries :: "(int \<times> string) list"
  corrupt :: bool

definition start :: "server" where
  "start = \<lparr>clnt_cnt = 0, clnt_sockfdvec = replicate MAX_CLNT 0, clnt_sockfd = 0, mpc = M_accept, handlers = [],
     deliveries = [], corrupt = False\<rparr>"

definition corrupted :: "server \<Rightarrow> server" where
  "corrupted s = s\<lparr>corrupt := True\<rparr>"

text \<open>\<open>clnt_sockfdvec[clnt_cnt++] = clnt_sockfd\<close>.\<close>

definition add_client :: "server \<Rightarrow> server" where
  "add_client s = (if 0 \<le> clnt_cnt s \<and> clnt_cnt s < int MAX_CLNT
     then s\<lparr>clnt_sockfdvec := (clnt_sockfdvec s)[nat (clnt_cnt s) := clnt_sockfd s], clnt_cnt := clnt_cnt s + 1\<rparr>
     else corrupted s)"

text \<open>
  \<open>send_msg\<close>: the message goes to every socket of the table but the sender's. \<open>None\<close> is the length -1 after a
  failed read, with which \<open>write\<close> reads outside the message.
\<close>

definition others :: "int \<Rightarrow> server \<Rightarrow> int list" where
  "others self s = filter (\<lambda>fd. fd \<noteq> self) (take (nat (clnt_cnt s)) (clnt_sockfdvec s))"

definition send_msg :: "string option \<Rightarrow> int \<Rightarrow> server \<Rightarrow> server" where
  "send_msg msg self s = (case msg of
     Some bs \<Rightarrow> s\<lparr>deliveries := deliveries s @ map (\<lambda>fd. (fd, bs)) (others self s)\<rparr>
   | None \<Rightarrow> if others self s = [] then s else corrupted s)"

text \<open>\<open>while(i++ < clnt_cnt-1) clnt_sockfdvec[i] = clnt_sockfdvec[i+1]\<close>, and the search around it.\<close>

function shift_down :: "nat \<Rightarrow> nat \<Rightarrow> int list \<Rightarrow> int list option" where
  "shift_down i cnt vec = (if i < cnt - 1 then
       if i + 2 < length vec then shift_down (i + 1) cnt (vec[i + 1 := vec ! (i + 2)]) else None
     else Some vec)"
  by pat_completeness auto
termination
  by (relation "measure (\<lambda>(i, cnt, vec). cnt - i)") auto

declare shift_down.simps [simp del]

function search :: "nat \<Rightarrow> nat \<Rightarrow> int \<Rightarrow> int list \<Rightarrow> int list option" where
  "search i cnt fd vec = (if i < cnt then
       if fd = vec ! i then shift_down i cnt vec else search (i + 1) cnt fd vec
     else Some vec)"
  by pat_completeness auto
termination
  by (relation "measure (\<lambda>(i, cnt, fd, vec). cnt - i)") auto

declare search.simps [simp del]

definition remove_client :: "int \<Rightarrow> server \<Rightarrow> server" where
  "remove_client fd s = (case search 0 (nat (clnt_cnt s)) fd (clnt_sockfdvec s) of
     None \<Rightarrow> corrupted s
   | Some vec \<Rightarrow> s\<lparr>clnt_sockfdvec := vec, clnt_cnt := clnt_cnt s - 1\<rparr>)"

text \<open>
  \<open>accept\<close> returns \<open>a\<close>; a failure is reported and the next one is tried. \<open>pthread_create\<close> is not checked: when it
  fails, \<open>pthread_detach\<close> gets the number of an earlier thread or an uninitialised one.
\<close>

definition main_step :: "int \<Rightarrow> bool \<Rightarrow> server \<Rightarrow> server" where
  "main_step a created s = (case mpc s of
     M_accept \<Rightarrow> if a < 0 then s\<lparr>clnt_sockfd := - 1\<rparr> else s\<lparr>clnt_sockfd := a, mpc := M_store\<rparr>
   | M_store \<Rightarrow> (add_client s)\<lparr>mpc := M_create\<rparr>
   | M_create \<Rightarrow> if created then s\<lparr>handlers := handlers s @ [H_start], mpc := M_report\<rparr> else corrupted s
   | M_report \<Rightarrow> s\<lparr>mpc := M_accept\<rparr>)"

text \<open>\<open>clnt_handler\<close>: \<open>r\<close> is the answer to \<open>read\<close>, at most \<open>BUF_SIZE\<close> bytes.\<close>

definition clnt_handler :: "nat \<Rightarrow> string option \<Rightarrow> server \<Rightarrow> server option" where
  "clnt_handler t r s = (let goto = (\<lambda>pc s. s\<lparr>handlers := (handlers s)[t := pc]\<rparr>) in case handlers s ! t of
     H_start \<Rightarrow> Some (goto (H_read (clnt_sockfd s)) s)
   | H_read fd \<Rightarrow> Some (goto (case map_option (take 100) r of Some [] \<Rightarrow> H_remove fd | msg \<Rightarrow> H_send fd msg) s)
   | H_send fd msg \<Rightarrow> Some (goto (H_read fd) (send_msg msg fd s))
   | H_remove fd \<Rightarrow> Some (goto (H_close fd) (remove_client fd s))
   | H_close fd \<Rightarrow> Some (goto H_done s)
   | H_done \<Rightarrow> None)"

datatype act = Main int bool | Handler nat "string option"

fun step :: "act \<Rightarrow> server \<Rightarrow> server option" where
  "step (Main a created) s = (if corrupt s then None else Some (main_step a created s))"
| "step (Handler t r) s = (if corrupt s \<or> length (handlers s) \<le> t then None else clnt_handler t r s)"

text \<open>The part of \<open>main\<close> before its loop.\<close>

definition mthread_server_setup :: "string list \<Rightarrow> (int \<Rightarrow> prog) \<Rightarrow> prog" where
  "mthread_server_setup argv k = (if length argv \<noteq> 2 then usage argv '' <port>'' 1 else
     call0 ''pthread_mutex_init'' [] [] (
     open_server (argv ! 1) ''socket() error'' ''bind() error'' ''listen() error'' k))"

section \<open>Client\<close>

definition NAME_SIZE :: nat where "NAME_SIZE = 20"
definition MSG_SIZE :: nat where "MSG_SIZE = 100"

text \<open>\<open>sprintf\<close> to an array of \<open>n\<close> bytes.\<close>

definition sprintf :: "nat \<Rightarrow> string \<Rightarrow> prog \<Rightarrow> prog" where
  "sprintf n s k = (if length s < n then k else undef)"

text \<open>The threads; \<open>msg\<close> keeps its contents when \<open>fgets\<close> fails.\<close>

definition client_send_body :: "int \<Rightarrow> string \<Rightarrow> char list \<Rightarrow> (char list \<Rightarrow> prog) \<Rightarrow> (char list \<Rightarrow> prog) \<Rightarrow> prog" where
  "client_send_body sock name msg next break = fgets 0 MSG_SIZE (\<lambda>r. fgets_buf msg r (\<lambda>msg. with_cstr msg (\<lambda>s.
     if is_quit s then close sock (exit 0) else
     let name_msg = name @ '' '' @ s in sprintf (NAME_SIZE + MSG_SIZE) name_msg (
     sys_write sock name_msg (\<lambda>_. next msg)))))"

definition client_send_msg :: "int \<Rightarrow> string \<Rightarrow> char list \<Rightarrow> prog" where
  "client_send_msg sock name msg = loop (client_send_body sock name) msg (\<lambda>_. exit 0)"

definition client_recv_msg :: "(nat \<Rightarrow> char) \<Rightarrow> int \<Rightarrow> prog \<Rightarrow> prog" where
  "client_recv_msg g sock k = loop (\<lambda>buf next break.
     sys_read sock (NAME_SIZE + MSG_SIZE - 1) (\<lambda>n bs. if n = - 1 then break buf else
     deliver buf bs (\<lambda>buf. store buf n NUL (\<lambda>buf. with_cstr buf (\<lambda>s. emit (Out s) (next buf))))))
     (uninit g (NAME_SIZE + MSG_SIZE)) (\<lambda>_. k)"

text \<open>\<open>main\<close>; \<open>joins\<close> stands for the two threads it starts and waits for.\<close>

definition mthread_client_main :: "string list \<Rightarrow> (int \<Rightarrow> string \<Rightarrow> prog \<Rightarrow> prog) \<Rightarrow> prog" where
  "mthread_client_main argv joins = (if length argv \<noteq> 4 then usage argv '' <ip> <port> <name>'' 1 else
     let name = ''['' @ argv ! 3 @ '']'' in sprintf NAME_SIZE name (
     open_client (argv ! 1) (argv ! 2) ''socket() error'' ''connect() error'' (\<lambda>sock.
     joins sock name (close sock (exit 0)))))"

section \<open>The table of sockets\<close>

definition members :: "server \<Rightarrow> int list" where
  "members s = take (nat (clnt_cnt s)) (clnt_sockfdvec s)"

lemma length_shift_down: "shift_down i cnt vec = Some v \<Longrightarrow> length v = length vec"
proof (induction i cnt vec rule: shift_down.induct)
  case (1 i cnt vec)
  then show ?case by (subst (asm) (2) shift_down.simps) (auto split: if_splits)
qed

text \<open>The loop copies from the slot after the next one: slot \<open>i\<close> stays, and its neighbour goes.\<close>

lemma shift_down_skips:
  "cnt < length vec \<Longrightarrow> i < cnt \<Longrightarrow>
    \<exists>v. shift_down i cnt vec = Some v \<and> take (cnt - 1) v = take (cnt - 1) (take (i + 1) vec @ drop (i + 2) vec)"
proof (induction i cnt vec rule: shift_down.induct)
  case (1 i cnt vec)
  show ?case
  proof (cases "i < cnt - 1")
    case True
    let ?v = "vec[i + 1 := vec ! (i + 2)]"
    from True "1.prems" have b: "i + 2 < length vec" by simp
    have "cnt < length ?v" "i + 1 < cnt" using True "1.prems" by auto
    from "1.IH" [OF True b this] obtain v where
      v: "shift_down (i + 1) cnt ?v = Some v" "take (cnt - 1) v = take (cnt - 1) (take (i + 1 + 1) ?v @ drop (i + 1 + 2) ?v)"
      by blast
    have eq: "take (i + 1 + 1) ?v @ drop (i + 1 + 2) ?v = take (i + 1) vec @ drop (i + 2) vec"
      using b by (simp add: take_Suc_conv_app_nth Cons_nth_drop_Suc)
    have "shift_down i cnt vec = Some v" using v(1) True b by (subst shift_down.simps) simp
    with v(2) show ?thesis unfolding eq by blast
  next
    case False
    with "1.prems" have "cnt = i + 1" by simp
    then show ?thesis by (subst shift_down.simps) (use "1.prems" in simp)
  qed
qed

lemma search_found:
  assumes "take i vec = xs" and "length xs = i" and "j \<le> i" and "i < cnt" and "vec ! i = fd" and "fd \<notin> set xs" and "i < length vec"
  shows "search j cnt fd vec = shift_down i cnt vec"
  using assms
proof (induction "i - j" arbitrary: j)
  case 0
  then show ?case by (subst search.simps) simp
next
  case (Suc n)
  have "vec ! j = xs ! j" using Suc.hyps(2) Suc.prems(1) by (metis diff_is_0_eq' nat.simps(3) nat_le_linear nth_take not_le)
  then have "vec ! j \<noteq> fd" using Suc.hyps(2) Suc.prems(2,6) by (metis diff_is_0_eq' nat.simps(3) nth_mem not_le)
  then show ?case using Suc.hyps(1) [of "j + 1"] Suc.hyps(2) Suc.prems by (subst search.simps) auto
qed

lemma remove_client_ok:
  assumes "members s = xs @ fd # ys" and "fd \<notin> set xs" and "length (clnt_sockfdvec s) = MAX_CLNT"
    and "clnt_cnt s = int (length (members s))" and "clnt_cnt s < int MAX_CLNT"
  shows "\<exists>v. remove_client fd s = s\<lparr>clnt_sockfdvec := v, clnt_cnt := clnt_cnt s - 1\<rparr> \<and>
    members (remove_client fd s) = (if ys = [] then xs else xs @ fd # tl ys) \<and> length v = MAX_CLNT"
proof -
  let ?vec = "clnt_sockfdvec s" and ?i = "length xs"
  define cnt where "cnt = nat (clnt_cnt s)"
  have cnt: "cnt = length xs + length ys + 1" "cnt < length ?vec" "clnt_cnt s = int cnt"
    using assms by (auto simp: cnt_def)
  have m: "take cnt ?vec = xs @ fd # ys" using assms(1) by (simp add: members_def cnt_def)
  have vec: "?vec = (xs @ fd # ys) @ drop cnt ?vec" unfolding m [symmetric] by simp
  have "take ?i ?vec = xs" "?vec ! ?i = fd" by (subst vec, simp)+
  with assms(2) cnt have f: "search 0 cnt fd ?vec = shift_down ?i cnt ?vec" by (intro search_found) auto
  obtain v where v: "shift_down ?i cnt ?vec = Some v"
      "take (cnt - 1) v = take (cnt - 1) (take (?i + 1) ?vec @ drop (?i + 2) ?vec)"
    using shift_down_skips [OF cnt(2), of ?i] cnt(1) by auto
  have "take (?i + 1) ?vec = xs @ [fd]" by (subst vec) simp
  moreover have "take (cnt - 1 - (?i + 1)) (drop (?i + 2) ?vec) = tl ys"
    using cnt(1) by (subst vec) (cases ys, simp_all)
  ultimately have "take (cnt - 1) v = (if ys = [] then xs else xs @ fd # tl ys)"
    using v(2) cnt(1) by (cases ys) simp_all
  moreover have "remove_client fd s = s\<lparr>clnt_sockfdvec := v, clnt_cnt := clnt_cnt s - 1\<rparr>"
    unfolding remove_client_def cnt_def [symmetric] f v(1) by simp
  ultimately show ?thesis
    using length_shift_down [OF v(1)] assms(3) cnt
    by (intro exI [of _ v]) (auto simp: members_def nat_int_add)
qed

lemma remove_client_full:
  assumes "members s = xs @ fd # ys" and "fd \<notin> set xs" and "length (clnt_sockfdvec s) = MAX_CLNT"
    and "clnt_cnt s = int MAX_CLNT" and "ys \<noteq> []"
  shows "remove_client fd s = corrupted s"
proof -
  have full: "shift_down i (length v) v = None" if "i < length v - 1" for i and v :: "int list"
    using that
  proof (induction "length v - i" arbitrary: i v)
    case (Suc n)
    show ?case
    proof (cases "i + 2 < length v")
      case True
      have "shift_down (i + 1) (length (v[i + 1 := v ! (i + 2)])) (v[i + 1 := v ! (i + 2)]) = None"
        by (rule Suc.hyps(1)) (use True Suc.hyps(2) in auto)
      with True show ?thesis by (subst shift_down.simps) simp
    qed (subst shift_down.simps, use Suc.prems in simp)
  qed simp
  have vec: "clnt_sockfdvec s = xs @ fd # ys" using assms(1,3,4) by (simp add: members_def)
  have "search 0 MAX_CLNT fd (xs @ fd # ys) = shift_down (length xs) MAX_CLNT (xs @ fd # ys)"
    using assms(2,3) vec by (intro search_found) auto
  also have "\<dots> = None"
    using full [of "length xs" "xs @ fd # ys"] assms(3,5) vec by (cases ys) auto
  finally show ?thesis using assms(4) by (simp add: remove_client_def vec)
qed

section \<open>Invariants\<close>

text \<open>What \<open>main\<close> does along a schedule on its own: its position, \<open>clnt_sockfd\<close> and the sockets it stored.\<close>

fun admit :: "act \<Rightarrow> main_pc \<times> int \<times> int list \<Rightarrow> main_pc \<times> int \<times> int list" where
  "admit (Main a c) (M_accept, fd, l) = (if a < 0 then (M_accept, - 1, l) else (M_store, a, l))"
| "admit (Main a c) (M_store, fd, l) = (M_create, fd, l @ [fd])"
| "admit (Main a c) (M_create, fd, l) = (M_report, fd, l)"
| "admit (Main a c) (M_report, fd, l) = (M_accept, fd, l)"
| "admit (Handler t r) x = x"

definition admitted :: "act list \<Rightarrow> int list" where
  "admitted ts = snd (snd (fold admit ts (M_accept, 0, [])))"

text \<open>No client has left yet.\<close>

fun left_room :: "handler \<Rightarrow> bool" where
  "left_room (H_close _) = True"
| "left_room H_done = True"
| "left_room _ = False"

definition staying :: "server \<Rightarrow> bool" where
  "staying s \<longleftrightarrow> (\<forall>t < length (handlers s). \<not> left_room (handlers s ! t))"

definition table_ok :: "act list \<Rightarrow> server \<Rightarrow> bool" where
  "table_ok ts s \<longleftrightarrow> fold admit ts (M_accept, 0, []) = (mpc s, clnt_sockfd s, members s) \<and>
     length (clnt_sockfdvec s) = MAX_CLNT \<and> 0 \<le> clnt_cnt s \<and> clnt_cnt s \<le> int MAX_CLNT"

lemma members_count: "table_ok ts s \<Longrightarrow> clnt_cnt s = int (length (members s))"
  by (auto simp: table_ok_def members_def min_def)

lemma table_ok_start: "table_ok [] start"
  by (simp add: table_ok_def start_def members_def)

lemma add_client_ok:
  assumes "table_ok ts s" and "\<not> corrupt (add_client s)"
  shows "members (add_client s) = members s @ [clnt_sockfd s] \<and> length (clnt_sockfdvec (add_client s)) = MAX_CLNT \<and>
    clnt_cnt (add_client s) = clnt_cnt s + 1 \<and> clnt_cnt s < int MAX_CLNT \<and> clnt_sockfd (add_client s) = clnt_sockfd s"
proof -
  define n where "n = nat (clnt_cnt s)"
  have lt: "clnt_cnt s = int n" "n < length (clnt_sockfdvec s)" "length (clnt_sockfdvec s) = MAX_CLNT"
    using assms by (auto simp: table_ok_def add_client_def corrupted_def n_def split: if_splits)
  then have "take (Suc n) ((clnt_sockfdvec s)[n := clnt_sockfd s]) = take n (clnt_sockfdvec s) @ [clnt_sockfd s]"
    by (simp add: take_Suc_conv_app_nth)
  moreover have "nat (1 + int n) = Suc n" by simp
  ultimately show ?thesis
    using lt by (simp add: add_client_def members_def add.commute)
qed

lemma main_step_ok:
  assumes ok: "table_ok ts s" and "\<not> corrupt (main_step a c s)"
  shows "table_ok (ts @ [Main a c]) (main_step a c s)"
proof (cases "mpc s")
  case M_store
  then have "\<not> corrupt (add_client s)" using assms(2) by (simp add: main_step_def)
  moreover have "members ((add_client s)\<lparr>mpc := M_create\<rparr>) = members (add_client s)" by (simp add: members_def)
  ultimately show ?thesis using add_client_ok [OF ok] ok M_store by (simp add: main_step_def table_ok_def)
qed (use assms in \<open>auto simp: main_step_def table_ok_def members_def corrupted_def split: if_splits\<close>)

lemma send_msg_table: "members (send_msg msg fd s) = members s" "clnt_sockfdvec (send_msg msg fd s) = clnt_sockfdvec s"
  "clnt_cnt (send_msg msg fd s) = clnt_cnt s" "mpc (send_msg msg fd s) = mpc s" "clnt_sockfd (send_msg msg fd s) = clnt_sockfd s"
  "handlers (send_msg msg fd s) = handlers s"
  by (simp_all add: send_msg_def members_def corrupted_def split: option.splits)

lemma handler_stays:
  assumes "clnt_handler t r s = Some s'" and "t < length (handlers s)" and "staying s'"
  shows "staying s" and "handlers s ! t \<noteq> H_remove fd"
proof -
  have moved: "handlers s' = (handlers s)[t := handlers s' ! t]"
    using assms(1,2) by (auto simp: clnt_handler_def send_msg_table remove_client_def corrupted_def split: handler.splits option.splits list.splits)
  have "\<not> left_room (handlers s ! t)" and no: "handlers s ! t \<noteq> H_remove fd" for fd
    using assms by (auto simp: clnt_handler_def staying_def remove_client_def corrupted_def split: option.splits handler.splits)
  then show "staying s"
    using assms(3) moved unfolding staying_def by (metis length_list_update nth_list_update_neq)
  show "handlers s ! t \<noteq> H_remove fd" by (rule no)
qed

lemma handler_ok:
  assumes "table_ok ts s" and "clnt_handler t r s = Some s'" and "\<And>fd. handlers s ! t \<noteq> H_remove fd"
  shows "table_ok (ts @ [Handler t r]) s'"
  using assms by (auto simp: clnt_handler_def table_ok_def members_def send_msg_table split: handler.splits option.splits list.splits)

lemma run_table:
  assumes "run step ts start = Some s" and "\<not> corrupt s" and "staying s"
  shows "table_ok ts s"
  using assms
proof (induction ts arbitrary: s rule: rev_induct)
  case Nil
  then show ?case using table_ok_start by simp
next
  case (snoc t ts)
  then obtain u where u: "run step ts start = Some u" "step t u = Some s" by (auto simp: run_snoc)
  then have c: "\<not> corrupt u" by (cases t) (auto split: if_splits)
  show ?case
  proof (cases t)
    case (Main a b)
    then have s: "s = main_step a b u" using u c by simp
    then have "staying u" using snoc.prems(3)
      by (auto simp: staying_def main_step_def add_client_def corrupted_def nth_append split: main_pc.splits if_splits)
    from main_step_ok [OF snoc.IH [OF u(1) c this]] snoc.prems(2) s Main show ?thesis by simp
  next
    case (Handler i r)
    then have h: "clnt_handler i r u = Some s" "i < length (handlers u)" using u c by (auto split: if_splits)
    note h' = handler_stays [OF h snoc.prems(3)]
    from handler_ok [OF snoc.IH [OF u(1) c h'(1)] h(1) h'(2)] Handler show ?thesis by simp
  qed
qed

section \<open>Properties\<close>

text \<open>
  C28. Broadcasting: in every run in which no client has left, the table holds exactly the sockets that main
  accepted, in order, and a message goes to all of them but the sender, once each.
\<close>

theorem chat_broadcast:
  assumes "run step ts start = Some s" and "\<not> corrupt s" and "staying s" and "t < length (handlers s)" and "handlers s ! t = H_send fd (Some bs)"
  shows "\<exists>s'. step (Handler t r) s = Some s' \<and> members s = admitted ts \<and>
    deliveries s' = deliveries s @ map (\<lambda>c. (c, bs)) (filter (\<lambda>c. c \<noteq> fd) (admitted ts))"
proof -
  have "members s = admitted ts" using run_table [OF assms(1-3)] by (simp add: table_ok_def admitted_def)
  then show ?thesis
    using assms(2,4,5) by (simp add: clnt_handler_def send_msg_def others_def members_def)
qed

definition two_clients :: "act list" where
  "two_clients = [Main 4 True, Main 0 True, Main 0 True, Main 0 True, Handler 0 None, Main 5 True, Main 0 True, Main 0 True,
     Handler 1 None, Handler 0 (Some ''hi'')]"

theorem chat_broadcast_witness:
  "\<exists>s s'. run step two_clients start = Some s \<and> step (Handler 0 None) s = Some s' \<and> deliveries s' = [(5, ''hi'')]"
proof -
  have r: "map_option (\<lambda>s. (corrupt s, handlers s, deliveries s)) (run step two_clients start)
      = Some (False, [H_send 4 (Some ''hi''), H_read 5], [])" by code_simp
  then obtain s where s: "run step two_clients start = Some s" "\<not> corrupt s" "handlers s = [H_send 4 (Some ''hi''), H_read 5]" "deliveries s = []"
    by auto
  have "staying s" using s(3) by (auto simp: staying_def less_Suc_eq)
  moreover have "admitted two_clients = [4, 5]" by code_simp
  ultimately show ?thesis using chat_broadcast [OF s(1,2), of 0 4 "''hi''" None] s by auto
qed

text \<open>
  Whoever has left: the count is that of the clients that main stored and whose handler has not left the room. The handlers
  are created one after the other, each after its socket was stored.
\<close>

definition in_room :: "handler list \<Rightarrow> nat" where
  "in_room hs = sum_list (map (\<lambda>h. if left_room h then 0 else 1) hs)"

definition count_ok :: "server \<Rightarrow> bool" where
  "count_ok s \<longleftrightarrow> length (clnt_sockfdvec s) = MAX_CLNT \<and> clnt_cnt s \<le> int MAX_CLNT \<and>
     clnt_cnt s = int (in_room (handlers s)) + of_bool (mpc s = M_create)"

lemma in_room_update:
  assumes "t < length hs" and "\<not> left_room (hs ! t)"
  shows "in_room (hs[t := h]) = (if left_room h then in_room hs - 1 else in_room hs)" and "1 \<le> in_room hs"
proof -
  have "(if left_room (hs ! t) then 0 else 1) \<le> in_room hs"
    using elem_le_sum_list [of t "map (\<lambda>h. if left_room h then 0 else 1) hs"] assms(1) by (simp add: in_room_def)
  then show "1 \<le> in_room hs" using assms(2) by simp
  show "in_room (hs[t := h]) = (if left_room h then in_room hs - 1 else in_room hs)"
    using assms \<open>1 \<le> in_room hs\<close> by (simp add: in_room_def map_update sum_list_update)
qed

lemma in_room_stays:
  assumes "t < length hs" and "left_room (hs ! t)" and "left_room h"
  shows "in_room (hs[t := h]) = in_room hs"
  using assms by (simp add: in_room_def map_update sum_list_update)

lemma search_none: "fd \<notin> set (drop j (take cnt vec)) \<Longrightarrow> cnt \<le> length vec \<Longrightarrow> search j cnt fd vec = Some vec"
proof (induction "cnt - j" arbitrary: j)
  case 0
  then show ?case by (subst search.simps) simp
next
  case (Suc n)
  have j: "j < cnt" "j < length vec" using Suc.hyps(2) Suc.prems(2) by simp_all
  then have "drop j (take cnt vec) = vec ! j # drop (j + 1) (take cnt vec)"
    by (simp add: Cons_nth_drop_Suc [symmetric])
  then show ?case using Suc.hyps(1) [of "j + 1"] Suc.hyps(2) Suc.prems by (subst search.simps) auto
qed

lemma length_search: "search i cnt fd vec = Some v \<Longrightarrow> length v = length vec"
  by (induction i cnt fd vec rule: search.induct) (subst (asm) (2) search.simps, auto split: if_splits dest: length_shift_down)

lemma remove_client_absent:
  assumes "fd \<notin> set (members s)" and "count_ok s"
  shows "remove_client fd s = s\<lparr>clnt_cnt := clnt_cnt s - 1\<rparr>"
proof -
  have "nat (clnt_cnt s) \<le> length (clnt_sockfdvec s)" using assms(2) by (auto simp: count_ok_def)
  from search_none [OF _ this, of fd 0] assms(1) show ?thesis by (simp add: remove_client_def members_def)
qed

lemma remove_client_last:
  assumes "members s = xs @ [fd]" and "fd \<notin> set xs" and "count_ok s"
  shows "remove_client fd s = s\<lparr>clnt_cnt := clnt_cnt s - 1\<rparr>"
proof -
  let ?vec = "clnt_sockfdvec s" and ?i = "length xs"
  have le: "nat (clnt_cnt s) \<le> length ?vec" using assms(3) by (auto simp: count_ok_def)
  then have cnt: "nat (clnt_cnt s) = ?i + 1" using arg_cong [OF assms(1), of length] by (simp add: members_def)
  have vec: "?vec = (xs @ [fd]) @ drop (?i + 1) ?vec"
    using assms(1) unfolding members_def cnt by (metis append_take_drop_id)
  have "take ?i ?vec = xs" "?vec ! ?i = fd" by (subst vec, simp)+
  with assms(2) cnt le have "search 0 (?i + 1) fd ?vec = shift_down ?i (?i + 1) ?vec" by (intro search_found) auto
  also have "\<dots> = Some ?vec" by (subst shift_down.simps) simp
  finally show ?thesis by (simp add: remove_client_def cnt)
qed

lemma remove_client_frame: "handlers (remove_client fd s) = handlers s" "mpc (remove_client fd s) = mpc s"
  by (simp_all add: remove_client_def corrupted_def split: option.splits)

lemma count_ok_step:
  assumes c: "count_ok s" and st: "step a s = Some s'" and n: "\<not> corrupt s'"
  shows "count_ok s'"
proof (cases a)
  case (Main x b)
  then have s': "s' = main_step x b s" using st by (simp split: if_splits)
  show ?thesis
    using c n unfolding s'
    by (cases "mpc s") (auto simp: main_step_def count_ok_def add_client_def corrupted_def in_room_def split: if_splits)
next
  case (Handler t r)
  then have t: "t < length (handlers s)" and h: "clnt_handler t r s = Some s'" using st by (auto split: if_splits)
  show ?thesis
  proof (cases "handlers s ! t")
    case (H_remove fd)
    then have s': "s' = (remove_client fd s)\<lparr>handlers := (handlers s)[t := H_close fd]\<rparr>"
      using h by (simp add: clnt_handler_def remove_client_frame)
    have v: "clnt_cnt (remove_client fd s) = clnt_cnt s - 1 \<and> length (clnt_sockfdvec (remove_client fd s)) = MAX_CLNT"
    proof (cases "search 0 (nat (clnt_cnt s)) fd (clnt_sockfdvec s)")
      case None
      then have "corrupt s'" unfolding s' by (simp add: remove_client_def corrupted_def)
      then show ?thesis using n by simp
    next
      case (Some v)
      then show ?thesis using length_search [OF Some] c by (simp add: remove_client_def count_ok_def)
    qed
    have "\<not> left_room (handlers s ! t)" using H_remove by simp
    note u = in_room_update [OF t this]
    show ?thesis using c v u(2) u(1) [of "H_close fd"] unfolding s' by (simp add: count_ok_def remove_client_frame)
  next
    case (H_close fd)
    then show ?thesis
      using h c in_room_stays [OF t, of H_done] by (auto simp: clnt_handler_def count_ok_def)
  next
    case H_done
    then show ?thesis using h by (simp add: clnt_handler_def)
  next
    case H_start
    then show ?thesis
      using h c in_room_update(1) [OF t, of "H_read (clnt_sockfd s)"] by (auto simp: clnt_handler_def count_ok_def)
  next
    case (H_read fd)
    then have "\<not> left_room (handlers s ! t)" by simp
    note u = in_room_update(1) [OF t this]
    show ?thesis
      using h c H_read u by (auto simp: clnt_handler_def count_ok_def split: option.splits list.splits)
  next
    case (H_send fd msg)
    then show ?thesis
      using h c in_room_update(1) [OF t, of "H_read fd"] by (auto simp: clnt_handler_def count_ok_def send_msg_table)
  qed
qed

lemma run_count:
  assumes "run step ts start = Some s" and "\<not> corrupt s"
  shows "count_ok s"
  using assms
proof (induction ts arbitrary: s rule: rev_induct)
  case Nil
  then show ?case by (auto simp: start_def count_ok_def in_room_def)
next
  case (snoc a ts)
  then obtain u where u: "run step ts start = Some u" "step a u = Some s" by (auto simp: run_snoc)
  then have "\<not> corrupt u" by (cases a) (auto split: if_splits)
  from count_ok_step [OF snoc.IH [OF u(1) this] u(2) snoc.prems(2)] show ?case .
qed

text \<open>
  C23. Leaving, in any run and whoever has left before: when the client whose socket is the last of the table hangs up, its entry goes; when another one
  hangs up, its (first) entry stays and that of the client after it is dropped; a client that is no longer in the
  table takes the last entry with it, as the count is lowered all the same; and with a full table the loop reads outside the array.
\<close>

theorem chat_leave:
  assumes "run step ts start = Some s" and "\<not> corrupt s" and "t < length (handlers s)" and "handlers s ! t = H_remove fd"
  shows "\<exists>s'. step (Handler t r) s = Some s' \<and>
    (fd \<notin> set (members s) \<longrightarrow> \<not> corrupt s' \<and> members s \<noteq> [] \<and> members s' = butlast (members s)) \<and>
    (\<forall>xs ys. members s = xs @ fd # ys \<and> fd \<notin> set xs \<longrightarrow>
       (if ys = [] then \<not> corrupt s' \<and> members s' = xs
        else if length (members s) < MAX_CLNT then \<not> corrupt s' \<and> members s' = xs @ fd # tl ys
        else corrupt s'))"
proof -
  have ok: "count_ok s" by (rule run_count [OF assms(1,2)])
  have "\<not> left_room (handlers s ! t)" using assms(4) by simp
  with in_room_update(2) [OF assms(3)] ok have pos: "1 \<le> clnt_cnt s" by (auto simp: count_ok_def)
  have len: "length (clnt_sockfdvec s) = MAX_CLNT" "clnt_cnt s = int (length (members s))" "length (members s) \<le> MAX_CLNT"
    using ok pos by (auto simp: count_ok_def members_def min_def)
  define s' where "s' = (remove_client fd s)\<lparr>handlers := (handlers (remove_client fd s))[t := H_close fd]\<rparr>"
  have st: "step (Handler t r) s = Some s'" using assms(2-4) by (simp add: clnt_handler_def s'_def)
  have less: "members (s\<lparr>clnt_cnt := clnt_cnt s - 1\<rparr>) = butlast (members s)"
  proof -
    have n: "nat (clnt_cnt s - 1) = nat (clnt_cnt s) - 1" using pos by simp
    have "nat (clnt_cnt s) \<le> length (clnt_sockfdvec s)" using ok by (auto simp: count_ok_def)
    then show ?thesis using n by (simp add: members_def butlast_take)
  qed
  have frame: "members s' = members (remove_client fd s)" "corrupt s' = corrupt (remove_client fd s)"
    by (simp_all add: s'_def members_def)
  have absent: "\<not> corrupt s' \<and> members s \<noteq> [] \<and> members s' = butlast (members s)" if "fd \<notin> set (members s)"
    using remove_client_absent [OF that ok] less frame assms(2) pos len(2) by auto
  have found: "if ys = [] then \<not> corrupt s' \<and> members s' = xs
      else if length (members s) < MAX_CLNT then \<not> corrupt s' \<and> members s' = xs @ fd # tl ys else corrupt s'"
    if m: "members s = xs @ fd # ys" and f: "fd \<notin> set xs" for xs ys
  proof (cases "ys = []")
    case True
    then show ?thesis using remove_client_last [OF _ f ok] m less frame assms(2) by simp
  next
    case ys: False
    show ?thesis
    proof (cases "length (members s) < MAX_CLNT")
      case True
      then obtain v where "remove_client fd s = s\<lparr>clnt_sockfdvec := v, clnt_cnt := clnt_cnt s - 1\<rparr>"
          "members (remove_client fd s) = (if ys = [] then xs else xs @ fd # tl ys)"
        using remove_client_ok [OF m f len(1,2)] len(2) by auto
      then show ?thesis using ys True frame assms(2) by simp
    next
      case False
      then have "clnt_cnt s = int MAX_CLNT" using len by simp
      from remove_client_full [OF m f len(1) this ys] ys False frame show ?thesis by (simp add: corrupted_def)
    qed
  qed
  show ?thesis using st absent found by blast
qed

definition first_leaves :: "act list" where
  "first_leaves = two_clients @ [Handler 0 None, Handler 0 (Some [])]"

definition both_leave :: "act list" where
  "both_leave = first_leaves @ [Handler 0 None, Handler 1 (Some [])]"

text \<open>The first client leaves, and the second one loses its place; when the second one leaves, the first one's socket goes.\<close>

theorem chat_leave_witness:
  "\<exists>s s' u u'. run step first_leaves start = Some s \<and> step (Handler 0 None) s = Some s' \<and> members s = [4, 5] \<and> members s' = [4] \<and>
     run step both_leave start = Some u \<and> step (Handler 1 None) u = Some u' \<and> members u = [4] \<and> members u' = []"
proof -
  have r: "map_option (\<lambda>s. (corrupt s, handlers s, members s)) (run step first_leaves start)
      = Some (False, [H_remove 4, H_read 5], [4, 5])" by code_simp
  then obtain s where s: "run step first_leaves start = Some s" "\<not> corrupt s" "handlers s = [H_remove 4, H_read 5]" "members s = [] @ 4 # [5]"
    by auto
  obtain s' where s': "step (Handler 0 None) s = Some s'" "members s' = [4]"
    using chat_leave [OF s(1,2), of 0 4 None] s(3,4) by (fastforce simp: MAX_CLNT_def dest: spec [of _ "[]"] spec [of _ "[5]"])
  have "map_option (\<lambda>s. (corrupt s, handlers s, members s)) (run step both_leave start)
      = Some (False, [H_close 4, H_remove 5], [4])" by code_simp
  then obtain u where u: "run step both_leave start = Some u" "\<not> corrupt u" "handlers u = [H_close 4, H_remove 5]" "members u = [4]"
    by auto
  obtain u' where u': "step (Handler 1 None) u = Some u'" "members u' = []"
    using chat_leave [OF u(1,2), of 1 5 None] u(3,4) by auto
  show ?thesis using s s' u u' by auto
qed

text \<open>Two clients that are accepted before the first handler has run: both handlers serve the second socket.\<close>

lemma chat_socket_race:
  "map_option handlers (run step [Main 4 True, Main 0 True, Main 0 True, Main 0 True, Main 5 True, Main 0 True, Main 0 True,
     Handler 0 None, Handler 1 None] start) = Some [H_read 5, H_read 5]"
  by code_simp

text \<open>The client sends every line it reads with its name in front, up to the line that ends it.\<close>

lemma client_send_lines:
  assumes "\<forall>l \<in> set ls. NUL \<notin> set l \<and> l \<noteq> [] \<and> line_of MSG_SIZE l = l \<and> length l < MSG_SIZE \<and> \<not> is_quit l"
    and "length name < NAME_SIZE" and "length msg = MSG_SIZE"
    and "answers w = concat (map (\<lambda>l. [Ans 0 0 l [], Ans 0 0 [] []]) ls) @ [Ans 0 0 (''q'' @ [NL]) [], Ans 0 0 [] []]"
  shows "case client_send_msg sock name msg w of (r, w') \<Rightarrow>
    r = Exit 0 \<and> sent sock (trace w') = sent sock (trace w) @ concat (map (\<lambda>l. name @ '' '' @ l) ls)"
  using assms(1,3,4)
proof (induction ls arbitrary: msg w)
  case Nil
  have "line_of MSG_SIZE (''q'' @ [NL]) = ''q'' @ [NL]" "length (''q'' @ [NL]) < MSG_SIZE" by (simp_all add: line_of_def MSG_SIZE_def)
  moreover have "cstr (CHR ''q'' # NL # NUL # d) = [CHR ''q'', NL]" for d by (simp add: cstr_def)
  ultimately show ?case using Nil unfolding client_send_msg_def
    by (subst loop.simps) (simp add: client_send_body_def prog_defs syscall_def buf_copy_def is_quit_def)
next
  case (Cons l ls)
  let ?b = "l @ NUL # drop (length l + 1) msg"
  let ?w = "w\<lparr>answers := concat (map (\<lambda>l. [Ans 0 0 l [], Ans 0 0 [] []]) ls) @ [Ans 0 0 (''q'' @ [NL]) [], Ans 0 0 [] []],
      trace := trace w @ [Sys ''fgets'' [0, int MSG_SIZE] l 1, Write sock (name @ '' '' @ l) 0]\<rparr>"
  have l: "NUL \<notin> set l" "l \<noteq> []" "line_of MSG_SIZE l = l" "length l < MSG_SIZE" "\<not> is_quit l" using Cons.prems(1) by auto
  have del: "deliver msg (l @ [NUL]) c = c ?b" for c using l(4) Cons.prems(2) by (simp add: deliver_def buf_copy_def)
  have "client_send_msg sock name msg w = client_send_msg sock name ?b ?w"
    unfolding client_send_msg_def using l Cons.prems(3) assms(2)
    by (subst loop.simps) (simp add: client_send_body_def fgets_def fgets_buf_def syscall_def del with_cstr_def sprintf_def sys_write_def log_def)
  with Cons.IH [of ?b ?w] l Cons.prems show ?case by simp
qed

end
