(* ===== verification/Mq_Notify.thy ===== *)
theory Mq_Notify
  imports Ipc_Tools Transition "HOL-Library.Multiset"
begin

text \<open>
  \<^verbatim>\<open>src/ipc/src/pxmsg/mqnotifysig1.c\<close> to \<^verbatim>\<open>mqnotifysig5.c\<close> and \<^verbatim>\<open>mqnotifythread.c\<close>: a process asks to be told when a
  message arrives in an empty queue, by \<open>SIGUSR1\<close> or by a new thread. A registration serves for one notification, so
  the process has to register again, and a message that arrives in a queue that is not empty notifies nobody.
\<close>

section \<open>The queue and the process\<close>

text \<open>
  A message is its size and its priority. The positions of the reader are those of the loop; their first argument is \<open>i\<close>.
  \<open>R_print i n prio\<close> follows a successful \<open>mq_receive\<close>, \<open>R_blocked\<close> is a blocking \<open>mq_receive\<close> that waits. \<open>R_undef\<close> is the
  use of freed memory.
\<close>

type_synonym msg = "nat \<times> nat"

datatype reader_pc =
    R_for nat | R_test nat | R_wait nat | R_clear nat | R_notify nat | R_receive nat | R_blocked nat
  | R_print nat nat nat | R_unblock nat | R_end | R_exit | R_undef

datatype line = Bytes nat | Bytes_prio nat nat | Failed string

text \<open>
  \<open>pending\<close>: \<open>SIGUSR1\<close> has been sent and not yet been delivered. \<open>pipe\<close>: the number of bytes in the pipe of \<^verbatim>\<open>mqnotifysig5.c\<close>.
  \<open>sent\<close>, \<open>taken\<close> and \<open>others\<close> are not in the code: they list the messages sent, those that the process received and
  those that other processes received.
\<close>

record mq =
  queue :: "msg list"
  registered :: bool
  pending :: bool
  mqflag :: bool
  pipe :: nat
  freed :: bool
  pc :: reader_pc
  lines :: "line list"
  sent :: "msg list"
  taken :: "msg list"
  others :: "msg list"

text \<open>The state in which the loop starts: \<open>r\<close> tells whether the first \<open>mq_notify\<close> succeeded.\<close>

definition start :: "bool \<Rightarrow> msg list \<Rightarrow> mq" where
  "start r q = \<lparr>queue = q, registered = r, pending = False, mqflag = False, pipe = 0, freed = False, pc = R_for 0, lines = [],
     sent = q, taken = [], others = []\<rparr>"

text \<open>Messages of one priority are received in the order in which they were sent, higher priorities first.\<close>

fun enqueue :: "msg \<Rightarrow> msg list \<Rightarrow> msg list" where
  "enqueue m [] = [m]"
| "enqueue m (x # xs) = (if snd m \<le> snd x then x # enqueue m xs else m # x # xs)"

text \<open>A sender. A receiver that waits gets the message and nobody is notified.\<close>

definition mq_send :: "msg \<Rightarrow> mq \<Rightarrow> mq" where
  "mq_send m s = (case pc s of
     R_blocked i \<Rightarrow> s\<lparr>sent := sent s @ [m], taken := taken s @ [m], pc := R_print i (fst m) (snd m)\<rparr>
   | _ \<Rightarrow> if queue s = [] \<and> registered s
          then s\<lparr>sent := sent s @ [m], queue := [m], registered := False, pending := True\<rparr>
          else s\<lparr>sent := sent s @ [m], queue := enqueue m (queue s)\<rparr>)"

definition other_receive :: "mq \<Rightarrow> mq option" where
  "other_receive s = (case queue s of [] \<Rightarrow> None | m # q \<Rightarrow> Some (s\<lparr>queue := q, others := others s @ [m]\<rparr>))"

text \<open>
  \<open>mq_notify\<close> fails when a process, also the caller, is registered already; \<open>ok\<close> is \<open>False\<close> when it fails for another
  reason. The continuations are the two outcomes.
\<close>

definition mq_notify :: "bool \<Rightarrow> (mq \<Rightarrow> mq) \<Rightarrow> (mq \<Rightarrow> mq) \<Rightarrow> mq \<Rightarrow> mq option" where
  "mq_notify ok yes no s = Some (if ok \<and> \<not> registered s then yes (s\<lparr>registered := True\<rparr>) else no s)"

text \<open>\<open>got m\<close> follows when a message was received, \<open>none\<close> when the queue is empty, \<open>err\<close> when the call fails otherwise.\<close>

definition mq_receive_from :: "bool \<Rightarrow> (msg \<Rightarrow> mq \<Rightarrow> mq) \<Rightarrow> (mq \<Rightarrow> mq) \<Rightarrow> (mq \<Rightarrow> mq) \<Rightarrow> mq \<Rightarrow> mq option" where
  "mq_receive_from ok got none err s = Some (if \<not> ok then err s else case queue s of [] \<Rightarrow> none s
     | m # q \<Rightarrow> got m (s\<lparr>queue := q, taken := taken s @ [m]\<rparr>))"

definition goto :: "reader_pc \<Rightarrow> mq \<Rightarrow> mq" where
  "goto p s = s\<lparr>pc := p\<rparr>"

definition fail :: "string \<Rightarrow> reader_pc \<Rightarrow> mq \<Rightarrow> mq" where
  "fail msg p s = s\<lparr>lines := lines s @ [Failed msg], pc := p\<rparr>"

definition show_line :: "(nat \<Rightarrow> nat \<Rightarrow> line) \<Rightarrow> nat \<Rightarrow> nat \<Rightarrow> reader_pc \<Rightarrow> mq \<Rightarrow> mq" where
  "show_line l n prio p s = s\<lparr>lines := lines s @ [l n prio], pc := p\<rparr>"

section \<open>The programs\<close>

text \<open>
  \<^verbatim>\<open>mqnotifysig2.c\<close>: the handler sets \<open>mqflag\<close>. \<open>SIGUSR1\<close> is blocked from \<open>R_test\<close> to \<open>R_unblock\<close> and \<open>sigsuspend\<close>, in
  \<open>R_wait\<close>, lets it in; it returns after the handler. One message is received for every notification.
\<close>

definition sig2 :: "bool \<Rightarrow> mq \<Rightarrow> mq option" where
  "sig2 ok s = (case pc s of
     R_for i \<Rightarrow> Some (goto (if i < 3 then R_test i else R_end) s)
   | R_test i \<Rightarrow> Some (goto (if mqflag s then R_clear i else R_wait i) s)
   | R_clear i \<Rightarrow> Some (goto (R_notify i) (s\<lparr>mqflag := False\<rparr>))
   | R_notify i \<Rightarrow> mq_notify ok (goto (R_receive i)) (fail ''mq_notify() error'' R_exit) s
   | R_receive i \<Rightarrow> mq_receive_from ok (\<lambda>m. goto (R_print i (fst m) (snd m))) (goto (R_blocked i)) (fail ''mq_receive() error'' R_exit) s
   | R_blocked i \<Rightarrow> if ok then None else Some (fail ''mq_receive() error'' R_exit s)
   | R_print i n prio \<Rightarrow> Some (show_line (\<lambda>n _. Bytes n) n prio (R_unblock i) s)
   | R_unblock i \<Rightarrow> Some (goto (R_for (i + 1)) s)
   | _ \<Rightarrow> None)"

text \<open>\<^verbatim>\<open>mqnotifysig3.c\<close>: the queue does not block and is read until it is empty. The result of \<open>mq_notify\<close> is ignored.\<close>

definition sig3 :: "bool \<Rightarrow> mq \<Rightarrow> mq option" where
  "sig3 ok s = (case pc s of
     R_for i \<Rightarrow> Some (goto (if i < 3 then R_test i else R_end) s)
   | R_test i \<Rightarrow> Some (goto (if mqflag s then R_clear i else R_wait i) s)
   | R_clear i \<Rightarrow> Some (goto (R_notify i) (s\<lparr>mqflag := False\<rparr>))
   | R_notify i \<Rightarrow> mq_notify ok (goto (R_receive i)) (goto (R_receive i)) s
   | R_receive i \<Rightarrow> mq_receive_from ok (\<lambda>m. goto (R_print i (fst m) (snd m))) (goto (R_unblock i)) (fail ''mq_receive error'' R_exit) s
   | R_print i n prio \<Rightarrow> Some (show_line (\<lambda>n _. Bytes n) n prio (R_receive i) s)
   | R_unblock i \<Rightarrow> Some (goto (R_for (i + 1)) s)
   | _ \<Rightarrow> None)"

text \<open>\<open>sig_usr1\<close> of both, where the signal is not blocked.\<close>

definition sig_usr1_flag :: "mq \<Rightarrow> mq option" where
  "sig_usr1_flag s = (if \<not> pending s then None else case pc s of
     R_for i \<Rightarrow> Some (s\<lparr>pending := False, mqflag := True\<rparr>)
   | R_wait i \<Rightarrow> Some (s\<lparr>pending := False, mqflag := True, pc := R_test i\<rparr>)
   | _ \<Rightarrow> None)"

text \<open>\<^verbatim>\<open>mqnotifysig4.c\<close>: the signal is always blocked and \<open>sigwait\<close>, in \<open>R_wait\<close>, takes it.\<close>

definition sig4 :: "bool \<Rightarrow> mq \<Rightarrow> mq option" where
  "sig4 ok s = (case pc s of
     R_for i \<Rightarrow> Some (goto (if i < 3 then R_wait i else R_end) s)
   | R_wait i \<Rightarrow> if pending s then Some (goto (R_notify i) (s\<lparr>pending := False\<rparr>)) else None
   | R_notify i \<Rightarrow> mq_notify ok (goto (R_receive i)) (fail ''mq_notify error'' R_exit) s
   | R_receive i \<Rightarrow> mq_receive_from ok (\<lambda>m. goto (R_print i (fst m) (snd m))) (goto (R_for (i + 1))) (fail ''mq_receive error'' R_exit) s
   | R_print i n prio \<Rightarrow> Some (show_line (\<lambda>n _. Bytes n) n prio (R_receive i) s)
   | _ \<Rightarrow> None)"

text \<open>
  \<^verbatim>\<open>mqnotifysig5.c\<close>: the handler writes a byte into a pipe, and \<open>select\<close>, in \<open>R_wait\<close>, waits for it. A signal that arrives during
  \<open>select\<close> makes it fail with \<open>EINTR\<close> and leaves the bit of the pipe in \<open>rdset\<close>, so that the program reads the byte in
  either case. \<open>n = mq_receive(...) >= 0\<close> stores the result of the comparison. \<open>error_handler\<close> of this program does not end it, so that after
  \<open>free(buf)\<close> the loop goes on with the freed buffer.
\<close>

definition sig5 :: "bool \<Rightarrow> mq \<Rightarrow> mq option" where
  "sig5 ok s = (case pc s of
     R_for i \<Rightarrow> Some (goto (if i < 3 then R_wait i else if freed s then R_undef else R_end) s)
   | R_wait i \<Rightarrow> if 0 < pipe s then Some (goto (R_clear i) s) else None
   | R_clear i \<Rightarrow> if 0 < pipe s then Some (goto (R_notify i) (s\<lparr>pipe := pipe s - 1\<rparr>)) else None
   | R_notify i \<Rightarrow> mq_notify ok (goto (R_receive i)) (goto (R_receive i)) s
   | R_receive i \<Rightarrow> if freed s then Some (goto R_undef s) else
       mq_receive_from ok (\<lambda>m. goto (R_print i (of_bool (0 \<le> int (fst m))) (snd m))) (goto (R_for (i + 1)))
         (\<lambda>s. fail ''mq_receive error'' (R_for (i + 1)) (s\<lparr>freed := True\<rparr>)) s
   | R_print i n prio \<Rightarrow> Some (show_line Bytes_prio n prio (R_receive i) s)
   | _ \<Rightarrow> None)"

definition sig_usr1_pipe :: "mq \<Rightarrow> mq option" where
  "sig_usr1_pipe s = (if \<not> pending s then None
     else Some (s\<lparr>pending := False, pipe := pipe s + 1, pc := (case pc s of R_wait i \<Rightarrow> R_clear i | p \<Rightarrow> p)\<rparr>))"

text \<open>
  The actions: a message is sent, another process receives one, the signal is delivered, the process takes a step in which its system
  call, if any, succeeds or fails. Nothing is said about the time after the process has ended.
\<close>

datatype act = Send nat nat | Other | Deliver | Main bool

definition ended :: "mq \<Rightarrow> bool" where
  "ended s \<longleftrightarrow> pc s = R_end \<or> pc s = R_exit \<or> pc s = R_undef"

definition step :: "(bool \<Rightarrow> mq \<Rightarrow> mq option) \<Rightarrow> (mq \<Rightarrow> mq option) \<Rightarrow> act \<Rightarrow> mq \<Rightarrow> mq option" where
  "step main handler a s = (if ended s then None else case a of
     Send n prio \<Rightarrow> Some (mq_send (n, prio) s) | Other \<Rightarrow> other_receive s | Deliver \<Rightarrow> handler s | Main ok \<Rightarrow> main ok s)"

text \<open>The actions of the process and of the kernel on its behalf, without failing calls.\<close>

definition own_acts :: "act set" where
  "own_acts = {Deliver, Main True}"


section \<open>Readers that drain the queue\<close>

text \<open>
  A registration turns into a pending signal, the signal into what the handler leaves behind, and that into the way to the next
  call of \<open>mq_notify\<close>: there is always exactly one of these. \<open>held\<close> counts the last two, from the position, \<open>mqflag\<close> and the pipe.
\<close>

type_synonym 'a view = "reader_pc \<Rightarrow> bool \<Rightarrow> nat \<Rightarrow> 'a"

definition tokens :: "nat view \<Rightarrow> mq \<Rightarrow> nat" where
  "tokens held s = of_bool (registered s) + of_bool (pending s) + held (pc s) (mqflag s) (pipe s)"

fun draining :: "reader_pc \<Rightarrow> bool" where
  "draining (R_receive _) = True" | "draining (R_print _ _ _) = True" | "draining _ = False"

fun due :: "(nat \<Rightarrow> nat \<Rightarrow> line) \<Rightarrow> reader_pc \<Rightarrow> line list" where
  "due l (R_print _ n prio) = [l n prio]" | "due l _ = []"

fun in_loop :: "reader_pc \<Rightarrow> bool" where
  "in_loop (R_for i) = (i \<le> 3)" | "in_loop (R_test i) = (i < 3)" | "in_loop (R_wait i) = (i < 3)" | "in_loop (R_clear i) = (i < 3)"
| "in_loop (R_notify i) = (i < 3)" | "in_loop (R_receive i) = (i < 3)" | "in_loop (R_print i _ _) = (i < 3)"
| "in_loop (R_unblock i) = (i < 3)" | "in_loop R_end = True" | "in_loop (R_blocked _) = False" | "in_loop R_exit = False"
| "in_loop R_undef = False"

text \<open>\<open>used\<close> are the positions the program has and what holds there, \<open>l\<close> is what is printed from the result of \<open>mq_receive\<close>, \<open>sh\<close> the line that belongs to a message.\<close>

definition wake_inv :: "bool view \<Rightarrow> nat view \<Rightarrow> (nat \<Rightarrow> nat \<Rightarrow> line) \<Rightarrow> (msg \<Rightarrow> line) \<Rightarrow> mq \<Rightarrow> bool" where
  "wake_inv used held l sh s \<longleftrightarrow> used (pc s) (mqflag s) (pipe s) \<and> in_loop (pc s) \<and> \<not> freed s \<and> tokens held s = 1 \<and>
     (registered s \<longrightarrow> queue s = [] \<or> draining (pc s)) \<and>
     mset (sent s) = mset (taken s) + mset (others s) + mset (queue s) \<and>
     lines s @ due l (pc s) = map sh (taken s)"

fun pc_rank :: "reader_pc \<Rightarrow> nat" where
  "pc_rank (R_for i) = 10 * (3 - i) + 9" | "pc_rank (R_test i) = 10 * (3 - i) + 8" | "pc_rank (R_wait i) = 10 * (3 - i) + 7"
| "pc_rank (R_clear i) = 10 * (3 - i) + 6" | "pc_rank (R_notify i) = 10 * (3 - i) + 5" | "pc_rank (R_receive i) = 10 * (3 - i) + 3"
| "pc_rank (R_print i _ _) = 10 * (3 - i) + 4" | "pc_rank (R_unblock i) = 10 * (3 - i) + 2" | "pc_rank _ = 0"

definition mq_rank :: "mq \<Rightarrow> nat" where
  "mq_rank s = pc_rank (pc s) + 3 * of_bool (pending s) + 2 * length (queue s)"

text \<open>The process has ended, or waits, registered, at an empty queue.\<close>

definition at_rest :: "mq \<Rightarrow> bool" where
  "at_rest s \<longleftrightarrow> pc s = R_end \<or> (\<exists>i. pc s = R_wait i) \<and> registered s \<and> queue s = []"

definition act_cost :: "act \<Rightarrow> nat" where
  "act_cost a = (case a of Send _ _ \<Rightarrow> 6 | _ \<Rightarrow> 0)"

lemma mset_enqueue [simp]: "mset (enqueue m q) = add_mset m (mset q)"
  by (induction m q rule: enqueue.induct) auto

lemma length_enqueue [simp]: "length (enqueue m q) = Suc (length q)"
  by (induction m q rule: enqueue.induct) auto

lemma enqueue_not_Nil [simp]: "enqueue m q \<noteq> []"
  by (metis length_enqueue list.size(3) nat.simps(3))

lemma sorted_enqueue: "sorted (rev (map snd q)) \<Longrightarrow> sorted (rev (map snd (enqueue m q)))"
proof (induction m q rule: enqueue.induct)
  case (2 m x xs)
  have "set (enqueue m xs) = insert m (set xs)" by (metis mset_enqueue set_mset_add_mset_insert set_mset_mset)
  with 2 show ?case by (auto simp: sorted_append)
qed simp

text \<open>
  The contract of a reader: its steps and its handler keep the account and lower the rank, and it can move unless it is at
  rest. A sender or another receiver keeps the account of every reader.
\<close>

locale draining_reader =
  fixes main :: "bool \<Rightarrow> mq \<Rightarrow> mq option" and handler :: "mq \<Rightarrow> mq option"
    and used :: "bool view" and held :: "nat view" and l :: "nat \<Rightarrow> nat \<Rightarrow> line" and sh :: "msg \<Rightarrow> line"
  assumes used_start: "used (R_for 0) False 0" and held_start: "held (R_for 0) False 0 = 0"
    and main_inv: "wake_inv used held l sh s \<Longrightarrow> main True s = Some s' \<Longrightarrow> wake_inv used held l sh s' \<and> mq_rank s' < mq_rank s"
    and handler_inv: "wake_inv used held l sh s \<Longrightarrow> handler s = Some s' \<Longrightarrow> wake_inv used held l sh s' \<and> mq_rank s' < mq_rank s"
    and awake: "wake_inv used held l sh s \<Longrightarrow> \<not> at_rest s \<Longrightarrow> main True s \<noteq> None \<or> handler s \<noteq> None"
begin

lemma send_inv:
  assumes i: "wake_inv used held l sh s"
  shows "wake_inv used held l sh (mq_send m s) \<and> mq_rank (mq_send m s) < mq_rank s + 6"
proof -
  have "mq_send m s = (if queue s = [] \<and> registered s
      then s\<lparr>sent := sent s @ [m], queue := [m], registered := False, pending := True\<rparr>
      else s\<lparr>sent := sent s @ [m], queue := enqueue m (queue s)\<rparr>)"
    using i by (auto simp: wake_inv_def mq_send_def split: reader_pc.splits)
  with i show ?thesis by (cases "registered s") (auto simp: wake_inv_def tokens_def mq_rank_def)
qed

lemma other_inv:
  assumes i: "wake_inv used held l sh s" and o: "other_receive s = Some s'"
  shows "wake_inv used held l sh s' \<and> mq_rank s' < mq_rank s"
  using o i by (cases "queue s") (auto simp: other_receive_def wake_inv_def tokens_def mq_rank_def)

end

definition succeeds :: "act \<Rightarrow> bool" where
  "succeeds a \<longleftrightarrow> a \<noteq> Main False"

sublocale draining_reader \<subseteq>
  funded_system "only succeeds (step main handler)" "start True []" "wake_inv used held l sh" mq_rank at_rest own_acts act_cost
proof
  show "wake_inv used held l sh (start True [])"
    using used_start held_start by (simp add: wake_inv_def start_def tokens_def)
next
  fix s s' a
  assume i: "wake_inv used held l sh s" and s: "only succeeds (step main handler) a s = Some s'"
  have "wake_inv used held l sh s' \<and> mq_rank s' < mq_rank s + act_cost a"
  proof (cases a)
    case (Send n prio)
    then show ?thesis using s send_inv [OF i] by (auto simp: only_def step_def act_cost_def split: if_splits)
  next
    case Other
    then show ?thesis using s other_inv [OF i] by (auto simp: only_def step_def act_cost_def split: if_splits)
  next
    case Deliver
    then show ?thesis using s handler_inv [OF i] by (auto simp: only_def step_def act_cost_def split: if_splits)
  next
    case (Main ok)
    then show ?thesis using s main_inv [OF i] by (cases ok) (auto simp: only_def step_def act_cost_def succeeds_def split: if_splits)
  qed
  then show "wake_inv used held l sh s'" "mq_rank s' < mq_rank s + act_cost a" by simp_all
next
  fix a assume "a \<in> own_acts"
  then show "act_cost a = 0" by (auto simp: own_acts_def act_cost_def)
next
  fix s assume i: "wake_inv used held l sh s" and n: "\<not> at_rest s"
  have e: "\<not> ended s" using i n by (auto simp: wake_inv_def at_rest_def ended_def)
  from awake [OF i n] show "\<exists>a\<in>own_acts. \<exists>s'. only succeeds (step main handler) a s = Some s'"
    using e by (auto simp: own_acts_def only_def step_def succeeds_def)
qed

context draining_reader begin

lemma reads_all:
  assumes r: "run (step main handler) as (start True []) = Some s" and ok: "Main False \<notin> set as"
    and st: "stuck own_acts (step main handler) s"
  shows "at_rest s \<and> lines s = map sh (taken s) \<and> mset (sent s) = mset (taken s) + mset (others s) + mset (queue s)"
proof -
  have r': "run (only succeeds (step main handler)) as (start True []) = Some s"
    using r ok by (subst run_only) (auto simp: succeeds_def)
  have st': "stuck own_acts (only succeeds (step main handler)) s"
    using st by (subst stuck_only) (auto simp: own_acts_def succeeds_def)
  from stuck_ended [OF r' st'] run_inv [OF r'] show ?thesis by (auto simp: at_rest_def wake_inv_def)
qed

lemma wakes_up:
  assumes r: "run (step main handler) as (start True []) = Some s" and ok: "Main False \<notin> set as"
  shows "\<exists>us s'. set us \<subseteq> own_acts \<and> run (step main handler) (as @ us) (start True []) = Some s' \<and> at_rest s'"
proof -
  have r': "run (only succeeds (step main handler)) as (start True []) = Some s"
    using r ok by (subst run_only) (auto simp: succeeds_def)
  from can_complete [OF this] obtain us s' where u: "set us \<subseteq> own_acts" "at_rest s'"
      "run (only succeeds (step main handler)) (as @ us) (start True []) = Some s'" by auto
  from u(1,2) run_onlyD [OF u(3)] show ?thesis by blast
qed

lemma run_length:
  assumes r: "run (step main handler) as (start True []) = Some s" and ok: "Main False \<notin> set as"
  shows "length as \<le> 39 + sum_list (map act_cost as)"
proof -
  have r': "run (only succeeds (step main handler)) as (start True []) = Some s"
    using r ok by (subst run_only) (auto simp: succeeds_def)
  from run_paid [OF r'] show ?thesis by (simp add: mq_rank_def start_def)
qed

end

section \<open>The three readers\<close>

fun to_notify :: "reader_pc \<Rightarrow> nat" where
  "to_notify (R_notify _) = 1" | "to_notify _ = 0"

named_theorems mq_defs \<open>definitions of the steps of the readers\<close>

lemmas [mq_defs] = goto_def fail_def show_line_def mq_notify_def mq_receive_from_def

fun flag_held :: "nat view" where
  "flag_held (R_notify _) f n = of_bool f + 1" | "flag_held _ f n = of_bool f"

fun wait_held :: "nat view" where
  "wait_held (R_notify _) f n = 1" | "wait_held _ f n = 0"

fun pipe_held :: "nat view" where
  "pipe_held (R_notify _) f n = n + 1" | "pipe_held _ f n = n"

fun flag_used :: "bool view" where
  "flag_used (R_clear _) f n = f" | "flag_used (R_wait _) f n = (\<not> f)" | "flag_used _ f n = True"

fun wait_used :: "bool view" where
  "wait_used (R_test _) f n = False" | "wait_used (R_unblock _) f n = False" | "wait_used (R_clear _) f n = False" | "wait_used _ f n = True"

fun pipe_used :: "bool view" where
  "pipe_used (R_test _) f n = False" | "pipe_used (R_unblock _) f n = False" | "pipe_used (R_clear _) f n = (0 < n)"
| "pipe_used (R_print _ m _) f n = (m = 1)" | "pipe_used _ f n = True"

abbreviation size_line :: "nat \<Rightarrow> nat \<Rightarrow> line" where
  "size_line n prio \<equiv> Bytes n"

abbreviation msg_line :: "msg \<Rightarrow> line" where
  "msg_line m \<equiv> Bytes (fst m)"

abbreviation one_line :: "msg \<Rightarrow> line" where
  "one_line m \<equiv> Bytes_prio 1 (snd m)"

lemma of_bool_Suc_0 [simp]: "(of_bool P :: nat) = Suc 0 \<longleftrightarrow> P"
  by (cases P) simp_all

lemmas wake_defs = wake_inv_def tokens_def mq_rank_def

lemma sig3_step:
  assumes i: "wake_inv flag_used flag_held size_line msg_line s" and m: "sig3 True s = Some s'"
  shows "wake_inv flag_used flag_held size_line msg_line s' \<and> mq_rank s' < mq_rank s"
proof (cases "pc s")
  case (R_for k) then show ?thesis using i m by (auto simp: sig3_def mq_defs wake_defs)
next
  case (R_test k) then show ?thesis using i m by (auto simp: sig3_def mq_defs wake_defs)
next
  case (R_clear k) then show ?thesis using i m by (auto simp: sig3_def mq_defs wake_defs)
next
  case (R_notify k) then show ?thesis using i m by (auto simp: sig3_def mq_defs wake_defs)
next
  case (R_receive k) then show ?thesis using i m by (cases "queue s") (auto simp: sig3_def mq_defs wake_defs)
next
  case (R_print k n p) then show ?thesis using i m by (auto simp: sig3_def mq_defs wake_defs)
next
  case (R_unblock k) then show ?thesis using i m by (auto simp: sig3_def mq_defs wake_defs)
qed (use i m in \<open>simp_all add: sig3_def wake_inv_def\<close>)

lemma sig_usr1_flag_step:
  assumes i: "wake_inv flag_used flag_held size_line msg_line s" and m: "sig_usr1_flag s = Some s'"
  shows "wake_inv flag_used flag_held size_line msg_line s' \<and> mq_rank s' < mq_rank s"
  using i m by (cases "pc s") (auto simp: sig_usr1_flag_def wake_defs split: if_splits)

lemma wake_pc: "wake_inv used held l sh s \<Longrightarrow> used (pc s) (mqflag s) (pipe s) \<and> in_loop (pc s)"
  by (simp add: wake_inv_def)

lemma sig3_awake:
  assumes i: "wake_inv flag_used flag_held size_line msg_line s" and n: "\<not> at_rest s"
  shows "sig3 True s \<noteq> None \<or> sig_usr1_flag s \<noteq> None"
proof (cases "pc s")
  case (R_wait k)
  then have "pending s \<or> registered s \<and> queue s = []" using i by (auto simp: wake_inv_def tokens_def)
  then show ?thesis using R_wait n by (auto simp: sig_usr1_flag_def at_rest_def)
next
  case R_end
  then show ?thesis using n by (simp add: at_rest_def)
qed (use wake_pc [OF i] in \<open>simp_all add: sig3_def mq_defs\<close>)

interpretation sig3: draining_reader sig3 sig_usr1_flag flag_used flag_held size_line msg_line
proof
  show "\<And>s s'. wake_inv flag_used flag_held size_line msg_line s \<Longrightarrow> sig3 True s = Some s' \<Longrightarrow>
      wake_inv flag_used flag_held size_line msg_line s' \<and> mq_rank s' < mq_rank s" by (rule sig3_step)
  show "\<And>s s'. wake_inv flag_used flag_held size_line msg_line s \<Longrightarrow> sig_usr1_flag s = Some s' \<Longrightarrow>
      wake_inv flag_used flag_held size_line msg_line s' \<and> mq_rank s' < mq_rank s" by (rule sig_usr1_flag_step)
  show "\<And>s. wake_inv flag_used flag_held size_line msg_line s \<Longrightarrow> \<not> at_rest s \<Longrightarrow> sig3 True s \<noteq> None \<or> sig_usr1_flag s \<noteq> None"
    by (rule sig3_awake)
qed simp_all

lemma sig4_step:
  assumes i: "wake_inv wait_used wait_held size_line msg_line s" and m: "sig4 True s = Some s'"
  shows "wake_inv wait_used wait_held size_line msg_line s' \<and> mq_rank s' < mq_rank s"
proof (cases "pc s")
  case (R_for k) then show ?thesis using i m by (auto simp: sig4_def mq_defs wake_defs)
next
  case (R_wait k) then show ?thesis using i m by (auto simp: sig4_def mq_defs wake_defs split: if_splits)
next
  case (R_notify k) then show ?thesis using i m by (auto simp: sig4_def mq_defs wake_defs)
next
  case (R_receive k) then show ?thesis using i m by (cases "queue s") (auto simp: sig4_def mq_defs wake_defs)
next
  case (R_print k n p) then show ?thesis using i m by (auto simp: sig4_def mq_defs wake_defs)
qed (use i m in \<open>simp_all add: sig4_def wake_inv_def\<close>)

lemma sig4_awake:
  assumes i: "wake_inv wait_used wait_held size_line msg_line s" and n: "\<not> at_rest s"
  shows "sig4 True s \<noteq> None"
  using i n by (cases "pc s") (auto simp: sig4_def mq_defs wake_inv_def tokens_def at_rest_def)

interpretation sig4: draining_reader sig4 "\<lambda>_. None" wait_used wait_held size_line msg_line
  by unfold_locales (use sig4_step sig4_awake in \<open>simp_all\<close>)

lemma sig5_step:
  assumes i: "wake_inv pipe_used pipe_held Bytes_prio one_line s" and m: "sig5 True s = Some s'"
  shows "wake_inv pipe_used pipe_held Bytes_prio one_line s' \<and> mq_rank s' < mq_rank s"
proof (cases "pc s")
  case (R_for k) then show ?thesis using i m by (auto simp: sig5_def mq_defs wake_defs)
next
  case (R_wait k) then show ?thesis using i m by (auto simp: sig5_def mq_defs wake_defs split: if_splits)
next
  case (R_clear k) then show ?thesis using i m by (auto simp: sig5_def mq_defs wake_defs split: if_splits)
next
  case (R_notify k) then show ?thesis using i m by (auto simp: sig5_def mq_defs wake_defs)
next
  case (R_receive k) then show ?thesis using i m by (cases "queue s") (auto simp: sig5_def mq_defs wake_defs)
next
  case (R_print k n p) then show ?thesis using i m by (auto simp: sig5_def mq_defs wake_defs)
qed (use i m in \<open>simp_all add: sig5_def wake_inv_def\<close>)

lemma sig_usr1_pipe_step:
  assumes i: "wake_inv pipe_used pipe_held Bytes_prio one_line s" and m: "sig_usr1_pipe s = Some s'"
  shows "wake_inv pipe_used pipe_held Bytes_prio one_line s' \<and> mq_rank s' < mq_rank s"
  using i m by (cases "pc s") (auto simp: sig_usr1_pipe_def wake_defs split: if_splits)

lemma sig5_awake:
  assumes i: "wake_inv pipe_used pipe_held Bytes_prio one_line s" and n: "\<not> at_rest s"
  shows "sig5 True s \<noteq> None \<or> sig_usr1_pipe s \<noteq> None"
proof (cases "pc s")
  case (R_wait k)
  then have "pending s \<or> 0 < pipe s \<or> registered s \<and> queue s = []" using i by (auto simp: wake_inv_def tokens_def)
  then show ?thesis using R_wait n by (auto simp: sig5_def sig_usr1_pipe_def at_rest_def)
next
  case R_end
  then show ?thesis using n by (simp add: at_rest_def)
next
  case (R_clear k)
  then show ?thesis using wake_pc [OF i] by (simp add: sig5_def)
qed (use wake_pc [OF i] in \<open>simp_all add: sig5_def mq_defs\<close>)

interpretation sig5: draining_reader sig5 sig_usr1_pipe pipe_used pipe_held Bytes_prio one_line
proof
  show "\<And>s s'. wake_inv pipe_used pipe_held Bytes_prio one_line s \<Longrightarrow> sig5 True s = Some s' \<Longrightarrow>
      wake_inv pipe_used pipe_held Bytes_prio one_line s' \<and> mq_rank s' < mq_rank s" by (rule sig5_step)
  show "\<And>s s'. wake_inv pipe_used pipe_held Bytes_prio one_line s \<Longrightarrow> sig_usr1_pipe s = Some s' \<Longrightarrow>
      wake_inv pipe_used pipe_held Bytes_prio one_line s' \<and> mq_rank s' < mq_rank s" by (rule sig_usr1_pipe_step)
  show "\<And>s. wake_inv pipe_used pipe_held Bytes_prio one_line s \<Longrightarrow> \<not> at_rest s \<Longrightarrow> sig5 True s \<noteq> None \<or> sig_usr1_pipe s \<noteq> None"
    by (rule sig5_awake)
qed simp_all

section \<open>Properties of the readers\<close>

definition final_account :: "(msg \<Rightarrow> line) \<Rightarrow> mq \<Rightarrow> bool" where
  "final_account sh s \<longleftrightarrow> (pc s = R_end \<or> (\<exists>i. pc s = R_wait i) \<and> registered s \<and> queue s = []) \<and> lines s = map sh (taken s) \<and>
     mset (sent s) = mset (taken s) + mset (others s) + mset (queue s)"

text \<open>
  C14. \<^verbatim>\<open>mqnotifysig3.c\<close>, started on an empty queue: whatever messages arrive at whatever moments, also between the reading of
  the queue and the next \<open>sigsuspend\<close>, when the process cannot go on it has ended, after three notifications, or waits
  registered with no message in the queue; it has printed the sizes of the messages it received, in order, and every message sent
  was received once, by it or by another process, or is still in the queue.
\<close>

theorem sig3_reads_all:
  assumes "run (step sig3 sig_usr1_flag) as (start True []) = Some s" and "Main False \<notin> set as"
    and "stuck own_acts (step sig3 sig_usr1_flag) s"
  shows "final_account (\<lambda>m. Bytes (fst m)) s"
  using sig3.reads_all [OF assms] by (simp add: final_account_def at_rest_def)

text \<open>The same of \<^verbatim>\<open>mqnotifysig4.c\<close>, which waits with \<open>sigwait\<close>.\<close>

theorem sig4_reads_all:
  assumes "run (step sig4 (\<lambda>_. None)) as (start True []) = Some s" and "Main False \<notin> set as"
    and "stuck own_acts (step sig4 (\<lambda>_. None)) s"
  shows "final_account (\<lambda>m. Bytes (fst m)) s"
  using sig4.reads_all [OF assms] by (simp add: final_account_def at_rest_def)

text \<open>
  C38. The same of \<^verbatim>\<open>mqnotifysig5.c\<close>, which waits with \<open>select\<close> on a pipe, except that every message is reported
  with the size 1: the comparison binds tighter than the assignment.
\<close>

theorem sig5_reads_all:
  assumes "run (step sig5 sig_usr1_pipe) as (start True []) = Some s" and "Main False \<notin> set as"
    and "stuck own_acts (step sig5 sig_usr1_pipe) s"
  shows "final_account (\<lambda>m. Bytes_prio 1 (snd m)) s"
  using sig5.reads_all [OF assms] by (simp add: final_account_def at_rest_def)

text \<open>
  A wakeup is never lost: wherever \<^verbatim>\<open>mqnotifysig3.c\<close> is, the process and the signals that are under way take it to the end or
  to an empty queue at which it is registered.
\<close>

theorem sig3_wakes_up:
  assumes "run (step sig3 sig_usr1_flag) as (start True []) = Some s" and "Main False \<notin> set as"
  shows "\<exists>us s'. set us \<subseteq> own_acts \<and> run (step sig3 sig_usr1_flag) (as @ us) (start True []) = Some s' \<and>
     (pc s' = R_end \<or> (\<exists>i. pc s' = R_wait i) \<and> registered s' \<and> queue s' = [])"
  using sig3.wakes_up [OF assms] by (simp add: at_rest_def)

definition two_messages :: "act list" where
  "two_messages = [Main True, Main True, Send 5 0, Deliver, Main True, Main True, Send 6 1, Main True, Main True, Main True, Main True,
     Main True, Main True, Main True, Main True, Main True]"

theorem sig3_reads_all_witness:
  "\<exists>s. run (step sig3 sig_usr1_flag) two_messages (start True []) = Some s \<and> final_account (\<lambda>m. Bytes (fst m)) s \<and> lines s = [Bytes 6, Bytes 5]"
proof -
  obtain s where s: "run (step sig3 sig_usr1_flag) two_messages (start True []) = Some s" "stuck own_acts (step sig3 sig_usr1_flag) s"
      "lines s = [Bytes 6, Bytes 5]"
    by (simp add: two_messages_def step_def ended_def start_def sig3_def mq_defs mq_send_def sig_usr1_flag_def stuck_def own_acts_def)
  moreover have "final_account (\<lambda>m. Bytes (fst m)) s"
    by (rule sig3_reads_all [OF s(1) _ s(2)]) (simp add: two_messages_def)
  ultimately show ?thesis by blast
qed

theorem sig4_reads_all_witness:
  "\<exists>s. run (step sig4 (\<lambda>_. None)) [Send 5 0, Main True, Main True, Main True, Main True, Main True, Main True, Main True] (start True []) = Some s \<and>
     final_account (\<lambda>m. Bytes (fst m)) s \<and> lines s = [Bytes 5]"
proof -
  let ?as = "[Send 5 0, Main True, Main True, Main True, Main True, Main True, Main True, Main True]"
  obtain s where s: "run (step sig4 (\<lambda>_. None)) ?as (start True []) = Some s" "stuck own_acts (step sig4 (\<lambda>_. None)) s" "lines s = [Bytes 5]"
    by (simp add: step_def ended_def start_def sig4_def mq_defs mq_send_def stuck_def own_acts_def)
  moreover have "final_account (\<lambda>m. Bytes (fst m)) s" by (rule sig4_reads_all [OF s(1) _ s(2)]) simp
  ultimately show ?thesis by blast
qed

theorem sig5_reads_all_witness:
  "\<exists>s. run (step sig5 sig_usr1_pipe) [Main True, Send 5 7, Deliver, Main True, Main True, Main True, Main True, Main True, Main True] (start True []) = Some s \<and>
     final_account (\<lambda>m. Bytes_prio 1 (snd m)) s \<and> lines s = [Bytes_prio 1 7]"
proof -
  let ?as = "[Main True, Send 5 7, Deliver, Main True, Main True, Main True, Main True, Main True, Main True]"
  obtain s where s: "run (step sig5 sig_usr1_pipe) ?as (start True []) = Some s" "stuck own_acts (step sig5 sig_usr1_pipe) s" "lines s = [Bytes_prio 1 7]"
    by (simp add: step_def ended_def start_def sig5_def sig_usr1_pipe_def mq_defs mq_send_def stuck_def own_acts_def)
  moreover have "final_account (\<lambda>m. Bytes_prio 1 (snd m)) s" by (rule sig5_reads_all [OF s(1) _ s(2)]) simp
  ultimately show ?thesis by blast
qed

theorem sig3_wakes_up_witness:
  "\<exists>us s'. set us \<subseteq> own_acts \<and> run (step sig3 sig_usr1_flag) ([Send 5 0] @ us) (start True []) = Some s' \<and>
     (pc s' = R_end \<or> (\<exists>i. pc s' = R_wait i) \<and> registered s' \<and> queue s' = [])"
  by (rule sig3_wakes_up [where s = "mq_send (5, 0) (start True [])"]) (simp_all add: step_def ended_def start_def)

section \<open>One message for every notification\<close>

definition sig2_inv :: "mq \<Rightarrow> bool" where
  "sig2_inv s \<longleftrightarrow> flag_used (pc s) (mqflag s) (pipe s) \<and> tokens flag_held s \<le> 1"

lemma sig2_main_inv: "sig2_inv s \<Longrightarrow> sig2 ok s = Some s' \<Longrightarrow> sig2_inv s'"
  by (cases "pc s") (auto simp: sig2_inv_def sig2_def mq_defs tokens_def split: list.splits if_splits)

lemma sig2_send_inv: "sig2_inv s \<Longrightarrow> sig2_inv (mq_send m s)"
  by (cases "pc s") (auto simp: sig2_inv_def mq_send_def tokens_def)

interpretation sig2: invariant_system "step sig2 sig_usr1_flag" "start True []" sig2_inv
proof
  show "sig2_inv (start True [])" by (simp add: sig2_inv_def start_def tokens_def)
next
  fix s a s' assume i: "sig2_inv s" and s: "step sig2 sig_usr1_flag a s = Some s'"
  show "sig2_inv s'"
  proof (cases a)
    case (Send n p) then show ?thesis using s sig2_send_inv [OF i] by (auto simp: step_def split: if_splits)
  next
    case Other then show ?thesis using s i
      by (auto simp: step_def other_receive_def sig2_inv_def tokens_def split: if_splits list.splits)
  next
    case Deliver then show ?thesis using s i
      by (cases "pc s") (auto simp: step_def sig_usr1_flag_def sig2_inv_def tokens_def split: if_splits)
  next
    case (Main ok) then show ?thesis using s sig2_main_inv [OF i] by (auto simp: step_def split: if_splits)
  qed
qed

definition deaf :: "nat \<Rightarrow> mq \<Rightarrow> bool" where
  "deaf i s \<longleftrightarrow> pc s = R_wait i \<and> registered s \<and> \<not> pending s \<and> queue s \<noteq> []"

lemma sig2_deaf_step:
  assumes d: "deaf i s" and a: "a \<noteq> Other" and s: "step sig2 sig_usr1_flag a s = Some s'"
  shows "deaf i s' \<and> taken s' = taken s \<and> lines s' = lines s"
  using s a d by (cases a) (auto simp: deaf_def step_def ended_def mq_send_def sig2_def sig_usr1_flag_def)

lemma sig2_deaf_run:
  assumes "deaf i s" and "Other \<notin> set bs" and "run (step sig2 sig_usr1_flag) bs s = Some t"
  shows "deaf i t \<and> taken t = taken s \<and> lines t = lines s"
  using assms
proof (induction bs arbitrary: s)
  case (Cons b bs)
  then obtain u where u: "step sig2 sig_usr1_flag b s = Some u" "run (step sig2 sig_usr1_flag) bs u = Some t"
    by (auto split: option.splits)
  from sig2_deaf_step [OF Cons.prems(1) _ u(1)] Cons.prems(2) have "deaf i u \<and> taken u = taken s \<and> lines u = lines s" by auto
  with Cons.IH [OF _ _ u(2)] Cons.prems(2) show ?case by auto
qed simp

text \<open>Notifications that have been delivered and whose message has not been received.\<close>

definition unread :: "mq \<Rightarrow> nat" where
  "unread s = of_bool (mqflag s) + (case pc s of R_notify _ \<Rightarrow> 1 | R_receive _ \<Rightarrow> 1 | R_blocked _ \<Rightarrow> 1 | _ \<Rightarrow> 0)"

definition counted :: "nat \<Rightarrow> mq \<Rightarrow> bool" where
  "counted d s \<longleftrightarrow> length (taken s) + unread s \<le> d \<and> (pc s \<noteq> R_exit \<longrightarrow> length (taken s) + unread s = d)"

lemma sig2_counted_step:
  assumes i: "sig2_inv s" and c: "counted d s" and s: "step sig2 sig_usr1_flag a s = Some s'"
  shows "counted (d + of_bool (a = Deliver)) s'"
proof (cases a)
  case (Send n p)
  then show ?thesis using s c by (cases "pc s") (auto simp: step_def mq_send_def counted_def unread_def split: if_splits)
next
  case Other
  then show ?thesis using s c by (auto simp: step_def other_receive_def counted_def unread_def split: if_splits list.splits)
next
  case Deliver
  have "\<not> mqflag s" if "pending s" "(\<exists>i. pc s = R_for i) \<or> (\<exists>i. pc s = R_wait i)"
    using i that by (auto simp: sig2_inv_def tokens_def split: if_splits)
  then show ?thesis using s c Deliver
    by (cases "pc s") (auto simp: step_def sig_usr1_flag_def counted_def unread_def split: if_splits)
next
  case (Main ok)
  have "\<And>k. pc s = R_clear k \<Longrightarrow> mqflag s" "\<And>k. pc s = R_notify k \<Longrightarrow> \<not> mqflag s"
    using i by (auto simp: sig2_inv_def tokens_def)
  then show ?thesis using s c Main
    by (cases "pc s") (auto simp: step_def sig2_def mq_defs counted_def unread_def split: if_splits list.splits)
qed

lemma sig2_counted:
  assumes "run (step sig2 sig_usr1_flag) as (start True []) = Some s"
  shows "counted (length (filter ((=) Deliver) as)) s"
  using assms
proof (induction as arbitrary: s rule: rev_induct)
  case Nil
  then show ?case by (auto simp: start_def counted_def unread_def)
next
  case (snoc a as)
  then obtain u where u: "run (step sig2 sig_usr1_flag) as (start True []) = Some u" "step sig2 sig_usr1_flag a u = Some s"
    by (auto simp: run_snoc)
  from sig2_counted_step [OF sig2.run_inv [OF u(1)] snoc.IH [OF u(1)] u(2)] show ?case by auto
qed

text \<open>
  C19. \<^verbatim>\<open>mqnotifysig2.c\<close> receives one message for every notification: never more than there were notifications, and as many
  when it waits. When it waits, registered, while messages are left in the queue, no
  message that arrives later wakes it: as long as no other process receives from the queue, it stays where it is, receives and prints nothing more.
\<close>

theorem sig2_deaf:
  assumes "run (step sig2 sig_usr1_flag) as (start True []) = Some s"
  shows "length (taken s) \<le> length (filter ((=) Deliver) as) \<and>
    (pc s = R_wait i \<longrightarrow> length (taken s) = length (filter ((=) Deliver) as)) \<and>
    (pc s = R_wait i \<and> registered s \<and> queue s \<noteq> [] \<and> run (step sig2 sig_usr1_flag) bs s = Some t \<and> Other \<notin> set bs \<longrightarrow>
       pc t = R_wait i \<and> taken t = taken s \<and> lines t = lines s)"
proof (intro conjI impI)
  have c: "counted (length (filter ((=) Deliver) as)) s" by (rule sig2_counted [OF assms])
  then show "length (taken s) \<le> length (filter ((=) Deliver) as)" by (simp add: counted_def)
  have inv: "sig2_inv s" by (rule sig2.run_inv [OF assms])
  assume "pc s = R_wait i"
  then show "length (taken s) = length (filter ((=) Deliver) as)"
    using c inv by (simp add: counted_def unread_def sig2_inv_def)
next
  assume a: "pc s = R_wait i \<and> registered s \<and> queue s \<noteq> [] \<and> run (step sig2 sig_usr1_flag) bs s = Some t \<and> Other \<notin> set bs"
  have "\<not> pending s" using sig2.run_inv [OF assms] a by (auto simp: sig2_inv_def tokens_def)
  then have "deaf i s" using a by (simp add: deaf_def)
  from sig2_deaf_run [OF this] a show "pc t = R_wait i" "taken t = taken s" "lines t = lines s" by (auto simp: deaf_def)
qed

definition burst :: "act list" where
  "burst = [Send 5 0, Send 6 0, Deliver, Main True, Main True, Main True, Main True, Main True, Main True, Main True, Main True, Main True]"

theorem sig2_deaf_witness:
  "\<exists>s t. run (step sig2 sig_usr1_flag) burst (start True []) = Some s \<and> run (step sig2 sig_usr1_flag) [Send 7 0, Send 8 0] s = Some t \<and>
     pc t = R_wait 1 \<and> lines t = [Bytes 5] \<and> length (queue t) = 3 \<and> length (taken s) = 1"
proof -
  obtain s t where s: "run (step sig2 sig_usr1_flag) burst (start True []) = Some s" "pc s = R_wait 1" "registered s" "queue s \<noteq> []"
      "lines s = [Bytes 5]"
    and t: "run (step sig2 sig_usr1_flag) [Send 7 0, Send 8 0] s = Some t" "length (queue t) = 3"
    by (simp add: burst_def step_def ended_def start_def sig2_def mq_defs mq_send_def sig_usr1_flag_def)
  have "length (filter ((=) Deliver) burst) = 1" "Other \<notin> set [Send 7 0, Send 8 0]" by (simp_all add: burst_def)
  with sig2_deaf [OF s(1), of 1 "[Send 7 0, Send 8 0]" t] s t show ?thesis by metis
qed

section \<open>The work in the handler\<close>

text \<open>
  \<^verbatim>\<open>mqnotifysig1.c\<close>: the handler registers again, receives and prints. The argument of its positions is where the program was
  interrupted: 0 before \<open>pause\<close>, 1 in \<open>pause\<close>, which returns after the handler, 2 after it. \<open>SIGUSR1\<close> is blocked in its own handler.
\<close>

definition sig1 :: "bool \<Rightarrow> mq \<Rightarrow> mq option" where
  "sig1 ok s = (case pc s of
     R_for i \<Rightarrow> Some (goto (if i = 0 then R_wait 1 else R_end) s)
   | R_notify i \<Rightarrow> mq_notify ok (goto (R_receive i)) (fail ''mq_notify() error'' R_exit) s
   | R_receive i \<Rightarrow> mq_receive_from ok (\<lambda>m. goto (R_print i (fst m) (snd m))) (goto (R_blocked i)) (fail ''mq_receive() error'' R_exit) s
   | R_blocked i \<Rightarrow> if ok then None else Some (fail ''mq_receive() error'' R_exit s)
   | R_print i n prio \<Rightarrow> Some (show_line (\<lambda>n _. Bytes n) n prio (R_unblock i) s)
   | R_unblock i \<Rightarrow> Some (goto (R_for (if i = 1 then 2 else i)) s)
   | _ \<Rightarrow> None)"

definition sig_usr1_work :: "mq \<Rightarrow> mq option" where
  "sig_usr1_work s = (if \<not> pending s then None else case pc s of
     R_for i \<Rightarrow> Some (s\<lparr>pending := False, pc := R_notify i\<rparr>)
   | R_wait i \<Rightarrow> Some (s\<lparr>pending := False, pc := R_notify i\<rparr>)
   | _ \<Rightarrow> None)"

text \<open>A signal that arrives just before \<open>pause\<close> is handled, and the program then waits in \<open>pause\<close> for another one.\<close>

lemma sig1_missed_signal:
  "\<exists>s. run (step sig1 sig_usr1_work) [Send 5 0, Deliver, Main True, Main True, Main True, Main True, Main True] (start True []) = Some s \<and>
     pc s = R_wait 1 \<and> lines s = [Bytes 5] \<and> stuck own_acts (step sig1 sig_usr1_work) s"
  by (simp add: step_def ended_def start_def sig1_def mq_defs mq_send_def sig_usr1_work_def stuck_def own_acts_def)

text \<open>A registration does not tell about messages that are in the queue already: none of the readers that drain the queue starts on them.\<close>

lemma start_on_messages:
  "\<exists>s. run (step sig3 sig_usr1_flag) [Main True, Main True, Send 6 0] (start True [(5, 0)]) = Some s \<and>
     pc s = R_wait 0 \<and> queue s = [(5, 0), (6, 0)] \<and> stuck own_acts (step sig3 sig_usr1_flag) s"
  by (simp add: step_def ended_def start_def sig3_def mq_defs mq_send_def sig_usr1_flag_def stuck_def own_acts_def)

text \<open>After a failure of \<open>mq_receive\<close>, \<^verbatim>\<open>mqnotifysig5.c\<close> uses or frees the buffer a second time, unless it waits for ever.\<close>

lemma sig5_use_after_free:
  "\<exists>s. run (step sig5 sig_usr1_pipe) [Send 5 0, Deliver, Main True, Main True, Main True, Main True, Main False, Send 6 0,
     Other, Other, Send 7 0, Deliver, Main True, Main True, Main True, Main True, Main True] (start True []) = Some s \<and> pc s = R_undef"
  by (simp add: step_def ended_def start_def sig5_def mq_defs mq_send_def other_receive_def sig_usr1_pipe_def)

section \<open>Before the loops\<close>

text \<open>
  The calls before the loops; \<open>k\<close> is the loop. Where the result of \<open>mq_getattr\<close> is not checked, \<open>attr\<close> has no value after a
  failure. \<open>k\<close> is told whether the registration succeeded where the program goes on without it, as in \<open>start\<close>. \<open>SIGUSR1\<close> is 10.
\<close>

definition SIGUSR1 :: int where "SIGUSR1 = 10"

definition getattr_checked :: "(int \<Rightarrow> string) \<Rightarrow> int \<Rightarrow> string \<Rightarrow> (mq_attr \<Rightarrow> prog) \<Rightarrow> prog" where
  "getattr_checked se mqd msg k = syscall (\<lambda>a. Sys ''mq_getattr'' [mqd] (data a) (max (- 1) (ret a)))
     (\<lambda>a. if max (- 1) (ret a) = - 1 then complain se (errno a) msg else k (attr_of (data a)))"

definition getattr_unchecked :: "int \<Rightarrow> (mq_attr \<Rightarrow> prog) \<Rightarrow> prog" where
  "getattr_unchecked mqd k = mq_getattr mqd (\<lambda>r attr. if r = - 1 then undef else k attr)"

text \<open>\<^verbatim>\<open>mqnotifysig1.c\<close> and \<^verbatim>\<open>mqnotifysig2.c\<close>.\<close>

definition sig1_setup :: "(int \<Rightarrow> string) \<Rightarrow> string list \<Rightarrow> prog \<Rightarrow> prog" where
  "sig1_setup se argv k = (if length argv \<noteq> 2 then printf (''usage: '' @ argv ! 0 @ '' <mqname>'' @ [NL]) (exit 1) else
     checked se ''mq_open'' [0] (argv ! 1) ''mq_open() error'' (\<lambda>mqd.
     getattr_checked se mqd ''mq_getattr() error'' (\<lambda>attr.
     checked se ''malloc'' [mq_msgsize attr] [] ''malloc() error'' (\<lambda>_.
     call0 ''signal'' [SIGUSR1] [] (
     checked se ''mq_notify'' [mqd, SIGUSR1] [] ''mq_notify() error'' (\<lambda>_. k))))))"

definition sig2_setup :: "(int \<Rightarrow> string) \<Rightarrow> string list \<Rightarrow> prog \<Rightarrow> prog" where
  "sig2_setup = sig1_setup"

definition sig3_setup :: "(int \<Rightarrow> string) \<Rightarrow> string list \<Rightarrow> (bool \<Rightarrow> prog) \<Rightarrow> prog" where
  "sig3_setup se argv k = (if length argv \<noteq> 2 then printf (''usage: '' @ argv ! 0 @ '' <mqname>'' @ [NL]) (exit 1) else
     checked se ''mq_open'' [O_NONBLOCK] (argv ! 1) ''mq_open() error'' (\<lambda>mqd.
     getattr_unchecked mqd (\<lambda>attr.
     checked se ''malloc'' [mq_msgsize attr] [] ''malloc() error'' (\<lambda>_.
     call0 ''signal'' [SIGUSR1] [] (
     call ''mq_notify'' [mqd, SIGUSR1] [] (\<lambda>r. k (r \<noteq> - 1)))))))"

definition sig4_setup :: "(int \<Rightarrow> string) \<Rightarrow> string list \<Rightarrow> prog \<Rightarrow> prog" where
  "sig4_setup se argv k = (if length argv \<noteq> 2 then printf (''usage: '' @ argv ! 0 @ '' <mqname>'' @ [NL]) (exit 1) else
     checked se ''mq_open'' [O_NONBLOCK] (argv ! 1) ''mq_open error'' (\<lambda>mqd.
     getattr_unchecked mqd (\<lambda>attr.
     checked se ''malloc'' [mq_msgsize attr] [] ''malloc error'' (\<lambda>_.
     call0 ''sigprocmask'' [0, SIGUSR1] [] (
     checked se ''mq_notify'' [mqd, SIGUSR1] [] ''mq_notify error'' (\<lambda>_. k))))))"

text \<open>
  \<^verbatim>\<open>mqnotifysig5.c\<close>: \<open>error_handler\<close> prints, without a newline, and returns. \<open>grumble\<close> is a call checked by it. The loop
  \<open>k piped buf r f\<close> is told whether the pipe was made, the buffer allocated, the process registered, the buffer freed; \<open>start r q\<close> is the loop
  \<open>k True True r False\<close>.
\<close>

definition grumble :: "(int \<Rightarrow> string) \<Rightarrow> string \<Rightarrow> int list \<Rightarrow> string \<Rightarrow> string \<Rightarrow> string \<Rightarrow> (int \<Rightarrow> prog) \<Rightarrow> prog" where
  "grumble se name args bs msg nl k = syscall (\<lambda>a. Sys name args bs (max (- 1) (ret a)))
     (\<lambda>a. if max (- 1) (ret a) = - 1 then printf (msg @ '', '' @ se (errno a) @ nl) (k (- 1)) else k (max (- 1) (ret a)))"

definition sig5_setup :: "(int \<Rightarrow> string) \<Rightarrow> string list \<Rightarrow> (bool \<Rightarrow> bool \<Rightarrow> bool \<Rightarrow> bool \<Rightarrow> prog) \<Rightarrow> prog" where
  "sig5_setup se argv k = (if length argv \<noteq> 2 then printf (''usage: '' @ argv ! 0 @ '' <mqname>'' @ [NL]) (exit 1) else
     grumble se ''mq_open'' [O_NONBLOCK] (argv ! 1) ''mq_open error'' [] (\<lambda>mqd.
     getattr_unchecked mqd (\<lambda>attr.
     grumble se ''pipe'' [] [] ''pipe error'' [] (\<lambda>p.
     grumble se ''malloc'' [mq_msgsize attr] [] ''malloc error'' [] (\<lambda>buf.
     call0 ''signal'' [SIGUSR1] [] (
     grumble se ''mq_notify'' [mqd, SIGUSR1] [] ''mq_notify error'' [] (\<lambda>r. k (p \<noteq> - 1) (buf \<noteq> - 1) (r \<noteq> - 1) (r = - 1))))))))"

end
