(* ===== verification/Mq_Thread.thy ===== *)
theory Mq_Thread
  imports Mq_Notify
begin

text \<open>
  \<^verbatim>\<open>src/ipc/src/pxmsg/mqnotifythread.c\<close>: the notification starts a thread that registers again and reads the queue until it is
  empty. The main thread waits in \<open>pause\<close>, which no notification ends.
\<close>

section \<open>Model\<close>

text \<open>The buffer of a thread is allocated. \<open>T_undef\<close> is the second \<open>free(buf)\<close> after a failure of \<open>mq_receive\<close>.\<close>

datatype thread_pc = T_start | T_notify | T_receive | T_print nat nat | T_free | T_end | T_undef

text \<open>
  The kernel's part of the state is the one of the other programs; \<open>pending\<close> is a notification whose thread has not been
  created yet. \<open>started\<close> counts the lines \<open>notify_thread started\<close>. The threads are \<open>0, ..., n - 1\<close>.
\<close>

record tq =
  kernel :: mq
  n :: nat
  tpc :: "nat \<Rightarrow> thread_pc"
  started :: nat

definition tstart :: tq where
  "tstart = \<lparr>kernel = start True [], n = 0, tpc = (\<lambda>_. T_end), started = 0\<rparr>"

definition notify_thread :: "nat \<Rightarrow> bool \<Rightarrow> tq \<Rightarrow> tq option" where
  "notify_thread t ok s = (let k = kernel s; at = (\<lambda>p k. s\<lparr>kernel := k, tpc := (tpc s)(t := p)\<rparr>) in case tpc s t of
     T_start \<Rightarrow> Some ((at T_notify k)\<lparr>started := started s + 1\<rparr>)
   | T_notify \<Rightarrow> map_option (at T_receive) (mq_notify ok (\<lambda>k. k) (\<lambda>k. k) k)
   | T_receive \<Rightarrow> if \<not> ok then Some (at T_undef (k\<lparr>lines := lines k @ [Failed ''mq_receive error'']\<rparr>)) else
       (case queue k of [] \<Rightarrow> Some (at T_free k)
        | m # q \<Rightarrow> Some (at (T_print (fst m) (snd m)) (k\<lparr>queue := q, taken := taken k @ [m]\<rparr>)))
   | T_print len prio \<Rightarrow> Some (at T_receive (k\<lparr>lines := lines k @ [Bytes_prio len prio]\<rparr>))
   | T_free \<Rightarrow> Some (at T_end k)
   | T_end \<Rightarrow> None
   | T_undef \<Rightarrow> None)"

definition spawn :: "tq \<Rightarrow> tq option" where
  "spawn s = (if pending (kernel s)
     then Some (s\<lparr>kernel := (kernel s)\<lparr>pending := False\<rparr>, n := n s + 1, tpc := (tpc s)(n s := T_start)\<rparr>) else None)"

datatype tact = TSend nat nat | TOther | Spawn | Thread nat bool

definition tstep :: "tact \<Rightarrow> tq \<Rightarrow> tq option" where
  "tstep a s = (case a of
     TSend len prio \<Rightarrow> Some (s\<lparr>kernel := mq_send (len, prio) (kernel s)\<rparr>)
   | TOther \<Rightarrow> map_option (\<lambda>k. s\<lparr>kernel := k\<rparr>) (other_receive (kernel s))
   | Spawn \<Rightarrow> spawn s
   | Thread t ok \<Rightarrow> if t < n s then notify_thread t ok s else None)"

definition thread_acts :: "tact set" where
  "thread_acts = {Spawn} \<union> {Thread t True | t. True}"

definition thread_succeeds :: "tact \<Rightarrow> bool" where
  "thread_succeeds a = (case a of Thread t ok \<Rightarrow> ok | _ \<Rightarrow> True)"

section \<open>Invariant and rank\<close>

fun t_before :: "thread_pc \<Rightarrow> int" where
  "t_before T_start = 1" | "t_before T_notify = 1" | "t_before _ = 0"

fun t_drain :: "thread_pc \<Rightarrow> int" where
  "t_drain T_receive = 1" | "t_drain (T_print _ _) = 1" | "t_drain _ = 0"

fun t_due :: "thread_pc \<Rightarrow> int" where
  "t_due (T_print _ _) = 1" | "t_due _ = 0"

fun t_rank :: "thread_pc \<Rightarrow> int" where
  "t_rank T_start = 6" | "t_rank T_notify = 5" | "t_rank T_receive = 3" | "t_rank (T_print _ _) = 4" | "t_rank T_free = 1"
| "t_rank _ = 0"

fun t_bad :: "thread_pc \<Rightarrow> int" where
  "t_bad T_undef = 1" | "t_bad _ = 0"

lemma t_nonneg: "0 \<le> t_before p" "0 \<le> t_drain p" "0 \<le> t_due p" "0 \<le> t_rank p" "0 \<le> t_bad p"
  by (cases p; simp)+

definition thread_inv :: "tq \<Rightarrow> bool" where
  "thread_inv s \<longleftrightarrow> (\<exists>i. pc (kernel s) = R_for i) \<and>
     of_bool (registered (kernel s)) + of_bool (pending (kernel s)) + tot t_before (tpc s) (n s) = 1 \<and>
     (registered (kernel s) \<longrightarrow> queue (kernel s) = [] \<or> 0 < tot t_drain (tpc s) (n s)) \<and> tot t_bad (tpc s) (n s) = 0 \<and>
     mset (sent (kernel s)) = mset (taken (kernel s)) + mset (others (kernel s)) + mset (queue (kernel s)) \<and>
     int (length (taken (kernel s))) = int (length (lines (kernel s))) + tot t_due (tpc s) (n s)"

definition thread_rank :: "tq \<Rightarrow> nat" where
  "thread_rank s = nat (tot t_rank (tpc s) (n s)) + 8 * of_bool (pending (kernel s)) + 2 * length (queue (kernel s))"

definition quiet :: "tq \<Rightarrow> bool" where
  "quiet s \<longleftrightarrow> (\<forall>t<n s. tpc s t = T_end) \<and> registered (kernel s) \<and> queue (kernel s) = []"

definition thread_cost :: "tact \<Rightarrow> nat" where
  "thread_cost a = (case a of TSend _ _ \<Rightarrow> 11 | _ \<Rightarrow> 0)"

lemma mt_Suc [simp]: "tot w (f(m := p)) (Suc m) = tot w f m + w p"
  by (simp add: tot_def)

lemma mt_send:
  assumes "thread_inv s"
  shows "thread_inv (s\<lparr>kernel := mq_send m (kernel s)\<rparr>) \<and>
     thread_rank (s\<lparr>kernel := mq_send m (kernel s)\<rparr>) < thread_rank s + 11"
proof -
  obtain i where "pc (kernel s) = R_for i" using assms by (auto simp: thread_inv_def)
  then have e: "mq_send m (kernel s) = (if queue (kernel s) = [] \<and> registered (kernel s)
      then (kernel s)\<lparr>sent := sent (kernel s) @ [m], queue := [m], registered := False, pending := True\<rparr>
      else (kernel s)\<lparr>sent := sent (kernel s) @ [m], queue := enqueue m (queue (kernel s))\<rparr>)"
    by (simp add: mq_send_def)
  show ?thesis
  proof (cases "queue (kernel s) = [] \<and> registered (kernel s)")
    case True
    then have "mq_send m (kernel s) = (kernel s)\<lparr>sent := sent (kernel s) @ [m], queue := [m], registered := False, pending := True\<rparr>"
      using e by simp
    then show ?thesis using assms True tot_nonneg [of t_before "tpc s" "n s", OF t_nonneg(1)]
      by (cases "pending (kernel s)") (simp_all add: thread_inv_def thread_rank_def)
  next
    case False
    then have "mq_send m (kernel s) = (kernel s)\<lparr>sent := sent (kernel s) @ [m], queue := enqueue m (queue (kernel s))\<rparr>"
      using e by auto
    then show ?thesis using assms False by (cases "registered (kernel s)") (simp_all add: thread_inv_def thread_rank_def)
  qed
qed

lemma mt_other:
  assumes "thread_inv s" "other_receive (kernel s) = Some k"
  shows "thread_inv (s\<lparr>kernel := k\<rparr>) \<and> thread_rank (s\<lparr>kernel := k\<rparr>) < thread_rank s"
  using assms by (cases "queue (kernel s)") (auto simp: thread_inv_def thread_rank_def other_receive_def)

lemma mt_spawn:
  assumes "thread_inv s" "spawn s = Some s'"
  shows "thread_inv s' \<and> thread_rank s' < thread_rank s"
  using assms tot_nonneg [of t_rank "tpc s" "n s", OF t_nonneg(4)]
  by (auto simp: thread_inv_def thread_rank_def spawn_def nat_add_distrib split: if_splits)

lemma mt_threadE:
  assumes "notify_thread t ok s = Some s'"
  obtains (start) "tpc s t = T_start" "s' = s\<lparr>tpc := (tpc s)(t := T_notify), started := started s + 1\<rparr>"
  | (register) "tpc s t = T_notify" "ok" "\<not> registered (kernel s)"
      "s' = s\<lparr>kernel := (kernel s)\<lparr>registered := True\<rparr>, tpc := (tpc s)(t := T_receive)\<rparr>"
  | (busy) "tpc s t = T_notify" "\<not> ok \<or> registered (kernel s)" "s' = s\<lparr>kernel := kernel s, tpc := (tpc s)(t := T_receive)\<rparr>"
  | (failed) "tpc s t = T_receive" "\<not> ok" "s' = s\<lparr>kernel := (kernel s)\<lparr>lines := lines (kernel s) @ [Failed ''mq_receive error'']\<rparr>, tpc := (tpc s)(t := T_undef)\<rparr>"
  | (empty) "tpc s t = T_receive" "ok" "queue (kernel s) = []" "s' = s\<lparr>kernel := kernel s, tpc := (tpc s)(t := T_free)\<rparr>"
  | (got) m q where "tpc s t = T_receive" "ok" "queue (kernel s) = m # q"
      "s' = s\<lparr>kernel := (kernel s)\<lparr>queue := q, taken := taken (kernel s) @ [m]\<rparr>, tpc := (tpc s)(t := T_print (fst m) (snd m))\<rparr>"
  | (print) len prio where "tpc s t = T_print len prio"
      "s' = s\<lparr>kernel := (kernel s)\<lparr>lines := lines (kernel s) @ [Bytes_prio len prio]\<rparr>, tpc := (tpc s)(t := T_receive)\<rparr>"
  | (free) "tpc s t = T_free" "s' = s\<lparr>kernel := kernel s, tpc := (tpc s)(t := T_end)\<rparr>"
proof (cases "tpc s t")
  case T_start then show ?thesis using start assms by (simp add: notify_thread_def Let_def)
next
  case T_notify then show ?thesis using register busy assms
    by (cases "ok \<and> \<not> registered (kernel s)") (auto simp: notify_thread_def Let_def mq_notify_def)
next
  case T_receive
  show ?thesis
  proof (cases ok)
    case False then show ?thesis using T_receive failed assms by (simp add: notify_thread_def Let_def)
  next
    case True then show ?thesis using T_receive empty got assms by (cases "queue (kernel s)") (simp_all add: notify_thread_def Let_def)
  qed
next
  case (T_print len prio) then show ?thesis using print assms by (simp add: notify_thread_def Let_def)
next
  case T_free then show ?thesis using free assms by (simp add: notify_thread_def Let_def)
next
  case T_end then show ?thesis using assms by (simp add: notify_thread_def Let_def)
next
  case T_undef then show ?thesis using assms by (simp add: notify_thread_def Let_def)
qed

lemma mt_thread:
  assumes i: "thread_inv s" and t: "t < n s" and s: "notify_thread t True s = Some s'"
  shows "thread_inv s' \<and> thread_rank s' < thread_rank s"
proof -
  note w = tot_ge_one_thread [of _ t "n s" "tpc s", OF _ t]
  note b = w [of t_before, OF t_nonneg(1)] and r = w [of t_rank, OF t_nonneg(4)] and d = w [of t_drain, OF t_nonneg(2)]
  show ?thesis
    using s
  proof (cases rule: mt_threadE)
    case start then show ?thesis using i t r by (simp add: thread_inv_def thread_rank_def nat_less_eq_zless)
  next
    case register then show ?thesis using i t r b d by (simp add: thread_inv_def thread_rank_def nat_less_eq_zless)
  next
    case busy then show ?thesis using i t r b by (cases "pending (kernel s)") (simp_all add: thread_inv_def thread_rank_def nat_less_eq_zless)
  next
    case failed then show ?thesis by simp
  next
    case empty then show ?thesis using i t r by (simp add: thread_inv_def thread_rank_def nat_less_eq_zless)
  next
    case (got m q) then show ?thesis using i t r d by (simp add: thread_inv_def thread_rank_def nat_less_eq_zless)
  next
    case (print len prio) then show ?thesis using i t r d by (simp add: thread_inv_def thread_rank_def nat_less_eq_zless)
  next
    case free then show ?thesis using i t r by (simp add: thread_inv_def thread_rank_def nat_less_eq_zless)
  qed
qed

lemma mt_quiet:
  assumes i: "thread_inv s" and q: "\<not> quiet s"
  shows "\<exists>a\<in>thread_acts. \<exists>s'. only thread_succeeds tstep a s = Some s'"
proof (cases "\<forall>t<n s. tpc s t = T_end")
  case True
  then have "tot t_before (tpc s) (n s) = 0" "tot t_drain (tpc s) (n s) = 0" by (auto intro: tot_zero)
  then have "pending (kernel s)" using True i q
    by (cases "pending (kernel s)") (auto simp: thread_inv_def quiet_def)
  then have "only thread_succeeds tstep Spawn s \<noteq> None" by (simp add: only_def thread_succeeds_def tstep_def spawn_def)
  then show ?thesis by (auto simp: thread_acts_def)
next
  case False
  then obtain t where t: "t < n s" "tpc s t \<noteq> T_end" by blast
  have "t_bad (tpc s t) \<le> 0" using tot_ge_one_thread [of t_bad t "n s" "tpc s", OF t_nonneg(5) t(1)] i by (simp add: thread_inv_def)
  then have "tpc s t \<noteq> T_undef" by auto
  then have "notify_thread t True s \<noteq> None" using t(2)
    by (cases "tpc s t"; cases "queue (kernel s)") (simp_all add: notify_thread_def Let_def mq_notify_def)
  then have "only thread_succeeds tstep (Thread t True) s \<noteq> None" using t(1) by (simp add: only_def thread_succeeds_def tstep_def)
  then show ?thesis by (auto simp: thread_acts_def)
qed

interpretation notify: funded_system "only thread_succeeds tstep" tstart thread_inv thread_rank quiet thread_acts thread_cost
proof
  show "thread_inv tstart" by (simp add: thread_inv_def tstart_def start_def tot_def)
next
  fix s s' a assume i: "thread_inv s" and s: "only thread_succeeds tstep a s = Some s'"
  have "thread_inv s' \<and> thread_rank s' < thread_rank s + thread_cost a"
  proof (cases a)
    case (TSend len prio)
    then show ?thesis using s mt_send [OF i] by (auto simp: only_def tstep_def thread_cost_def thread_succeeds_def)
  next
    case TOther
    then show ?thesis using s mt_other [OF i] by (auto simp: only_def tstep_def thread_cost_def thread_succeeds_def)
  next
    case Spawn
    then show ?thesis using s mt_spawn [OF i] by (auto simp: only_def tstep_def thread_cost_def thread_succeeds_def)
  next
    case (Thread t ok)
    then show ?thesis using s mt_thread [OF i] by (auto simp: only_def tstep_def thread_cost_def thread_succeeds_def split: if_splits)
  qed
  then show "thread_inv s'" "thread_rank s' < thread_rank s + thread_cost a" by simp_all
next
  show "\<And>a. a \<in> thread_acts \<Longrightarrow> thread_cost a = 0" by (auto simp: thread_acts_def thread_cost_def)
next
  show "\<And>s. thread_inv s \<Longrightarrow> \<not> quiet s \<Longrightarrow> \<exists>a\<in>thread_acts. \<exists>s'. only thread_succeeds tstep a s = Some s'" by (rule mt_quiet)
qed

section \<open>Properties\<close>

lemma mt_only:
  assumes "run tstep as tstart = Some s" and "\<forall>t. Thread t False \<notin> set as"
  shows "run (only thread_succeeds tstep) as tstart = Some s"
proof -
  have "\<forall>a\<in>set as. thread_succeeds a"
  proof
    fix a assume a: "a \<in> set as"
    have "a \<noteq> Thread t False" for t using a assms(2) by metis
    then show "thread_succeeds a" by (cases a) (auto simp: thread_succeeds_def)
  qed
  then show ?thesis using assms(1) by (simp add: run_only)
qed

lemma mt_sent_step: "tstep a s = Some s' \<Longrightarrow> 11 * length (sent (kernel s')) = 11 * length (sent (kernel s)) + thread_cost a"
proof (cases a)
  case (Thread t ok)
  assume "tstep a s = Some s'"
  then have "notify_thread t ok s = Some s'" using Thread by (simp add: tstep_def split: if_splits)
  then show ?thesis using Thread by (cases rule: mt_threadE) (simp_all add: thread_cost_def)
qed (auto simp: tstep_def thread_cost_def mq_send_def other_receive_def spawn_def split: reader_pc.splits list.splits if_splits)

lemma mt_sent_run: "run tstep as s = Some s' \<Longrightarrow> 11 * length (sent (kernel s')) = 11 * length (sent (kernel s)) + sum_list (map thread_cost as)"
  by (induction as arbitrary: s) (auto split: option.splits dest!: mt_sent_step)

text \<open>
  C15. \<^verbatim>\<open>mqnotifythread.c\<close>: in every interleaving of senders, other receivers and any number of notification threads there are at most
  11 steps for every message sent, and when no thread can go on the queue is empty, the process is registered for the next message, and
  every message that no other process received has been received and reported once.
\<close>

theorem notify_thread_reads_all:
  assumes "run tstep as tstart = Some s" and "\<forall>t. Thread t False \<notin> set as"
  shows "length as \<le> 11 * length (sent (kernel s)) \<and> (stuck thread_acts tstep s \<longrightarrow>
      queue (kernel s) = [] \<and> registered (kernel s) \<and> mset (sent (kernel s)) = mset (taken (kernel s)) + mset (others (kernel s)) \<and>
      length (lines (kernel s)) = length (taken (kernel s)))"
proof (intro conjI impI)
  note r = mt_only [OF assms]
  have "thread_rank tstart = 0" "sent (kernel tstart) = []" by (simp_all add: thread_rank_def tstart_def start_def tot_def)
  then show "length as \<le> 11 * length (sent (kernel s))" using notify.run_paid [OF r] mt_sent_run [OF assms(1)] by simp
  assume "stuck thread_acts tstep s"
  then have "stuck thread_acts (only thread_succeeds tstep) s"
    by (subst stuck_only) (auto simp: thread_acts_def thread_succeeds_def)
  from notify.stuck_ended [OF r this] have q: "quiet s" .
  then have "tot t_due (tpc s) (n s) = 0" by (intro tot_zero) (simp add: quiet_def)
  with q notify.run_inv [OF r] show "queue (kernel s) = []" "registered (kernel s)"
      "mset (sent (kernel s)) = mset (taken (kernel s)) + mset (others (kernel s))" "length (lines (kernel s)) = length (taken (kernel s))"
    by (simp_all add: quiet_def thread_inv_def)
qed

theorem notify_thread_reads_all_witness:
  "\<exists>s. run tstep [TSend 5 1, Spawn, Thread 0 True, Thread 0 True, TSend 6 2, Thread 0 True, Thread 0 True, Thread 0 True, Thread 0 True, Thread 0 True, Thread 0 True] tstart = Some s \<and>
     lines (kernel s) = [Bytes_prio 6 2, Bytes_prio 5 1] \<and> queue (kernel s) = [] \<and> registered (kernel s)"
proof -
  let ?as = "[TSend 5 1, Spawn, Thread 0 True, Thread 0 True, TSend 6 2, Thread 0 True, Thread 0 True, Thread 0 True, Thread 0 True, Thread 0 True, Thread 0 True]"
  obtain s where s: "run tstep ?as tstart = Some s" "lines (kernel s) = [Bytes_prio 6 2, Bytes_prio 5 1]"
      "\<not> pending (kernel s)" "n s = 1" "tpc s 0 = T_end"
    by (simp add: tstep_def tstart_def start_def mq_send_def spawn_def notify_thread_def Let_def mq_notify_def)
  have "stuck thread_acts tstep s" using s(3-5)
    by (auto simp: stuck_def thread_acts_def tstep_def spawn_def notify_thread_def Let_def)
  with notify_thread_reads_all [OF s(1)] s(1,2) show ?thesis by auto
qed

text \<open>After a failure of \<open>mq_receive\<close> the thread frees its buffer twice.\<close>

lemma notify_thread_double_free: "tpc s t = T_receive \<Longrightarrow> t < n s \<Longrightarrow> \<exists>s'. tstep (Thread t False) s = Some s' \<and> tpc s' t = T_undef"
  by (simp add: tstep_def notify_thread_def Let_def)

section \<open>Before the loop\<close>

text \<open>\<open>attr\<close> is a global variable, whose members are 0 when \<open>mq_getattr\<close> fails. \<open>k r\<close> are the three calls of \<open>pause\<close>, with the registration \<open>r\<close>.\<close>

definition thread_setup :: "(int \<Rightarrow> string) \<Rightarrow> string list \<Rightarrow> (bool \<Rightarrow> int \<Rightarrow> prog) \<Rightarrow> prog" where
  "thread_setup se argv k = (if length argv \<noteq> 2 then printf (''usage: '' @ argv ! 0 @ '' <mqname>'' @ [NL]) (exit 1) else
     grumble se ''mq_open'' [O_NONBLOCK] (argv ! 1) ''mq_open error'' [NL] (\<lambda>mqd.
     mq_getattr mqd (\<lambda>r attr. let size = if r = - 1 then 0 else mq_msgsize attr in
     grumble se ''mq_notify'' [mqd] [] ''mq_notify error'' [NL] (\<lambda>r. k (r \<noteq> - 1) size))))"

end
