(* ===== verification/Rt_Signals.thy ===== *)
theory Rt_Signals
  imports Transition
begin

text \<open>
  \<^verbatim>\<open>src/ipc/src/pxmsg/rtsignal.c\<close>: a parent sends nine real-time signals to its child, which blocks them, sleeps, and lets them
  in. Real-time signals are queued: every one is delivered, the lowest signal number first, those of one number in the order in
  which they were sent.
\<close>

section \<open>Model\<close>

definition SIGRTMIN :: int where "SIGRTMIN = 34"
definition SIGRTMAX :: int where "SIGRTMAX = 64"
definition SI_QUEUE :: int where "SI_QUEUE = - 1"

text \<open>The next signal that the kernel delivers, a signal number with its value, and the queue after it.\<close>

type_synonym signal = "int \<times> int"

fun dequeue :: "signal list \<Rightarrow> (signal \<times> signal list) option" where
  "dequeue [] = None"
| "dequeue (x # xs) = (case dequeue xs of None \<Rightarrow> Some (x, xs)
     | Some (y, ys) \<Rightarrow> if fst x \<le> fst y then Some (x, xs) else Some (y, x # ys))"

datatype parent_pc = P_sleep | P_outer int | P_inner int int | P_queue int int | P_print int int | P_wait | P_end

text \<open>\<open>C_killed\<close>: a signal without a handler ends the process.\<close>

datatype child_pc = C_block | C_install int | C_sleep | C_unblock | C_sleep2 | C_end | C_killed

datatype line = Range int int | Send int int | Received int int int

text \<open>\<open>sent\<close> is not in the code: it lists the signals that were queued.\<close>

record rts =
  queued :: "signal list"
  blocked :: bool
  installed :: "int set"
  ppc :: parent_pc
  cpc :: child_pc
  lines :: "line list"
  sent :: "signal list"

text \<open>After \<open>fork\<close>, which succeeds.\<close>

definition start :: rts where
  "start = \<lparr>queued = [], blocked = False, installed = {}, ppc = P_sleep, cpc = C_block, lines = [Range SIGRTMIN SIGRTMAX], sent = []\<rparr>"

definition dead :: "rts \<Rightarrow> bool" where
  "dead s \<longleftrightarrow> cpc s = C_end \<or> cpc s = C_killed"

text \<open>
  The result of \<open>sigqueue\<close> is ignored; \<open>ok\<close> is \<open>False\<close> when it fails. A signal to a process that has ended has no effect.
\<close>

definition parent :: "bool \<Rightarrow> rts \<Rightarrow> rts option" where
  "parent ok s = (case ppc s of
     P_sleep \<Rightarrow> Some (s\<lparr>ppc := P_outer SIGRTMAX\<rparr>)
   | P_outer i \<Rightarrow> Some (s\<lparr>ppc := (if i \<ge> SIGRTMAX - 2 then P_inner i 3 else P_wait)\<rparr>)
   | P_inner i j \<Rightarrow> Some (s\<lparr>ppc := (if j > 0 then P_queue i j else P_outer (i - 1))\<rparr>)
   | P_queue i j \<Rightarrow> Some (if ok \<and> \<not> dead s then s\<lparr>queued := queued s @ [(i, j)], sent := sent s @ [(i, j)], ppc := P_print i j\<rparr>
       else s\<lparr>ppc := P_print i j\<rparr>)
   | P_print i j \<Rightarrow> Some (s\<lparr>lines := lines s @ [Send i j], ppc := P_inner i (j - 1)\<rparr>)
   | P_wait \<Rightarrow> if dead s then Some (s\<lparr>ppc := P_end\<rparr>) else None
   | P_end \<Rightarrow> None)"

text \<open>
  \<open>signal_rt\<close> installs \<open>sig_rt\<close> with the three signals in \<open>sa_mask\<close>, so that the handler is not interrupted by them and
  delivering a signal is one step. The child makes no step of its own while a signal can be delivered to it.
\<close>

definition signal_rt :: "int \<Rightarrow> rts \<Rightarrow> rts" where
  "signal_rt signo s = s\<lparr>installed := insert signo (installed s)\<rparr>"

definition sig_rt :: "int \<Rightarrow> int \<Rightarrow> int \<Rightarrow> rts \<Rightarrow> rts" where
  "sig_rt signo code val s = s\<lparr>lines := lines s @ [Received signo code val]\<rparr>"

definition child :: "rts \<Rightarrow> rts option" where
  "child s = (if \<not> blocked s \<and> queued s \<noteq> [] then None else case cpc s of
     C_block \<Rightarrow> Some (s\<lparr>blocked := True, cpc := C_install SIGRTMAX\<rparr>)
   | C_install g \<Rightarrow> Some ((signal_rt g s)\<lparr>cpc := (if g = SIGRTMAX - 2 then C_sleep else C_install (g - 1))\<rparr>)
   | C_sleep \<Rightarrow> Some (s\<lparr>cpc := C_unblock\<rparr>)
   | C_unblock \<Rightarrow> Some (s\<lparr>blocked := False, cpc := C_sleep2\<rparr>)
   | C_sleep2 \<Rightarrow> Some (s\<lparr>cpc := C_end\<rparr>)
   | C_end \<Rightarrow> None
   | C_killed \<Rightarrow> None)"

definition deliver :: "rts \<Rightarrow> rts option" where
  "deliver s = (if blocked s \<or> dead s then None else case dequeue (queued s) of None \<Rightarrow> None
     | Some (x, q) \<Rightarrow> Some (if fst x \<in> installed s then sig_rt (fst x) SI_QUEUE (snd x) (s\<lparr>queued := q\<rparr>)
         else s\<lparr>queued := q, cpc := C_killed\<rparr>))"

datatype act = Parent bool | Child | Deliver

definition step :: "act \<Rightarrow> rts \<Rightarrow> rts option" where
  "step a s = (case a of Parent ok \<Rightarrow> parent ok s | Child \<Rightarrow> child s | Deliver \<Rightarrow> deliver s)"

text \<open>
  What the sleeps are for: the parent goes on when the child sleeps, and the child when the parent waits. Nothing but the times
  ensures it.
\<close>

definition timed :: "act \<Rightarrow> rts \<Rightarrow> rts option" where
  "timed a s = (if (a = Child \<and> cpc s = C_sleep \<and> ppc s \<noteq> P_wait) \<or> (a \<in> {Parent True, Parent False} \<and> ppc s = P_sleep \<and> cpc s \<noteq> C_sleep)
     then None else step a s)"

definition received :: "rts \<Rightarrow> signal list" where
  "received s = List.map_filter (\<lambda>l. case l of Received g c v \<Rightarrow> Some (g, v) | _ \<Rightarrow> None) (lines s)"

section \<open>Queues\<close>

lemma dequeue_None [simp]: "dequeue q = None \<longleftrightarrow> q = []"
  by (cases q) (auto split: option.splits if_splits)

lemma dequeue_sorts: "dequeue q = Some (x, r) \<Longrightarrow> sort_key fst q = x # sort_key fst r"
proof (induction q arbitrary: x r)
  case (Cons a q)
  show ?case
  proof (cases "dequeue q")
    case None
    then show ?thesis using Cons.prems by simp
  next
    case (Some p)
    obtain y ys where p: "dequeue q = Some (y, ys)" using Some by (cases p) auto
    from Cons.IH [OF p] Cons.prems p show ?thesis by (auto split: if_splits)
  qed
qed simp

lemma dequeue_fifo:
  "dequeue q = Some (x, r) \<Longrightarrow> filter (\<lambda>y. fst y = g) q = (if fst x = g then [x] else []) @ filter (\<lambda>y. fst y = g) r"
proof (induction q arbitrary: x r)
  case (Cons a q)
  show ?case
  proof (cases "dequeue q")
    case None
    then show ?thesis using Cons.prems by auto
  next
    case (Some p)
    obtain y ys where p: "dequeue q = Some (y, ys)" using Some by (cases p) auto
    show ?thesis
    proof (cases "fst a \<le> fst y")
      case True then show ?thesis using Cons.prems p by auto
    next
      case False then show ?thesis using Cons.prems p Cons.IH [OF p] by auto
    qed
  qed
qed simp

lemma received_frame [simp]:
  "received (s\<lparr>queued := q\<rparr>) = received s" "received (s\<lparr>blocked := b\<rparr>) = received s" "received (s\<lparr>installed := h\<rparr>) = received s"
  "received (s\<lparr>ppc := p\<rparr>) = received s" "received (s\<lparr>cpc := c\<rparr>) = received s" "received (s\<lparr>sent := m\<rparr>) = received s"
  by (simp_all add: received_def)

lemma received_print [simp]:
  "received (s\<lparr>lines := lines s @ [Received g c v]\<rparr>) = received s @ [(g, v)]" "received (s\<lparr>lines := lines s @ [Send g v]\<rparr>) = received s"
  by (simp_all add: received_def map_filter_def)

section \<open>No signal is lost\<close>

definition fifo_inv :: "rts \<Rightarrow> bool" where
  "fifo_inv s \<longleftrightarrow> (cpc s \<noteq> C_killed \<longrightarrow>
     (\<forall>g. filter (\<lambda>x. fst x = g) (sent s) = filter (\<lambda>x. fst x = g) (received s) @ filter (\<lambda>x. fst x = g) (queued s)))"

lemma fifo_deliver:
  assumes i: "fifo_inv s" and d: "deliver s = Some s'"
  shows "fifo_inv s'"
proof (cases "dequeue (queued s)")
  case None
  then show ?thesis using d by (simp add: deliver_def split: if_splits)
next
  case (Some p)
  obtain g v q where p: "dequeue (queued s) = Some ((g, v), q)" using Some by (cases p) auto
  have l: "\<not> dead s" using d by (simp add: deliver_def split: if_splits)
  show ?thesis
  proof (cases "g \<in> installed s")
    case True
    then have s': "s' = (s\<lparr>queued := q\<rparr>)\<lparr>lines := lines (s\<lparr>queued := q\<rparr>) @ [Received g SI_QUEUE v]\<rparr>"
      using d p l by (simp add: deliver_def sig_rt_def split: if_splits)
    have "received s' = received s @ [(g, v)]" "queued s' = q" "sent s' = sent s" "cpc s' = cpc s"
      unfolding s' received_print by simp_all
    then show ?thesis using i l dequeue_fifo [OF p] by (simp add: fifo_inv_def dead_def)
  next
    case False
    then show ?thesis using d p l by (auto simp: deliver_def fifo_inv_def split: if_splits)
  qed
qed

lemma fifo_step: "fifo_inv s \<Longrightarrow> step a s = Some s' \<Longrightarrow> fifo_inv s'"
proof (cases a)
  case (Parent ok)
  assume "fifo_inv s" "step a s = Some s'"
  then show ?thesis using Parent by (cases "ppc s") (auto simp: step_def parent_def fifo_inv_def split: if_splits)
next
  case Child
  assume "fifo_inv s" "step a s = Some s'"
  then show ?thesis using Child by (cases "cpc s") (auto simp: step_def child_def signal_rt_def fifo_inv_def split: if_splits)
next
  case Deliver
  assume "fifo_inv s" "step a s = Some s'"
  then show ?thesis using Deliver fifo_deliver by (simp add: step_def)
qed

interpretation fifo: invariant_system step start fifo_inv
proof
  show "fifo_inv start" by (simp add: fifo_inv_def start_def received_def map_filter_def)
qed (rule fifo_step)

section \<open>The order when the sleeps are long enough\<close>

definition all_signals :: "signal list" where
  "all_signals = [(64, 3), (64, 2), (64, 1), (63, 3), (63, 2), (63, 1), (62, 3), (62, 2), (62, 1)]"

definition expected :: "signal list" where
  "expected = [(62, 3), (62, 2), (62, 1), (63, 3), (63, 2), (63, 1), (64, 3), (64, 2), (64, 1)]"

text \<open>What the parent has sent when it is at a position.\<close>

fun sent_at :: "parent_pc \<Rightarrow> signal list" where
  "sent_at P_sleep = []" | "sent_at (P_outer i) = [x\<leftarrow>all_signals. fst x > i]"
| "sent_at (P_inner i j) = [x\<leftarrow>all_signals. fst x > i \<or> fst x = i \<and> snd x > j]"
| "sent_at (P_queue i j) = [x\<leftarrow>all_signals. fst x > i \<or> fst x = i \<and> snd x > j]"
| "sent_at (P_print i j) = [x\<leftarrow>all_signals. fst x > i \<or> fst x = i \<and> snd x \<ge> j]"
| "sent_at P_wait = all_signals" | "sent_at P_end = all_signals"

fun in_range :: "parent_pc \<Rightarrow> bool" where
  "in_range (P_outer i) = (i \<in> {61, 62, 63, 64})"
| "in_range (P_inner i j) = (i \<in> {62, 63, 64} \<and> j \<in> {0, 1, 2, 3})"
| "in_range (P_queue i j) = (i \<in> {62, 63, 64} \<and> j \<in> {1, 2, 3})"
| "in_range (P_print i j) = (i \<in> {62, 63, 64} \<and> j \<in> {1, 2, 3})"
| "in_range _ = True"

definition timed_inv :: "rts \<Rightarrow> bool" where
  "timed_inv s \<longleftrightarrow> in_range (ppc s) \<and> (case cpc s of
     C_block \<Rightarrow> ppc s = P_sleep \<and> queued s = [] \<and> received s = [] \<and> installed s = {}
   | C_install g \<Rightarrow> ppc s = P_sleep \<and> queued s = [] \<and> received s = [] \<and> blocked s \<and> (g, installed s) \<in> {(64, {}), (63, {64}), (62, {63, 64})}
   | C_sleep \<Rightarrow> blocked s \<and> installed s = {62, 63, 64} \<and> received s = [] \<and> queued s = sent_at (ppc s)
   | C_unblock \<Rightarrow> blocked s \<and> installed s = {62, 63, 64} \<and> received s = [] \<and> queued s = all_signals \<and> ppc s = P_wait
   | C_sleep2 \<Rightarrow> \<not> blocked s \<and> installed s = {62, 63, 64} \<and> received s @ sort_key fst (queued s) = expected \<and> ppc s = P_wait
   | C_end \<Rightarrow> received s = expected \<and> queued s = [] \<and> ppc s \<in> {P_wait, P_end}
   | C_killed \<Rightarrow> False)"

lemma sort_all: "sort_key fst all_signals = expected"
  by (simp add: all_signals_def expected_def)

lemma rs_parent:
  assumes i: "timed_inv s" and p: "parent True s = Some s'" and t: "ppc s = P_sleep \<longrightarrow> cpc s = C_sleep"
  shows "timed_inv s'"
proof (cases "cpc s = C_sleep")
  case True
  then have q: "blocked s" "installed s = {62, 63, 64}" "received s = []" "queued s = sent_at (ppc s)" "in_range (ppc s)" "\<not> dead s"
    using i by (simp_all add: timed_inv_def dead_def)
  show ?thesis
  proof (cases "ppc s")
    case P_sleep
    then show ?thesis using p q True by (auto simp: parent_def timed_inv_def SIGRTMAX_def all_signals_def)
  next
    case (P_outer i)
    then show ?thesis using p q True by (auto simp: parent_def timed_inv_def SIGRTMAX_def all_signals_def)
  next
    case (P_inner i j)
    then show ?thesis using p q True by (auto simp: parent_def timed_inv_def SIGRTMAX_def all_signals_def)
  next
    case (P_queue i j)
    then show ?thesis using p q True by (auto simp: parent_def timed_inv_def SIGRTMAX_def all_signals_def)
  next
    case (P_print i j)
    then show ?thesis using p q True by (auto simp: parent_def timed_inv_def SIGRTMAX_def all_signals_def)
  next
    case P_wait
    then show ?thesis using p q by (simp add: parent_def)
  next
    case P_end
    then show ?thesis using p by (simp add: parent_def)
  qed
next
  case False
  then have "ppc s = P_wait \<or> ppc s = P_end" using i t by (auto simp: timed_inv_def split: child_pc.splits)
  then have "ppc s = P_wait" "cpc s = C_end" "s' = s\<lparr>ppc := P_end\<rparr>" using p i
    by (auto simp: parent_def dead_def timed_inv_def split: if_splits)
  then show ?thesis using i by (simp add: timed_inv_def)
qed

lemma rs_child:
  assumes i: "timed_inv s" and c: "child s = Some s'" and t: "cpc s = C_sleep \<longrightarrow> ppc s = P_wait"
  shows "timed_inv s'"
proof (cases "cpc s")
  case C_block then show ?thesis using i c by (auto simp: child_def timed_inv_def SIGRTMAX_def split: if_splits)
next
  case (C_install g) then show ?thesis using i c by (auto simp: child_def timed_inv_def SIGRTMAX_def signal_rt_def split: if_splits)
next
  case C_sleep then show ?thesis using i c t by (auto simp: child_def timed_inv_def)
next
  case C_unblock then show ?thesis using i c by (auto simp: child_def timed_inv_def sort_all split: if_splits)
next
  case C_sleep2 then show ?thesis using i c by (auto simp: child_def timed_inv_def split: if_splits)
qed (use c in \<open>simp_all add: child_def split: if_splits\<close>)

lemma rs_deliver:
  assumes i: "timed_inv s" and d: "deliver s = Some s'"
  shows "timed_inv s'"
proof -
  obtain g v q where p: "dequeue (queued s) = Some ((g, v), q)" and l: "\<not> blocked s" "\<not> dead s"
    using d by (auto simp: deliver_def split: if_splits option.splits)
  have ne: "queued s \<noteq> []" using p by auto
  have c: "cpc s = C_sleep2" using i l ne by (auto simp: timed_inv_def dead_def split: child_pc.splits)
  have e: "received s @ sort_key fst (queued s) = expected" using i c by (simp add: timed_inv_def)
  have "(g, v) \<in> set (sort_key fst (queued s))" using dequeue_sorts [OF p] by simp
  then have "(g, v) \<in> set expected" unfolding e [symmetric] by simp
  then have "g \<in> {62, 63, 64}" by (auto simp: expected_def)
  then have s': "s' = (s\<lparr>queued := q\<rparr>)\<lparr>lines := lines (s\<lparr>queued := q\<rparr>) @ [Received g SI_QUEUE v]\<rparr>"
    using d p l i c by (auto simp: deliver_def sig_rt_def timed_inv_def)
  have "received s' = received s @ [(g, v)]" "queued s' = q" unfolding s' received_print by simp_all
  moreover have "cpc s' = cpc s" "ppc s' = ppc s" "blocked s' = blocked s" "installed s' = installed s" unfolding s' by simp_all
  ultimately show ?thesis using i c dequeue_sorts [OF p] by (simp add: timed_inv_def)
qed

interpretation order: invariant_system "only (\<lambda>a. a \<noteq> Parent False) timed" start timed_inv
proof
  show "timed_inv start" by (simp add: timed_inv_def start_def received_def map_filter_def)
next
  fix s a s' assume i: "timed_inv s" and s: "only (\<lambda>a. a \<noteq> Parent False) timed a s = Some s'"
  show "timed_inv s'"
  proof (cases a)
    case (Parent ok)
    then show ?thesis using s rs_parent [OF i] by (cases ok) (auto simp: only_def timed_def step_def split: if_splits)
  next
    case Child
    then show ?thesis using s rs_child [OF i] by (auto simp: only_def timed_def step_def split: if_splits)
  next
    case Deliver
    then show ?thesis using s rs_deliver [OF i] by (auto simp: only_def timed_def step_def split: if_splits)
  qed
qed

section \<open>Properties\<close>

text \<open>
  Whatever the timing: as long as no signal has ended the child, the values received with a signal number followed by those
  still queued are the values sent with it, in order; no real-time signal is lost or merged with another one.
\<close>

theorem rtsignal_fifo:
  assumes "run step as start = Some s" and "cpc s \<noteq> C_killed"
  shows "filter (\<lambda>x. fst x = g) (sent s) = filter (\<lambda>x. fst x = g) (received s) @ filter (\<lambda>x. fst x = g) (queued s)"
  using fifo.run_inv [OF assms(1)] assms(2) by (simp add: fifo_inv_def)

theorem rtsignal_fifo_witness:
  "\<exists>s. run step (replicate 4 Child @ replicate 9 (Parent True) @ replicate 2 Child @ [Deliver]) start = Some s \<and>
     received s = [(64, 3)] \<and> filter (\<lambda>x. fst x = 64) (sent s) = (64, 3) # filter (\<lambda>x. fst x = 64) (queued s)"
proof -
  let ?as = "replicate 4 Child @ replicate 9 (Parent True) @ replicate 2 Child @ [Deliver]"
  obtain s where s: "run step ?as start = Some s" "cpc s \<noteq> C_killed" "received s = [(64, 3)]"
    by (simp add: eval_nat_numeral step_def child_def parent_def deliver_def dead_def signal_rt_def sig_rt_def
      start_def SIGRTMAX_def received_def map_filter_def)
  with rtsignal_fifo [OF s(1,2), of 64] show ?thesis by auto
qed

text \<open>
  C16. When the sleeps are long enough and every \<open>sigqueue\<close> succeeds, the child has at its end received all nine signals, the lowest number first
  although it was sent last, and the values 3, 2, 1 of each.
\<close>

theorem rtsignal_order:
  assumes "run timed as start = Some s" and "Parent False \<notin> set as" and "cpc s = C_end"
  shows "received s = [(62, 3), (62, 2), (62, 1), (63, 3), (63, 2), (63, 1), (64, 3), (64, 2), (64, 1)]"
proof -
  have "run (only (\<lambda>a. a \<noteq> Parent False) timed) as start = Some s" using assms(1,2) by (subst run_only) auto
  from order.run_inv [OF this] assms(3) show ?thesis by (simp add: timed_inv_def expected_def)
qed

definition schedule :: "act list" where
  "schedule = replicate 4 Child @ replicate 35 (Parent True) @ replicate 2 Child @ replicate 9 Deliver @ [Child]"

theorem rtsignal_order_witness:
  "\<exists>s. run timed schedule start = Some s \<and> received s = [(62, 3), (62, 2), (62, 1), (63, 3), (63, 2), (63, 1), (64, 3), (64, 2), (64, 1)]"
proof -
  obtain s where s: "run timed schedule start = Some s" "cpc s = C_end"
    by (simp add: schedule_def eval_nat_numeral timed_def step_def child_def parent_def deliver_def dead_def signal_rt_def sig_rt_def
      start_def SIGRTMAX_def)
  have "Parent False \<notin> set schedule" by (simp add: schedule_def)
  from rtsignal_order [OF s(1) this s(2)] s(1) show ?thesis by blast
qed

text \<open>A parent that is too fast ends the child before it has blocked the signals.\<close>

lemma rtsignal_killed:
  "\<exists>s. run step ([Parent True, Parent True, Parent True, Parent True, Deliver]) start = Some s \<and> cpc s = C_killed"
  by (simp add: step_def parent_def deliver_def dead_def start_def SIGRTMAX_def)

end
