(* ===== verification/Rwlock_Cancel.thy ===== *)
theory Rwlock_Cancel
  imports Transition
begin

text \<open>
  \<^verbatim>\<open>src/ipc/src/rwlock/pthread_cancel.c\<close>: \<open>thread1\<close> holds a read lock, \<open>thread2\<close> waits for the write lock and is cancelled by
  \<open>thread1\<close>. Cancellation is asynchronous: the request takes effect at any later moment and releases nothing.
\<close>

section \<open>Model\<close>

datatype main_pc = M_create1 | M_sleep | M_create2 | M_join2 | M_join1 | M_destroy | M_end | M_failed

datatype thread1_pc = A_none | A_rdlock | A_print | A_sleep | A_cancel | A_print2 | A_sleep2 | A_unlock | A_ret

datatype thread2_pc = B_none | B_print | B_settype | B_wrlock | B_got | B_sleep | B_unlock | B_ret | B_cancelled

datatype line = Thread1_got_read | Thread2_cancelled | Thread2_trying | Thread2_got_write | Thread2_status | Failed string

text \<open>\<open>wild\<close>: \<open>pthread_cancel\<close> was given an identifier that was not set yet, or that had been joined.\<close>

record cw =
  readers :: nat
  writer :: bool
  requested :: bool
  async :: bool
  wild :: bool
  mpc :: main_pc
  apc :: thread1_pc
  bpc :: thread2_pc
  lines :: "line list"

definition start :: cw where
  "start = \<lparr>readers = 0, writer = False, requested = False, async = False, wild = False, mpc = M_create1, apc = A_none, bpc = B_none, lines = []\<rparr>"

text \<open>\<open>error_handler\<close> ends the process.\<close>

definition fail :: "string \<Rightarrow> cw \<Rightarrow> cw" where
  "fail msg s = s\<lparr>lines := lines s @ [Failed msg], mpc := M_failed\<rparr>"

definition check :: "bool \<Rightarrow> string \<Rightarrow> cw \<Rightarrow> cw \<Rightarrow> cw" where
  "check ok msg s s' = (if ok then s' else fail msg s)"

definition rdlock :: "cw \<Rightarrow> cw option" where
  "rdlock s = (if writer s then None else Some (s\<lparr>readers := readers s + 1\<rparr>))"

definition wrlock :: "cw \<Rightarrow> cw option" where
  "wrlock s = (if writer s \<or> readers s \<noteq> 0 then None else Some (s\<lparr>writer := True\<rparr>))"

definition main :: "bool \<Rightarrow> cw \<Rightarrow> cw option" where
  "main ok s = (case mpc s of
     M_create1 \<Rightarrow> Some (check ok ''pthread_create error'' s (s\<lparr>apc := A_rdlock, mpc := M_sleep\<rparr>))
   | M_sleep \<Rightarrow> Some (s\<lparr>mpc := M_create2\<rparr>)
   | M_create2 \<Rightarrow> Some (check ok ''pthread_create error'' s (s\<lparr>bpc := B_print, mpc := M_join2\<rparr>))
   | M_join2 \<Rightarrow> if \<not> ok then Some (fail ''pthread_join error'' s) else
       if bpc s = B_cancelled then Some (s\<lparr>mpc := M_join1\<rparr>) else
       if bpc s = B_ret then Some (s\<lparr>lines := lines s @ [Thread2_status], mpc := M_join1\<rparr>) else None
   | M_join1 \<Rightarrow> if \<not> ok then Some (fail ''pthread_join error'' s) else
       if apc s = A_ret then Some (s\<lparr>mpc := M_destroy\<rparr>) else None
   | M_destroy \<Rightarrow> Some (check ok ''pthread_rwlock_destroy error'' s (s\<lparr>mpc := M_end\<rparr>))
   | M_end \<Rightarrow> None
   | M_failed \<Rightarrow> None)"

definition thread1 :: "bool \<Rightarrow> cw \<Rightarrow> cw option" where
  "thread1 ok s = (case apc s of
     A_none \<Rightarrow> None
   | A_rdlock \<Rightarrow> if \<not> ok then Some (fail ''pthread_rwlock_rdlock error'' s) else map_option (\<lambda>s. s\<lparr>apc := A_print\<rparr>) (rdlock s)
   | A_print \<Rightarrow> Some (s\<lparr>lines := lines s @ [Thread1_got_read], apc := A_sleep\<rparr>)
   | A_sleep \<Rightarrow> Some (s\<lparr>apc := A_cancel\<rparr>)
   | A_cancel \<Rightarrow> Some (if bpc s = B_none \<or> mpc s \<in> {M_join1, M_destroy} then s\<lparr>wild := True, apc := A_print2\<rparr>
       else s\<lparr>requested := True, apc := A_print2\<rparr>)
   | A_print2 \<Rightarrow> Some (s\<lparr>lines := lines s @ [Thread2_cancelled], apc := A_sleep2\<rparr>)
   | A_sleep2 \<Rightarrow> Some (s\<lparr>apc := A_unlock\<rparr>)
   | A_unlock \<Rightarrow> Some (check ok ''pthread_rwlock_unlock error'' s (s\<lparr>readers := readers s - 1, apc := A_ret\<rparr>))
   | A_ret \<Rightarrow> None)"

definition thread2 :: "bool \<Rightarrow> cw \<Rightarrow> cw option" where
  "thread2 ok s = (case bpc s of
     B_none \<Rightarrow> None
   | B_print \<Rightarrow> Some (s\<lparr>lines := lines s @ [Thread2_trying], bpc := B_settype\<rparr>)
   | B_settype \<Rightarrow> Some (s\<lparr>async := True, bpc := B_wrlock\<rparr>)
   | B_wrlock \<Rightarrow> if \<not> ok then Some (fail ''pthread_rwlock_wrlock error'' s) else map_option (\<lambda>s. s\<lparr>bpc := B_got\<rparr>) (wrlock s)
   | B_got \<Rightarrow> Some (s\<lparr>lines := lines s @ [Thread2_got_write], bpc := B_sleep\<rparr>)
   | B_sleep \<Rightarrow> Some (s\<lparr>bpc := B_unlock\<rparr>)
   | B_unlock \<Rightarrow> Some (check ok ''pthread_rwlock_unlock error'' s (s\<lparr>writer := False, bpc := B_ret\<rparr>))
   | B_ret \<Rightarrow> None
   | B_cancelled \<Rightarrow> None)"

text \<open>
  A request takes effect as soon as the type is asynchronous; while it is deferred, that is before \<open>B_wrlock\<close>, the only place
  is \<open>printf\<close>.
\<close>

definition cancel :: "cw \<Rightarrow> cw option" where
  "cancel s = (if requested s \<and> bpc s \<notin> {B_none, B_ret, B_cancelled} \<and> (async s \<or> bpc s = B_print) then Some (s\<lparr>bpc := B_cancelled\<rparr>) else None)"

datatype act = Main bool | Thread1 bool | Thread2 bool | Cancel

definition step :: "act \<Rightarrow> cw \<Rightarrow> cw option" where
  "step a s = (if mpc s = M_end \<or> mpc s = M_failed \<or> wild s then None else case a of
     Main ok \<Rightarrow> main ok s | Thread1 ok \<Rightarrow> thread1 ok s | Thread2 ok \<Rightarrow> thread2 ok s | Cancel \<Rightarrow> cancel s)"

definition good :: "act set" where
  "good = {Main True, Thread1 True, Thread2 True, Cancel}"

text \<open>
  What the three sleeps are for: \<open>thread1\<close> has the lock before \<open>thread2\<close> is created, \<open>thread2\<close> waits before it is cancelled,
  and the cancellation has taken effect before the lock is released.
\<close>

definition timed :: "act \<Rightarrow> cw \<Rightarrow> cw option" where
  "timed a s = (if a \<notin> good \<or> (a = Main True \<and> mpc s = M_sleep \<and> apc s \<noteq> A_sleep) \<or> (a = Thread1 True \<and> apc s = A_sleep \<and> bpc s \<noteq> B_wrlock) \<or>
      (a = Thread1 True \<and> apc s = A_sleep2 \<and> bpc s \<noteq> B_cancelled) then None else step a s)"

section \<open>Mutual exclusion\<close>

fun a_reads :: "thread1_pc \<Rightarrow> nat" where
  "a_reads A_none = 0" | "a_reads A_rdlock = 0" | "a_reads A_ret = 0" | "a_reads _ = 1"

fun b_writes :: "thread2_pc \<Rightarrow> bool" where
  "b_writes B_got = True" | "b_writes B_sleep = True" | "b_writes B_unlock = True" | "b_writes _ = False"

definition lock_inv :: "cw \<Rightarrow> bool" where
  "lock_inv s \<longleftrightarrow> readers s = a_reads (apc s) \<and> (b_writes (bpc s) \<longrightarrow> writer s) \<and> (writer s \<longrightarrow> readers s = 0) \<and>
     (mpc s = M_create1 \<longrightarrow> apc s = A_none)"

lemma rw_lock_step: "lock_inv s \<Longrightarrow> step a s = Some s' \<Longrightarrow> lock_inv s'"
proof (cases a)
  case (Main ok)
  assume "lock_inv s" "step a s = Some s'"
  then show ?thesis using Main
    by (cases "mpc s") (auto simp: step_def main_def check_def fail_def lock_inv_def split: if_splits)
next
  case (Thread1 ok)
  assume "lock_inv s" "step a s = Some s'"
  then show ?thesis using Thread1
    by (cases "apc s") (auto simp: step_def thread1_def check_def fail_def rdlock_def lock_inv_def split: if_splits)
next
  case (Thread2 ok)
  assume "lock_inv s" "step a s = Some s'"
  then show ?thesis using Thread2
    by (cases "bpc s") (auto simp: step_def thread2_def check_def fail_def wrlock_def lock_inv_def split: if_splits)
next
  case Cancel
  assume "lock_inv s" "step a s = Some s'"
  then show ?thesis using Cancel by (auto simp: step_def cancel_def lock_inv_def split: if_splits)
qed

interpretation lock: invariant_system step start lock_inv
proof
  show "lock_inv start" by (simp add: lock_inv_def start_def)
qed (rule rw_lock_step)

text \<open>Without the sleeps: a request that takes effect late cancels a writer that has the lock, which then stays locked for ever.\<close>

lemma rwlock_left_locked:
  "\<exists>s. run step ([Main True, Main True, Thread1 True, Thread1 True, Main True, Thread2 True, Thread2 True, Thread1 True, Thread1 True,
      Thread1 True, Thread1 True, Thread1 True, Thread2 True, Cancel, Main True, Main True]) start = Some s \<and> mpc s = M_destroy \<and> writer s"
  by (simp add: step_def start_def main_def thread1_def thread2_def cancel_def check_def rdlock_def wrlock_def)

section \<open>The run that the sleeps arrange\<close>

fun a_before :: "thread1_pc \<Rightarrow> bool" where
  "a_before A_none = True" | "a_before A_rdlock = True" | "a_before A_print = True" | "a_before _ = False"

fun a_lines :: "thread1_pc \<Rightarrow> line list" where
  "a_lines A_sleep2 = [Thread2_cancelled]" | "a_lines A_unlock = [Thread2_cancelled]" | "a_lines A_ret = [Thread2_cancelled]" | "a_lines _ = []"

fun b_lines :: "thread2_pc \<Rightarrow> line list" where
  "b_lines B_settype = [Thread2_trying]" | "b_lines B_wrlock = [Thread2_trying]" | "b_lines B_cancelled = [Thread2_trying]" | "b_lines _ = []"

definition where_b :: "thread1_pc \<Rightarrow> main_pc \<Rightarrow> thread2_pc set" where
  "where_b a m = (if m = M_create1 \<or> m = M_sleep \<or> m = M_create2 then {B_none} else case a of
     A_sleep \<Rightarrow> {B_print, B_settype, B_wrlock} | A_cancel \<Rightarrow> {B_wrlock} | A_print2 \<Rightarrow> {B_wrlock, B_cancelled} | A_sleep2 \<Rightarrow> {B_wrlock, B_cancelled}
   | A_unlock \<Rightarrow> {B_cancelled} | A_ret \<Rightarrow> {B_cancelled} | _ \<Rightarrow> {})"

definition timed_inv :: "cw \<Rightarrow> bool" where
  "timed_inv s \<longleftrightarrow> \<not> wild s \<and> \<not> writer s \<and> readers s = a_reads (apc s) \<and> bpc s \<in> where_b (apc s) (mpc s) \<and>
     (a_before (apc s) \<longleftrightarrow> lines s = []) \<and> (\<not> a_before (apc s) \<longrightarrow> lines s = [Thread1_got_read] @ b_lines (bpc s) @ a_lines (apc s)) \<and>
     (mpc s = M_create1 \<longleftrightarrow> apc s = A_none) \<and> (a_before (apc s) \<longrightarrow> mpc s \<in> {M_create1, M_sleep}) \<and>
     (mpc s \<in> {M_create1, M_sleep, M_create2} \<longrightarrow> apc s \<in> {A_none, A_rdlock, A_print, A_sleep}) \<and>
     (bpc s = B_wrlock \<longrightarrow> async s) \<and> (requested s \<longleftrightarrow> apc s \<in> {A_print2, A_sleep2, A_unlock, A_ret}) \<and>
     (mpc s = M_join1 \<longrightarrow> bpc s = B_cancelled) \<and> (mpc s \<in> {M_destroy, M_end} \<longrightarrow> apc s = A_ret) \<and> mpc s \<noteq> M_failed"

fun m_rank :: "main_pc \<Rightarrow> nat" where
  "m_rank M_create1 = 6" | "m_rank M_sleep = 5" | "m_rank M_create2 = 4" | "m_rank M_join2 = 3" | "m_rank M_join1 = 2"
| "m_rank M_destroy = 1" | "m_rank _ = 0"

fun a_rank :: "thread1_pc \<Rightarrow> nat" where
  "a_rank A_none = 8" | "a_rank A_rdlock = 7" | "a_rank A_print = 6" | "a_rank A_sleep = 5" | "a_rank A_cancel = 4"
| "a_rank A_print2 = 3" | "a_rank A_sleep2 = 2" | "a_rank A_unlock = 1" | "a_rank A_ret = 0"

fun b_rank :: "thread2_pc \<Rightarrow> nat" where
  "b_rank B_none = 8" | "b_rank B_print = 7" | "b_rank B_settype = 6" | "b_rank B_wrlock = 5" | "b_rank B_got = 4" | "b_rank B_sleep = 3"
| "b_rank B_unlock = 2" | "b_rank _ = 0"

definition cw_rank :: "cw \<Rightarrow> nat" where
  "cw_rank s = m_rank (mpc s) + a_rank (apc s) + b_rank (bpc s)"

lemmas cw_defs = timed_inv_def cw_rank_def check_def rdlock_def wrlock_def where_b_def

lemma rw_main:
  assumes i: "timed_inv s" and m: "main True s = Some s'" and t: "mpc s = M_sleep \<longrightarrow> apc s = A_sleep"
  shows "timed_inv s' \<and> cw_rank s' < cw_rank s"
  using i m t by (cases "mpc s"; cases "apc s"; simp add: main_def cw_defs split: if_splits; force)

lemma rw_thread1:
  assumes i: "timed_inv s" and m: "thread1 True s = Some s'"
    and t: "apc s = A_sleep \<longrightarrow> bpc s = B_wrlock" "apc s = A_sleep2 \<longrightarrow> bpc s = B_cancelled"
  shows "timed_inv s' \<and> cw_rank s' < cw_rank s"
  using i m t by (cases "apc s"; cases "mpc s"; simp add: thread1_def cw_defs split: if_splits; force)

lemma rw_thread2:
  assumes i: "timed_inv s" and m: "thread2 True s = Some s'"
  shows "timed_inv s' \<and> cw_rank s' < cw_rank s"
  using i m by (cases "bpc s"; cases "apc s"; simp add: thread2_def cw_defs split: if_splits; force)

lemma rw_cancel:
  assumes i: "timed_inv s" and m: "cancel s = Some s'"
  shows "timed_inv s' \<and> cw_rank s' < cw_rank s"
  using i m by (cases "bpc s"; cases "apc s"; simp add: cancel_def cw_defs split: if_splits; force)

lemma rw_progress:
  assumes i: "timed_inv s" and n: "mpc s \<noteq> M_end"
  shows "\<exists>a\<in>good. timed a s \<noteq> None"
proof -
  have "\<not> wild s" "mpc s \<noteq> M_failed" using i by (simp_all add: timed_inv_def)
  with n have e: "timed (Main True) s = (if mpc s = M_sleep \<and> apc s \<noteq> A_sleep then None else main True s)"
    by (simp add: timed_def good_def step_def)
  have m: "timed (Main True) s \<noteq> None" if "mpc s \<in> {M_create1, M_create2, M_destroy} \<or> mpc s = M_sleep \<and> apc s = A_sleep \<or>
      mpc s = M_join2 \<and> bpc s = B_cancelled \<or> mpc s = M_join1 \<and> apc s = A_ret"
    unfolding e using that by (elim disjE conjE) (auto simp: main_def)
  have w: "\<not> writer s" "bpc s = B_wrlock \<longrightarrow> async s" "apc s = A_sleep2 \<longrightarrow> requested s" using i by (simp_all add: timed_inv_def)
  have e: "timed (Thread1 True) s = (if apc s = A_sleep \<and> bpc s \<noteq> B_wrlock \<or> apc s = A_sleep2 \<and> bpc s \<noteq> B_cancelled then None else thread1 True s)"
    "timed (Thread2 True) s = thread2 True s" "timed Cancel s = cancel s"
    using \<open>\<not> wild s\<close> \<open>mpc s \<noteq> M_failed\<close> n by (simp_all add: timed_def good_def step_def)
  have a: "timed (Thread1 True) s \<noteq> None" if "apc s \<notin> {A_none, A_ret}" "apc s = A_sleep \<longrightarrow> bpc s = B_wrlock" "apc s = A_sleep2 \<longrightarrow> bpc s = B_cancelled"
    unfolding e using w(1) that by (cases "apc s") (simp_all add: thread1_def rdlock_def)
  have b: "timed (Thread2 True) s \<noteq> None" if "bpc s \<in> {B_print, B_settype}"
    unfolding e using that by (auto simp: thread2_def)
  have c: "timed Cancel s \<noteq> None" if "bpc s = B_wrlock" "apc s = A_sleep2"
    unfolding e using w that by (simp add: cancel_def)
  have w: "bpc s \<in> where_b (apc s) (mpc s)" using i by (simp add: timed_inv_def)
  have g: "Main True \<in> good" "Thread1 True \<in> good" "Thread2 True \<in> good" "Cancel \<in> good" by (simp_all add: good_def)
  show ?thesis
  proof (cases "apc s")
    case A_none
    then have "mpc s = M_create1" using i by (simp add: timed_inv_def)
    then show ?thesis using m g by blast
  next
    case A_sleep
    then consider "mpc s \<in> {M_create1, M_sleep, M_create2}" | "bpc s \<in> {B_print, B_settype, B_wrlock}" using w by (auto simp: where_b_def split: if_splits)
    then show ?thesis using m a b g A_sleep by cases auto
  next
    case A_sleep2
    then have "bpc s \<in> {B_wrlock, B_cancelled}" using w i by (auto simp: where_b_def timed_inv_def split: if_splits)
    then show ?thesis using a c g A_sleep2 by auto
  next
    case A_ret
    then have "bpc s = B_cancelled" "mpc s \<in> {M_join2, M_join1, M_destroy}" using w i n
      by (cases "mpc s"; simp add: where_b_def timed_inv_def)+
    then show ?thesis using m g A_ret by auto
  qed (use a g in auto)
qed

interpretation cancel: terminating_system timed start timed_inv cw_rank "\<lambda>s. mpc s = M_end" good
proof
  show "timed_inv start" by (simp add: timed_inv_def start_def where_b_def)
next
  fix s a s' assume i: "timed_inv s" and s: "timed a s = Some s'"
  have "timed_inv s' \<and> cw_rank s' < cw_rank s"
  proof (cases a)
    case (Main ok)
    then have "main True s = Some s'" "mpc s = M_sleep \<longrightarrow> apc s = A_sleep"
      using s by (auto simp: timed_def good_def step_def split: if_splits)
    then show ?thesis by (rule rw_main [OF i])
  next
    case (Thread1 ok)
    then have "thread1 True s = Some s'" "apc s = A_sleep \<longrightarrow> bpc s = B_wrlock" "apc s = A_sleep2 \<longrightarrow> bpc s = B_cancelled"
      using s by (auto simp: timed_def good_def step_def split: if_splits)
    then show ?thesis by (rule rw_thread1 [OF i])
  next
    case (Thread2 ok)
    then have "thread2 True s = Some s'" using s by (auto simp: timed_def good_def step_def split: if_splits)
    then show ?thesis by (rule rw_thread2 [OF i])
  next
    case Cancel
    then have "cancel s = Some s'" using s by (auto simp: timed_def step_def split: if_splits)
    then show ?thesis by (rule rw_cancel [OF i])
  qed
  then show "timed_inv s'" "cw_rank s' < cw_rank s" by simp_all
next
  fix s assume "timed_inv s" "mpc s \<noteq> M_end"
  from rw_progress [OF this] show "\<exists>a\<in>good. \<exists>s'. timed a s = Some s'" by auto
qed

section \<open>Properties\<close>

text \<open>
  C17. When the sleeps are long enough and no call fails, every schedule has at most 22 steps and ends with the lock free and destroyed and with
  the three lines in this order: \<open>thread2\<close> never gets the write lock.
\<close>

theorem pthread_cancel_correct:
  assumes "run timed as start = Some s"
  shows "length as \<le> 22 \<and> Thread2_got_write \<notin> set (lines s) \<and> (stuck good timed s \<longrightarrow>
     mpc s = M_end \<and> readers s = 0 \<and> \<not> writer s \<and> lines s = [Thread1_got_read, Thread2_trying, Thread2_cancelled])"
proof -
  have "length as \<le> 22" using cancel.run_bounded [OF assms] by (simp add: cw_rank_def start_def)
  moreover have i: "timed_inv s" by (rule cancel.run_inv [OF assms])
  moreover have "Thread2_got_write \<notin> set (b_lines (bpc s))" "Thread2_got_write \<notin> set (a_lines (apc s))"
    by (cases "bpc s"; simp) (cases "apc s"; simp)
  then have "Thread2_got_write \<notin> set (lines s)" using i by (cases "a_before (apc s)") (auto simp: timed_inv_def)
  moreover have "readers s = 0 \<and> \<not> writer s \<and> lines s = [Thread1_got_read, Thread2_trying, Thread2_cancelled]" if "mpc s = M_end"
    using i that by (auto simp: timed_inv_def where_b_def)
  ultimately show ?thesis using cancel.stuck_final [OF assms] by blast
qed

definition cancel_schedule :: "act list" where
  "cancel_schedule = [Main True, Thread1 True, Thread1 True, Main True, Main True, Thread2 True, Thread2 True, Thread1 True, Thread1 True, Thread1 True,
     Cancel, Main True, Thread1 True, Thread1 True, Main True, Main True]"

theorem pthread_cancel_correct_witness:
  "\<exists>s. run timed cancel_schedule start = Some s \<and> lines s = [Thread1_got_read, Thread2_trying, Thread2_cancelled]"
proof -
  obtain s where s: "run timed cancel_schedule start = Some s" "mpc s = M_end"
    by (simp add: cancel_schedule_def timed_def good_def step_def start_def main_def thread1_def thread2_def cancel_def check_def rdlock_def)
  then have "stuck good timed s" by (simp add: stuck_def timed_def step_def)
  with pthread_cancel_correct [OF s(1)] s(1) show ?thesis by blast
qed

text \<open>With any timing, also of failing calls: no thread holds the write lock while \<open>thread1\<close> reads.\<close>

lemma rwlock_excludes:
  assumes "run step as start = Some s" and "a_reads (apc s) = 1"
  shows "\<not> writer s \<and> \<not> b_writes (bpc s)"
  using lock.run_inv [OF assms(1)] assms(2) by (auto simp: lock_inv_def)

end
