(* ===== verification/File_Maps.thy ===== *)
theory File_Maps
  imports Posix_Prog Transition
begin

text \<open>
  \<^verbatim>\<open>src/ipc/src/shm/test1.c\<close>, which touches the first and last byte of every page of a mapped file, and
  \<^verbatim>\<open>src/ipc/src/pxshm/test1.c\<close>, where two processes map the same objects in a different order.
\<close>

section \<open>Pages of a mapping\<close>

text \<open>
  What \<open>mmap\<close> documents: a mapping reaches to the end of its last page, and an access to a page of it that lies beyond the last page of
  the file ends the program with \<open>SIGBUS\<close>. An access \<open>Outside\<close> the mapping is undefined: \<open>SIGSEGV\<close>, or another mapping if there happens to be one.
  The model stops at either.
\<close>

datatype fault = Outside | SIGBUS

definition pages :: "int \<Rightarrow> int \<Rightarrow> int" where
  "pages pagesize n = (n + pagesize - 1) div pagesize"

definition access :: "int \<Rightarrow> int \<Rightarrow> int \<Rightarrow> int \<Rightarrow> fault option" where
  "access pagesize size' mmapsize i = (if i < 0 \<or> pages pagesize mmapsize * pagesize \<le> i then Some Outside
     else if pages pagesize size' * pagesize \<le> i then Some SIGBUS else None)"

text \<open>
  The loop, with the bytes \<open>mem\<close> of the mapping: what is printed and the fault. \<open>i\<close> is an \<open>int\<close> that is compared with a
  \<open>size_t\<close>.
\<close>

lemma c_int_step:
  assumes "0 \<le> i" "i < 2147483648" "0 < p" "p < 2147483648"
  shows "c_int (i + p) = (if i + p < 2147483648 then i + p else i + p - 4294967296)"
proof (cases "i + p < 2147483648")
  case True
  then show ?thesis using assms by (simp add: c_int_id INT_MAX_def)
next
  case False
  have "(i + p + 2147483648) mod 4294967296 = ((i + p - 2147483648) + 4294967296) mod 4294967296"
    by (rule arg_cong [where f = "\<lambda>z. z mod 4294967296"]) simp
  also have "\<dots> = (i + p - 2147483648) mod 4294967296" by (rule mod_add_self2)
  also have "\<dots> = i + p - 2147483648" using False assms by (intro mod_pos_pos_trivial) auto
  finally show ?thesis using False by (simp add: c_int_def)
qed

type_synonym shown = "(int \<times> int) list"

function touch :: "int \<Rightarrow> int \<Rightarrow> int \<Rightarrow> int \<Rightarrow> int \<Rightarrow> (int \<Rightarrow> int) \<Rightarrow> shown \<times> fault option" where
  "touch pagesize filesize size' mmapsize i mem =
     (if i mod 2 ^ 64 < max filesize mmapsize then
        (case access pagesize size' mmapsize i of Some f \<Rightarrow> ([], Some f) | None \<Rightarrow>
         let v = mem i; mem = mem(i := 1); j = i + pagesize - 1 in
         case access pagesize size' mmapsize j of Some f \<Rightarrow> ([(i, v)], Some f) | None \<Rightarrow>
         let w = mem j; mem = mem(j := 1) in
         if 0 < pagesize \<and> pagesize < 2 ^ 31 \<and> i < 2 ^ 31 then
           (case touch pagesize filesize size' mmapsize (c_int (i + pagesize)) mem of (out, f) \<Rightarrow> ((i, v) # (c_int j, w) # out, f))
         else ([(i, v), (c_int j, w)], None))
      else case access pagesize size' mmapsize i of Some f \<Rightarrow> ([], Some f) | None \<Rightarrow> ([(i, mem i)], None))"
  by pat_completeness auto
termination
  by (relation "measure (\<lambda>(pagesize, filesize, size', mmapsize, i, mem). nat (if i < 0 then 0 else 2147483648 - i))")
    (auto simp: access_def c_int_step split: if_splits)

declare touch.simps [simp del]

definition page_lines :: "int \<Rightarrow> nat \<Rightarrow> nat \<Rightarrow> shown" where
  "page_lines pagesize a b = concat (map (\<lambda>k. [(int k * pagesize, 0), (int k * pagesize + pagesize - 1, 0)]) [a..<b])"

lemma page_access:
  assumes "0 < pagesize" "0 \<le> r" "r < pagesize"
  shows "access pagesize size' mmapsize (int k * pagesize + r) =
    (if pages pagesize mmapsize \<le> int k then Some Outside else if pages pagesize size' \<le> int k then Some SIGBUS else None)"
proof -
  have e: "n * pagesize \<le> int k * pagesize + r \<longleftrightarrow> n \<le> int k" for n
  proof
    assume "n * pagesize \<le> int k * pagesize + r"
    then have "n * pagesize < (int k + 1) * pagesize" using assms by (simp add: algebra_simps)
    then have "n < int k + 1" using assms(1) by (simp add: mult_less_cancel_right)
    then show "n \<le> int k" by simp
  next
    assume "n \<le> int k"
    then have "n * pagesize \<le> int k * pagesize" using assms(1) by (simp add: mult_right_mono)
    then show "n * pagesize \<le> int k * pagesize + r" using assms(2) by simp
  qed
  have "0 \<le> int k * pagesize" using assms by simp
  then have "\<not> int k * pagesize + r < 0" using assms by linarith
  then show ?thesis by (simp add: access_def e)
qed

lemma pages_eq: "n + pagesize - 1 = pages pagesize n * pagesize + (n + pagesize - 1) mod pagesize"
  unfolding pages_def by simp

lemma page_covers:
  assumes "0 < pagesize" "pages pagesize n \<le> int k"
  shows "n \<le> int k * pagesize"
proof -
  have "n \<le> pages pagesize n * pagesize"
    using pages_eq [of n pagesize] pos_mod_bound [OF assms(1), of "n + pagesize - 1"] by linarith
  moreover have "(pages pagesize n) * pagesize \<le> int k * pagesize" using assms by (simp add: mult_right_mono)
  ultimately show ?thesis by linarith
qed

lemma page_inside:
  assumes "0 < pagesize" "int k < pages pagesize n"
  shows "int k * pagesize < n"
proof -
  have "(int k + 1) * pagesize \<le> pages pagesize n * pagesize" using assms by (intro mult_right_mono) auto
  also have "\<dots> \<le> n + pagesize - 1"
    using pages_eq [of n pagesize] pos_mod_sign [OF assms(1), of "n + pagesize - 1"] by linarith
  finally show ?thesis by (simp add: algebra_simps)
qed

text \<open>The loop from page \<open>k\<close> on, in a mapping of zeros, where no size is so large that \<open>i\<close> overflows.\<close>

lemma touch_from:
  assumes ps: "1 < pagesize" "pagesize < 2147483648"
    and sz: "max filesize mmapsize + pagesize \<le> 2147483648"
    and k: "int k \<le> min (pages pagesize filesize) (pages pagesize mmapsize)"
    and mem: "\<forall>i \<ge> int k * pagesize. mem i = 0"
  shows "touch pagesize filesize filesize mmapsize (int k * pagesize) mem =
    (page_lines pagesize k (nat (min (pages pagesize filesize) (pages pagesize mmapsize))),
     Some (if pages pagesize filesize < pages pagesize mmapsize then SIGBUS else Outside))"
  using k mem
proof (induction "nat (min (pages pagesize filesize) (pages pagesize mmapsize)) - k" arbitrary: k mem)
  case 0
  then have k: "int k = min (pages pagesize filesize) (pages pagesize mmapsize)" by linarith
  have a: "access pagesize filesize mmapsize (int k * pagesize) = Some (if pages pagesize filesize < pages pagesize mmapsize then SIGBUS else Outside)"
    using page_access [of pagesize 0 filesize mmapsize k] ps k by auto
  have "page_lines pagesize k (nat (min (pages pagesize filesize) (pages pagesize mmapsize))) = []" using k by (simp add: page_lines_def)
  then show ?case by (subst touch.simps) (simp add: a)
next
  case (Suc d)
  let ?N = "nat (min (pages pagesize filesize) (pages pagesize mmapsize))"
  have k: "int k < pages pagesize filesize" "int k < pages pagesize mmapsize" using Suc.hyps(2) by linarith+
  have p: "0 < pagesize" using ps by simp
  have i: "int k * pagesize < filesize" "0 \<le> int k * pagesize" using page_inside [OF p k(1)] ps by simp_all
  have small: "int k * pagesize + pagesize \<le> 2147483647" using i(1) sz by linarith
  have a: "access pagesize filesize mmapsize (int k * pagesize) = None" using page_access [of pagesize 0 filesize mmapsize k] ps k by simp
  have b: "access pagesize filesize mmapsize (int k * pagesize + pagesize - 1) = None"
    using page_access [of pagesize "pagesize - 1" filesize mmapsize k] ps k by (simp add: algebra_simps)
  have c: "c_int (int k * pagesize + pagesize) = int (Suc k) * pagesize"
    using c_int_step [OF i(2) _ p ps(2)] small p by (simp add: algebra_simps)
  have d: "c_int (int k * pagesize + pagesize - 1) = int k * pagesize + pagesize - 1"
    using i(2) p small by (intro c_int_id) (unfold INT_MAX_def, linarith+)
  have m: "int k * pagesize mod 2 ^ 64 < max filesize mmapsize"
  proof -
    have "int k * pagesize mod 2 ^ 64 = int k * pagesize" using i(2) small p by (intro mod_pos_pos_trivial) simp_all
    with i(1) show ?thesis by linarith
  qed
  have z: "mem (int k * pagesize) = 0" "mem (int k * pagesize + pagesize - 1) = 0" using Suc.prems(2) p by simp_all
  let ?mem = "mem(int k * pagesize := 1, int k * pagesize + pagesize - 1 := 1)"
  have "\<forall>i \<ge> int (Suc k) * pagesize. ?mem i = 0" using Suc.prems(2) p by (auto simp: algebra_simps)
  moreover have "d = ?N - Suc k" "int (Suc k) \<le> min (pages pagesize filesize) (pages pagesize mmapsize)"
    using Suc.hyps(2) k by linarith+
  ultimately have r: "touch pagesize filesize filesize mmapsize (int (Suc k) * pagesize) ?mem =
      (page_lines pagesize (Suc k) ?N, Some (if pages pagesize filesize < pages pagesize mmapsize then SIGBUS else Outside))"
    by (intro Suc.hyps(1)) auto
  have l: "page_lines pagesize k ?N = (int k * pagesize, 0) # (int k * pagesize + pagesize - 1, 0) # page_lines pagesize (Suc k) ?N"
  proof -
    have "k < ?N" using Suc.hyps(2) by linarith
    then show ?thesis by (simp add: page_lines_def upt_conv_Cons)
  qed
  have o: "0 < pagesize \<and> pagesize < 2 ^ 31 \<and> int k * pagesize < 2 ^ 31" using p ps small by simp
  show ?case
    unfolding l
    by (subst touch.simps) (use m o ps in \<open>simp add: a b c d z r Let_def del: of_nat_Suc\<close>)
qed

text \<open>
  \<open>main\<close> up to the loop \<open>k filesize size' mmapsize pagesize\<close>. \<open>filesize - 1\<close> is converted to the signed \<open>off_t\<close>; when \<open>lseek\<close> fails the byte
  is written at the start of the file.
\<close>

definition shm_test1_setup :: "(int \<Rightarrow> string) \<Rightarrow> string list \<Rightarrow> (int \<Rightarrow> int \<Rightarrow> int \<Rightarrow> int \<Rightarrow> prog) \<Rightarrow> prog" where
  "shm_test1_setup se argv k = (if length argv \<noteq> 4 then printf (''usage: '' @ argv ! 0 @ '' <pathname> <filesize> <mmapsize>'' @ [NL]) (exit 1) else
     let filesize = atoi (argv ! 2) mod 2 ^ 64; mmapsize = atoi (argv ! 3) mod 2 ^ 64 in
     checked se ''open'' [2 + 64 + 512, 420] (argv ! 1) ''open error'' (\<lambda>fd.
     call ''lseek'' [fd, atoi (argv ! 2) - 1, 0] [] (\<lambda>r.
     sys_write fd [NUL] (\<lambda>_.
     checked se ''mmap'' [mmapsize, 3, 1, fd, 0] [] ''mmap error'' (\<lambda>_.
     call0 ''close'' [fd] [] (
     call ''sysconf'' [30] [] (\<lambda>pagesize.
     printf (''_SC_PAGESIZE = '' @ show_int pagesize @ [NL]) (k filesize (if r = - 1 then 1 else r + 1) mmapsize pagesize))))))))"

text \<open>
  C22. The program never ends normally. For sizes of the file and the mapping that are positive and leave room for a page below \<open>2 ^ 31\<close>, when
  \<open>lseek\<close> and \<open>write\<close> gave the file its size, it prints the zeros at both ends of every page that file and mapping
  have in common, and its next access, at the latest that of the last \<open>printf\<close>, which reads the byte behind the loop, is
  beyond the end of the file (\<open>SIGBUS\<close>) when the mapping has more pages than the file, and otherwise outside the mapping, which is undefined.
\<close>

theorem shm_test1_faults:
  assumes "1 < pagesize" "pagesize < 2147483648" and "0 < filesize" "0 < mmapsize"
    and "max filesize mmapsize + pagesize \<le> 2147483648"
  shows "touch pagesize filesize filesize mmapsize 0 (\<lambda>_. 0) =
    (page_lines pagesize 0 (nat (min (pages pagesize filesize) (pages pagesize mmapsize))),
     Some (if pages pagesize filesize < pages pagesize mmapsize then SIGBUS else Outside))"
proof -
  have "0 \<le> pages pagesize filesize" "0 \<le> pages pagesize mmapsize"
    using assms by (simp_all add: pages_def pos_imp_zdiv_nonneg_iff)
  with touch_from [OF assms(1,2,5), of 0 "\<lambda>_. 0"] show ?thesis by simp
qed

theorem shm_test1_faults_witness:
  "touch 4096 5000 5000 15000 0 (\<lambda>_. 0) = ([(0, 0), (4095, 0), (4096, 0), (8191, 0)], Some SIGBUS)"
proof -
  have p: "pages 4096 5000 = 2" "pages 4096 15000 = 4" by (simp_all add: pages_def)
  from shm_test1_faults [of 4096 5000 15000] show ?thesis by (simp add: p page_lines_def eval_nat_numeral)
qed

section \<open>Two processes and two objects\<close>

text \<open>
  \<^verbatim>\<open>pxshm/test1.c\<close>: a process has an address space, from the addresses of its mappings to the objects behind them; the kernel chooses the
  addresses. The child maps the file first, the parent the shared memory first.
\<close>

datatype obj = Shm | Motd

datatype proc_pc = M_first | M_second int | M_print int int | M_use int int | M_wait | M_end | M_failed

datatype line = Child_ptrs int int | Parent_ptrs int int | Integer int | Mmap_error

record vm =
  shm :: int
  space :: "bool \<Rightarrow> int \<Rightarrow> obj option"
  pcs :: "bool \<Rightarrow> proc_pc"
  lines :: "line list"

text \<open>After \<open>fork\<close>; a new shared memory object holds 0. \<open>True\<close> is the parent.\<close>

definition vstart :: vm where
  "vstart = \<lparr>shm = 0, space = (\<lambda>_. Map.empty), pcs = (\<lambda>_. M_first), lines = []\<rparr>"

text \<open>\<open>addr\<close> is the answer of \<open>mmap\<close>, \<open>None\<close> for \<open>MAP_FAILED\<close>; a new mapping does not overlap another one of the process.\<close>

definition mmap :: "bool \<Rightarrow> obj \<Rightarrow> int option \<Rightarrow> (int \<Rightarrow> proc_pc) \<Rightarrow> vm \<Rightarrow> vm option" where
  "mmap t ob addr next s = (case addr of
     None \<Rightarrow> Some (s\<lparr>pcs := (pcs s)(t := M_failed), lines := lines s @ [Mmap_error]\<rparr>)
   | Some a \<Rightarrow> if space s t a \<noteq> None then None else
       Some (s\<lparr>space := (space s)(t := (space s t)(a \<mapsto> ob)), pcs := (pcs s)(t := next a)\<rparr>))"

definition parent :: "int option \<Rightarrow> vm \<Rightarrow> vm option" where
  "parent addr s = (case pcs s True of
     M_first \<Rightarrow> mmap True Shm addr (\<lambda>ptr1. M_second ptr1) s
   | M_second ptr1 \<Rightarrow> mmap True Motd addr (\<lambda>ptr2. M_print ptr1 ptr2) s
   | M_print ptr1 ptr2 \<Rightarrow> Some (s\<lparr>lines := lines s @ [Parent_ptrs ptr1 ptr2], pcs := (pcs s)(True := M_use ptr1 ptr2)\<rparr>)
   | M_use ptr1 ptr2 \<Rightarrow> if space s True ptr1 = Some Shm then Some (s\<lparr>shm := 777, pcs := (pcs s)(True := M_wait)\<rparr>) else None
   | M_wait \<Rightarrow> if pcs s False = M_end \<or> pcs s False = M_failed then Some (s\<lparr>pcs := (pcs s)(True := M_end)\<rparr>) else None
   | M_end \<Rightarrow> None
   | M_failed \<Rightarrow> None)"

definition child :: "int option \<Rightarrow> vm \<Rightarrow> vm option" where
  "child addr s = (case pcs s False of
     M_first \<Rightarrow> mmap False Motd addr (\<lambda>ptr2. M_second ptr2) s
   | M_second ptr2 \<Rightarrow> mmap False Shm addr (\<lambda>ptr1. M_print ptr1 ptr2) s
   | M_print ptr1 ptr2 \<Rightarrow> Some (s\<lparr>lines := lines s @ [Child_ptrs ptr1 ptr2], pcs := (pcs s)(False := M_use ptr1 ptr2)\<rparr>)
   | M_use ptr1 ptr2 \<Rightarrow> if space s False ptr1 = Some Shm then Some (s\<lparr>lines := lines s @ [Integer (shm s)], pcs := (pcs s)(False := M_end)\<rparr>) else None
   | M_wait \<Rightarrow> None
   | M_end \<Rightarrow> None
   | M_failed \<Rightarrow> None)"

datatype vact = VParent "int option" | VChild "int option"

definition vstep :: "vact \<Rightarrow> vm \<Rightarrow> vm option" where
  "vstep a s = (case a of VParent addr \<Rightarrow> parent addr s | VChild addr \<Rightarrow> child addr s)"

text \<open>What the sleep of the child is for.\<close>

definition vtimed :: "vact \<Rightarrow> vm \<Rightarrow> vm option" where
  "vtimed a s = (case a of VParent addr \<Rightarrow> vstep a s
   | VChild addr \<Rightarrow> (case pcs s False of M_use p q \<Rightarrow> if pcs s True \<in> {M_wait, M_end, M_failed} then vstep a s else None | _ \<Rightarrow> vstep a s))"

definition vgood :: "vact set" where
  "vgood = {VParent (Some a) | a. True} \<union> {VChild (Some a) | a. True}"

fun parent_inv :: "proc_pc \<Rightarrow> (int \<Rightarrow> obj option) \<Rightarrow> int \<Rightarrow> bool" where
  "parent_inv M_first sp v = (sp = Map.empty \<and> v = 0)"
| "parent_inv (M_second p) sp v = (sp = [p \<mapsto> Shm] \<and> v = 0)"
| "parent_inv (M_print p q) sp v = (p \<noteq> q \<and> sp = [p \<mapsto> Shm, q \<mapsto> Motd] \<and> v = 0)"
| "parent_inv (M_use p q) sp v = (p \<noteq> q \<and> sp = [p \<mapsto> Shm, q \<mapsto> Motd] \<and> v = 0)"
| "parent_inv M_wait sp v = (v = 777)" | "parent_inv M_end sp v = (v = 777)" | "parent_inv M_failed sp v = False"

fun child_inv :: "proc_pc \<Rightarrow> (int \<Rightarrow> obj option) \<Rightarrow> bool" where
  "child_inv M_first sp = (sp = Map.empty)" | "child_inv (M_second q) sp = (sp = [q \<mapsto> Motd])"
| "child_inv (M_print p q) sp = (p \<noteq> q \<and> sp = [q \<mapsto> Motd, p \<mapsto> Shm])"
| "child_inv (M_use p q) sp = (p \<noteq> q \<and> sp = [q \<mapsto> Motd, p \<mapsto> Shm])"
| "child_inv M_wait sp = False" | "child_inv M_end sp = True" | "child_inv M_failed sp = True"

fun proc_rank :: "proc_pc \<Rightarrow> nat" where
  "proc_rank M_first = 5" | "proc_rank (M_second _) = 4" | "proc_rank (M_print _ _) = 3" | "proc_rank (M_use _ _) = 2" | "proc_rank M_wait = 1"
| "proc_rank _ = 0"

definition vm_inv :: "vm \<Rightarrow> bool" where
  "vm_inv s \<longleftrightarrow> parent_inv (pcs s True) (space s True) (shm s) \<and> child_inv (pcs s False) (space s False) \<and>
     (\<forall>v. Integer v \<in> set (lines s) \<longrightarrow> v = 777)"

definition vm_rank :: "vm \<Rightarrow> nat" where
  "vm_rank s = proc_rank (pcs s True) + proc_rank (pcs s False)"

lemma vm_parent:
  assumes "vm_inv s" "parent addr s = Some s'" "addr \<noteq> None"
  shows "vm_inv s' \<and> vm_rank s' < vm_rank s"
  using assms by (cases "pcs s True"; cases addr) (auto simp: parent_def mmap_def vm_inv_def vm_rank_def split: if_splits)

lemma vm_child:
  assumes "vm_inv s" "child addr s = Some s'" "\<And>p q. pcs s False = M_use p q \<Longrightarrow> pcs s True \<in> {M_wait, M_end, M_failed}"
  shows "vm_inv s' \<and> vm_rank s' < vm_rank s"
proof (cases "pcs s False")
  case (M_use p q)
  then have "shm s = 777" using assms(1,3) by (auto simp: vm_inv_def)
  then show ?thesis using M_use assms(1,2) by (auto simp: child_def vm_inv_def vm_rank_def split: if_splits)
qed (use assms(1,2) in \<open>cases addr; auto simp: child_def mmap_def vm_inv_def vm_rank_def split: if_splits\<close>)+

lemma vm_progress:
  assumes i: "vm_inv s" and n: "pcs s True \<noteq> M_end"
  shows "\<exists>a\<in>vgood. only (\<lambda>a. a \<noteq> VParent None) vtimed a s \<noteq> None"
proof -
  have g: "VParent (Some a) \<in> vgood" "VChild (Some a) \<in> vgood" for a by (simp_all add: vgood_def)
  have p: "only (\<lambda>a. a \<noteq> VParent None) vtimed (VParent (Some a)) s = parent (Some a) s" for a
    by (simp add: only_def vtimed_def vstep_def)
  have c: "only (\<lambda>a. a \<noteq> VParent None) vtimed (VChild (Some a)) s = child (Some a) s" if "pcs s True = M_wait" for a
    using that by (simp add: only_def vtimed_def vstep_def split: proc_pc.splits)
  show ?thesis
  proof (cases "pcs s True")
    case M_first
    then have "parent (Some 0) s \<noteq> None" using i by (simp add: parent_def mmap_def vm_inv_def)
    then show ?thesis using g(1) p by metis
  next
    case (M_second q)
    then have "parent (Some (q + 1)) s \<noteq> None" using i by (simp add: parent_def mmap_def vm_inv_def)
    then show ?thesis using g(1) p by metis
  next
    case (M_print q r)
    then have "parent (Some 0) s \<noteq> None" by (simp add: parent_def)
    then show ?thesis using g(1) p by metis
  next
    case (M_use q r)
    then have "parent (Some 0) s \<noteq> None" using i by (simp add: parent_def vm_inv_def)
    then show ?thesis using g(1) p by metis
  next
    case M_wait
    show ?thesis
    proof (cases "pcs s False = M_end \<or> pcs s False = M_failed")
      case True
      then have "parent (Some 0) s \<noteq> None" using M_wait by (auto simp: parent_def)
      then show ?thesis using g(1) p by metis
    next
      case False
      then have "\<exists>a. child (Some a) s \<noteq> None" using i
      proof (cases "pcs s False")
        case (M_second q)
        then have "child (Some (q + 1)) s \<noteq> None" using i by (simp add: child_def mmap_def vm_inv_def)
        then show ?thesis by blast
      qed (auto simp: child_def mmap_def vm_inv_def)
      then show ?thesis using g(2) c [OF M_wait] by metis
    qed
  qed (use i n in \<open>simp_all add: vm_inv_def\<close>)
qed

interpretation maps: terminating_system "only (\<lambda>a. a \<noteq> VParent None) vtimed" vstart vm_inv vm_rank "\<lambda>s. pcs s True = M_end" vgood
proof
  show "vm_inv vstart" by (simp add: vm_inv_def vstart_def)
next
  fix s a s' assume i: "vm_inv s" and s: "only (\<lambda>a. a \<noteq> VParent None) vtimed a s = Some s'"
  have "vm_inv s' \<and> vm_rank s' < vm_rank s"
  proof (cases a)
    case (VParent addr)
    then have "parent addr s = Some s'" "addr \<noteq> None" using s by (auto simp: only_def vtimed_def vstep_def split: if_splits)
    then show ?thesis by (rule vm_parent [OF i])
  next
    case (VChild addr)
    then have "child addr s = Some s'" using s by (auto simp: only_def vtimed_def vstep_def split: if_splits proc_pc.splits)
    moreover have "pcs s True \<in> {M_wait, M_end, M_failed}" if "pcs s False = M_use p q" for p q
      using s VChild that by (auto simp: only_def vtimed_def split: if_splits)
    ultimately show ?thesis by (rule vm_child [OF i])
  qed
  then show "vm_inv s'" "vm_rank s' < vm_rank s" by simp_all
next
  fix s assume "vm_inv s" "pcs s True \<noteq> M_end"
  from vm_progress [OF this] show "\<exists>a\<in>vgood. \<exists>s'. only (\<lambda>a. a \<noteq> VParent None) vtimed a s = Some s'" by auto
qed

text \<open>
  Wherever the kernel maps the objects in the two processes: when the sleep is long enough and the parent can map, every schedule ends
  after at most ten steps with the parent, and the integer that the child prints through its own pointer is the 777 that the parent stored through its own.
\<close>

theorem pxshm_test1_shares:
  assumes "run vtimed as vstart = Some s" and "VParent None \<notin> set as"
  shows "length as \<le> 10 \<and> (\<forall>v. Integer v \<in> set (lines s) \<longrightarrow> v = 777) \<and> (stuck vgood vtimed s \<longrightarrow> pcs s True = M_end)"
proof -
  have r: "run (only (\<lambda>a. a \<noteq> VParent None) vtimed) as vstart = Some s" using assms by (subst run_only) auto
  have "stuck vgood (only (\<lambda>a. a \<noteq> VParent None) vtimed) s = stuck vgood vtimed s"
    by (rule stuck_only) (auto simp: vgood_def)
  with maps.run_bounded [OF r] maps.run_inv [OF r] maps.stuck_final [OF r] show ?thesis
    by (simp add: vm_inv_def vm_rank_def vstart_def)
qed

definition vschedule :: "vact list" where
  "vschedule = [VParent (Some 1), VChild (Some 5), VChild (Some 6), VParent (Some 2), VParent (Some 0), VChild None, VParent (Some 0), VChild None, VParent (Some 0)]"

theorem pxshm_test1_shares_witness:
  "\<exists>s. run vtimed vschedule vstart = Some s \<and> pcs s True = M_end \<and> Integer 777 \<in> set (lines s) \<and> (\<forall>v. Integer v \<in> set (lines s) \<longrightarrow> v = 777)"
proof -
  obtain s where s: "run vtimed vschedule vstart = Some s" "pcs s True = M_end" "Integer 777 \<in> set (lines s)"
    by (simp add: vschedule_def vtimed_def vstep_def parent_def child_def mmap_def vstart_def)
  have "VParent None \<notin> set vschedule" by (simp add: vschedule_def)
  from pxshm_test1_shares [OF s(1) this] s show ?thesis by blast
qed

text \<open>The calls of \<open>main\<close> before \<open>fork\<close>; \<open>k\<close> are the two processes. A missing object is no error of \<open>shm_unlink\<close>; \<open>ENOENT\<close> is 2.\<close>

definition pxshm_test1_setup :: "(int \<Rightarrow> string) \<Rightarrow> string list \<Rightarrow> prog \<Rightarrow> prog" where
  "pxshm_test1_setup se argv k = (if length argv \<noteq> 3 then printf (''usage: '' @ argv ! 0 @ '' <name1> <name2>'' @ [NL]) (exit 1) else
     syscall (\<lambda>a. Sys ''shm_unlink'' [] (argv ! 1) (max (- 1) (ret a))) (\<lambda>a.
     if max (- 1) (ret a) = - 1 \<and> errno a \<noteq> 2 then complain se (errno a) ''shm_unlink error'' else
     checked se ''shm_open'' [2 + 64 + 128, 420] (argv ! 1) ''shm_open error'' (\<lambda>fd1.
     checked se ''ftruncate'' [fd1, 4] [] ''ftruncate error'' (\<lambda>_.
     checked se ''open'' [0] (argv ! 2) ''open error'' (\<lambda>fd2.
     checked se ''fstat'' [fd2] [] ''fstat error'' (\<lambda>_. call0 ''fork'' [] [] k))))))"

end
