(* ===== verification/Singleton.thy ===== *)
theory Singleton
  imports Posix_Sync
begin

text \<open>
  \<^verbatim>\<open>src/dp/singleton\<close>: four versions of \<open>Singleton::GetInstance\<close>, called by several threads: without a lock (\<^verbatim>\<open>alpha\<close>), with one
  (\<^verbatim>\<open>beta\<close>), with double-checked locking (\<^verbatim>\<open>gamma\<close>) and with double-checked locking on an atomic pointer (\<^verbatim>\<open>release\<close>).
\<close>

section \<open>Model\<close>

text \<open>
  Objects are numbered as they are allocated. \<open>new Singleton()\<close> allocates (\<open>S_alloc\<close>) and constructs (\<open>S_ctor\<close>); the pointer
  is stored in \<open>S_store\<close>, which the compiler or the processor may do before the construction. \<open>S_load\<close> reads \<open>instance_\<close> for the \<open>return\<close>.
  \<open>tmps\<close> are the local variables \<open>tmp\<close> of the threads in \<^verbatim>\<open>release\<close>.
\<close>

datatype pc =
    S_call | S_lock | S_check | S_alloc | S_ctor nat | S_store nat | S_load | S_unlock "nat option" | S_ret "nat option"

record sg =
  instance_ptr :: "nat option"
  created :: nat
  built :: "nat set"
  mutex :: "nat option"
  tmps :: "nat \<Rightarrow> nat option"
  pcs :: "nat \<Rightarrow> pc"

definition start :: sg where
  "start = \<lparr>instance_ptr = None, created = 0, built = {}, mutex = None, tmps = (\<lambda>_. None), pcs = (\<lambda>_. S_call)\<rparr>"

definition goto :: "nat \<Rightarrow> pc \<Rightarrow> sg \<Rightarrow> sg" where
  "goto t p s = s\<lparr>pcs := (pcs s)(t := p)\<rparr>"

text \<open>\<open>instance_ = new Singleton()\<close> with the position \<open>after\<close> behind it; \<open>early\<close>: the pointer is stored before the construction.\<close>

definition create :: "bool \<Rightarrow> (nat \<Rightarrow> pc) \<Rightarrow> nat \<Rightarrow> sg \<Rightarrow> sg option" where
  "create early after t s = (case pcs s t of
     S_alloc \<Rightarrow> Some (goto t (if early then S_store (created s) else S_ctor (created s)) (s\<lparr>created := created s + 1\<rparr>))
   | S_ctor m \<Rightarrow> Some (goto t (if early then after m else S_store m) (s\<lparr>built := insert m (built s)\<rparr>))
   | S_store m \<Rightarrow> Some (goto t (if early then S_ctor m else after m) (s\<lparr>instance_ptr := Some m\<rparr>))
   | _ \<Rightarrow> None)"

definition lock :: "nat \<Rightarrow> pc \<Rightarrow> sg \<Rightarrow> sg option" where
  "lock t p s = map_option (\<lambda>m. goto t p (s\<lparr>mutex := m\<rparr>)) (mutex_lock t (mutex s))"

definition unlock :: "nat \<Rightarrow> pc \<Rightarrow> sg \<Rightarrow> sg option" where
  "unlock t p s = Some (goto t p (s\<lparr>mutex := mutex_unlock (mutex s)\<rparr>))"

definition alpha :: "nat \<Rightarrow> sg \<Rightarrow> sg option" where
  "alpha t s = (case pcs s t of
     S_call \<Rightarrow> Some (goto t (if instance_ptr s = None then S_alloc else S_load) s)
   | S_load \<Rightarrow> Some (goto t (S_ret (instance_ptr s)) s)
   | S_ret r \<Rightarrow> None
   | _ \<Rightarrow> create False (\<lambda>_. S_load) t s)"

definition beta :: "nat \<Rightarrow> sg \<Rightarrow> sg option" where
  "beta t s = (case pcs s t of
     S_call \<Rightarrow> Some (goto t S_lock s)
   | S_lock \<Rightarrow> lock t S_check s
   | S_check \<Rightarrow> Some (goto t (if instance_ptr s = None then S_alloc else S_load) s)
   | S_load \<Rightarrow> Some (goto t (S_unlock (instance_ptr s)) s)
   | S_unlock r \<Rightarrow> unlock t (S_ret r) s
   | S_ret r \<Rightarrow> None
   | _ \<Rightarrow> create False (\<lambda>_. S_load) t s)"

definition gamma :: "bool \<Rightarrow> nat \<Rightarrow> sg \<Rightarrow> sg option" where
  "gamma early t s = (case pcs s t of
     S_call \<Rightarrow> Some (goto t (if instance_ptr s = None then S_lock else S_load) s)
   | S_lock \<Rightarrow> lock t S_check s
   | S_check \<Rightarrow> Some (goto t (if instance_ptr s = None then S_alloc else S_unlock None) s)
   | S_unlock r \<Rightarrow> unlock t S_load s
   | S_load \<Rightarrow> Some (goto t (S_ret (instance_ptr s)) s)
   | S_ret r \<Rightarrow> None
   | _ \<Rightarrow> create early (\<lambda>_. S_unlock None) t s)"

text \<open>
  \<^verbatim>\<open>release\<close> loads the pointer into \<open>tmp\<close> (\<open>S_call\<close>), tests \<open>tmp\<close> (\<open>S_load\<close>), tests it again under the lock (\<open>S_check\<close>), assigns the
  constructed object to it and stores it; the value of \<open>tmp\<close> is returned. The release fence keeps the construction before the store.
\<close>

definition release :: "nat \<Rightarrow> sg \<Rightarrow> sg option" where
  "release t s = (case pcs s t of
     S_call \<Rightarrow> Some (goto t S_load (s\<lparr>tmps := (tmps s)(t := instance_ptr s)\<rparr>))
   | S_load \<Rightarrow> Some (goto t (if tmps s t = None then S_lock else S_ret (tmps s t)) s)
   | S_lock \<Rightarrow> lock t S_check s
   | S_check \<Rightarrow> Some (goto t (if tmps s t = None then S_alloc else S_unlock (tmps s t)) s)
   | S_alloc \<Rightarrow> Some (goto t (S_ctor (created s)) (s\<lparr>created := created s + 1\<rparr>))
   | S_ctor m \<Rightarrow> Some (goto t (S_store m) (s\<lparr>built := insert m (built s), tmps := (tmps s)(t := Some m)\<rparr>))
   | S_store m \<Rightarrow> Some (goto t (S_unlock (tmps s t)) (s\<lparr>instance_ptr := tmps s t\<rparr>))
   | S_unlock r \<Rightarrow> unlock t (S_ret (tmps s t)) s
   | S_ret r \<Rightarrow> None)"

definition step :: "(nat \<Rightarrow> sg \<Rightarrow> sg option) \<Rightarrow> nat \<Rightarrow> nat \<Rightarrow> sg \<Rightarrow> sg option" where
  "step get n t s = (if t < n then get t s else None)"

section \<open>One instance\<close>

fun holds :: "pc \<Rightarrow> bool" where
  "holds S_check = True" | "holds S_alloc = True" | "holds (S_ctor _) = True" | "holds (S_store _) = True" | "holds (S_unlock _) = True"
| "holds _ = False"

text \<open>\<open>gamma\<close> reads the result after it has released the mutex, \<open>beta\<close> before.\<close>

fun holds_load :: "pc \<Rightarrow> bool" where
  "holds_load S_load = True" | "holds_load p = holds p"

fun phase :: "bool \<Rightarrow> nat option \<Rightarrow> nat \<Rightarrow> nat set \<Rightarrow> pc \<Rightarrow> bool" where
  "phase b i c d S_alloc = (i = None \<and> c = 0)"
| "phase b i c d (S_ctor m) = (m = 0 \<and> i = None \<and> c = 1)"
| "phase b i c d (S_store m) = (m = 0 \<and> i = None \<and> c = 1 \<and> 0 \<in> d)"
| "phase b i c d S_load = (i = Some 0)"
| "phase b i c d (S_unlock r) = (i = Some 0 \<and> (b \<longrightarrow> r = Some 0))"
| "phase b i c d (S_ret r) = (r = Some 0 \<and> i = Some 0)"
| "phase b i c d _ = True"

definition one_inv :: "bool \<Rightarrow> (pc \<Rightarrow> bool) \<Rightarrow> nat \<Rightarrow> sg \<Rightarrow> bool" where
  "one_inv b hold n s \<longleftrightarrow> (\<forall>t<n. hold (pcs s t) \<longleftrightarrow> mutex s = Some t) \<and> (\<forall>u. mutex s = Some u \<longrightarrow> u < n) \<and>
     (\<forall>t<n. phase b (instance_ptr s) (created s) (built s) (pcs s t)) \<and>
     (instance_ptr s = None \<longrightarrow> created s = 0 \<or> (\<exists>t<n. \<exists>m. pcs s t = S_ctor m \<or> pcs s t = S_store m)) \<and>
     (instance_ptr s \<noteq> None \<longrightarrow> instance_ptr s = Some 0 \<and> created s = 1 \<and> 0 \<in> built s)"

text \<open>\<open>b\<close> as above: the mutex is released after the result was read.\<close>

fun pc_rank :: "bool \<Rightarrow> pc \<Rightarrow> int" where
  "pc_rank b S_call = 8" | "pc_rank b S_lock = 7" | "pc_rank b S_check = 6" | "pc_rank b S_alloc = 5" | "pc_rank b (S_ctor _) = 4"
| "pc_rank b (S_store _) = 3" | "pc_rank b (S_unlock _) = (if b then 1 else 2)" | "pc_rank b S_load = (if b then 2 else 1)"
| "pc_rank b (S_ret _) = 0"

definition sg_rank :: "bool \<Rightarrow> nat \<Rightarrow> sg \<Rightarrow> nat" where
  "sg_rank b n s = nat (tot (pc_rank b) (pcs s) n)"

definition returned :: "nat \<Rightarrow> sg \<Rightarrow> bool" where
  "returned n s \<longleftrightarrow> (\<forall>t<n. \<exists>r. pcs s t = S_ret r)"

fun building :: "pc \<Rightarrow> bool" where
  "building (S_ctor _) = True" | "building (S_store _) = True" | "building _ = False"

lemma building_iff: "building p \<longleftrightarrow> (\<exists>m. p = S_ctor m \<or> p = S_store m)"
  by (cases p) auto

lemma phase_mono:
  "\<not> holds p \<Longrightarrow> phase b i c d p \<Longrightarrow> i = Some 0 \<longrightarrow> i' = Some 0 \<Longrightarrow> phase b i' c' d' p"
  by (cases p) auto

text \<open>A step of thread \<open>t\<close> to \<open>p'\<close>: only a thread that holds the mutex changes what is shared.\<close>

lemma one_move:
  assumes i: "one_inv b hold n s" and t: "t < n" and h: "\<And>p. holds p \<Longrightarrow> hold p"
    and m: "m' = (if hold p' then Some t else if hold (pcs s t) then None else mutex s)"
    and take: "hold p' \<Longrightarrow> hold (pcs s t) \<or> mutex s = None"
    and ph: "phase b i' c' d' p'" and mono: "instance_ptr s = Some 0 \<longrightarrow> i' = Some 0"
    and own: "hold (pcs s t) \<or> i' = instance_ptr s \<and> c' = created s \<and> d' = built s"
    and none: "i' = None \<Longrightarrow> building p' \<or> c' = created s \<and> \<not> building (pcs s t)"
    and some: "i' \<noteq> None \<Longrightarrow> i' = Some 0 \<and> c' = 1 \<and> 0 \<in> d'"
  shows "one_inv b hold n (s\<lparr>instance_ptr := i', created := c', built := d', mutex := m', pcs := (pcs s)(t := p')\<rparr>)"
proof -
  let ?P = "(pcs s)(t := p')"
  have H: "\<And>u. u < n \<Longrightarrow> hold (pcs s u) \<longleftrightarrow> mutex s = Some u" and B: "\<And>u. mutex s = Some u \<Longrightarrow> u < n"
    using i by (auto simp: one_inv_def)
  have "hold (?P u) \<longleftrightarrow> m' = Some u" if u: "u < n" for u
    using H [OF u] H [OF t] take m by (cases "u = t") (auto split: if_splits)
  moreover have "\<And>u. m' = Some u \<Longrightarrow> u < n" using m t B by (auto split: if_splits)
  moreover have "phase b i' c' d' (?P u)" if u: "u < n" for u
  proof (cases "u = t")
    case False
    have old: "phase b (instance_ptr s) (created s) (built s) (pcs s u)" using i u by (simp add: one_inv_def)
    show ?thesis
    proof (cases "hold (pcs s t)")
      case True
      then have "\<not> holds (pcs s u)" using H [OF u] H [OF t] h False by auto
      from phase_mono [OF this old mono] False show ?thesis by simp
    next
      case f: False
      then show ?thesis using own old False by simp
    qed
  qed (use ph in simp)
  moreover have "c' = 0 \<or> (\<exists>u<n. building (?P u))" if "i' = None"
  proof (cases "building p'")
    case True
    then show ?thesis using t by (intro disjI2 exI [of _ t]) simp
  next
    case False
    then have c: "c' = created s" "\<not> building (pcs s t)" using none [OF that] by simp_all
    have "instance_ptr s = None" using mono that i by (auto simp: one_inv_def)
    then have "created s = 0 \<or> (\<exists>u<n. building (pcs s u))" using i by (auto simp: one_inv_def building_iff)
    then show ?thesis using c by auto
  qed
  ultimately show ?thesis using some by (simp add: one_inv_def building_iff)
qed

lemma one_start: "\<not> hold S_call \<Longrightarrow> one_inv b hold n start"
  by (simp add: one_inv_def start_def)

lemma one_facts:
  assumes "one_inv b hold n s" "t < n"
  shows "hold (pcs s t) \<longleftrightarrow> mutex s = Some t" "phase b (instance_ptr s) (created s) (built s) (pcs s t)"
    "instance_ptr s = None \<or> instance_ptr s = Some 0 \<and> created s = 1 \<and> 0 \<in> built s"
    "instance_ptr s = None \<Longrightarrow> created s = 0 \<or> (\<exists>u<n. building (pcs s u))"
  using assms by (auto simp: one_inv_def building_iff)

text \<open>The thread that holds the mutex at \<open>S_check\<close> knows that nobody is creating.\<close>

lemma one_check:
  assumes i: "one_inv b hold n s" and t: "t < n" and h: "\<And>p. holds p \<Longrightarrow> hold p" and c: "pcs s t = S_check" "instance_ptr s = None"
  shows "created s = 0"
proof (rule ccontr)
  assume "created s \<noteq> 0"
  then obtain u where u: "u < n" "building (pcs s u)" using one_facts(4) [OF i t c(2)] by auto
  then have "hold (pcs s u)" using h by (cases "pcs s u") auto
  moreover have "hold (pcs s t)" using h c(1) by simp
  ultimately have "u = t" using one_facts(1) [OF i u(1)] one_facts(1) [OF i t] by simp
  with u(2) c(1) show False by simp
qed

lemmas sg_defs = goto_def create_def lock_def unlock_def mutex_unlock_def

lemma holds_loadI: "holds p \<Longrightarrow> holds_load p"
  by (cases p) auto

lemma beta_inv:
  assumes i: "one_inv True holds_load n s" and t: "t < n" and b: "beta t s = Some s'"
  shows "one_inv True holds_load n s'"
proof -
  note move = one_move [OF i t holds_loadI] and f = one_facts [OF i t]
  show ?thesis
  proof (cases "pcs s t")
    case S_call
    have e: "s' = s\<lparr>instance_ptr := instance_ptr s, created := created s, built := built s, mutex := mutex s, pcs := (pcs s)(t := S_lock)\<rparr>"
      using b S_call by (simp add: beta_def sg_defs)
    show ?thesis unfolding e by (rule move) (use f(3) S_call in auto)
  next
    case S_lock
    have m: "mutex s = None" using b S_lock by (auto simp: beta_def sg_defs)
    have e: "s' = s\<lparr>instance_ptr := instance_ptr s, created := created s, built := built s, mutex := Some t, pcs := (pcs s)(t := S_check)\<rparr>"
      using b S_lock by (auto simp: beta_def sg_defs)
    show ?thesis unfolding e by (rule move) (use f(3) S_lock m in auto)
  next
    case S_check
    show ?thesis
    proof (cases "instance_ptr s")
      case None
      have e: "s' = s\<lparr>instance_ptr := instance_ptr s, created := created s, built := built s, mutex := mutex s, pcs := (pcs s)(t := S_alloc)\<rparr>"
      proof -
        have "s' = goto t S_alloc s" using b S_check None by (simp add: beta_def)
        then show ?thesis by (simp add: goto_def)
      qed
      show ?thesis unfolding e
        by (rule move) (use f(1) one_check [OF i t holds_loadI S_check None] S_check None in simp_all)
    next
      case (Some m)
      have e: "s' = s\<lparr>instance_ptr := instance_ptr s, created := created s, built := built s, mutex := mutex s, pcs := (pcs s)(t := S_load)\<rparr>"
      proof -
        have "s' = goto t (S_load) s" using b S_check Some by (simp add: beta_def)
        then show ?thesis by (simp add: goto_def)
      qed
      show ?thesis unfolding e by (rule move) (use f(1,3) S_check Some in auto)
    qed
  next
    case S_alloc
    have e: "s' = s\<lparr>instance_ptr := instance_ptr s, created := created s + 1, built := built s, mutex := mutex s, pcs := (pcs s)(t := S_ctor (created s))\<rparr>"
      using b S_alloc by (simp add: beta_def sg_defs)
    show ?thesis unfolding e by (rule move) (use f(1,2) S_alloc in simp_all)
  next
    case (S_ctor m)
    have e: "s' = s\<lparr>instance_ptr := instance_ptr s, created := created s, built := insert m (built s), mutex := mutex s, pcs := (pcs s)(t := S_store m)\<rparr>"
      using b S_ctor by (simp add: beta_def sg_defs)
    show ?thesis unfolding e by (rule move) (use f(1,2) S_ctor in simp_all)
  next
    case (S_store m)
    have e: "s' = s\<lparr>instance_ptr := Some m, created := created s, built := built s, mutex := mutex s, pcs := (pcs s)(t := S_load)\<rparr>"
      using b S_store by (simp add: beta_def sg_defs)
    show ?thesis unfolding e by (rule move) (use f(1,2) S_store in simp_all)
  next
    case S_load
    have e: "s' = s\<lparr>instance_ptr := instance_ptr s, created := created s, built := built s, mutex := mutex s, pcs := (pcs s)(t := S_unlock (instance_ptr s))\<rparr>"
      using b S_load by (simp add: beta_def sg_defs)
    show ?thesis unfolding e by (rule move) (use f(1,2,3) S_load in auto)
  next
    case (S_unlock r)
    have e: "s' = s\<lparr>instance_ptr := instance_ptr s, created := created s, built := built s, mutex := None, pcs := (pcs s)(t := S_ret r)\<rparr>"
      using b S_unlock by (simp add: beta_def sg_defs)
    show ?thesis unfolding e by (rule move) (use f(1,2,3) S_unlock in auto)
  next
    case (S_ret r)
    then show ?thesis using b by (simp add: beta_def)
  qed
qed

lemma gamma_inv:
  assumes i: "one_inv False holds n s" and t: "t < n" and b: "gamma False t s = Some s'"
  shows "one_inv False holds n s'"
proof -
  note move = one_move [OF i t] and f = one_facts [OF i t]
  show ?thesis
  proof (cases "pcs s t")
    case S_call
    show ?thesis
    proof (cases "instance_ptr s")
      case None
      have "s' = goto t S_lock s" using b S_call None by (simp add: gamma_def)
      then have e: "s' = s\<lparr>instance_ptr := instance_ptr s, created := created s, built := built s, mutex := mutex s, pcs := (pcs s)(t := S_lock)\<rparr>"
        by (simp add: goto_def)
      show ?thesis unfolding e by (rule move) (use f(3) S_call None in auto)
    next
      case (Some m)
      have e: "s' = s\<lparr>instance_ptr := instance_ptr s, created := created s, built := built s, mutex := mutex s, pcs := (pcs s)(t := S_load)\<rparr>"
      proof -
        have "s' = goto t (S_load) s" using b S_call Some by (simp add: gamma_def)
        then show ?thesis by (simp add: goto_def)
      qed
      show ?thesis unfolding e by (rule move) (use f(3) S_call Some in auto)
    qed
  next
    case S_lock
    have m: "mutex s = None" using b S_lock by (auto simp: gamma_def sg_defs)
    have e: "s' = s\<lparr>instance_ptr := instance_ptr s, created := created s, built := built s, mutex := Some t, pcs := (pcs s)(t := S_check)\<rparr>"
      using b S_lock by (auto simp: gamma_def sg_defs)
    show ?thesis unfolding e by (rule move) (use f(3) S_lock m in auto)
  next
    case S_check
    show ?thesis
    proof (cases "instance_ptr s")
      case None
      have "s' = goto t S_alloc s" using b S_check None by (simp add: gamma_def)
      then have e: "s' = s\<lparr>instance_ptr := instance_ptr s, created := created s, built := built s, mutex := mutex s, pcs := (pcs s)(t := S_alloc)\<rparr>"
        by (simp add: goto_def)
      show ?thesis unfolding e
        by (rule move) (use f(1) one_check [OF i t _ S_check None] S_check None in simp_all)
    next
      case (Some m)
      have e: "s' = s\<lparr>instance_ptr := instance_ptr s, created := created s, built := built s, mutex := mutex s, pcs := (pcs s)(t := S_unlock None)\<rparr>"
      proof -
        have "s' = goto t (S_unlock None) s" using b S_check Some by (simp add: gamma_def)
        then show ?thesis by (simp add: goto_def)
      qed
      show ?thesis unfolding e by (rule move) (use f(1,3) S_check Some in auto)
    qed
  next
    case S_alloc
    have e: "s' = s\<lparr>instance_ptr := instance_ptr s, created := created s + 1, built := built s, mutex := mutex s, pcs := (pcs s)(t := S_ctor (created s))\<rparr>"
      using b S_alloc by (simp add: gamma_def sg_defs)
    show ?thesis unfolding e by (rule move) (use f(1,2) S_alloc in simp_all)
  next
    case (S_ctor m)
    have e: "s' = s\<lparr>instance_ptr := instance_ptr s, created := created s, built := insert m (built s), mutex := mutex s, pcs := (pcs s)(t := S_store m)\<rparr>"
      using b S_ctor by (simp add: gamma_def sg_defs)
    show ?thesis unfolding e by (rule move) (use f(1,2) S_ctor in simp_all)
  next
    case (S_store m)
    have e: "s' = s\<lparr>instance_ptr := Some m, created := created s, built := built s, mutex := mutex s, pcs := (pcs s)(t := S_unlock None)\<rparr>"
      using b S_store by (simp add: gamma_def sg_defs)
    show ?thesis unfolding e by (rule move) (use f(1,2) S_store in simp_all)
  next
    case S_load
    have e: "s' = s\<lparr>instance_ptr := instance_ptr s, created := created s, built := built s, mutex := mutex s, pcs := (pcs s)(t := S_ret (instance_ptr s))\<rparr>"
      using b S_load by (simp add: gamma_def sg_defs)
    show ?thesis unfolding e by (rule move) (use f(1,2,3) S_load in auto)
  next
    case (S_unlock r)
    have e: "s' = s\<lparr>instance_ptr := instance_ptr s, created := created s, built := built s, mutex := None, pcs := (pcs s)(t := S_load)\<rparr>"
      using b S_unlock by (simp add: gamma_def sg_defs)
    show ?thesis unfolding e by (rule move) (use f(1,2,3) S_unlock in auto)
  next
    case (S_ret r)
    then show ?thesis using b by (simp add: gamma_def)
  qed
qed

text \<open>Every step of a thread lowers its rank, and somebody can move until all have returned.\<close>

lemma sg_rank_move:
  assumes t: "t < n" and p: "pcs s' = (pcs s)(t := p')" and r: "pc_rank b p' < pc_rank b (pcs s t)"
  shows "sg_rank b n s' < sg_rank b n s"
proof -
  have nn: "0 \<le> pc_rank b p" for p by (cases p) auto
  have "pc_rank b (pcs s t) \<le> tot (pc_rank b) (pcs s) n" by (rule tot_ge_one_thread [OF nn t])
  then show ?thesis using t r nn [of p'] by (simp add: sg_rank_def p)
qed

lemma beta_rank: "t < n \<Longrightarrow> beta t s = Some s' \<Longrightarrow> sg_rank True n s' < sg_rank True n s"
  by (cases "pcs s t") (auto simp: beta_def sg_defs intro!: sg_rank_move split: if_splits)

lemma gamma_rank: "t < n \<Longrightarrow> gamma False t s = Some s' \<Longrightarrow> sg_rank False n s' < sg_rank False n s"
  by (cases "pcs s t") (auto simp: gamma_def sg_defs intro!: sg_rank_move split: if_splits)

lemma one_progress:
  assumes i: "one_inv b hold n s" and r: "\<not> returned n s"
    and h: "\<And>p. hold p \<Longrightarrow> p \<noteq> S_lock \<and> (\<forall>r. p \<noteq> S_ret r)"
    and g: "\<And>t. pcs s t \<noteq> S_lock \<or> mutex s = None \<Longrightarrow> (\<forall>r. pcs s t \<noteq> S_ret r) \<Longrightarrow> get t s \<noteq> None"
  shows "\<exists>t\<in>UNIV. \<exists>s'. step get n t s = Some s'"
proof (cases "mutex s")
  case None
  obtain t where t: "t < n" "\<forall>r. pcs s t \<noteq> S_ret r" using r by (auto simp: returned_def)
  with g [of t] None show ?thesis by (auto simp: step_def)
next
  case (Some t)
  then have t: "t < n" using i by (simp add: one_inv_def)
  then have "hold (pcs s t)" using one_facts(1) [OF i t] Some by simp
  with g [of t] h [OF this] t show ?thesis by (auto simp: step_def)
qed

lemma beta_moves: "pcs s t \<noteq> S_lock \<or> mutex s = None \<Longrightarrow> (\<forall>r. pcs s t \<noteq> S_ret r) \<Longrightarrow> beta t s \<noteq> None"
  by (cases "pcs s t") (simp_all add: beta_def sg_defs mutex_lock_def)

lemma gamma_moves: "pcs s t \<noteq> S_lock \<or> mutex s = None \<Longrightarrow> (\<forall>r. pcs s t \<noteq> S_ret r) \<Longrightarrow> gamma False t s \<noteq> None"
  by (cases "pcs s t") (simp_all add: gamma_def sg_defs mutex_lock_def)

interpretation beta: terminating_system "step beta n" start "one_inv True holds_load n" "sg_rank True n" "returned n" UNIV for n
proof
  show "one_inv True holds_load n start" by (simp add: one_start)
next
  fix s t s' assume i: "one_inv True holds_load n s" and s: "step beta n t s = Some s'"
  then have t: "t < n" "beta t s = Some s'" by (simp_all add: step_def split: if_splits)
  show "one_inv True holds_load n s'" by (rule beta_inv [OF i t])
  show "sg_rank True n s' < sg_rank True n s" by (rule beta_rank [OF t])
next
  fix s assume i: "one_inv True holds_load n s" and r: "\<not> returned n s"
  show "\<exists>t\<in>UNIV. \<exists>s'. step beta n t s = Some s'" by (rule one_progress [OF i r _ beta_moves]) auto
qed

interpretation gamma: terminating_system "step (gamma False) n" start "one_inv False holds n" "sg_rank False n" "returned n" UNIV for n
proof
  show "one_inv False holds n start" by (simp add: one_start)
next
  fix s t s' assume i: "one_inv False holds n s" and s: "step (gamma False) n t s = Some s'"
  then have t: "t < n" "gamma False t s = Some s'" by (simp_all add: step_def split: if_splits)
  show "one_inv False holds n s'" by (rule gamma_inv [OF i t])
  show "sg_rank False n s' < sg_rank False n s" by (rule gamma_rank [OF t])
next
  fix s assume i: "one_inv False holds n s" and r: "\<not> returned n s"
  show "\<exists>t\<in>UNIV. \<exists>s'. step (gamma False) n t s = Some s'" by (rule one_progress [OF i r _ gamma_moves]) auto
qed

definition single :: "nat \<Rightarrow> sg \<Rightarrow> bool" where
  "single n s \<longleftrightarrow> created s \<le> 1 \<and> (\<forall>t<n. \<forall>r. pcs s t = S_ret r \<longrightarrow> r = Some 0 \<and> 0 \<in> built s)"

lemma one_single: "one_inv b hold n s \<Longrightarrow> single n s"
proof -
  assume i: "one_inv b hold n s"
  have "created s \<le> 1"
  proof (cases "instance_ptr s")
    case None
    then consider "created s = 0" | u where "u < n" "building (pcs s u)" using i by (auto simp: one_inv_def building_iff)
    then show ?thesis
    proof cases
      case (2 u)
      with i have "phase b (instance_ptr s) (created s) (built s) (pcs s u)" by (simp add: one_inv_def)
      with 2 show ?thesis by (cases "pcs s u") auto
    qed simp
  qed (use i in \<open>auto simp: one_inv_def\<close>)
  moreover have "r = Some 0 \<and> 0 \<in> built s" if "t < n" "pcs s t = S_ret r" for t r
    using one_facts(2,3) [OF i that(1)] that(2) by auto
  ultimately show ?thesis by (simp add: single_def)
qed

section \<open>Properties\<close>

text \<open>
  The version with a lock around everything: with any number of threads and any scheduling at most one object is created, every call that
  has returned has returned it, constructed, and all calls return.
\<close>

theorem singleton_beta_correct:
  assumes "run (step beta n) ts start = Some s"
  shows "single n s \<and> length ts \<le> 8 * n \<and> (stuck UNIV (step beta n) s \<longrightarrow> returned n s)"
  using one_single [OF beta.run_inv [OF assms]] beta.run_bounded [OF assms] beta.stuck_final [OF assms]
  by (simp add: sg_rank_def start_def nat_mult_distrib)

theorem singleton_beta_correct_witness:
  "\<exists>s. run (step beta 2) [0, 0, 1, 0, 0, 0, 0, 0, 0, 1, 1, 1, 1] start = Some s \<and> pcs s 1 = S_ret (Some 0) \<and> single 2 s"
proof -
  obtain s where s: "run (step beta 2) [0, 0, 1, 0, 0, 0, 0, 0, 0, 1, 1, 1, 1] start = Some s" "pcs s 1 = S_ret (Some 0)"
    by (simp add: step_def beta_def sg_defs start_def mutex_lock_def)
  with singleton_beta_correct [OF s(1)] show ?thesis by blast
qed

text \<open>C13. The same of double-checked locking, if the pointer is not stored before the object is constructed.\<close>

theorem singleton_gamma_correct:
  assumes "run (step (gamma False) n) ts start = Some s"
  shows "single n s \<and> length ts \<le> 8 * n \<and> (stuck UNIV (step (gamma False) n) s \<longrightarrow> returned n s)"
  using one_single [OF gamma.run_inv [OF assms]] gamma.run_bounded [OF assms] gamma.stuck_final [OF assms]
  by (simp add: sg_rank_def start_def nat_mult_distrib)

definition first_then_second :: "nat list" where
  "first_then_second = [0, 1, 0, 0, 0, 0, 0, 0, 0, 1, 1, 1, 1]"

theorem singleton_gamma_correct_witness:
  "\<exists>s. run (step (gamma False) 2) first_then_second start = Some s \<and> pcs s 0 = S_ret (Some 0) \<and> pcs s 1 = S_ret (Some 0) \<and> single 2 s"
proof -
  obtain s where s: "run (step (gamma False) 2) first_then_second start = Some s" "pcs s 0 = S_ret (Some 0)" "pcs s 1 = S_ret (Some 0)"
    by (simp add: first_then_second_def step_def gamma_def sg_defs start_def mutex_lock_def)
  with singleton_gamma_correct [OF s(1)] show ?thesis by blast
qed

text \<open>Otherwise a thread can return the pointer of an object that is not constructed, as the comment at the end of the file says.\<close>

lemma singleton_gamma_early:
  "\<exists>s. run (step (gamma True) 2) [0, 0, 0, 0, 0, 1, 1] start = Some s \<and> pcs s 1 = S_ret (Some 0) \<and> 0 \<notin> built s"
  by (simp add: step_def gamma_def sg_defs start_def mutex_lock_def)

text \<open>A thread whose \<open>tmp\<close> is null creates an object, whatever the others have stored meanwhile.\<close>

lemma release_creates:
  assumes "t < n" and "pcs s t = S_load" and "tmps s t = None" and "mutex s = None"
  shows "\<exists>s'. run (step release n) (replicate 7 t) s = Some s' \<and> created s' = created s + 1 \<and> mutex s' = None \<and>
    pcs s' = (pcs s)(t := S_ret (Some (created s))) \<and> (\<forall>u. u \<noteq> t \<longrightarrow> tmps s' u = tmps s u)"
  using assms by (simp add: numeral_eq_Suc step_def release_def sg_defs mutex_lock_def)

lemma release_loads:
  assumes "k \<le> n"
  shows "run (step release n) [0..<k] start = Some (start\<lparr>pcs := (\<lambda>t. if t < k then S_load else S_call)\<rparr>)"
  using assms
proof (induction k)
  case 0
  then show ?case by (simp add: start_def)
next
  case (Suc k)
  then show ?case
    by (auto simp: run_snoc step_def release_def goto_def start_def fun_eq_iff)
qed

lemma release_returns:
  assumes "k \<le> n"
  shows "\<exists>s. run (step release n) ([0..<n] @ concat (map (replicate 7) [0..<k])) start = Some s \<and> created s = k \<and> mutex s = None \<and>
    (\<forall>t<k. pcs s t = S_ret (Some t)) \<and> (\<forall>t. k \<le> t \<and> t < n \<longrightarrow> pcs s t = S_load \<and> tmps s t = None)"
  using assms
proof (induction k)
  case 0
  have "run (step release n) [0..<n] start = Some (start\<lparr>pcs := (\<lambda>t. if t < n then S_load else S_call)\<rparr>)"
    by (rule release_loads) simp
  then show ?case by (simp add: start_def)
next
  case (Suc k)
  then obtain s where s: "run (step release n) ([0..<n] @ concat (map (replicate 7) [0..<k])) start = Some s" "created s = k" "mutex s = None"
    "\<forall>t<k. pcs s t = S_ret (Some t)" "\<forall>t. k \<le> t \<and> t < n \<longrightarrow> pcs s t = S_load \<and> tmps s t = None" by auto
  from release_creates [of k n s] s(3,5) Suc.prems obtain s' where s': "run (step release n) (replicate 7 k) s = Some s'"
    "created s' = created s + 1" "mutex s' = None" "pcs s' = (pcs s)(k := S_ret (Some (created s)))" "\<forall>u. u \<noteq> k \<longrightarrow> tmps s' u = tmps s u" by auto
  have "run (step release n) (([0..<n] @ concat (map (replicate 7) [0..<k])) @ replicate 7 k) start = Some s'"
    using s(1) s'(1) by (simp only: run_append [of _ _ "replicate 7 k"]) simp
  then show ?case using s s' by (intro exI [of _ s']) (auto simp: less_Suc_eq)
qed

text \<open>
  C20. The version with an atomic pointer does not give a single instance: for any number of threads there is a schedule in which every
  one of them creates an object and returns its own, as the second test looks at the local copy again, which the lock does not change.
\<close>

theorem singleton_release_many:
  "\<exists>ts s. run (step release n) ts start = Some s \<and> created s = n \<and> (\<forall>t<n. pcs s t = S_ret (Some t))"
  using release_returns [of n n] by blast

theorem singleton_release_many_witness:
  "\<exists>ts s. run (step release 3) ts start = Some s \<and> created s = 3 \<and> pcs s 0 = S_ret (Some 0) \<and> pcs s 2 = S_ret (Some 2)"
proof -
  from singleton_release_many [of 3] obtain ts s where s: "run (step release 3) ts start = Some s" "created s = 3"
    "\<forall>t<3. pcs s t = S_ret (Some t)" by blast
  then have "pcs s 0 = S_ret (Some 0)" "pcs s 2 = S_ret (Some 2)" by simp_all
  with s(1,2) show ?thesis by blast
qed

lemma singleton_alpha_two:
  "\<exists>s. run (step alpha 2) [0, 1, 0, 0, 0, 1, 1, 1] start = Some s \<and> created s = 2"
  by (simp add: step_def alpha_def sg_defs start_def)

text \<open>What holds is that no thread returns a null pointer or an object that is not constructed.\<close>

fun safe_pc :: "nat option \<Rightarrow> pc \<Rightarrow> bool" where
  "safe_pc p (S_store m) = (p = Some m)" | "safe_pc p (S_unlock r) = (p \<noteq> None)" | "safe_pc p (S_ret r) = (r = p \<and> p \<noteq> None)"
| "safe_pc p _ = True"

definition safe_inv :: "sg \<Rightarrow> bool" where
  "safe_inv s \<longleftrightarrow> (\<forall>t. safe_pc (tmps s t) (pcs s t)) \<and> (\<forall>t m. tmps s t = Some m \<longrightarrow> m \<in> built s) \<and>
     (\<forall>m. instance_ptr s = Some m \<longrightarrow> m \<in> built s)"

lemma release_safe:
  assumes i: "safe_inv s" and r: "release t s = Some s'"
  shows "safe_inv s'"
proof -
  have p: "safe_pc (tmps s t) (pcs s t)" using i by (simp add: safe_inv_def)
  show ?thesis
    by (cases "pcs s t"; use i r p in \<open>auto simp: release_def sg_defs safe_inv_def split: if_splits\<close>)
qed

interpretation release: invariant_system "step release n" start safe_inv for n
proof
  show "safe_inv start" by (simp add: safe_inv_def start_def)
next
  fix s t s' assume "safe_inv s" "step release n t s = Some s'"
  then show "safe_inv s'" using release_safe by (auto simp: step_def split: if_splits)
qed

lemma singleton_release_built:
  "run (step release n) ts start = Some s \<Longrightarrow> pcs s t = S_ret r \<Longrightarrow> \<exists>m. r = Some m \<and> m \<in> built s"
proof -
  assume r: "run (step release n) ts start = Some s" and p: "pcs s t = S_ret r"
  have "safe_inv s" by (rule release.run_inv [OF r])
  moreover from this have "safe_pc (tmps s t) (pcs s t)" by (simp add: safe_inv_def)
  ultimately show ?thesis using p by (auto simp: safe_inv_def)
qed

end
