(* ===== verification/Expr_Interpreter.thy ===== *)
theory Expr_Interpreter
  imports Prelude
begin

text \<open>
  \<^verbatim>\<open>src/dp/interpreter/release\<close>: expressions over one-letter variables with \<open>+\<close> and \<open>-\<close>, built with a stack by \<open>Analyse\<close>, evaluated by
  \<open>Interpret\<close> and deleted by \<open>Release\<close>.
\<close>

section \<open>Model\<close>

datatype expr = VarExpression char | AddExpression expr expr | SubExpression expr expr

text \<open>
  The loop of \<open>Analyse\<close> on what is left of the string. An operator takes the top of the stack, which is left there, and the next
  character; behind the last one there is a NUL. \<open>top\<close> of an empty stack is undefined.
\<close>

fun operator_expr :: "char \<Rightarrow> expr \<Rightarrow> expr \<Rightarrow> expr" where
  "operator_expr c l r = (if c = CHR ''+'' then AddExpression l r else SubExpression l r)"

definition is_operator :: "char \<Rightarrow> bool" where
  "is_operator c \<longleftrightarrow> c = CHR ''+'' \<or> c = CHR ''-''"

fun analyse_loop :: "string \<Rightarrow> expr list \<Rightarrow> expr list option" where
  "analyse_loop [] exp_stack = Some exp_stack"
| "analyse_loop [c] exp_stack = (if is_operator c
     then (case exp_stack of [] \<Rightarrow> None | left # _ \<Rightarrow> Some (operator_expr c left (VarExpression NUL) # exp_stack))
     else Some (VarExpression c # exp_stack))"
| "analyse_loop (c # d # s) exp_stack = (if is_operator c
     then (case exp_stack of [] \<Rightarrow> None | left # _ \<Rightarrow> analyse_loop s (operator_expr c left (VarExpression d) # exp_stack))
     else analyse_loop (d # s) (VarExpression c # exp_stack))"

definition Analyse :: "string \<Rightarrow> expr option" where
  "Analyse exp_str = (case analyse_loop exp_str [] of Some (e # _) \<Rightarrow> Some e | _ \<Rightarrow> None)"

text \<open>
  \<open>var[key]\<close> of an \<open>unordered_map\<close> inserts 0 for a key that is not there. A signed overflow is \<open>None\<close>.
\<close>

type_synonym vars = "char \<Rightarrow> int option"

definition index_var :: "vars \<Rightarrow> char \<Rightarrow> int \<times> vars" where
  "index_var var key = (case var key of Some v \<Rightarrow> (v, var) | None \<Rightarrow> (0, var(key \<mapsto> 0)))"

definition checked_int :: "int \<Rightarrow> int option" where
  "checked_int x = (if - 2147483648 \<le> x \<and> x \<le> INT_MAX then Some x else None)"

fun Interpret :: "expr \<Rightarrow> vars \<Rightarrow> (int \<times> vars) option" where
  "Interpret (VarExpression key) var = Some (index_var var key)"
| "Interpret (AddExpression left right) var = Option.bind (Interpret left var) (\<lambda>(a, var).
     Option.bind (Interpret right var) (\<lambda>(b, var). map_option (\<lambda>x. (x, var)) (checked_int (a + b))))"
| "Interpret (SubExpression left right) var = Option.bind (Interpret left var) (\<lambda>(a, var).
     Option.bind (Interpret right var) (\<lambda>(b, var). map_option (\<lambda>x. (x, var)) (checked_int (a - b))))"

text \<open>\<open>Release\<close>: the objects in the order in which they are deleted.\<close>

fun Release :: "expr \<Rightarrow> expr list" where
  "Release (VarExpression key) = [VarExpression key]"
| "Release (AddExpression left right) = Release left @ Release right @ [AddExpression left right]"
| "Release (SubExpression left right) = Release left @ Release right @ [SubExpression left right]"

text \<open>The objects that \<open>Analyse\<close> allocates for a string: one for a variable, two for an operator with its operand.\<close>

fun allocated :: "string \<Rightarrow> nat" where
  "allocated [] = 0"
| "allocated [c] = (if is_operator c then 2 else 1)"
| "allocated (c # d # s) = (if is_operator c then 2 + allocated s else 1 + allocated (d # s))"

definition main_vars :: vars where
  "main_vars = [CHR ''a'' \<mapsto> 5, CHR ''b'' \<mapsto> 2, CHR ''c'' \<mapsto> 1, CHR ''d'' \<mapsto> 6]"

definition interpreter_main :: "int option" where
  "interpreter_main = Option.bind (Analyse ''a+b-c+d'') (\<lambda>e. map_option fst (Interpret e main_vars))"

section \<open>The reference: a sum from left to right\<close>

text \<open>A formula is a first variable and a list of signs, \<open>True\<close> for \<open>+\<close>, with variables.\<close>

type_synonym formula = "char \<times> (bool \<times> char) list"

definition unparse :: "formula \<Rightarrow> string" where
  "unparse f = fst f # concat (map (\<lambda>(pl, c). [if pl then CHR ''+'' else CHR ''-'', c]) (snd f))"

definition wf_formula :: "formula \<Rightarrow> bool" where
  "wf_formula f \<longleftrightarrow> \<not> is_operator (fst f)"

fun build :: "expr \<Rightarrow> (bool \<times> char) list \<Rightarrow> expr" where
  "build e [] = e"
| "build e ((pl, c) # fs) = build (if pl then AddExpression e (VarExpression c) else SubExpression e (VarExpression c)) fs"

fun signed_sum :: "(char \<Rightarrow> int) \<Rightarrow> int \<Rightarrow> (bool \<times> char) list \<Rightarrow> int option" where
  "signed_sum val acc [] = Some acc"
| "signed_sum val acc ((pl, c) # fs) = Option.bind (checked_int (if pl then acc + val c else acc - val c)) (\<lambda>a. signed_sum val a fs)"

definition value_of :: "vars \<Rightarrow> char \<Rightarrow> int" where
  "value_of var c = (case var c of Some v \<Rightarrow> v | None \<Rightarrow> 0)"

abbreviation ops_string :: "(bool \<times> char) list \<Rightarrow> string" where
  "ops_string fs \<equiv> concat (map (\<lambda>(pl, c). [if pl then CHR ''+'' else CHR ''-'', c]) fs)"

lemma analyse_ops: "\<exists>st'. analyse_loop (ops_string fs) (e # st) = Some (build e fs # st')"
proof (induction fs arbitrary: e st)
  case (Cons f fs)
  obtain pl c where f: "f = (pl, c)" by (cases f)
  show ?case using Cons.IH by (cases pl) (auto simp: f is_operator_def)
qed simp

lemma Analyse_unparse:
  assumes "wf_formula f"
  shows "Analyse (unparse f) = Some (build (VarExpression (fst f)) (snd f))"
proof -
  have "analyse_loop (unparse f) [] = analyse_loop (ops_string (snd f)) [VarExpression (fst f)]"
    using assms by (cases "snd f") (auto simp: unparse_def wf_formula_def split: prod.splits)
  then show ?thesis using analyse_ops [of "snd f" "VarExpression (fst f)" "[]"] by (auto simp: Analyse_def)
qed

text \<open>The variables that an evaluation adds do not change any value.\<close>

lemma index_var_fst: "fst (index_var var key) = value_of var key"
  by (simp add: index_var_def value_of_def split: option.splits)

lemma index_var_keeps: "value_of (snd (index_var var key)) = value_of var"
  by (auto simp: index_var_def value_of_def split: option.splits)

lemma Interpret_keeps: "Interpret e var = Some (x, var') \<Longrightarrow> value_of var' = value_of var"
proof (induction e arbitrary: var x var')
  case (VarExpression key)
  then have "var' = snd (index_var var key)" by simp
  then show ?case by (simp add: index_var_keeps)
next
  case (AddExpression l r)
  then obtain a v1 b where "Interpret l var = Some (a, v1)" "Interpret r v1 = Some (b, var')"
    by (auto simp: bind_eq_Some_conv)
  with AddExpression.IH show ?case by metis
next
  case (SubExpression l r)
  then obtain a v1 b where "Interpret l var = Some (a, v1)" "Interpret r v1 = Some (b, var')"
    by (auto simp: bind_eq_Some_conv)
  with SubExpression.IH show ?case by metis
qed

lemma Interpret_step:
  "map_option fst (Interpret (if pl then AddExpression e (VarExpression c) else SubExpression e (VarExpression c)) var) =
   Option.bind (map_option fst (Interpret e var)) (\<lambda>a. checked_int (if pl then a + value_of var c else a - value_of var c))"
proof (cases "Interpret e var")
  case (Some p)
  obtain a v1 where p: "p = (a, v1)" by (cases p)
  have "value_of v1 = value_of var" using Interpret_keeps [of e var a v1] Some p by simp
  then have i: "fst (index_var v1 c) = value_of var c" by (simp add: index_var_fst)
  obtain b v2 where q: "index_var v1 c = (b, v2)" by (cases "index_var v1 c")
  with i have "b = value_of var c" by simp
  then show ?thesis using Some p q by (cases pl) (auto simp: option.map_comp o_def option.map_ident)
qed (cases pl; simp)

lemma Interpret_build:
  "map_option fst (Interpret (build e fs) var) = Option.bind (map_option fst (Interpret e var)) (\<lambda>a. signed_sum (value_of var) a fs)"
proof (induction fs arbitrary: e)
  case (Cons f fs)
  obtain pl c where f: "f = (pl, c)" by (cases f)
  show ?case
    unfolding f build.simps Cons.IH Interpret_step signed_sum.simps
    by (cases "Interpret e var") simp_all
qed simp

section \<open>Memory\<close>

lemma Release_length_build: "length (Release (build e fs)) = length (Release e) + 2 * length fs"
proof (induction fs arbitrary: e)
  case (Cons f fs)
  obtain pl c where f: "f = (pl, c)" by (cases f)
  show ?case by (cases pl) (simp_all add: f Cons.IH)
qed simp

lemma allocated_ops: "allocated (ops_string fs) = 2 * length fs"
proof (induction fs)
  case (Cons f fs)
  obtain pl c where f: "f = (pl, c)" by (cases f)
  show ?case using Cons.IH by (cases pl) (simp_all add: f is_operator_def)
qed simp

section \<open>Properties\<close>

text \<open>
  C18. \<open>Analyse\<close> and \<open>Interpret\<close> compute what the formula means: the sum of the values of its variables, with their signs, from left to right, with 0 for
  a variable without a value; they give no result exactly when a partial sum does not fit into an \<open>int\<close>.
\<close>

theorem interpreter_equivalent:
  assumes "\<not> is_operator c"
  shows "Option.bind (Analyse (unparse (c, fs))) (\<lambda>e. map_option fst (Interpret e var)) = signed_sum (value_of var) (value_of var c) fs"
proof -
  have "Analyse (unparse (c, fs)) = Some (build (VarExpression c) fs)"
    using Analyse_unparse [of "(c, fs)"] assms by (simp add: wf_formula_def)
  then show ?thesis using Interpret_build [of "VarExpression c" fs var] by (simp add: index_var_fst)
qed

theorem interpreter_equivalent_witness: "interpreter_main = Some 12"
proof -
  have u: "''a+b-c+d'' = unparse (CHR ''a'', [(True, CHR ''b''), (False, CHR ''c''), (True, CHR ''d'')])" by (simp add: unparse_def)
  have "\<not> is_operator (CHR ''a'')" by (simp add: is_operator_def)
  from interpreter_equivalent [OF this, of "[(True, CHR ''b''), (False, CHR ''c''), (True, CHR ''d'')]" main_vars]
  show ?thesis unfolding interpreter_main_def u
    by (simp add: main_vars_def value_of_def checked_int_def INT_MAX_def)
qed

text \<open>\<open>Release\<close> deletes as many objects as \<open>Analyse\<close> has allocated for a well-formed formula.\<close>

lemma interpreter_no_leak:
  assumes "\<not> is_operator c"
  shows "\<exists>e. Analyse (unparse (c, fs)) = Some e \<and> length (Release e) = allocated (unparse (c, fs))"
proof -
  have "allocated (unparse (c, fs)) = 1 + 2 * length fs"
    using assms allocated_ops [of fs] by (cases fs) (auto simp: unparse_def split: prod.splits)
  then show ?thesis using Analyse_unparse [of "(c, fs)"] assms by (simp add: wf_formula_def Release_length_build)
qed

text \<open>Two variables side by side: the first one is lost and not deleted. An operator at the beginning is undefined.\<close>

lemma interpreter_leak: "Analyse ''ab'' = Some (VarExpression (CHR ''b'')) \<and> length (Release (VarExpression (CHR ''b''))) < allocated ''ab''"
  by (simp add: Analyse_def is_operator_def)

lemma interpreter_leading_operator: "Analyse ''+a'' = None"
  by (simp add: Analyse_def is_operator_def)

end
