(* ===== verification/Design_Patterns.thy ===== *)
theory Design_Patterns
  imports Prelude
begin

text \<open>
  Examples of \<^verbatim>\<open>src/dp\<close>: state, composite, chain of responsibility, command, observer, flyweight, strategy, memento,
  visitor, template method and builder, in their final versions (\<^verbatim>\<open>release\<close>), and the first version (\<^verbatim>\<open>alpha\<close>) of the state example. An object is a value or, where its identity
  matters, a number. The output is a list of lines; undefined behaviour is \<open>None\<close>.
\<close>

section \<open>State\<close>

text \<open>\<^verbatim>\<open>state/alpha\<close>: an enumeration and two switches.\<close>

datatype network_state = NetworkOpen | NetworkClose | NetworkConnect

datatype op = Op1 | Op2

definition alpha_Operation1 :: "network_state \<Rightarrow> network_state \<times> string" where
  "alpha_Operation1 state = (case state of
     NetworkOpen \<Rightarrow> (NetworkClose, ''NetworkProcessor::Operation1() on NetworkOpen'')
   | NetworkClose \<Rightarrow> (NetworkConnect, ''NetworkProcessor::Operation1() on NetworkClose'')
   | NetworkConnect \<Rightarrow> (NetworkOpen, ''NetworkProcessor::Operation1() on NetworkConnect''))"

definition alpha_Operation2 :: "network_state \<Rightarrow> network_state \<times> string" where
  "alpha_Operation2 state = (case state of
     NetworkOpen \<Rightarrow> (NetworkConnect, ''NetworkProcessor::Operation2() on NetworkOpen'')
   | NetworkClose \<Rightarrow> (NetworkOpen, ''NetworkProcessor::Operation2() on NetworkClose'')
   | NetworkConnect \<Rightarrow> (NetworkClose, ''NetworkProcessor::Operation2() on NetworkConnect''))"

text \<open>
  \<^verbatim>\<open>state/release\<close>: one shared object for every state, with a member \<open>next_\<close> that an operation sets and the processor
  then reads. The store \<open>nexts\<close> holds this member of the three objects; it has no value before the first operation.
\<close>

datatype state_obj = OpenState | CloseState | ConnectState

type_synonym nexts = "state_obj \<Rightarrow> state_obj option"

fun set_next_of :: "op \<Rightarrow> state_obj \<Rightarrow> state_obj" where
  "set_next_of Op1 CloseState = ConnectState" | "set_next_of Op2 CloseState = OpenState"
| "set_next_of Op1 ConnectState = OpenState" | "set_next_of Op2 ConnectState = CloseState"
| "set_next_of Op1 OpenState = CloseState" | "set_next_of Op2 OpenState = ConnectState"

fun obj_name :: "state_obj \<Rightarrow> string" where
  "obj_name OpenState = ''OpenState''" | "obj_name CloseState = ''CloseState''" | "obj_name ConnectState = ''ConnectState''"

definition obj_Operation :: "op \<Rightarrow> state_obj \<Rightarrow> nexts \<Rightarrow> nexts \<times> string" where
  "obj_Operation x this nx = (nx(this \<mapsto> set_next_of x this),
     obj_name this @ (case x of Op1 \<Rightarrow> ''::Operation1'' | Op2 \<Rightarrow> ''::Operation2''))"

definition processor_Operation :: "op \<Rightarrow> state_obj \<times> nexts \<Rightarrow> ((state_obj \<times> nexts) \<times> string) option" where
  "processor_Operation x p = (case p of (state, nx) \<Rightarrow> case obj_Operation x state nx of (nx, l) \<Rightarrow>
     map_option (\<lambda>state'. ((state', nx), l)) (nx state))"

fun alpha_run :: "op list \<Rightarrow> network_state \<Rightarrow> network_state" where
  "alpha_run [] s = s"
| "alpha_run (x # xs) s = alpha_run xs (fst (case x of Op1 \<Rightarrow> alpha_Operation1 s | Op2 \<Rightarrow> alpha_Operation2 s))"

fun release_run :: "op list \<Rightarrow> state_obj \<times> nexts \<Rightarrow> (state_obj \<times> nexts) option" where
  "release_run [] p = Some p"
| "release_run (x # xs) p = Option.bind (processor_Operation x p) (\<lambda>(p, l). release_run xs p)"

fun abs_state :: "state_obj \<Rightarrow> network_state" where
  "abs_state OpenState = NetworkOpen" | "abs_state CloseState = NetworkClose" | "abs_state ConnectState = NetworkConnect"

lemma processor_step:
  "\<exists>nx' l. processor_Operation x (state, nx) = Some ((set_next_of x state, nx'), l)"
  by (simp add: processor_Operation_def obj_Operation_def)

lemma set_next_abs: "abs_state (set_next_of x s) = fst (case x of Op1 \<Rightarrow> alpha_Operation1 (abs_state s) | Op2 \<Rightarrow> alpha_Operation2 (abs_state s))"
  by (cases s; cases x) (simp_all add: alpha_Operation1_def alpha_Operation2_def)

text \<open>
  C21. The two versions of the state example agree: whatever the operations and whatever other processors have left in the members of the shared
  state objects, the version with objects never uses a member without a value and goes through the states of the version with switches.
\<close>

theorem state_refines: "\<exists>s' nx'. release_run xs (s, nx) = Some (s', nx') \<and> abs_state s' = alpha_run xs (abs_state s)"
proof (induction xs arbitrary: s nx)
  case (Cons x xs)
  obtain nx' l where "processor_Operation x (s, nx) = Some ((set_next_of x s, nx'), l)" using processor_step by blast
  with Cons.IH [of "set_next_of x s" nx'] set_next_abs [of x s] show ?case by auto
qed simp

text \<open>Each operation undoes the other one.\<close>

lemma alpha_undo: "alpha_run [Op1, Op2] s = s" "alpha_run [Op2, Op1] s = s"
  by (cases s; simp add: alpha_Operation1_def alpha_Operation2_def)+

section \<open>Composite\<close>

datatype component = Leaf string | Composite string "component list"

fun process :: "component \<Rightarrow> string list" where
  "process (Leaf name) = [''Leaf('' @ name @ '')::Process'']"
| "process (Composite name elements) = (''Composite('' @ name @ '')::Process'') # concat (map process elements)"

definition Add :: "'a list \<Rightarrow> 'a \<Rightarrow> 'a list" where
  "Add elements element = elements @ [element]"

text \<open>
  \<open>Remove\<close>: \<open>elements_.erase(target)\<close> stands inside the loop. It is reached with \<open>target = end()\<close>, which is undefined, when the first element
  is another one, and not at all when the first element is the one to remove.
\<close>

definition Remove :: "'a list \<Rightarrow> 'a \<Rightarrow> 'a list option" where
  "Remove elements element = (case elements of [] \<Rightarrow> Some elements
     | e # es \<Rightarrow> if e = element then Some elements else None)"

fun leaves :: "component \<Rightarrow> string list" where
  "leaves (Leaf name) = [name]" | "leaves (Composite name elements) = concat (map leaves elements)"

fun nodes :: "component \<Rightarrow> nat" where
  "nodes (Leaf name) = 1" | "nodes (Composite name elements) = Suc (sum_list (map nodes elements))"

lemma process_visits: "length (process c) = nodes c"
proof (induction c)
  case (Composite name elements)
  have e: "map (length \<circ> process) elements = map nodes elements" using Composite by simp
  show ?case by (simp add: length_concat e)
qed simp

text \<open>\<open>Composite::Remove\<close> never removes anything: it leaves the list as it is or has no defined behaviour.\<close>

theorem composite_remove_nothing: "Remove elements element = Some es \<longrightarrow> es = elements"
  by (simp add: Remove_def split: list.splits)

section \<open>Chain of responsibility\<close>

datatype request_type = REQ_HANDLER1 | REQ_HANDLER2 | REQ_HANDLER3

type_synonym request = "string \<times> request_type"

fun handler_name :: "request_type \<Rightarrow> string" where
  "handler_name REQ_HANDLER1 = ''Handler1''" | "handler_name REQ_HANDLER2 = ''Handler2''" | "handler_name REQ_HANDLER3 = ''Handler3''"

text \<open>A handler, which serves one type, and those behind it, which the pointers \<open>next_chain_\<close> lead to.\<close>

definition CanHandleRequest :: "request_type \<Rightarrow> request \<Rightarrow> bool" where
  "CanHandleRequest h req \<longleftrightarrow> snd req = h"

fun Handle :: "request_type list \<Rightarrow> request \<Rightarrow> string list" where
  "Handle [] req = []"
| "Handle (h # hs) req = (if CanHandleRequest h req then [handler_name h @ ''::ProcessRequest: '' @ fst req] else Handle hs req)"

text \<open>A request is processed by one handler when there is one for its type, and otherwise by none.\<close>

lemma Handle_once: "Handle hs req = (if snd req \<in> set hs then [handler_name (snd req) @ ''::ProcessRequest: '' @ fst req] else [])"
  by (induction hs) (auto simp: CanHandleRequest_def)

section \<open>Command\<close>

datatype command = ConcreteCommand1 string | ConcreteCommand2 string | MacroCommand "command list"

fun Execute :: "command \<Rightarrow> string list" where
  "Execute (ConcreteCommand1 arg) = [''ConcreteCommand1::Execute'', ''Receiver::Action, '' @ arg]"
| "Execute (ConcreteCommand2 arg) = [''ConcreteCommand1::Execute'', ''Receiver::Action, '' @ arg]"
| "Execute (MacroCommand commands) = concat (map Execute commands)"

fun simple_commands :: "command \<Rightarrow> command list" where
  "simple_commands (MacroCommand commands) = concat (map simple_commands commands)"
| "simple_commands c = [c]"

lemma Execute_flat: "Execute c = concat (map Execute (simple_commands c))"
proof (induction c)
  case (MacroCommand cs)
  then have e: "map Execute cs = map (\<lambda>c. concat (map Execute (simple_commands c))) cs" by (intro map_cong) auto
  have "concat (map (\<lambda>c. concat (map Execute (simple_commands c))) cs) = concat (map Execute (concat (map simple_commands cs)))"
    by (induction cs) simp_all
  then show ?case unfolding Execute.simps simple_commands.simps e .
qed simp_all

text \<open>The second command prints the name of the first one.\<close>

lemma command_names: "Execute (ConcreteCommand2 arg) = Execute (ConcreteCommand1 arg)"
  by simp

section \<open>Observer\<close>

text \<open>
  \<^verbatim>\<open>observer/release\<close>: the splitter notifies the observers in its vector, numbers here, \<open>None\<close> for a null pointer. A notification is recorded with the
  number of the part and of the parts, of which the code passes the quotient as a \<open>float\<close>.
\<close>

definition AddProgress :: "'p option list \<Rightarrow> 'p option \<Rightarrow> 'p option list" where
  "AddProgress progress_vec progress = progress_vec @ [progress]"

text \<open>The first occurrence is erased; \<open>erase(end())\<close>, when there is none, is undefined.\<close>

definition RemoveProgress :: "'p option list \<Rightarrow> 'p option \<Rightarrow> 'p option list option" where
  "RemoveProgress progress_vec progress = (if progress \<in> set progress_vec then Some (remove1 progress progress_vec) else None)"

definition OnProgress :: "'p option list \<Rightarrow> nat \<times> nat \<Rightarrow> ('p \<times> (nat \<times> nat)) list" where
  "OnProgress progress_vec value' = List.map_filter (\<lambda>p. map_option (\<lambda>p. (p, value')) p) progress_vec"

definition Split :: "'p option list \<Rightarrow> int \<Rightarrow> ('p \<times> (nat \<times> nat)) list" where
  "Split progress_vec file_num = concat (map (\<lambda>i. OnProgress progress_vec (Suc i, nat file_num)) [0..<nat file_num])"

text \<open>\<open>ProgressBar::SetValue\<close>, with \<open>num = int(value * kTotal)\<close> as its argument.\<close>

definition kTotal :: int where "kTotal = 50"

definition SetValue :: "int \<Rightarrow> string" where
  "SetValue num = CHR 0x0D # replicate (nat num) (CHR ''>'') @ replicate (nat (kTotal - max num 0)) (CHR ''_'')"

lemma map_filter_count:
  "filter (\<lambda>x. fst x = p) (List.map_filter (\<lambda>q. map_option (\<lambda>q. (q, v)) q) qs) = replicate (count_list qs (Some p)) (p, v)"
proof (induction qs)
  case (Cons q qs)
  then show ?case by (cases q) (auto simp: map_filter_def)
qed (simp add: map_filter_def)

text \<open>
  An observer that is registered \<open>k\<close> times is notified of every part \<open>k\<close> times, of the parts in order, and so never when it is not registered;
  null pointers and other observers make no difference.
\<close>

theorem observer_notified:
  "map snd (filter (\<lambda>x. fst x = p) (Split progress_vec file_num)) =
     concat (map (\<lambda>i. replicate (count_list progress_vec (Some p)) (Suc i, nat file_num)) [0..<nat file_num])"
  by (simp add: Split_def filter_concat map_concat o_def OnProgress_def map_filter_count)

lemma observer_add_remove: "p \<notin> set ps \<Longrightarrow> RemoveProgress (AddProgress ps p) p = Some ps"
  by (simp add: RemoveProgress_def AddProgress_def remove1_append)

lemma progress_bar_width: "0 \<le> num \<Longrightarrow> num \<le> kTotal \<Longrightarrow> length (SetValue num) = 51"
  by (simp add: SetValue_def kTotal_def nat_diff_distrib)

section \<open>Flyweight\<close>

text \<open>\<open>font_pool_\<close> leads from a key to a font, a number; \<open>fonts\<close> are the keys of the fonts that exist.\<close>

record font_factory =
  font_pool :: "string \<Rightarrow> nat option"
  fonts :: "string list"

definition GetFont :: "string \<Rightarrow> font_factory \<Rightarrow> nat \<times> font_factory" where
  "GetFont key f = (case font_pool f key of Some font \<Rightarrow> (font, f)
     | None \<Rightarrow> (length (fonts f), \<lparr>font_pool = (font_pool f)(key \<mapsto> length (fonts f)), fonts = fonts f @ [key]\<rparr>))"

definition empty_factory :: font_factory where
  "empty_factory = \<lparr>font_pool = Map.empty, fonts = []\<rparr>"

fun get_fonts :: "string list \<Rightarrow> font_factory \<Rightarrow> nat list \<times> font_factory" where
  "get_fonts [] f = ([], f)"
| "get_fonts (key # keys) f = (case GetFont key f of (font, f) \<Rightarrow> case get_fonts keys f of (fs, f) \<Rightarrow> (font # fs, f))"

definition pool_inv :: "font_factory \<Rightarrow> bool" where
  "pool_inv f \<longleftrightarrow> (\<forall>key i. font_pool f key = Some i \<longleftrightarrow> i < length (fonts f) \<and> fonts f ! i = key)"

lemma GetFont_inv:
  assumes i: "pool_inv f" and g: "GetFont key f = (font, f')"
  shows "pool_inv f' \<and> font < length (fonts f') \<and> fonts f' ! font = key \<and> (\<exists>ks. fonts f' = fonts f @ ks) \<and> set (fonts f') = insert key (set (fonts f))"
proof (cases "font_pool f key")
  case None
  then have n: "\<not> (i < length (fonts f) \<and> fonts f ! i = key)" for i using i by (metis option.distinct(1) pool_inv_def)
  have f': "f' = \<lparr>font_pool = (font_pool f)(key \<mapsto> length (fonts f)), fonts = fonts f @ [key]\<rparr>" "font = length (fonts f)"
    using g None by (auto simp: GetFont_def)
  have "pool_inv f'" using i n unfolding f' pool_inv_def by (auto simp: nth_append less_Suc_eq)
  then show ?thesis unfolding f' by simp
next
  case (Some j)
  then have "f' = f" "font = j" using g by (auto simp: GetFont_def)
  moreover have "j < length (fonts f)" "fonts f ! j = key" using i Some by (auto simp: pool_inv_def)
  ultimately show ?thesis using i by (auto simp: insert_absorb)
qed

lemma get_fonts_inv:
  "pool_inv f \<Longrightarrow> get_fonts keys f = (is, f') \<Longrightarrow> pool_inv f' \<and> length is = length keys \<and> (\<exists>ks. fonts f' = fonts f @ ks) \<and>
     (\<forall>k<length keys. is ! k < length (fonts f') \<and> fonts f' ! (is ! k) = keys ! k) \<and> set (fonts f') = set keys \<union> set (fonts f)"
proof (induction keys arbitrary: f "is")
  case (Cons key keys)
  obtain font g js where g: "GetFont key f = (font, g)" and js: "get_fonts keys g = (js, f')" "is = font # js"
    using Cons.prems(2) by (auto split: prod.splits)
  note G = GetFont_inv [OF Cons.prems(1) g]
  note J = Cons.IH [OF conjunct1 [OF G] js(1)]
  obtain ks where ks: "fonts f' = fonts g @ ks" using J by blast
  have "font < length (fonts f') \<and> fonts f' ! font = key" using G ks by (simp add: nth_append)
  then have "\<forall>k<length (key # keys). is ! k < length (fonts f') \<and> fonts f' ! (is ! k) = (key # keys) ! k"
    using J js(2) by (auto simp: less_Suc_eq_0_disj)
  moreover have "\<exists>ks. fonts f' = fonts f @ ks" using G ks by auto
  ultimately show ?case using G J js(2) by auto
qed auto

text \<open>
  Any sequence of requests to a new factory: two of them get the same font exactly when their keys are equal, and there are as many fonts as different keys.
\<close>

theorem flyweight_shares:
  assumes "get_fonts keys empty_factory = (is, f)" and "j < length keys" and "k < length keys"
  shows "(is ! j = is ! k \<longleftrightarrow> keys ! j = keys ! k) \<and> length (fonts f) = card (set keys)"
proof -
  have "pool_inv empty_factory" by (simp add: pool_inv_def empty_factory_def)
  note F = get_fonts_inv [OF this assms(1)]
  have inj: "a = b" if "a < length (fonts f)" "b < length (fonts f)" "fonts f ! a = fonts f ! b" for a b
  proof -
    have P: "\<And>key i. font_pool f key = Some i \<longleftrightarrow> i < length (fonts f) \<and> fonts f ! i = key" using conjunct1 [OF F] unfolding pool_inv_def by blast
    have "font_pool f (fonts f ! a) = Some a" "font_pool f (fonts f ! b) = Some b" using P that(1,2) by blast+
    then show ?thesis unfolding that(3) by simp
  qed
  then have "distinct (fonts f)" by (auto simp: distinct_conv_nth)
  then have "length (fonts f) = card (set (fonts f))" by (simp add: distinct_card)
  moreover have "set (fonts f) = set keys" using F by (simp add: empty_factory_def)
  ultimately have c: "length (fonts f) = card (set keys)" by simp
  have j: "is ! j < length (fonts f)" "fonts f ! (is ! j) = keys ! j" using F assms(2) by blast+
  have k: "is ! k < length (fonts f)" "fonts f ! (is ! k) = keys ! k" using F assms(3) by blast+
  have "is ! j = is ! k \<longleftrightarrow> keys ! j = keys ! k"
  proof
    assume "keys ! j = keys ! k"
    then show "is ! j = is ! k" by (intro inj [OF j(1) k(1)]) (simp add: j(2) k(2))
  next
    assume e: "is ! j = is ! k"
    show "keys ! j = keys ! k" unfolding j(2) [symmetric] k(2) [symmetric] e ..
  qed
  with c show ?thesis by blast
qed

theorem flyweight_shares_witness:
  "fst (get_fonts [''a'', ''b'', ''a''] empty_factory) ! 2 = 0 \<and> length (fonts (snd (get_fonts [''a'', ''b'', ''a''] empty_factory))) = 2"
proof -
  obtain "is" f where g: "get_fonts [''a'', ''b'', ''a''] empty_factory = (is, f)" "is ! 0 = 0"
    by (simp add: GetFont_def empty_factory_def)
  have l: "0 < length [''a'', ''b'', ''a'']" "2 < length [''a'', ''b'', ''a'']" by simp_all
  have "set [''a'', ''b'', ''a''] = {''a'', ''b''}" by auto
  then have "card (set [''a'', ''b'', ''a'']) = 2" by simp
  with flyweight_shares [OF g(1) l] g(2) show ?thesis unfolding g(1) by simp
qed

section \<open>Strategy\<close>

text \<open>
  \<^verbatim>\<open>strategy/release\<close>: every tax class registers its creator under a name before \<open>main\<close>. \<open>CreateTax\<close> returns a null pointer, \<open>None\<close>, for an
  unknown name, which the constructor of \<open>SalesOrder\<close> asserts not to get.
\<close>

datatype tax = CNTax | USTax | DETax

type_synonym creator_map = "string \<Rightarrow> tax option"

definition Register :: "string \<Rightarrow> tax \<Rightarrow> creator_map \<Rightarrow> creator_map" where
  "Register name creator m = m(name \<mapsto> creator)"

definition CreateTax :: "creator_map \<Rightarrow> string \<Rightarrow> tax option" where
  "CreateTax m name = m name"

definition registered :: creator_map where
  "registered = Register ''US'' USTax (Register ''DE'' DETax (Register ''CN'' CNTax Map.empty))"

fun Calculate :: "tax \<Rightarrow> string" where
  "Calculate CNTax = ''Calculate CN Tax''" | "Calculate USTax = ''Calculate US Tax''" | "Calculate DETax = ''Calculate DE Tax''"

text \<open>The lines of a \<open>SalesOrder\<close> that is constructed, used and deleted, and whether the assertion holds.\<close>

definition sales_order :: "string \<Rightarrow> string list \<times> bool" where
  "sales_order name = (case CreateTax registered name of
     None \<Rightarrow> ([''SalesOrder Construction''], False)
   | Some strategy \<Rightarrow> ([''SalesOrder Construction'', Calculate strategy, ''SalesOrder Deconstruction''], True))"

text \<open>\<^verbatim>\<open>strategy/alpha\<close>: a switch over an enumeration, of which any number may have been cast.\<close>

definition alpha_CalculateTax :: "nat \<Rightarrow> string list" where
  "alpha_CalculateTax tax = (if tax = 0 then [''Calculate CN Tax''] else if tax = 1 then [''Calculate US Tax'']
     else if tax = 2 then [''Calculate DE Tax''] else [])"

lemma sales_order_known: "snd (sales_order name) \<longleftrightarrow> name \<in> {''CN'', ''US'', ''DE''}"
  by (auto simp: sales_order_def CreateTax_def registered_def Register_def)

section \<open>Memento, visitor, template method, builder\<close>

definition CreateMemento :: "string \<Rightarrow> string" where "CreateMemento state = state"
definition SetMemento :: "string \<Rightarrow> string \<Rightarrow> string" where "SetMemento m state = m"

lemma memento_restores: "SetMemento (CreateMemento state) changed = state"
  by (simp add: SetMemento_def CreateMemento_def)

datatype element = Element1 | Element2
datatype visitor = Visitor1 | Visitor2

definition visitor_name :: "visitor \<Rightarrow> string" where
  "visitor_name v = (case v of Visitor1 \<Rightarrow> ''Visitor1'' | Visitor2 \<Rightarrow> ''Visitor2'')"

definition VisitElement1 :: "visitor \<Rightarrow> string" where "VisitElement1 v = visitor_name v @ ''::VisitElement1''"
definition VisitElement2 :: "visitor \<Rightarrow> string" where "VisitElement2 v = visitor_name v @ ''::VisitElement2''"

fun Accept :: "element \<Rightarrow> visitor \<Rightarrow> string" where
  "Accept Element1 v = VisitElement1 v" | "Accept Element2 v = VisitElement2 v"

lemma Accept_inj: "Accept e v = Accept e' v' \<longleftrightarrow> e = e' \<and> v = v'"
  by (cases e; cases e'; cases v; cases v') (simp_all add: VisitElement1_def VisitElement2_def visitor_name_def)

text \<open>\<open>Library::Run\<close> with the two steps that the application provides, each with its result and its lines.\<close>

definition library_Run :: "bool \<times> string list \<Rightarrow> bool \<times> string list \<Rightarrow> string list" where
  "library_Run step2 step4 = [''Library Step1''] @ snd step2 @ (if fst step2 then [''Library Step3''] else []) @
     concat (map (\<lambda>_. snd step4) [0..<4]) @ [''Library Step5'']"

definition application_main :: "string list" where
  "application_main = [''Library Construction'', ''Application Construction''] @
     library_Run (True, [''Application Step2'']) (True, [''Application Step4'']) @ [''Application Deconstruction'', ''Library Deconstruction'']"

text \<open>\<open>HouseDirector::Construct\<close> with the parts of a builder, and those of \<open>StoneHouseBuilder\<close>.\<close>

definition Construct :: "(nat \<Rightarrow> bool \<times> string) \<Rightarrow> string list" where
  "Construct part = [snd (part 1)] @ map (\<lambda>_. snd (part 2)) [0..<4] @ [snd (part 3)] @ (if fst (part 3) then [snd (part 4)] else []) @ [snd (part 5)]"

definition stone_part :: "nat \<Rightarrow> bool \<times> string" where
  "stone_part k = (True, ''StoneHouse::BuildPart'' @ show_int (int k))"

lemma template_order:
  "filter (\<lambda>l. l \<in> {''Library Step1'', ''Library Step3'', ''Library Step5''}) (library_Run (b, []) (c, [])) =
     (if b then [''Library Step1'', ''Library Step3'', ''Library Step5''] else [''Library Step1'', ''Library Step5''])"
  by (simp add: library_Run_def eval_nat_numeral)

lemma stone_house_parts: "length (Construct part) = (if fst (part 3) then 8 else 7)"
  by (simp add: Construct_def)

end
