(* ===== verification/Spec2Isabelle.thy ===== *)
theory Spec2Isabelle
  imports Sem_Prodcons Sem_Prodcons3 Sem_Prodcons4 Cond_Prodcons Multi_Buffer Shared_Counters Log_Server Thread_Demos Echo_Servers File_Transfer Op_Calculator Stream_Clients Datagrams Pipe_Fifo Ipc_Tools Timer_Heap_Correct Loser_Tree Mutex_Prodcons Msg_Queues Syscall_Demos Chat_Room Mq_Thread Rt_Signals Rwlock_Cancel File_Maps Singleton Expr_Interpreter Design_Patterns
begin

text \<open>
  A verification of the programs of the repository: the inter-process communication programs under
  \<^verbatim>\<open>src/ipc/src\<close>, the socket programs under \<^verbatim>\<open>src/tcp-ip/socket/src\<close>, and the data structures
  under \<^verbatim>\<open>src/ds\<close>, and some of the design pattern examples under \<^verbatim>\<open>src/dp\<close>.

  \<^bold>\<open>The programs and how they interact.\<close> Each \<^verbatim>\<open>.c\<close> file is a program of its own. They meet through
  the kernel: a client and a server exchange bytes over a socket, a pipe, a FIFO or a message queue;
  producers and consumers are threads of one process that share a buffer under semaphores or a mutex; the
  tools create, change and read the same kernel objects. The timer heap and the loser tree are C++ classes, as are the
  design pattern examples, which stand for themselves.

  \<^bold>\<open>Two ways of modelling.\<close>

  \<^item> A sequential program is a function on a world (theory \<open>Posix_Prog\<close>): the answers that the kernel is
    going to give, in order, and the trace of what the program did. Every system call takes one answer, which may
    be a failure, a short read or any data; a theorem for all lists of answers holds for every behaviour of the
    kernel. The result is \<open>Exit\<close> with a status, \<open>Blocked\<close> in a call when no answer is left, \<open>Undefined\<close> for an
    access outside an array, an unterminated string or another undefined behaviour of C, or \<open>Spinning\<close> for a
    loop that makes no call. A loop consumes an answer in each iteration, so that recursion on the number of
    answers is enough and no other fuel is needed. The standard output is line buffered, so
    that text appears when it is printed. A fork returns in the process that the answer names, so that one run follows
    the parent or one child.
  \<^item> A program with threads is a step function (theory \<open>Transition\<close>): \<open>step t s\<close> is the state after the next
    statement of thread \<open>t\<close>, or \<open>None\<close> when \<open>t\<close> is blocked or has ended. A schedule is a list of threads, and a
    failing call is an action of its own. The locales \<open>invariant_system\<close>, \<open>terminating_system\<close>,
    \<open>completing_system\<close>, \<open>funded_system\<close> (some actions of the environment give back a bounded part of the rank) and
    \<open>refinement_system\<close> say what invariants, ranks, progress and simulation give for all
    schedules; each program interprets them. \<open>Posix_Sync\<close> has semaphores and mutexes with their contracts
    \<open>counting_semaphore\<close> and \<open>exclusive_lock\<close>.

  \<open>Prelude\<close> has C's integers and strings, number printing and parsing, arrays, and sums over threads.

  \<^bold>\<open>Theories and what they show.\<close>

  \<^item> \<open>Bounded_Fifo\<close>, \<open>Sem_Prodcons\<close> (\<^verbatim>\<open>pxsem/sem_prodcons1.c\<close>, \<^verbatim>\<open>sem_prodcons2.c\<close>): \<open>main1\<close>, \<open>main2\<close>, \<open>producer\<close>,
    \<open>consumer\<close> over the record \<open>shared\<close>. No wrong item under any schedule and failure pattern; termination
    within an explicit number of steps; no deadlock; the buffer refines a bounded queue. \<open>Sem_Prodcons3\<close>
    (\<^verbatim>\<open>sem_prodcons3.c\<close>): the same for several producers, with the counts they print, and the hang without producers.
    \<open>Sem_Prodcons4\<close> (\<^verbatim>\<open>sem_prodcons4.c\<close>): several producers and consumers; the extra units that are posted at the end
    let every consumer return. \<open>Multi_Buffer\<close> (\<^verbatim>\<open>sem_multibuffer.c\<close>): the chunks that the program asks to write are
    those read, in order; its \<^verbatim>\<open>write\<close> is not checked, so that the copy is complete when all writes are whole.
  \<^item> \<open>Mutex_Prodcons\<close> (\<^verbatim>\<open>mutex/mutex_prodcons1.c\<close>, \<^verbatim>\<open>mutex_prodcons2.c\<close>): termination and outcome of the first, and
    for the second, whose consumer polls, that every state can still be completed; undefined behaviour only when a thread was
    not created. \<open>Cond_Prodcons\<close>
    (\<^verbatim>\<open>mutex_prodcons3.c\<close>): with a condition variable no wakeup is lost, spurious wakeups included.
  \<^item> \<open>Shared_Counters\<close> (\<^verbatim>\<open>lock/lockfcntl.c\<close>, \<^verbatim>\<open>locknone.c\<close>, \<^verbatim>\<open>shm/incr*.c\<close>, \<^verbatim>\<open>pxshm/server1.c\<close>, \<^verbatim>\<open>client1.c\<close>): one step function
    over a description of the lock and of the counter, whose contract is the locale \<open>counter_cell\<close>; the numbers printed
    are consecutive under a real lock and are not under a semaphore that \<open>fork\<close> copies. \<open>Log_Server\<close> (\<^verbatim>\<open>pxshm/server2.c\<close>,
    \<^verbatim>\<open>client2.c\<close>): every message is printed or counted as an overflow; the contents are right with one client and
    can be lost with two. \<open>Thread_Demos\<close> (\<^verbatim>\<open>thread1.c\<close> to \<^verbatim>\<open>thread4.c\<close>, \<^verbatim>\<open>mutex.c\<close>, \<^verbatim>\<open>semaphore.c\<close>).
  \<^item> \<open>Net_Addr\<close>, \<open>Socket_Setup\<close>: byte order, dotted addresses, what the socket programs share.
    \<open>Echo_Servers\<close>: the eight echo servers, which ask to write to every peer exactly what it sent, for every behaviour of
    the kernel; no write is checked, so that the kernel takes all of it when no write is short. \<open>File_Transfer\<close>, \<open>Op_Calculator\<close>: the file arrives; the calculator protocol round trip, however
    the request is cut into pieces. \<open>Stream_Clients\<close>, \<open>Datagrams\<close>: the other stream and datagram programs and
    their buffer overruns. \<open>Chat_Room\<close> (\<^verbatim>\<open>mthread_server.c\<close>, \<^verbatim>\<open>mthread_client.c\<close>): broadcasting to all members, and
    what the removal of a member does to the table. \<open>Syscall_Demos\<close>: the small programs on files, options, processes
    and signals.
  \<^item> \<open>Pipe_Fifo\<close>, \<open>Msg_Queues\<close>: the file servers over pipes, FIFOs and System V queues: the request of the client
    makes the server send the file. \<open>Ipc_Tools\<close>: the command line tools, with \<open>getopt\<close>; what one tool writes
    another one reads, as long as the \<^verbatim>\<open>int\<close> that indexes the memory does not overflow.
  \<^item> \<open>Clock\<close>, \<open>Timer_Heap\<close>, \<open>Timer_Heap_Correct\<close> (\<^verbatim>\<open>ds/timer-heap\<close>): the heap over shared timer objects, with \<open>heap_index_\<close>
    kept in the objects, refines a set of timers: expired timers come out in the order of their deadlines,
    cancelling removes exactly one. Time stamps are 64-bit words, and a span below \<open>2 ^ 63\<close> is exact; \<^verbatim>\<open>AddTimespan\<close> and \<^verbatim>\<open>ToTimeval\<close>
    do not return a value, which is undefined on every call. \<open>Loser_Tree\<close> (\<^verbatim>\<open>ds/loser-tree\<close>): the
    merge sorts, for values strictly between the sentinels.

  \<^item> \<open>Mq_Notify\<close> (\<^verbatim>\<open>pxmsg/mqnotifysig1.c\<close> to \<^verbatim>\<open>mqnotifysig5.c\<close>): the loop and the handler of each program interleaved with senders and
    other receivers. The locale \<open>draining_reader\<close> has the argument that the three programs share which drain the queue: registration, pending signal and
    what the handler left are one token. They read every message; the program that receives one message for every notification does not.
    \<open>Mq_Thread\<close> (\<^verbatim>\<open>mqnotifythread.c\<close>): the same with notification threads. \<open>Rt_Signals\<close> (\<^verbatim>\<open>rtsignal.c\<close>): queued signals are delivered once and in order.
    \<open>Rwlock_Cancel\<close> (\<^verbatim>\<open>rwlock/pthread_cancel.c\<close>): the cancelled writer. Where these programs rely on \<open>sleep\<close>, the step function \<open>timed\<close> says
    what the sleeps are for, and \<open>step\<close> leaves it out.
  \<^item> \<open>File_Maps\<close> (\<^verbatim>\<open>shm/test1.c\<close>, \<^verbatim>\<open>pxshm/test1.c\<close>): which accesses to a mapping are good, raise \<^verbatim>\<open>SIGBUS\<close> or leave the mapping (undefined); two processes that map the same object at different addresses.
  \<^item> \<open>Singleton\<close> (\<^verbatim>\<open>dp/singleton\<close>): four versions of \<open>GetInstance\<close> under any interleaving; with a lock and with double-checked locking there is
    one object if the stores are in order, in the final version any number of threads can each create its own. \<open>Expr_Interpreter\<close> (\<^verbatim>\<open>dp/interpreter\<close>): equivalence with a
    sum from left to right. \<open>Design_Patterns\<close>: state (the two versions agree), composite, chain, command, observer, flyweight, strategy, memento, visitor, template method, builder.

  \<^bold>\<open>Bounds.\<close> Array sizes are those of the source. Unlimited are the number of items, of
  producers up to the source's limits, of answers and of the steps of a schedule. \<open>int\<close> values wrap or are checked where the
  source computes with input; counters that stay below the source's limits are unbounded integers.

  \<^bold>\<open>Parameters.\<close> Uninitialised memory is a function \<open>g\<close> or an initial value; \<open>strerror\<close> and the resolver are functions;
  \<open>gettimeofday\<close> is an argument. \<^verbatim>\<open>inet_ntoa\<close>, \<^verbatim>\<open>inet_aton\<close> and \<^verbatim>\<open>inet_addr\<close> of the C library are written out in \<open>Net_Addr\<close>.

  \<^bold>\<open>Not modelled.\<close> In the sequential programs signals arrive only where a program sleeps, and handlers are otherwise programs of
  their own. Weak memory is modelled only as the early store of a pointer in \<open>Singleton\<close>. The floating point arithmetic of the progress bar is a parameter.
  \<^verbatim>\<open>news_receiver_brd.c\<close> does not compile. The other design pattern examples (abstract factory, adapter, bridge, decorator, factory method, iterator,
  prototype, and the first versions of most) are class hierarchies whose methods print a line or are empty; the CMake examples are build files.
\<close>

end
